(* ===== verification/Prelude.thy ===== *)
theory Prelude
  imports Main "HOL-Library.Word"
begin

unbundle bit_operations_syntax

text \<open>
  What the components share: the C types of the sources as words, NULL-able pointers as
  options, the result codes the C functions return, named collections for the facts that the
  component proofs rewrite with, and generic lemmas on lists and indices.
\<close>

section \<open>Types of the C sources\<close>

type_synonym uint8_t = "8 word"
type_synonym uint16_t = "16 word"
type_synonym uint32_t = "32 word"
type_synonym uint64_t = "64 word"

text \<open>A pointer that may be NULL: \<open>None\<close> is NULL.\<close>

type_synonym 'a ptr = "'a option"

text \<open>The largest \<open>int\<close>.\<close>

definition INT_MAX :: int where
  "INT_MAX = 2 ^ 31 - 1"

section \<open>Collections\<close>

named_theorems byte_simps \<open>how the byte-array operations act on single bits\<close>

section \<open>Lists and indices\<close>

lemma mod_Suc_wrap: "i < n \<Longrightarrow> (if Suc i = n then 0 else Suc i) = Suc i mod n"
  by simp

lemma add_mod_inj:
  fixes h i j n :: nat
  assumes "i < n" "j < n" "(h + i) mod n = (h + j) mod n"
  shows "i = j"
proof -
  have "(int h + int i) mod int n = (int h + int j) mod int n"
    using assms(3) by (metis of_nat_add of_nat_mod)
  then have "int n dvd (int h + int i) - (int h + int j)"
    by (rule mod_eq_dvd_iff [THEN iffD1])
  then have "int n dvd int i - int j" by simp
  moreover have "\<bar>int i - int j\<bar> < int n" using assms(1,2) by linarith
  ultimately show ?thesis using zdvd_imp_le [of "int n" "\<bar>int i - int j\<bar>"] by fastforce
qed

lemma distinct_subset_length:
  assumes "distinct xs" "set xs \<subseteq> {0..<n}"
  shows "length xs \<le> n"
  using assms by (metis card_atLeastLessThan card_mono diff_zero distinct_card finite_atLeastLessThan)

lemma distinct_subset_length_less:
  assumes "distinct xs" "set xs \<subseteq> {0..<n}" "x < n" "x \<notin> set xs"
  shows "length xs < n"
  using distinct_subset_length [of "x # xs" n] assms by simp

text \<open>Taking the low byte of a word commutes with addition and subtraction.\<close>

lemma mod_64_8: "a mod 2 ^ 64 mod 2 ^ 8 = a mod (2 ^ 8 :: int)"
  by (rule mod_mod_cancel) (simp add: le_imp_power_dvd)

lemma ucast8_add: "(ucast (d + e) :: uint8_t) = ucast d + ucast (e :: uint64_t)"
  using mod_64_8 by transfer (simp add: take_bit_eq_mod, metis mod_add_eq)

lemma ucast8_diff: "(ucast (d - e) :: uint8_t) = ucast d - ucast (e :: uint64_t)"
  using mod_64_8 by transfer (simp add: take_bit_eq_mod, metis mod_diff_eq)

text \<open>An update of one element of an array does not touch the fields that it keeps.\<close>

lemma nth_update_field: "f y = f (xs ! i) \<Longrightarrow> f (xs[i := y] ! j) = f (xs ! j)"
  by (cases "i < length xs"; cases "j = i") (auto simp: list_update_beyond)

text \<open>A list without one of its elements.\<close>

definition remove_nth :: "nat \<Rightarrow> 'a list \<Rightarrow> 'a list" where
  "remove_nth k xs = take k xs @ drop (Suc k) xs"

lemma length_remove_nth [simp]: "k < length xs \<Longrightarrow> length (remove_nth k xs) = length xs - 1"
  by (simp add: remove_nth_def)

lemma nth_remove_nth: "k < length xs \<Longrightarrow> j < length xs - 1 \<Longrightarrow> remove_nth k xs ! j = xs ! (if j < k then j else Suc j)"
  by (auto simp: remove_nth_def nth_append min_def)

lemma distinct_remove_nth: "distinct xs \<Longrightarrow> distinct (remove_nth k xs)"
  by (simp add: remove_nth_def set_take_disj_set_drop_if_distinct)

lemma set_remove_nth: "distinct xs \<Longrightarrow> k < length xs \<Longrightarrow> set (remove_nth k xs) = set xs - {xs ! k}"
proof -
  assume d: "distinct xs" and k: "k < length xs"
  have "xs = take k xs @ xs ! k # drop (Suc k) xs" using k by (simp add: id_take_nth_drop)
  then show ?thesis using d by (metis Diff_insert_absorb Un_insert_right distinct.simps(2) distinct_append
    list.simps(15) not_distinct_conv_prefix remove_nth_def set_append Un_iff disjoint_insert(1) inf_commute)
qed

text \<open>Reading and writing an array at an \<open>int\<close> index; \<open>None\<close> is an access outside it.\<close>

definition rd :: "'a list \<Rightarrow> int \<Rightarrow> 'a option" where
  "rd xs i = (if 0 \<le> i \<and> i < int (length xs) then Some (xs ! nat i) else None)"

definition wr :: "'a list \<Rightarrow> int \<Rightarrow> 'a \<Rightarrow> 'a list option" where
  "wr xs i v = (if 0 \<le> i \<and> i < int (length xs) then Some (xs[nat i := v]) else None)"

section \<open>Bytes and the numbers they denote\<close>

lemma sint_byte: "-128 \<le> i \<Longrightarrow> i \<le> 127 \<Longrightarrow> sint (word_of_int i :: uint8_t) = i"
  by (simp add: sint_sbintrunc' signed_take_bit_int_eq_self)

lemma sint_byte_range: "-128 \<le> sint (b :: uint8_t) \<and> sint b \<le> 127"
  using sint_range_size [of b] by (simp add: word_size)

text \<open>The number that bytes denote in network (big-endian) order, and a number as \<open>k\<close> bytes.\<close>

definition be_nat :: "uint8_t list \<Rightarrow> nat" where
  "be_nat bs = foldl (\<lambda>n b. 256 * n + unat b) 0 bs"

fun be_bytes :: "nat \<Rightarrow> nat \<Rightarrow> uint8_t list" where
  "be_bytes 0 v = []"
| "be_bytes (Suc k) v = be_bytes k (v div 256) @ [word_of_nat v]"

lemma length_be_bytes [simp]: "length (be_bytes k v) = k"
  by (induction k arbitrary: v) simp_all

lemma be_nat_Nil [simp]: "be_nat [] = 0"
  by (simp add: be_nat_def)

lemma be_nat_snoc [simp]: "be_nat (bs @ [b]) = 256 * be_nat bs + unat b"
  by (simp add: be_nat_def)

lemma unat8_less [simp]: "unat (b :: uint8_t) < 256"
  using unsigned_less [of b] by simp

lemma be_nat_append: "be_nat (xs @ ys) = be_nat xs * 256 ^ length ys + be_nat ys"
proof (induction ys rule: rev_induct)
  case (snoc y ys)
  then show ?case by (simp flip: append_assoc)
qed simp

lemma be_nat_less: "be_nat bs < 256 ^ length bs"
proof (induction bs rule: rev_induct)
  case (snoc b bs)
  then have *: "256 * be_nat bs + 256 \<le> 256 * 256 ^ length bs" by simp
  have "be_nat (bs @ [b]) < 256 * be_nat bs + 256" by simp
  also note *
  finally show ?case by simp
qed simp

lemma be_nat_be_bytes [simp]: "be_nat (be_bytes k v) = v mod 256 ^ k"
proof (induction k arbitrary: v)
  case (Suc k)
  then show ?case by (simp add: unsigned_of_nat take_bit_eq_mod mod_mult2_eq)
qed simp

lemma be_bytes_be_nat [simp]: "be_bytes (length bs) (be_nat bs) = bs"
proof (induction bs rule: rev_induct)
  case (snoc b bs)
  have "(word_of_nat (256 * be_nat bs) :: uint8_t) = 0"
    using word_of_nat_eq_0_iff [of "256 * be_nat bs", where ?'a = 8] by simp
  moreover have "(unat b + 256 * be_nat bs) div 256 = be_nat bs" by simp
  ultimately show ?case using snoc by (simp add: add.commute)
qed simp

lemma be_nat_inject: "length xs = length ys \<Longrightarrow> be_nat xs = be_nat ys \<longleftrightarrow> xs = ys"
  by (metis be_bytes_be_nat)

lemma bit_be_snoc: "bit (256 * m + unat (b::uint8_t)) n = (if n < 8 then bit b n else bit m (n - 8))"
proof -
  have p: "bit (256 * m) n = (8 \<le> n \<and> bit m (n - 8))" for n
    using bit_push_bit_iff [of 8 m n] by (simp add: push_bit_eq_mult mult.commute)
  have u: "bit (unat b) n = bit b n" for n by (simp add: bit_unsigned_iff bit_imp_possible_bit)
  have l: "\<not> bit b n" if "8 \<le> n" for n using that bit_imp_le_length [of b n] by auto
  have "256 * m + unat b = 256 * m OR unat b"
    by (rule disjunctive_add_eq_or) (auto simp: p u l intro!: bit_eqI simp: bit_and_iff)
  then show ?thesis by (auto simp: bit_or_iff p u l)
qed
text \<open>Bit \<open>n\<close> of the number is bit \<open>n mod 8\<close> of byte \<open>n div 8\<close> from the end.\<close>

lemma bit_be_nat: "bit (be_nat bs) n = (n < 8 * length bs \<and> bit (bs ! (length bs - 1 - n div 8)) (n mod 8))"
proof (induction bs arbitrary: n rule: rev_induct)
  case (snoc b bs)
  show ?case
  proof (cases "n < 8")
    case False
    then obtain k where k: "n = k + 8" using le_Suc_ex not_less by (metis add.commute)
    moreover have "(k + 8) div 8 = Suc (k div 8)" by simp
    ultimately show ?thesis using False snoc [of k]
      by (auto simp: bit_be_snoc nth_append)
  qed (simp add: bit_be_snoc nth_append)
qed simp

end
