(* ===== verification/Threadpool_Queue.thy ===== *)
theory Threadpool_Queue
  imports Prelude
begin

text \<open>
  The ring buffer of \<open>c-study/cthreadpool/threadpool.c\<close>: \<open>struct threadpool_queue\<close>
  and its operations, the interface the thread pool relies on (the locale \<open>bounded_fifo\<close>)
  and the proof that the ring buffer provides it.
\<close>

section \<open>The ring buffer\<close>

definition THREAD_POOL_QUEUE_SIZE :: nat where
  "THREAD_POOL_QUEUE_SIZE = 10000"

record 'a threadpool_queue =
  q_head :: nat
  q_tail :: nat
  num_of_cells :: nat
  cells :: "'a ptr list"

text \<open>
  \<open>head\<close>, \<open>tail\<close> and \<open>num_of_cells\<close> are \<open>unsigned int\<close>; the invariant below keeps
  them at most \<^const>\<open>THREAD_POOL_QUEUE_SIZE\<close>, so that no operation wraps around.
\<close>

definition threadpool_queue_init :: "'a threadpool_queue" where
  "threadpool_queue_init =
     \<lparr>q_head = 0, q_tail = 0, num_of_cells = 0, cells = replicate THREAD_POOL_QUEUE_SIZE None\<rparr>"

definition threadpool_queue_enqueue ::
  "'a threadpool_queue \<Rightarrow> 'a ptr \<Rightarrow> int \<times> 'a threadpool_queue" where
  "threadpool_queue_enqueue q data =
     (if num_of_cells q = THREAD_POOL_QUEUE_SIZE then (-1, q)
      else if cells q ! q_tail q \<noteq> None then (-1, q)
      else
        let q1 = q\<lparr>cells := (cells q)[q_tail q := data]\<rparr>;
            q2 = q1\<lparr>num_of_cells := num_of_cells q1 + 1, q_tail := q_tail q1 + 1\<rparr>;
            q3 = (if q_tail q2 = THREAD_POOL_QUEUE_SIZE then q2\<lparr>q_tail := 0\<rparr> else q2)
        in (0, q3))"

definition threadpool_queue_dequeue ::
  "'a threadpool_queue \<Rightarrow> 'a ptr \<times> 'a threadpool_queue" where
  "threadpool_queue_dequeue q =
     (if num_of_cells q = 0 then (None, q)
      else
        let data = cells q ! q_head q;
            q1 = q\<lparr>cells := (cells q)[q_head q := None], num_of_cells := num_of_cells q - 1\<rparr>;
            q2 = (if num_of_cells q1 = 0 then q1\<lparr>q_head := 0, q_tail := 0\<rparr>
                  else
                    let q3 = q1\<lparr>q_head := q_head q1 + 1\<rparr>
                    in if q_head q3 = THREAD_POOL_QUEUE_SIZE then q3\<lparr>q_head := 0\<rparr> else q3)
        in (data, q2))"

definition threadpool_queue_is_empty :: "'a threadpool_queue \<Rightarrow> int" where
  "threadpool_queue_is_empty q = (if num_of_cells q = 0 then 1 else 0)"

definition threadpool_queue_getsize :: "'a threadpool_queue \<Rightarrow> int" where
  "threadpool_queue_getsize q = int (num_of_cells q)"

section \<open>Contents and invariant\<close>

definition slot :: "'a threadpool_queue \<Rightarrow> nat \<Rightarrow> nat" where
  "slot q i = (q_head q + i) mod THREAD_POOL_QUEUE_SIZE"

definition queue_contents :: "'a threadpool_queue \<Rightarrow> 'a list" where
  "queue_contents q = map (\<lambda>i. the (cells q ! slot q i)) [0..<num_of_cells q]"

text \<open>
  The window of \<open>num_of_cells\<close> cells from \<open>head\<close> holds the data, every cell outside it is
  NULL, and \<open>tail\<close> is where the window ends.
\<close>

definition queue_inv :: "'a threadpool_queue \<Rightarrow> bool" where
  "queue_inv q \<longleftrightarrow>
     length (cells q) = THREAD_POOL_QUEUE_SIZE \<and>
     q_head q < THREAD_POOL_QUEUE_SIZE \<and>
     num_of_cells q \<le> THREAD_POOL_QUEUE_SIZE \<and>
     q_tail q = slot q (num_of_cells q) \<and>
     (\<forall>i < THREAD_POOL_QUEUE_SIZE. (cells q ! slot q i \<noteq> None) = (i < num_of_cells q))"


lemma queue_size_pos [simp]: "0 < THREAD_POOL_QUEUE_SIZE"
  by (simp add: THREAD_POOL_QUEUE_SIZE_def)

lemma queue_size_nonzero [simp]: "THREAD_POOL_QUEUE_SIZE \<noteq> 0"
  by (simp add: THREAD_POOL_QUEUE_SIZE_def)

lemma slot_less [simp]: "slot q i < THREAD_POOL_QUEUE_SIZE"
  by (simp add: slot_def)

lemma slot_inj:
  "i < THREAD_POOL_QUEUE_SIZE \<Longrightarrow> j < THREAD_POOL_QUEUE_SIZE \<Longrightarrow> slot q i = slot q j \<Longrightarrow> i = j"
  unfolding slot_def by (rule add_mod_inj)

lemma slot_0: "q_head q < THREAD_POOL_QUEUE_SIZE \<Longrightarrow> slot q 0 = q_head q"
  by (simp add: slot_def)

lemma length_queue_contents [simp]: "length (queue_contents q) = num_of_cells q"
  by (simp add: queue_contents_def)

lemma queue_invD:
  assumes "queue_inv q"
  shows "length (cells q) = THREAD_POOL_QUEUE_SIZE" "q_head q < THREAD_POOL_QUEUE_SIZE"
    "num_of_cells q \<le> THREAD_POOL_QUEUE_SIZE" "q_tail q = slot q (num_of_cells q)"
    "i < THREAD_POOL_QUEUE_SIZE \<Longrightarrow> (cells q ! slot q i \<noteq> None) = (i < num_of_cells q)"
  using assms unfolding queue_inv_def by blast+

lemma enqueue_not_full:
  assumes inv: "queue_inv q" and room: "num_of_cells q < THREAD_POOL_QUEUE_SIZE"
  shows "threadpool_queue_enqueue q d =
    (0, \<lparr>q_head = q_head q, q_tail = slot q (Suc (num_of_cells q)),
         num_of_cells = Suc (num_of_cells q), cells = (cells q)[q_tail q := d],
         \<dots> = threadpool_queue.more q\<rparr>)"
proof -
  have tail: "q_tail q = slot q (num_of_cells q)" using inv by (rule queue_invD(4))
  have free: "cells q ! q_tail q = None"
    using queue_invD(5) [OF inv room] tail by auto
  have "(if Suc (q_tail q) = THREAD_POOL_QUEUE_SIZE then 0 else Suc (q_tail q))
      = slot q (Suc (num_of_cells q))"
    using mod_Suc_wrap [of "q_tail q" THREAD_POOL_QUEUE_SIZE]
    by (simp add: tail slot_def mod_Suc_eq)
  with room free show ?thesis
    by (auto simp: threadpool_queue_enqueue_def Let_def)
qed

lemma enqueue_inv_contents:
  assumes inv: "queue_inv q" and room: "num_of_cells q < THREAD_POOL_QUEUE_SIZE"
    and enq: "threadpool_queue_enqueue q (Some x) = (r, q')"
  shows "r = 0" "queue_inv q'" "queue_contents q' = queue_contents q @ [x]"
proof -
  let ?N = THREAD_POOL_QUEUE_SIZE
  note D = queue_invD [OF inv]
  have q': "q' = \<lparr>q_head = q_head q, q_tail = slot q (Suc (num_of_cells q)),
         num_of_cells = Suc (num_of_cells q), cells = (cells q)[q_tail q := Some x],
         \<dots> = threadpool_queue.more q\<rparr>" and r: "r = 0"
    using enq enqueue_not_full [OF inv room] by auto
  show "r = 0" by (fact r)
  have slot': "slot q' i = slot q i" for i by (simp add: q' slot_def)
  have cell: "cells q' ! slot q i = (if i = num_of_cells q then Some x else cells q ! slot q i)"
    if "i < ?N" for i
    using that room slot_inj [of i "num_of_cells q" q] D(1,4)
    by (auto simp: q' nth_list_update)
  show "queue_inv q'"
    unfolding queue_inv_def slot'
    using D cell room by (auto simp: q' less_Suc_eq)
  show "queue_contents q' = queue_contents q @ [x]"
    unfolding queue_contents_def slot' using cell room
    by (auto simp: q')
qed

text \<open>
  A dequeue from a queue of one element resets both indices to 0; from a longer queue it
  moves \<open>head\<close> to the next slot.
\<close>

lemma dequeue_one:
  assumes inv: "queue_inv q" and one: "num_of_cells q = 1"
    and deq: "threadpool_queue_dequeue q = (d, q')"
  shows "queue_inv q' \<and> queue_contents q' = []"
proof -
  let ?N = THREAD_POOL_QUEUE_SIZE
  note D = queue_invD [OF inv]
  have q': "q' = q\<lparr>cells := (cells q)[q_head q := None], num_of_cells := 0, q_head := 0, q_tail := 0\<rparr>"
    using deq one by (auto simp: threadpool_queue_dequeue_def Let_def)
  have "(cells q)[q_head q := None] ! k = None" if k: "k < ?N" for k
  proof -
    define i where "i = (k + ?N - q_head q) mod ?N"
    have i: "i < ?N" "slot q i = k" using k D(2) by (auto simp: i_def slot_def mod_simps)
    have "i = 0 \<Longrightarrow> k = q_head q" using i(2) D(2) by (simp add: slot_0)
    with D(5) [OF i(1)] i(2) one D(1,2) show ?thesis
      by (cases "k = q_head q") auto
  qed
  then show ?thesis using D(1) by (auto simp: queue_inv_def queue_contents_def q' slot_def)
qed

lemma dequeue_many:
  assumes inv: "queue_inv q" and many: "1 < num_of_cells q"
    and deq: "threadpool_queue_dequeue q = (d, q')"
  shows "queue_inv q' \<and> queue_contents q' = tl (queue_contents q)"
proof -
  let ?N = THREAD_POOL_QUEUE_SIZE
  note D = queue_invD [OF inv]
  have q': "q' = q\<lparr>cells := (cells q)[q_head q := None], num_of_cells := num_of_cells q - 1,
      q_head := Suc (q_head q) mod ?N\<rparr>"
    using deq many D(2) by (auto simp: threadpool_queue_dequeue_def Let_def)
  have slot': "slot q' i = slot q (Suc i)" for i
    by (simp add: q' slot_def mod_simps)
  have cell: "cells q' ! slot q (Suc i) = cells q ! slot q (Suc i)" if "Suc i < ?N" for i
    using that slot_inj [of "Suc i" 0 q] D(1,2) by (auto simp: q' nth_list_update slot_0)
  have wrap: "cells q' ! slot q ?N = None"
    using D(1,2) by (simp add: slot_def q')
  have num': "num_of_cells q' = num_of_cells q - 1" by (simp add: q')
  have "(cells q' ! slot q' i \<noteq> None) = (i < num_of_cells q')" if i: "i < ?N" for i
  proof (cases "Suc i < ?N")
    case True
    then show ?thesis using cell [OF True] D(5) [OF True] many by (simp add: slot' num' less_diff_conv)
  next
    case False
    then have "Suc i = ?N" using i by simp
    with wrap D(3) many show ?thesis by (auto simp: slot' num')
  qed
  moreover have "q_tail q' = slot q' (num_of_cells q')"
    using many D(4) by (simp add: slot' num') (simp add: q')
  ultimately have "queue_inv q'" using D(1,3) by (auto simp: queue_inv_def q')
  moreover have "queue_contents q' = tl (queue_contents q)"
    using many cell D(3)
    by (auto simp: queue_contents_def slot' map_tl [symmetric] tl_upt nth_tl intro!: nth_equalityI)
       (auto simp: q')
  ultimately show ?thesis by blast
qed

lemma dequeue_data:
  assumes "queue_inv q" "0 < num_of_cells q" "threadpool_queue_dequeue q = (d, q')"
  shows "d = Some (hd (queue_contents q))"
proof -
  note D = queue_invD [OF assms(1)]
  have "d = cells q ! slot q 0"
    using assms(2,3) D(2) by (auto simp: threadpool_queue_dequeue_def Let_def slot_0)
  moreover have "cells q ! slot q 0 \<noteq> None" using D(5) [of 0] assms(2) by simp
  ultimately show ?thesis using assms(2) by (auto simp: queue_contents_def upt_rec)
qed

section \<open>The interface of a bounded FIFO queue\<close>

text \<open>
  What the thread pool relies on. \<open>enq\<close> and \<open>getsize\<close> return C result codes; \<open>contents\<close>
  is the abstraction function.
\<close>

locale bounded_fifo =
  fixes init :: 'q
    and enq :: "'q \<Rightarrow> 'a ptr \<Rightarrow> int \<times> 'q"
    and deq :: "'q \<Rightarrow> 'a ptr \<times> 'q"
    and is_empty :: "'q \<Rightarrow> int"
    and getsize :: "'q \<Rightarrow> int"
    and contents :: "'q \<Rightarrow> 'a list"
    and invar :: "'q \<Rightarrow> bool"
    and cap :: nat
  assumes invar_init: "invar init"
    and contents_init: "contents init = []"
    and contents_cap: "invar q \<Longrightarrow> length (contents q) \<le> cap"
    and enq_room: "invar q \<Longrightarrow> length (contents q) < cap \<Longrightarrow> enq q (Some x) = (r, q') \<Longrightarrow>
      r = 0 \<and> invar q' \<and> contents q' = contents q @ [x]"
    and enq_full: "invar q \<Longrightarrow> length (contents q) = cap \<Longrightarrow> enq q d = (-1, q)"
    and deq_empty: "invar q \<Longrightarrow> contents q = [] \<Longrightarrow> deq q = (None, q)"
    and deq_cons: "invar q \<Longrightarrow> contents q \<noteq> [] \<Longrightarrow> deq q = (d, q') \<Longrightarrow>
      d = Some (hd (contents q)) \<and> invar q' \<and> contents q' = tl (contents q)"
    and is_empty_iff: "invar q \<Longrightarrow> is_empty q = (if contents q = [] then 1 else 0)"
    and getsize_eq: "invar q \<Longrightarrow> getsize q = int (length (contents q))"
begin

text \<open>The error codes are exact: -1 for a full queue and only then, NULL for an empty one.\<close>

lemma enq_code: "invar q \<Longrightarrow> fst (enq q (Some x)) = (if length (contents q) = cap then -1 else 0)"
  using enq_room [of q x "fst (enq q (Some x))" "snd (enq q (Some x))"]
    enq_full [of q "Some x"] contents_cap [of q]
  by (cases "length (contents q) = cap") simp_all

lemma deq_code: "invar q \<Longrightarrow> (fst (deq q) = None) = (contents q = [])"
  using deq_empty [of q] deq_cons [of q "fst (deq q)" "snd (deq q)"]
  by (cases "contents q = []") simp_all

lemma invar_enq: "invar q \<Longrightarrow> invar (snd (enq q (Some x)))"
  using enq_room [of q x "fst (enq q (Some x))" "snd (enq q (Some x))"]
    enq_full [of q "Some x"] contents_cap [of q]
  by (cases "length (contents q) = cap") simp_all

lemma invar_deq: "invar q \<Longrightarrow> invar (snd (deq q))"
  using deq_empty [of q] deq_cons [of q "fst (deq q)" "snd (deq q)"]
  by (cases "contents q = []") simp_all

end

interpretation tpq: bounded_fifo threadpool_queue_init threadpool_queue_enqueue
  threadpool_queue_dequeue threadpool_queue_is_empty threadpool_queue_getsize
  queue_contents queue_inv THREAD_POOL_QUEUE_SIZE
proof (unfold_locales, goal_cases)
  case 1 show ?case by (auto simp: queue_inv_def threadpool_queue_init_def slot_def)
next
  case 2 show ?case by (simp add: queue_contents_def threadpool_queue_init_def)
next
  case 3 then show ?case by (simp add: queue_invD(3))
next
  case 4 then show ?case using enqueue_inv_contents by (metis length_queue_contents)
next
  case 5 then show ?case by (simp add: threadpool_queue_enqueue_def)
next
  case (6 q) then have "num_of_cells q = 0" by (metis length_queue_contents list.size(3))
  then show ?case by (simp add: threadpool_queue_dequeue_def)
next
  case (7 q d q')
  then have "0 < num_of_cells q" by (metis length_greater_0_conv length_queue_contents)
  then consider "num_of_cells q = 1" | "1 < num_of_cells q" by linarith
  then show ?case
  proof cases
    case 1
    then have "tl (queue_contents q) = []" by (metis One_nat_def length_queue_contents length_tl diff_Suc_1 length_0_conv)
    with 7 1 dequeue_one [of q d q'] dequeue_data [of q d q'] show ?thesis by simp
  next
    case 2
    with 7 dequeue_many [of q d q'] dequeue_data [of q d q'] show ?thesis by simp
  qed
next
  case (8 q) then show ?case
    by (metis length_0_conv length_queue_contents threadpool_queue_is_empty_def)
next
  case 9 then show ?case by (simp add: threadpool_queue_getsize_def)
qed

end
