(* ===== verification/Threadpool.thy ===== *)
theory Threadpool
  imports Threadpool_Queue
begin

text \<open>
  The thread pool of \<open>c-study/cthreadpool/threadpool.c\<close>. Threads interleave at the calls into
  pthreads and at the reads and writes of shared fields: a thread's program counter, with the
  local variables of the C function it is in, is a value of one of the \<open>_pc\<close> types, and one definition per C
  function gives the step of each program counter. A step takes the return code \<open>rc\<close> of the
  pthread call it makes (0 is success) and is \<open>None\<close> while the thread is blocked.
\<close>

section \<open>State\<close>

type_synonym tid = nat

record ('f, 'd) threadpool_task =
  routine_cb :: "'f ptr"
  task_data :: "'d ptr"

text \<open>
  A task pointer \<open>pool->tasks + i\<close> is the index \<open>i\<close>. A mutex is its owner, a condition
  variable the set of threads that sleep on it. Three fields only observe: \<open>submitted\<close> logs the
  tasks that entered the tasks queue, \<open>executed\<close> the calls of the routines, and \<open>freed\<close> says
  that \<open>free(pool)\<close> has run; no step reads them.
\<close>

record ('f, 'd) threadpool =
  tasks_queue :: "nat threadpool_queue"
  free_tasks_queue :: "nat threadpool_queue"
  tasks :: "('f, 'd) threadpool_task list"
  thr_arr :: "tid list"
  num_of_threads :: uint16_t
  stop_flag :: uint16_t
  free_tasks_mutex :: "tid option"
  mutex :: "tid option"
  free_tasks_cond :: "tid set"
  cond :: "tid set"
  submitted :: "('f, 'd) threadpool_task list"
  executed :: "('f, 'd) threadpool_task list"
  freed :: bool

datatype worker_pc =
  \<comment> \<open>\<open>threadpool_task_get_task\<close>\<close>
    Get_Enter | Get_Lock | Get_While | Get_Wait | Get_Waiting | Get_Wait_Fail
  | Get_Stop | Get_Stop_Unlock | Get_Dequeue | Get_Unlock "nat ptr"
  \<comment> \<open>\<open>worker_thr_routine\<close>\<close>
  | Loop_Task "nat ptr" | Release_Init nat | Release_Lock nat | Release_Enqueue nat
  | Release_Size | Release_Fail_Unlock | Release_Unlock | Exited

datatype ('f, 'd) add_pc =
    Add_Lock "'f ptr" "'d ptr" bool | Add_While "'f ptr" "'d ptr" bool
  | Add_Overload_Unlock | Add_Wait "'f ptr" "'d ptr" bool | Add_Waiting "'f ptr" "'d ptr" bool
  | Add_Fail_Unlock | Add_Dequeue "'f ptr" "'d ptr" | Add_Unlock "'f ptr" "'d ptr" nat
  | Add_Fill "'f ptr" "'d ptr" nat | Add_Lock_Tasks nat | Add_Enqueue nat | Add_Size
  | Add_Fail_Unlock_Tasks | Add_Unlock_Tasks | Add_Ret int

datatype stop_pc =
  Stop_Flag | Stop_Lock | Stop_Broadcast | Stop_Unlock | Stop_Join nat | Stop_Free | Stop_Done

definition threadpool_task_init :: "('f, 'd) threadpool_task" where
  "threadpool_task_init = \<lparr>routine_cb = None, task_data = None\<rparr>"

section \<open>The worker threads\<close>

definition threadpool_task_get_task ::
  "tid \<Rightarrow> int \<Rightarrow> ('f, 'd) threadpool \<Rightarrow> worker_pc \<Rightarrow> (('f, 'd) threadpool \<times> worker_pc) option"
where
  "threadpool_task_get_task i rc p c =
     (case c of
        Get_Enter \<Rightarrow>
          Some (p, if stop_flag p \<noteq> 0 then Loop_Task None else Get_Lock)
      | Get_Lock \<Rightarrow>
          (if rc \<noteq> 0 then Some (p, Loop_Task None)
          else if mutex p = None then Some (p\<lparr>mutex := Some i\<rparr>, Get_While) else None)
      | Get_While \<Rightarrow>
          Some (p, if threadpool_queue_is_empty (tasks_queue p) \<noteq> 0 \<and> stop_flag p = 0
                  then Get_Wait else Get_Stop)
      | Get_Wait \<Rightarrow>
          Some (if rc \<noteq> 0 then (p, Get_Wait_Fail)
               else (p\<lparr>mutex := None, cond := insert i (cond p)\<rparr>, Get_Waiting))
      | Get_Waiting \<Rightarrow>
          (if i \<in> cond p \<or> mutex p \<noteq> None then None else Some (p\<lparr>mutex := Some i\<rparr>, Get_While))
      | Get_Wait_Fail \<Rightarrow>
          Some (if rc \<noteq> 0 then p else p\<lparr>mutex := None\<rparr>, Loop_Task None)
      | Get_Stop \<Rightarrow>
          Some (p, if stop_flag p \<noteq> 0 then Get_Stop_Unlock else Get_Dequeue)
      | Get_Stop_Unlock \<Rightarrow>
          Some (if rc \<noteq> 0 then p else p\<lparr>mutex := None\<rparr>, Loop_Task None)
      | Get_Dequeue \<Rightarrow>
          (case threadpool_queue_dequeue (tasks_queue p) of
            (t, q) \<Rightarrow> Some (p\<lparr>tasks_queue := q\<rparr>, Get_Unlock t))
      | Get_Unlock t \<Rightarrow>
          Some (if rc \<noteq> 0 then (p, Loop_Task None) else (p\<lparr>mutex := None\<rparr>, Loop_Task t))
      | _ \<Rightarrow> None)"

definition worker_thr_routine ::
  "tid \<Rightarrow> int \<Rightarrow> ('f, 'd) threadpool \<Rightarrow> worker_pc \<Rightarrow> (('f, 'd) threadpool \<times> worker_pc) option"
where
  "worker_thr_routine i rc p c =
     (case c of
        Loop_Task None \<Rightarrow>
          Some (p, Exited)
      | Loop_Task (Some t) \<Rightarrow>
          (case routine_cb (tasks p ! t) of
            None \<Rightarrow> Some (p, Get_Enter)
          | Some f \<Rightarrow> Some (p\<lparr>executed := executed p @ [tasks p ! t]\<rparr>, Release_Init t))
      | Release_Init t \<Rightarrow>
          Some (p\<lparr>tasks := (tasks p)[t := threadpool_task_init]\<rparr>, Release_Lock t)
      | Release_Lock t \<Rightarrow>
          (if rc \<noteq> 0 then Some (p, Exited)
          else if free_tasks_mutex p = None
          then Some (p\<lparr>free_tasks_mutex := Some i\<rparr>, Release_Enqueue t) else None)
      | Release_Enqueue t \<Rightarrow>
          (case threadpool_queue_enqueue (free_tasks_queue p) (Some t) of
            (r, q) \<Rightarrow> Some (p\<lparr>free_tasks_queue := q\<rparr>,
                            if r \<noteq> 0 then Release_Fail_Unlock else Release_Size))
      | Release_Size \<Rightarrow>
          Some (if threadpool_queue_getsize (free_tasks_queue p) = 1
               then if rc \<noteq> 0 then (p, Release_Fail_Unlock)
                    else (p\<lparr>free_tasks_cond := {}\<rparr>, Release_Unlock)
               else (p, Release_Unlock))
      | Release_Fail_Unlock \<Rightarrow>
          Some (if rc \<noteq> 0 then p else p\<lparr>free_tasks_mutex := None\<rparr>, Exited)
      | Release_Unlock \<Rightarrow>
          Some (if rc \<noteq> 0 then (p, Exited) else (p\<lparr>free_tasks_mutex := None\<rparr>, Get_Enter))
      | _ \<Rightarrow> threadpool_task_get_task i rc p c)"

section \<open>Adding a task\<close>

definition threadpool_add_task ::
  "('f, 'd) threadpool ptr \<Rightarrow> 'f ptr \<Rightarrow> 'd ptr \<Rightarrow> int \<Rightarrow> ('f, 'd) add_pc" where
  "threadpool_add_task pool routine data blocking =
     (case pool of None \<Rightarrow> Add_Ret (-1) | Some _ \<Rightarrow> Add_Lock routine data (blocking \<noteq> 0))"

definition threadpool_add_task_step ::
  "tid \<Rightarrow> int \<Rightarrow> ('f, 'd) threadpool \<Rightarrow> ('f, 'd) add_pc \<Rightarrow> (('f, 'd) threadpool \<times> ('f, 'd) add_pc) option"
where
  "threadpool_add_task_step i rc p c =
     (case c of
        Add_Lock f d b \<Rightarrow>
          (if rc \<noteq> 0 then Some (p, Add_Ret (-1))
          else if free_tasks_mutex p = None
          then Some (p\<lparr>free_tasks_mutex := Some i\<rparr>, Add_While f d b) else None)
      | Add_While f d b \<Rightarrow>
          Some (p, if threadpool_queue_is_empty (free_tasks_queue p) \<noteq> 0
                  then if \<not> b then Add_Overload_Unlock else Add_Wait f d b
                  else Add_Dequeue f d)
      | Add_Overload_Unlock \<Rightarrow>
          Some (if rc \<noteq> 0 then (p, Add_Ret (-1)) else (p\<lparr>free_tasks_mutex := None\<rparr>, Add_Ret (-2)))
      | Add_Wait f d b \<Rightarrow>
          Some (if rc \<noteq> 0 then (p, Add_Fail_Unlock)
               else (p\<lparr>free_tasks_mutex := None, free_tasks_cond := insert i (free_tasks_cond p)\<rparr>,
                     Add_Waiting f d b))
      | Add_Waiting f d b \<Rightarrow>
          (if i \<in> free_tasks_cond p \<or> free_tasks_mutex p \<noteq> None then None
          else Some (p\<lparr>free_tasks_mutex := Some i\<rparr>, Add_While f d b))
      | Add_Fail_Unlock \<Rightarrow>
          Some (if rc \<noteq> 0 then p else p\<lparr>free_tasks_mutex := None\<rparr>, Add_Ret (-1))
      | Add_Dequeue f d \<Rightarrow>
          (case threadpool_queue_dequeue (free_tasks_queue p) of
            (t, q) \<Rightarrow> Some (p\<lparr>free_tasks_queue := q\<rparr>,
                            case t of None \<Rightarrow> Add_Fail_Unlock | Some n \<Rightarrow> Add_Unlock f d n))
      | Add_Unlock f d t \<Rightarrow>
          Some (if rc \<noteq> 0 then (p, Add_Ret (-1)) else (p\<lparr>free_tasks_mutex := None\<rparr>, Add_Fill f d t))
      | Add_Fill f d t \<Rightarrow>
          Some (p\<lparr>tasks := (tasks p)[t := \<lparr>routine_cb = f, task_data = d\<rparr>]\<rparr>, Add_Lock_Tasks t)
      | Add_Lock_Tasks t \<Rightarrow>
          (if rc \<noteq> 0 then Some (p, Add_Ret (-1))
          else if mutex p = None then Some (p\<lparr>mutex := Some i\<rparr>, Add_Enqueue t) else None)
      | Add_Enqueue t \<Rightarrow>
          (case threadpool_queue_enqueue (tasks_queue p) (Some t) of
            (r, q) \<Rightarrow>
              Some (if r \<noteq> 0 then (p\<lparr>tasks_queue := q\<rparr>, Add_Fail_Unlock_Tasks)
                    else (p\<lparr>tasks_queue := q, submitted := submitted p @ [tasks p ! t]\<rparr>, Add_Size)))
      | Add_Size \<Rightarrow>
          Some (if threadpool_queue_getsize (tasks_queue p) = 1
               then if rc \<noteq> 0 then (p, Add_Fail_Unlock_Tasks) else (p\<lparr>cond := {}\<rparr>, Add_Unlock_Tasks)
               else (p, Add_Unlock_Tasks))
      | Add_Fail_Unlock_Tasks \<Rightarrow>
          Some (if rc \<noteq> 0 then p else p\<lparr>mutex := None\<rparr>, Add_Ret (-1))
      | Add_Unlock_Tasks \<Rightarrow>
          Some (if rc \<noteq> 0 then (p, Add_Ret (-1)) else (p\<lparr>mutex := None\<rparr>, Add_Ret 0))
      | _ \<Rightarrow> None)"

section \<open>Stopping the pool\<close>

text \<open>\<open>exited j\<close> says that thread \<open>j\<close> has returned, which is what \<open>pthread_join\<close> waits for.\<close>

definition stop_worker_thr_routines_cb ::
  "(tid \<Rightarrow> bool) \<Rightarrow> tid \<Rightarrow> int \<Rightarrow> ('f, 'd) threadpool \<Rightarrow> stop_pc
    \<Rightarrow> (('f, 'd) threadpool \<times> stop_pc) option"
where
  "stop_worker_thr_routines_cb exited i rc p c =
     (case c of
        Stop_Flag \<Rightarrow>
          Some (p\<lparr>stop_flag := 1\<rparr>, Stop_Lock)
      | Stop_Lock \<Rightarrow>
          (if rc \<noteq> 0 then Some (p, Stop_Done)
          else if mutex p = None then Some (p\<lparr>mutex := Some i\<rparr>, Stop_Broadcast) else None)
      | Stop_Broadcast \<Rightarrow>
          Some (if rc \<noteq> 0 then (p, Stop_Done) else (p\<lparr>cond := {}\<rparr>, Stop_Unlock))
      | Stop_Unlock \<Rightarrow>
          Some (if rc \<noteq> 0 then (p, Stop_Done) else (p\<lparr>mutex := None\<rparr>, Stop_Join 0))
      | Stop_Join k \<Rightarrow>
          (if k < unat (num_of_threads p)
          then if rc \<noteq> 0 \<or> exited (thr_arr p ! k) then Some (p, Stop_Join (Suc k)) else None
          else Some (p, Stop_Free))
      | Stop_Free \<Rightarrow>
          Some (p\<lparr>freed := True\<rparr>, Stop_Done)
      | _ \<Rightarrow> None)"

text \<open>
  \<open>threadpool_free\<close>: with \<open>blocking\<close> the caller itself runs the callback, otherwise a new
  thread does; when that thread cannot be created, only the flag is raised.
\<close>

datatype free_action = Free_Inline | Free_Thread | Free_Leak

definition threadpool_free ::
  "int \<Rightarrow> ('f, 'd) threadpool \<Rightarrow> int \<Rightarrow> ('f, 'd) threadpool \<times> free_action" where
  "threadpool_free rc pool blocking =
     (if blocking \<noteq> 0 then (pool, Free_Inline)
      else if rc \<noteq> 0 then (pool\<lparr>stop_flag := 1\<rparr>, Free_Leak)
      else (pool, Free_Thread))"

section \<open>Creating the pool\<close>

text \<open>
  The environment of \<open>threadpool_init\<close>: whether the two \<open>malloc\<close> calls succeed, the return
  codes of the four initialisations and of the pthread_create calls, in order.
\<close>

record init_env =
  malloc_pool :: bool
  free_tasks_mutex_init :: int
  mutex_init :: int
  free_tasks_cond_init :: int
  cond_init :: int
  malloc_thr_arr :: bool
  create :: "nat \<Rightarrow> int"

text \<open>
  \<open>threadpool_init\<close> returns the pool, or NULL, or NULL after it has called
  \<open>threadpool_free(pool, 0)\<close> on a pool some of whose threads run.
\<close>

datatype ('f, 'd) init_result =
  Init_NULL | Init_Freeing "('f, 'd) threadpool" | Init_Pool "('f, 'd) threadpool"

fun fill_free_tasks :: "nat list \<Rightarrow> nat threadpool_queue \<Rightarrow> int \<times> nat threadpool_queue" where
  "fill_free_tasks [] q = (0, q)"
| "fill_free_tasks (i # is) q =
     (case threadpool_queue_enqueue q (Some i) of
        (r, q') \<Rightarrow> if r \<noteq> 0 then (-1, q') else fill_free_tasks is q')"

text \<open>
  The loop that starts the threads. The counter \<open>pool->num_of_threads\<close> is an \<open>unsigned short\<close>,
  compared as an int with the argument; \<open>c\<close> counts the pthread_create calls, and the thread
  the call \<open>c\<close> creates is thread \<open>c\<close>.
\<close>

partial_function (option) start_threads ::
  "(nat \<Rightarrow> int) \<Rightarrow> int \<Rightarrow> nat \<Rightarrow> ('f, 'd) threadpool \<Rightarrow> (int \<times> ('f, 'd) threadpool) option" where
  "start_threads crt n c p =
     (if uint (num_of_threads p) < n
      then if crt c \<noteq> 0 then Some (-1, p)
           else start_threads crt n (Suc c)
                  (p\<lparr>thr_arr := (thr_arr p)[unat (num_of_threads p) := c],
                     num_of_threads := num_of_threads p + 1\<rparr>)
      else Some (0, p))"

definition threadpool_init :: "init_env \<Rightarrow> int \<Rightarrow> ('f, 'd) init_result option" where
  "threadpool_init e n =
     (if \<not> malloc_pool e then Some Init_NULL
      else if free_tasks_mutex_init e \<noteq> 0 then Some Init_NULL
      else if mutex_init e \<noteq> 0 then Some Init_NULL
      else if free_tasks_cond_init e \<noteq> 0 then Some Init_NULL
      else if cond_init e \<noteq> 0 then Some Init_NULL
      else
        case fill_free_tasks [0..<THREAD_POOL_QUEUE_SIZE] threadpool_queue_init of
          (r, q) \<Rightarrow>
            if r \<noteq> 0 then Some Init_NULL
            else if \<not> malloc_thr_arr e then Some Init_NULL
            else
              case start_threads (create e) n 0
                \<lparr>tasks_queue = threadpool_queue_init, free_tasks_queue = q,
                 tasks = replicate THREAD_POOL_QUEUE_SIZE threadpool_task_init,
                 thr_arr = replicate (nat n) 0, num_of_threads = 0, stop_flag = 0,
                 free_tasks_mutex = None, mutex = None, free_tasks_cond = {}, cond = {},
                 submitted = [], executed = [], freed = False\<rparr> of
                None \<Rightarrow> None
              | Some (r', p) \<Rightarrow> Some (if r' \<noteq> 0 then Init_Freeing p else Init_Pool p))"

section \<open>The system: a pool and its threads\<close>

datatype ('f, 'd) pc =
  Idle | Worker worker_pc | Adding "('f, 'd) add_pc" | Stopping stop_pc

record ('f, 'd) sys =
  pool :: "('f, 'd) threadpool"
  pcs :: "tid \<Rightarrow> ('f, 'd) pc"

definition thread_step :: "tid \<Rightarrow> int \<Rightarrow> ('f, 'd) sys \<Rightarrow> ('f, 'd) sys option" where
  "thread_step i rc s =
     map_option (\<lambda>(p, c). s\<lparr>pool := p, pcs := (pcs s)(i := c)\<rparr>)
       (case pcs s i of
          Idle \<Rightarrow> None
        | Worker c \<Rightarrow> map_option (map_prod id Worker) (worker_thr_routine i rc (pool s) c)
        | Adding c \<Rightarrow> map_option (map_prod id Adding) (threadpool_add_task_step i rc (pool s) c)
        | Stopping c \<Rightarrow> map_option (map_prod id Stopping)
            (stop_worker_thr_routines_cb (\<lambda>j. pcs s j = Worker Exited) i rc (pool s) c))"

text \<open>
  The reachable states, for pthread calls whose return codes satisfy \<open>ok\<close>: any thread takes a
  step, a sleeping thread may wake up spuriously, an idle thread calls into the pool, and a
  call that has returned leaves its thread idle.
\<close>

inductive reachable :: "(int \<Rightarrow> bool) \<Rightarrow> ('f, 'd) sys \<Rightarrow> bool" for ok where
  start: "threadpool_init e (int n) = Some (Init_Pool p) \<Longrightarrow>
    reachable ok \<lparr>pool = p, pcs = (\<lambda>i. if i < n then Worker Get_Enter else Idle)\<rparr>"
| run: "reachable ok s \<Longrightarrow> ok rc \<Longrightarrow> thread_step i rc s = Some s' \<Longrightarrow> reachable ok s'"
| spurious: "reachable ok s \<Longrightarrow>
    reachable ok (s\<lparr>pool := (pool s)\<lparr>cond := cond (pool s) - {i},
                                 free_tasks_cond := free_tasks_cond (pool s) - {i}\<rparr>\<rparr>)"
| call_add: "reachable ok s \<Longrightarrow> pcs s i = Idle \<Longrightarrow>
    reachable ok (s\<lparr>pcs := (pcs s)(i := Adding (threadpool_add_task (Some (pool s)) f d b))\<rparr>)"
| add_returns: "reachable ok s \<Longrightarrow> pcs s i = Adding (Add_Ret v) \<Longrightarrow>
    reachable ok (s\<lparr>pcs := (pcs s)(i := Idle)\<rparr>)"
| call_free: "reachable ok s \<Longrightarrow> pcs s i = Idle \<Longrightarrow> ok rc \<Longrightarrow>
    threadpool_free rc (pool s) b = (p, act) \<Longrightarrow> j = i \<or> act = Free_Thread \<and> pcs s j = Idle \<Longrightarrow>
    reachable ok (s\<lparr>pool := p, pcs := (pcs s)(j := (if act = Free_Leak then Idle else Stopping Stop_Flag))\<rparr>)"

end
