(* ===== verification/Threadpool_Init.thy ===== *)
theory Threadpool_Init
  imports Threadpool
begin

text \<open>
  What \<open>threadpool_init\<close> builds: the free queue holds every task of the array, the thread array
  the created threads, and for how many threads the call returns at all.
\<close>

section \<open>Filling the free queue\<close>

lemma fill_free_tasks_ok:
  assumes "queue_inv q" "length (queue_contents q) + length is \<le> THREAD_POOL_QUEUE_SIZE"
  shows "\<exists>q'. fill_free_tasks is q = (0, q') \<and> queue_inv q' \<and> queue_contents q' = queue_contents q @ is"
  using assms
proof (induction "is" arbitrary: q)
  case (Cons i js)
  obtain r q1 where E: "threadpool_queue_enqueue q (Some i) = (r, q1)" by fastforce
  have "r = 0 \<and> queue_inv q1 \<and> queue_contents q1 = queue_contents q @ [i]"
    using tpq.enq_room [OF Cons.prems(1) _ E] Cons.prems(2) by simp
  then show ?case using Cons.IH [of q1] Cons.prems(2) E by auto
qed simp

definition filled_queue :: "nat threadpool_queue" where
  "filled_queue = snd (fill_free_tasks [0..<THREAD_POOL_QUEUE_SIZE] threadpool_queue_init)"

lemma filled_queue:
  "fill_free_tasks [0..<THREAD_POOL_QUEUE_SIZE] threadpool_queue_init = (0, filled_queue)"
  "queue_inv filled_queue" "queue_contents filled_queue = [0..<THREAD_POOL_QUEUE_SIZE]"
  using fill_free_tasks_ok [OF tpq.invar_init, of "[0..<THREAD_POOL_QUEUE_SIZE]"]
  by (auto simp: filled_queue_def tpq.contents_init)

section \<open>Starting the threads\<close>

definition start_pool :: "int \<Rightarrow> ('f, 'd) threadpool" where
  "start_pool n =
     \<lparr>tasks_queue = threadpool_queue_init, free_tasks_queue = filled_queue,
      tasks = replicate THREAD_POOL_QUEUE_SIZE threadpool_task_init,
      thr_arr = replicate (nat n) 0, num_of_threads = 0, stop_flag = 0,
      free_tasks_mutex = None, mutex = None, free_tasks_cond = {}, cond = {},
      submitted = [], executed = [], freed = False\<rparr>"

definition init_env_ok :: "init_env \<Rightarrow> bool" where
  "init_env_ok e \<longleftrightarrow> malloc_pool e \<and> free_tasks_mutex_init e = 0 \<and> mutex_init e = 0 \<and>
     free_tasks_cond_init e = 0 \<and> cond_init e = 0 \<and> malloc_thr_arr e"

lemma threadpool_init_eq:
  "threadpool_init e n =
     (if \<not> init_env_ok e then Some Init_NULL
      else map_option (\<lambda>(r, p). if r \<noteq> 0 then Init_Freeing p else Init_Pool p)
             (start_threads (create e) n 0 (start_pool n)))"
  by (auto simp: threadpool_init_def init_env_ok_def filled_queue start_pool_def split: option.splits)

text \<open>The loop writes nothing but the thread array and the counter.\<close>

lemma start_threads_frame:
  assumes "start_threads crt n c p = Some rp"
  shows "\<exists>ta k. snd rp = p\<lparr>thr_arr := ta, num_of_threads := k\<rparr>"
proof (rule start_threads.raw_induct
    [where P = "\<lambda>crt n c p rp. \<exists>ta k. snd rp = p\<lparr>thr_arr := ta, num_of_threads := k\<rparr>", OF _ assms])
  fix f :: "(nat \<Rightarrow> int) \<Rightarrow> int \<Rightarrow> nat \<Rightarrow> ('a, 'b) threadpool \<Rightarrow> (int \<times> ('a, 'b) threadpool) option"
  fix crt n c p rp
  assume IH: "\<And>crt n c p rp. f crt n c p = Some rp \<Longrightarrow>
      \<exists>ta k. snd rp = p\<lparr>thr_arr := ta, num_of_threads := k\<rparr>"
    and eq: "(if uint (num_of_threads p) < n
      then if crt c \<noteq> 0 then Some (-1, p)
           else f crt n (Suc c) (p\<lparr>thr_arr := (thr_arr p)[unat (num_of_threads p) := c],
                                   num_of_threads := num_of_threads p + 1\<rparr>)
      else Some (0, p)) = Some rp"
  show "\<exists>ta k. snd rp = p\<lparr>thr_arr := ta, num_of_threads := k\<rparr>"
  proof (cases "uint (num_of_threads p) < n \<and> crt c = 0")
    case True
    with eq IH [of crt n "Suc c" "p\<lparr>thr_arr := (thr_arr p)[unat (num_of_threads p) := c],
        num_of_threads := num_of_threads p + 1\<rparr>" rp]
    show ?thesis by auto
  next
    case False
    with eq have "snd rp = p\<lparr>thr_arr := thr_arr p, num_of_threads := num_of_threads p\<rparr>"
      by (auto split: if_splits)
    then show ?thesis by blast
  qed
qed

lemma unat_16_inc: "unat (w :: uint16_t) < 65535 \<Longrightarrow> unat (w + 1) = Suc (unat w)"
  by (simp add: unat_word_ariths)

text \<open>
  With at most 65535 threads the loop ends, has started exactly \<open>n\<close> threads when it succeeds,
  and succeeds when no pthread_create fails.
\<close>

lemma start_threads_total:
  assumes "n \<le> 65535" "unat (num_of_threads p) = c" "c \<le> n"
    "length (thr_arr p) = n" "take c (thr_arr p) = [0..<c]"
  shows "\<exists>r p'. start_threads crt (int n) c p = Some (r, p') \<and>
    (r = 0 \<longrightarrow> unat (num_of_threads p') = n \<and> thr_arr p' = [0..<n]) \<and> ((\<forall>k. crt k = 0) \<longrightarrow> r = 0)"
  using assms
proof (induction "n - c" arbitrary: c p)
  case 0
  then have "c = n" by simp
  with 0 show ?case
    by (subst start_threads.simps) (auto simp: uint_nat simp flip: unat_eq_nat_uint)
next
  case (Suc m)
  let ?p = "p\<lparr>thr_arr := (thr_arr p)[unat (num_of_threads p) := c],
              num_of_threads := num_of_threads p + 1\<rparr>"
  have c: "c < n" using Suc.hyps by simp
  have "take (Suc c) ((thr_arr p)[c := c]) = [0..<Suc c]"
    using Suc.prems c by (simp add: take_Suc_conv_app_nth take_update_cancel)
  then have "\<exists>r p'. start_threads crt (int n) (Suc c) ?p = Some (r, p') \<and>
      (r = 0 \<longrightarrow> unat (num_of_threads p') = n \<and> thr_arr p' = [0..<n]) \<and> ((\<forall>k. crt k = 0) \<longrightarrow> r = 0)"
    using Suc.prems Suc.hyps(2) c by (intro Suc.hyps(1)) (auto simp: unat_16_inc)
  then show ?case using Suc.prems c
    by (subst start_threads.simps) (auto simp flip: unat_eq_nat_uint simp: uint_nat)
qed

text \<open>More than 65535 threads: the 16-bit counter never reaches the argument.\<close>

lemma start_threads_wraps:
  assumes "start_threads crt n c p = Some rp" "65535 < n"
  shows "fst rp \<noteq> 0"
proof -
  have "65535 < n \<longrightarrow> fst rp \<noteq> 0"
  proof (rule start_threads.raw_induct
      [where P = "\<lambda>crt n c p rp. 65535 < n \<longrightarrow> fst rp \<noteq> (0::int)", OF _ assms(1)])
    fix f :: "(nat \<Rightarrow> int) \<Rightarrow> int \<Rightarrow> nat \<Rightarrow> ('a, 'b) threadpool \<Rightarrow> (int \<times> ('a, 'b) threadpool) option"
    fix crt n c p rp
    assume IH: "\<And>crt n c p rp. f crt n c p = Some rp \<Longrightarrow> 65535 < n \<longrightarrow> fst rp \<noteq> 0"
      and eq: "(if uint (num_of_threads p) < n
        then if crt c \<noteq> 0 then Some (-1, p)
             else f crt n (Suc c) (p\<lparr>thr_arr := (thr_arr p)[unat (num_of_threads p) := c],
                                     num_of_threads := num_of_threads p + 1\<rparr>)
        else Some (0, p)) = Some rp"
    have "uint (num_of_threads p) < 65536" using uint_lt2p [of "num_of_threads p"] by simp
    with eq IH show "65535 < n \<longrightarrow> fst rp \<noteq> 0" by (auto split: if_splits)
  qed
  with assms(2) show ?thesis by simp
qed

end
