(* ===== verification/Threadpool_Safety.thy ===== *)
theory Threadpool_Safety
  imports Threadpool_Init
begin

text \<open>
  Invariants of the thread pool over every interleaving of its threads: the two mutexes protect
  the two queues, every task is in one place, and no wakeup is lost. The invariants are proved
  step by step for the three C functions and lifted to the reachable states.
\<close>

section \<open>Which program counters hold what\<close>

fun owns_mutex :: "('f, 'd) pc \<Rightarrow> bool" where
  "owns_mutex Idle = False"
| "owns_mutex (Worker c) =
     (case c of Get_While \<Rightarrow> True | Get_Wait \<Rightarrow> True | Get_Wait_Fail \<Rightarrow> True | Get_Stop \<Rightarrow> True
      | Get_Stop_Unlock \<Rightarrow> True | Get_Dequeue \<Rightarrow> True | Get_Unlock _ \<Rightarrow> True | _ \<Rightarrow> False)"
| "owns_mutex (Adding c) =
     (case c of Add_Enqueue _ \<Rightarrow> True | Add_Size \<Rightarrow> True | Add_Fail_Unlock_Tasks \<Rightarrow> True
      | Add_Unlock_Tasks \<Rightarrow> True | _ \<Rightarrow> False)"
| "owns_mutex (Stopping c) = (c = Stop_Broadcast \<or> c = Stop_Unlock)"

fun owns_free_mutex :: "('f, 'd) pc \<Rightarrow> bool" where
  "owns_free_mutex Idle = False"
| "owns_free_mutex (Worker c) =
     (case c of Release_Enqueue _ \<Rightarrow> True | Release_Size \<Rightarrow> True | Release_Fail_Unlock \<Rightarrow> True
      | Release_Unlock \<Rightarrow> True | _ \<Rightarrow> False)"
| "owns_free_mutex (Adding c) =
     (case c of Add_While _ _ _ \<Rightarrow> True | Add_Overload_Unlock \<Rightarrow> True | Add_Wait _ _ _ \<Rightarrow> True
      | Add_Fail_Unlock \<Rightarrow> True | Add_Dequeue _ _ \<Rightarrow> True | Add_Unlock _ _ _ \<Rightarrow> True | _ \<Rightarrow> False)"
| "owns_free_mutex (Stopping c) = False"

text \<open>The task a thread has taken from one queue and not yet put into the other.\<close>

fun holds :: "('f, 'd) pc \<Rightarrow> nat option" where
  "holds Idle = None"
| "holds (Worker c) =
     (case c of Get_Unlock t \<Rightarrow> t | Loop_Task t \<Rightarrow> t | Release_Init t \<Rightarrow> Some t
      | Release_Lock t \<Rightarrow> Some t | Release_Enqueue t \<Rightarrow> Some t | _ \<Rightarrow> None)"
| "holds (Adding c) =
     (case c of Add_Unlock _ _ t \<Rightarrow> Some t | Add_Fill _ _ t \<Rightarrow> Some t | Add_Lock_Tasks t \<Rightarrow> Some t
      | Add_Enqueue t \<Rightarrow> Some t | _ \<Rightarrow> None)"
| "holds (Stopping c) = None"

lemmas step_defs = threadpool_task_get_task_def worker_thr_routine_def
  threadpool_add_task_step_def stop_worker_thr_routines_cb_def

section \<open>Lifting a step of one thread to the system\<close>

text \<open>One step of one thread, as a relation on the pool and the thread's program counter.\<close>

definition pc_step :: "(tid \<Rightarrow> bool) \<Rightarrow> tid \<Rightarrow> int \<Rightarrow> ('f, 'd) threadpool \<Rightarrow> ('f, 'd) pc
    \<Rightarrow> (('f, 'd) threadpool \<times> ('f, 'd) pc) option" where
  "pc_step ex i rc p c =
     (case c of
        Idle \<Rightarrow> None
      | Worker w \<Rightarrow> map_option (map_prod id Worker) (worker_thr_routine i rc p w)
      | Adding a \<Rightarrow> map_option (map_prod id Adding) (threadpool_add_task_step i rc p a)
      | Stopping t \<Rightarrow> map_option (map_prod id Stopping) (stop_worker_thr_routines_cb ex i rc p t))"

lemma thread_stepE:
  assumes "thread_step i rc s = Some s'"
  obtains p c where "pc_step (\<lambda>j. pcs s j = Worker Exited) i rc (pool s) (pcs s i) = Some (p, c)"
    and "s' = s\<lparr>pool := p, pcs := (pcs s)(i := c)\<rparr>"
  using assms unfolding thread_step_def pc_step_def by auto

lemma pc_step_cases:
  assumes "pc_step ex i rc p c = Some (p', c')"
  obtains (work) w w' where "c = Worker w" "c' = Worker w'" "worker_thr_routine i rc p w = Some (p', w')"
  | (add) a a' where "c = Adding a" "c' = Adding a'" "threadpool_add_task_step i rc p a = Some (p', a')"
  | (stop) t t' where "c = Stopping t" "c' = Stopping t'"
      "stop_worker_thr_routines_cb ex i rc p t = Some (p', t')"
  using assms by (cases c) (auto simp: pc_step_def)

section \<open>Mutual exclusion\<close>

text \<open>How a step of thread \<open>i\<close> may change a mutex it owned (\<open>own\<close>) or owns after it (\<open>own'\<close>).\<close>

definition mutex_step :: "tid \<Rightarrow> bool \<Rightarrow> bool \<Rightarrow> tid option \<Rightarrow> tid option \<Rightarrow> bool" where
  "mutex_step i own own' m m' \<longleftrightarrow>
     (m' = m \<and> (own' \<longrightarrow> own)) \<or> (m = None \<and> m' = Some i) \<or> (own \<and> \<not> own' \<and> m' = None)"

lemma worker_mutex:
  assumes "worker_thr_routine i rc p c = Some (p', c')"
  shows "mutex_step i (owns_mutex (Worker c)) (owns_mutex (Worker c')) (mutex p) (mutex p')"
    and "mutex_step i (owns_free_mutex (Worker c)) (owns_free_mutex (Worker c'))
           (free_tasks_mutex p) (free_tasks_mutex p')"
  using assms
  by (cases c; auto simp: step_defs mutex_step_def split: if_splits option.splits prod.splits)+

lemma add_mutex:
  assumes "threadpool_add_task_step i rc p c = Some (p', c')"
  shows "mutex_step i (owns_mutex (Adding c)) (owns_mutex (Adding c')) (mutex p) (mutex p')"
    and "mutex_step i (owns_free_mutex (Adding c)) (owns_free_mutex (Adding c'))
           (free_tasks_mutex p) (free_tasks_mutex p')"
  using assms
  by (cases c; auto simp: step_defs mutex_step_def split: if_splits option.splits prod.splits)+

lemma stop_mutex:
  assumes "stop_worker_thr_routines_cb ex i rc p c = Some (p', c')"
  shows "mutex_step i (owns_mutex (Stopping c)) (owns_mutex (Stopping c')) (mutex p) (mutex p')"
    and "mutex_step i (owns_free_mutex (Stopping c)) (owns_free_mutex (Stopping c'))
           (free_tasks_mutex p) (free_tasks_mutex p')"
  using assms
  by (cases c; auto simp: step_defs mutex_step_def split: if_splits)+

lemma pc_step_mutex:
  assumes "pc_step ex i rc p c = Some (p', c')"
  shows "mutex_step i (owns_mutex c) (owns_mutex c') (mutex p) (mutex p')"
    and "mutex_step i (owns_free_mutex c) (owns_free_mutex c') (free_tasks_mutex p) (free_tasks_mutex p')"
  using assms by (cases rule: pc_step_cases; simp only: worker_mutex add_mutex stop_mutex)+

definition mutex_inv :: "('f, 'd) sys \<Rightarrow> bool" where
  "mutex_inv s \<longleftrightarrow>
     (\<forall>i. (owns_mutex (pcs s i) \<longrightarrow> mutex (pool s) = Some i) \<and>
          (owns_free_mutex (pcs s i) \<longrightarrow> free_tasks_mutex (pool s) = Some i))"

lemma mutex_step_owner:
  assumes "mutex_step i (own i) own' m m'" "\<And>j. own j \<Longrightarrow> m = Some j"
    "if j = i then own' else own j"
  shows "m' = Some j"
  using assms by (auto simp: mutex_step_def split: if_splits)

lemma mutex_inv_step:
  assumes "mutex_inv s" "pc_step ex i rc (pool s) (pcs s i) = Some (p, c)"
  shows "mutex_inv (s\<lparr>pool := p, pcs := (pcs s)(i := c)\<rparr>)"
  using assms(1)
    mutex_step_owner [where own = "\<lambda>j. owns_mutex (pcs s j)", OF pc_step_mutex(1) [OF assms(2)]]
    mutex_step_owner [where own = "\<lambda>j. owns_free_mutex (pcs s j)", OF pc_step_mutex(2) [OF assms(2)]]
  unfolding mutex_inv_def by simp

lemma mutex_inv_unique:
  "mutex_inv s \<Longrightarrow> owns_mutex (pcs s i) \<Longrightarrow> owns_mutex (pcs s j) \<Longrightarrow> i = j"
  "mutex_inv s \<Longrightarrow> owns_free_mutex (pcs s i) \<Longrightarrow> owns_free_mutex (pcs s j) \<Longrightarrow> i = j"
  unfolding mutex_inv_def by (metis option.inject)+

text \<open>The queues change only under their mutex, and the stop flag is never lowered.\<close>

lemma worker_queues:
  assumes "worker_thr_routine i rc p w = Some (p', w')"
  shows "(\<not> owns_mutex (Worker w) \<longrightarrow> tasks_queue p' = tasks_queue p) \<and>
    (\<not> owns_free_mutex (Worker w) \<longrightarrow> free_tasks_queue p' = free_tasks_queue p) \<and>
    stop_flag p' = stop_flag p"
  using assms by (cases w) (auto simp: step_defs split: if_splits option.splits prod.splits)

lemma add_queues:
  assumes "threadpool_add_task_step i rc p w = Some (p', w')"
  shows "(\<not> owns_mutex (Adding w) \<longrightarrow> tasks_queue p' = tasks_queue p) \<and>
    (\<not> owns_free_mutex (Adding w) \<longrightarrow> free_tasks_queue p' = free_tasks_queue p) \<and>
    stop_flag p' = stop_flag p"
  using assms by (cases w) (auto simp: step_defs split: if_splits option.splits prod.splits)

lemma stop_queues:
  assumes "stop_worker_thr_routines_cb ex i rc p w = Some (p', w')"
  shows "tasks_queue p' = tasks_queue p \<and> free_tasks_queue p' = free_tasks_queue p \<and>
    tasks p' = tasks p \<and> submitted p' = submitted p \<and> executed p' = executed p \<and>
    (stop_flag p \<noteq> 0 \<longrightarrow> stop_flag p' \<noteq> 0)"
  using assms by (cases w) (auto simp: step_defs split: if_splits)

lemma pc_step_queues:
  assumes "pc_step ex i rc p c = Some (p', c')"
  shows "(\<not> owns_mutex c \<longrightarrow> tasks_queue p' = tasks_queue p) \<and>
    (\<not> owns_free_mutex c \<longrightarrow> free_tasks_queue p' = free_tasks_queue p) \<and>
    (stop_flag p \<noteq> 0 \<longrightarrow> stop_flag p' \<noteq> 0)"
  using assms
proof (cases rule: pc_step_cases)
  case (work w w') then show ?thesis using worker_queues [OF work(3)] by simp
next
  case (add w w') then show ?thesis using add_queues [OF add(3)] by simp
next
  case (stop w w') then show ?thesis using stop_queues [OF stop(3)] by simp
qed

section \<open>Every task is in one place\<close>

text \<open>
  Free tasks \<open>F\<close>, queued tasks \<open>Q\<close> and the task \<open>H i\<close> in the hands of each thread \<open>i\<close> are
  indices of the array, all different.
\<close>

definition placed :: "nat list \<Rightarrow> nat list \<Rightarrow> (tid \<Rightarrow> nat option) \<Rightarrow> bool" where
  "placed F Q H \<longleftrightarrow>
     distinct (F @ Q) \<and> set (F @ Q) \<subseteq> {0..<THREAD_POOL_QUEUE_SIZE} \<and>
     (\<forall>i t. H i = Some t \<longrightarrow> t < THREAD_POOL_QUEUE_SIZE \<and> t \<notin> set (F @ Q)) \<and>
     (\<forall>i j t. H i = Some t \<longrightarrow> H j = Some t \<longrightarrow> i = j)"

definition tasks_inv :: "('f, 'd) sys \<Rightarrow> bool" where
  "tasks_inv s \<longleftrightarrow>
     queue_inv (free_tasks_queue (pool s)) \<and> queue_inv (tasks_queue (pool s)) \<and>
     length (tasks (pool s)) = THREAD_POOL_QUEUE_SIZE \<and>
     placed (queue_contents (free_tasks_queue (pool s))) (queue_contents (tasks_queue (pool s)))
       (\<lambda>i. holds (pcs s i))"

text \<open>A step moves at most one task between a queue and the thread's hands.\<close>

definition task_move ::
  "nat list \<Rightarrow> nat list \<Rightarrow> nat option \<Rightarrow> nat list \<Rightarrow> nat list \<Rightarrow> nat option \<Rightarrow> bool" where
  "task_move F Q h F' Q' h' \<longleftrightarrow>
     (F' = F \<and> Q' = Q \<and> (h' = h \<or> h' = None)) \<or>
     (\<exists>t. h = None \<and> h' = Some t \<and> (F = t # F' \<and> Q' = Q \<or> Q = t # Q' \<and> F' = F)) \<or>
     (\<exists>t. h = Some t \<and> h' = None \<and> (F' = F @ [t] \<and> Q' = Q \<or> Q' = Q @ [t] \<and> F' = F))"

lemma placed_drop: "placed F Q H \<Longrightarrow> placed F Q (H(i := None))"
  unfolding placed_def by simp

lemma placed_take:
  "placed (t # F) Q H \<Longrightarrow> placed F Q (H(i := Some t))"
  "placed F (t # Q) H \<Longrightarrow> placed F Q (H(i := Some t))"
  unfolding placed_def by auto

lemma placed_give:
  assumes "placed F Q H" "H i = Some t"
  shows "placed (F @ [t]) Q (H(i := None))" "placed F (Q @ [t]) (H(i := None))"
  using assms unfolding placed_def by auto

lemma placed_move:
  assumes "placed F Q H" "task_move F Q (H i) F' Q' h'"
  shows "placed F' Q' (H(i := h'))"
  using assms(2) unfolding task_move_def
  using assms(1) placed_drop placed_take placed_give by (metis fun_upd_triv)

lemma dequeue_cases:
  assumes "queue_inv q" "threadpool_queue_dequeue q = (d, q')"
  shows "queue_inv q' \<and> (d = None \<and> q' = q \<and> queue_contents q = [] \<or>
    (\<exists>t. d = Some t \<and> queue_contents q = t # queue_contents q'))"
proof (cases "queue_contents q")
  case Nil
  then show ?thesis using tpq.deq_empty assms by fastforce
next
  case (Cons t ts)
  then show ?thesis using tpq.deq_cons [OF assms(1) _ assms(2)] by auto
qed

lemma enqueue_cases:
  assumes "queue_inv q" "threadpool_queue_enqueue q (Some t) = (r, q')"
  shows "queue_inv q' \<and> (r = 0 \<and> queue_contents q' = queue_contents q @ [t] \<or>
    r \<noteq> 0 \<and> q' = q \<and> length (queue_contents q) = THREAD_POOL_QUEUE_SIZE)"
proof (cases "length (queue_contents q) = THREAD_POOL_QUEUE_SIZE")
  case True
  then show ?thesis using tpq.enq_full [OF assms(1) True, of "Some t"] assms by auto
next
  case False
  then show ?thesis using tpq.enq_room [OF assms(1) _ assms(2)] tpq.contents_cap [OF assms(1)] by auto
qed

definition moves :: "('f, 'd) threadpool \<Rightarrow> ('f, 'd) pc \<Rightarrow> ('f, 'd) threadpool \<Rightarrow> ('f, 'd) pc \<Rightarrow> bool"
where
  "moves p c p' c' \<longleftrightarrow>
     queue_inv (free_tasks_queue p') \<and> queue_inv (tasks_queue p') \<and>
     length (tasks p') = length (tasks p) \<and>
     task_move (queue_contents (free_tasks_queue p)) (queue_contents (tasks_queue p)) (holds c)
       (queue_contents (free_tasks_queue p')) (queue_contents (tasks_queue p')) (holds c')"

lemma worker_moves:
  assumes st: "worker_thr_routine i rc p w = Some (p', w')"
    and inv: "queue_inv (free_tasks_queue p)" "queue_inv (tasks_queue p)"
  shows "moves p (Worker w) p' (Worker w')"
proof (cases w)
  case Get_Dequeue
  obtain d q where D: "threadpool_queue_dequeue (tasks_queue p) = (d, q)" by fastforce
  from dequeue_cases [OF inv(2) D] D Get_Dequeue st inv show ?thesis
    by (auto simp: step_defs moves_def task_move_def)
next
  case (Release_Enqueue t)
  obtain r q where E: "threadpool_queue_enqueue (free_tasks_queue p) (Some t) = (r, q)" by fastforce
  from enqueue_cases [OF inv(1) E] E Release_Enqueue st inv show ?thesis
    by (auto simp: step_defs moves_def task_move_def)
qed (use st inv in \<open>auto simp: step_defs moves_def task_move_def split: if_splits option.splits\<close>)

lemma add_moves:
  assumes st: "threadpool_add_task_step i rc p w = Some (p', w')"
    and inv: "queue_inv (free_tasks_queue p)" "queue_inv (tasks_queue p)"
  shows "moves p (Adding w) p' (Adding w')"
proof (cases w)
  case (Add_Dequeue f d)
  obtain d q where D: "threadpool_queue_dequeue (free_tasks_queue p) = (d, q)" by fastforce
  from dequeue_cases [OF inv(1) D] D Add_Dequeue st inv show ?thesis
    by (auto simp: step_defs moves_def task_move_def)
next
  case (Add_Enqueue t)
  obtain r q where E: "threadpool_queue_enqueue (tasks_queue p) (Some t) = (r, q)" by fastforce
  from enqueue_cases [OF inv(2) E] E Add_Enqueue st inv show ?thesis
    by (auto simp: step_defs moves_def task_move_def)
qed (use st inv in \<open>auto simp: step_defs moves_def task_move_def split: if_splits option.splits\<close>)

lemma stop_moves:
  assumes "stop_worker_thr_routines_cb ex i rc p w = Some (p', w')"
    and "queue_inv (free_tasks_queue p)" "queue_inv (tasks_queue p)"
  shows "moves p (Stopping w) p' (Stopping w')"
  using assms by (cases w) (auto simp: step_defs moves_def task_move_def split: if_splits)

lemma tasks_inv_step:
  assumes inv: "tasks_inv s" and st: "pc_step ex i rc (pool s) (pcs s i) = Some (p, c)"
  shows "tasks_inv (s\<lparr>pool := p, pcs := (pcs s)(i := c)\<rparr>)"
proof -
  have q: "queue_inv (free_tasks_queue (pool s))" "queue_inv (tasks_queue (pool s))"
    using inv by (simp_all add: tasks_inv_def)
  have m: "moves (pool s) (pcs s i) p c"
    using st by (cases rule: pc_step_cases) (simp_all add: worker_moves add_moves stop_moves q)
  have "(\<lambda>j. holds (((pcs s)(i := c)) j)) = (\<lambda>j. holds (pcs s j))(i := holds c)" by auto
  with m inv show ?thesis
    unfolding tasks_inv_def moves_def by (auto intro: placed_move)
qed

lemma tasks_inv_held:
  assumes "tasks_inv s" "holds (pcs s i) = Some t"
  shows "t \<notin> set (queue_contents (free_tasks_queue (pool s))) \<and>
    t \<notin> set (queue_contents (tasks_queue (pool s))) \<and> (\<forall>j. holds (pcs s j) = Some t \<longrightarrow> j = i)"
  using assms unfolding tasks_inv_def placed_def by (metis set_append UnCI)

section \<open>Steps of the environment\<close>

text \<open>
  Everything that is not a step of a thread inside the pool: spurious wakeups, calls and returns.
  They touch neither the queues, nor the tasks, nor the mutexes.
\<close>

fun quiet :: "('f, 'd) pc \<Rightarrow> bool" where
  "quiet Idle = True"
| "quiet (Worker c) = False"
| "quiet (Adding c) = (case c of Add_Lock _ _ _ \<Rightarrow> True | Add_Ret _ \<Rightarrow> True | _ \<Rightarrow> False)"
| "quiet (Stopping c) = (c = Stop_Flag)"

lemma quiet_facts: "quiet c \<Longrightarrow> \<not> owns_mutex c \<and> \<not> owns_free_mutex c \<and> holds c = None"
  by (cases c) (auto split: add_pc.splits)

definition same_pool :: "('f, 'd) threadpool \<Rightarrow> ('f, 'd) threadpool \<Rightarrow> bool" where
  "same_pool p p' \<longleftrightarrow>
     tasks_queue p' = tasks_queue p \<and> free_tasks_queue p' = free_tasks_queue p \<and>
     tasks p' = tasks p \<and> thr_arr p' = thr_arr p \<and> num_of_threads p' = num_of_threads p \<and>
     mutex p' = mutex p \<and> free_tasks_mutex p' = free_tasks_mutex p \<and>
     submitted p' = submitted p \<and> executed p' = executed p \<and> freed p' = freed p \<and>
     cond p' \<subseteq> cond p \<and> free_tasks_cond p' \<subseteq> free_tasks_cond p"

definition env_step :: "(int \<Rightarrow> bool) \<Rightarrow> ('f, 'd) sys \<Rightarrow> ('f, 'd) sys \<Rightarrow> bool" where
  "env_step ok s s' \<longleftrightarrow>
     (\<exists>j c. pcs s' = (pcs s)(j := c) \<and> (c = pcs s j \<or> quiet (pcs s j) \<and> quiet c)) \<and>
     same_pool (pool s) (pool s') \<and>
     (stop_flag (pool s') = stop_flag (pool s) \<or>
      stop_flag (pool s') = 1 \<and> (\<exists>rc. ok rc \<and> rc \<noteq> 0))"

lemma env_stepI:
  assumes "pcs s' = (pcs s)(j := c)" "c = pcs s j \<or> quiet (pcs s j) \<and> quiet c"
    "same_pool (pool s) (pool s')"
    "stop_flag (pool s') = stop_flag (pool s) \<or> stop_flag (pool s') = 1 \<and> (\<exists>rc. ok rc \<and> rc \<noteq> 0)"
  shows "env_step ok s s'"
  using assms unfolding env_step_def by blast

lemma reachable_pool_induct [consumes 1, case_names init step env]:
  assumes "reachable ok s"
    and init: "\<And>e n p. threadpool_init e (int n) = Some (Init_Pool p) \<Longrightarrow>
      P \<lparr>pool = p, pcs = (\<lambda>i. if i < n then Worker Get_Enter else Idle)\<rparr>"
    and step: "\<And>s i rc p c. reachable ok s \<Longrightarrow> P s \<Longrightarrow> ok rc \<Longrightarrow>
      pc_step (\<lambda>j. pcs s j = Worker Exited) i rc (pool s) (pcs s i) = Some (p, c) \<Longrightarrow>
      P (s\<lparr>pool := p, pcs := (pcs s)(i := c)\<rparr>)"
    and env: "\<And>s s'. reachable ok s \<Longrightarrow> P s \<Longrightarrow> env_step ok s s' \<Longrightarrow> P s'"
  shows "P s"
  using assms(1)
proof (induction rule: reachable.induct)
  case (start e n p) then show ?case by (rule init)
next
  case (run s rc i s')
  then show ?case using step by (auto elim!: thread_stepE)
next
  case (spurious s i)
  show ?case by (rule env [OF spurious.hyps spurious.IH])
      (rule env_stepI [where j = i and c = "pcs s i"], auto simp: same_pool_def)
next
  case (call_add s i f d b)
  then show ?case
    by (intro env [OF call_add.hyps(1) call_add.IH] env_stepI [where j = i])
      (auto simp: threadpool_add_task_def same_pool_def)
next
  case (add_returns s i v)
  then show ?case
    by (intro env [OF add_returns.hyps(1) add_returns.IH] env_stepI [where j = i and c = Idle])
      (auto simp: same_pool_def)
next
  case (call_free s i rc b p act j)
  then show ?case
    by (intro env [OF call_free.hyps(1) call_free.IH] env_stepI [where j = j])
      (auto simp: threadpool_free_def same_pool_def split: if_splits)
qed

lemma env_step_pcs:
  assumes "env_step ok s s'"
  shows "\<not> quiet (pcs s' i) \<Longrightarrow> pcs s' i = pcs s i" "\<not> quiet (pcs s i) \<Longrightarrow> pcs s' i = pcs s i"
    "quiet (pcs s' i) \<longleftrightarrow> quiet (pcs s i)"
  using assms unfolding env_step_def by (auto split: if_splits)

lemma env_step_holds: "env_step ok s s' \<Longrightarrow> holds (pcs s' i) = holds (pcs s i)"
  using env_step_pcs [of ok s s' i] quiet_facts by metis

lemma start_pool_fields:
  "num_of_threads (start_pool n) = 0" "thr_arr (start_pool n) = replicate (nat n) 0"
  by (simp_all add: start_pool_def)

lemma init_pool:
  fixes p :: "('f, 'd) threadpool"
  assumes "threadpool_init e (int n) = Some (Init_Pool p)"
  shows "tasks_queue p = threadpool_queue_init \<and> free_tasks_queue p = filled_queue \<and>
    tasks p = replicate THREAD_POOL_QUEUE_SIZE threadpool_task_init \<and>
    unat (num_of_threads p) = n \<and> thr_arr p = [0..<n] \<and> stop_flag p = 0 \<and>
    free_tasks_mutex p = None \<and> mutex p = None \<and> free_tasks_cond p = {} \<and> cond p = {} \<and>
    submitted p = [] \<and> executed p = [] \<and> \<not> freed p"
proof -
  have st: "start_threads (create e) (int n) 0 (start_pool (int n)) = Some (0, p)"
    using assms by (auto simp: threadpool_init_eq split: if_splits)
  obtain ta k where p: "p = (start_pool (int n))\<lparr>thr_arr := ta, num_of_threads := k\<rparr>"
    using start_threads_frame [OF st] by auto
  have "\<not> 65535 < int n" using start_threads_wraps [OF st] by auto
  then have "n \<le> 65535" by linarith
  then have "unat (num_of_threads p) = n \<and> thr_arr p = [0..<n]"
    using start_threads_total [of n "start_pool (int n) :: ('f, 'd) threadpool" 0 "create e"] st
    by (auto simp: start_pool_fields)
  with p show ?thesis by (simp add: start_pool_def)
qed

section \<open>The invariants in the reachable states\<close>

lemma env_step_same:
  "env_step ok s s' \<Longrightarrow> same_pool (pool s) (pool s')"
  by (simp add: env_step_def)

lemma env_step_stop: "env_step ok s s' \<Longrightarrow> stop_flag (pool s) \<noteq> 0 \<Longrightarrow> stop_flag (pool s') \<noteq> 0"
  by (auto simp: env_step_def)

lemma mutex_inv_env:
  assumes "mutex_inv s" "env_step ok s s'"
  shows "mutex_inv s'"
proof -
  have "mutex (pool s') = mutex (pool s)" "free_tasks_mutex (pool s') = free_tasks_mutex (pool s)"
    using env_step_same [OF assms(2)] by (simp_all add: same_pool_def)
  moreover have "owns_mutex (pcs s' i) \<or> owns_free_mutex (pcs s' i) \<Longrightarrow> pcs s' i = pcs s i" for i
    using env_step_pcs(1) [OF assms(2), of i] quiet_facts [of "pcs s' i"] by blast
  ultimately show ?thesis using assms(1) unfolding mutex_inv_def by metis
qed

lemma tasks_inv_env: "tasks_inv s \<Longrightarrow> env_step ok s s' \<Longrightarrow> tasks_inv s'"
  unfolding tasks_inv_def using env_step_holds [of ok s s']
  by (simp add: env_step_def same_pool_def)

text \<open>
  Between the test of a queue and the dequeue the mutex is held, so that the queue is still not
  empty when the dequeue runs.
\<close>

definition avail_inv :: "('f, 'd) sys \<Rightarrow> bool" where
  "avail_inv s \<longleftrightarrow>
     (\<forall>i. (pcs s i = Worker Get_Dequeue \<longrightarrow> queue_contents (tasks_queue (pool s)) \<noteq> []) \<and>
          (pcs s i = Worker Get_Stop \<longrightarrow>
             queue_contents (tasks_queue (pool s)) \<noteq> [] \<or> stop_flag (pool s) \<noteq> 0) \<and>
          (\<forall>f d. pcs s i = Adding (Add_Dequeue f d) \<longrightarrow>
             queue_contents (free_tasks_queue (pool s)) \<noteq> []))"

lemma pc_step_avail:
  assumes st: "pc_step ex i rc p c = Some (p', c')"
    and inv: "queue_inv (free_tasks_queue p)" "queue_inv (tasks_queue p)"
    and pre: "c = Worker Get_Stop \<longrightarrow> queue_contents (tasks_queue p) \<noteq> [] \<or> stop_flag p \<noteq> 0"
  shows "(c' = Worker Get_Dequeue \<longrightarrow> queue_contents (tasks_queue p') \<noteq> []) \<and>
     (c' = Worker Get_Stop \<longrightarrow> queue_contents (tasks_queue p') \<noteq> [] \<or> stop_flag p' \<noteq> 0) \<and>
     (\<forall>f d. c' = Adding (Add_Dequeue f d) \<longrightarrow> queue_contents (free_tasks_queue p') \<noteq> [])"
  using st
proof (cases rule: pc_step_cases)
  case (work w w')
  then show ?thesis using pre tpq.is_empty_iff [OF inv(2)]
    by (cases w) (auto simp: step_defs split: if_splits option.splits prod.splits)
next
  case (add a a')
  then show ?thesis using tpq.is_empty_iff [OF inv(1)]
    by (cases a) (auto simp: step_defs split: if_splits option.splits prod.splits)
qed simp

lemma avail_inv_step:
  assumes inv: "avail_inv s" "mutex_inv s" "tasks_inv s"
    and st: "pc_step ex i rc (pool s) (pcs s i) = Some (p, c)"
  shows "avail_inv (s\<lparr>pool := p, pcs := (pcs s)(i := c)\<rparr>)"
proof -
  have me: "(c = Worker Get_Dequeue \<longrightarrow> queue_contents (tasks_queue p) \<noteq> []) \<and>
     (c = Worker Get_Stop \<longrightarrow> queue_contents (tasks_queue p) \<noteq> [] \<or> stop_flag p \<noteq> 0) \<and>
     (\<forall>f d. c = Adding (Add_Dequeue f d) \<longrightarrow> queue_contents (free_tasks_queue p) \<noteq> [])"
    using inv by (intro pc_step_avail [OF st]) (auto simp: avail_inv_def tasks_inv_def)
  have q: "tasks_queue p = tasks_queue (pool s)" "stop_flag (pool s) \<noteq> 0 \<longrightarrow> stop_flag p \<noteq> 0"
    if "owns_mutex (pcs s j)" "j \<noteq> i" for j
    using pc_step_queues [OF st] mutex_inv_unique(1) [OF inv(2), of i j] that by auto
  have f: "free_tasks_queue p = free_tasks_queue (pool s)"
    if "owns_free_mutex (pcs s j)" "j \<noteq> i" for j
    using pc_step_queues [OF st] mutex_inv_unique(2) [OF inv(2), of i j] that by auto
  show ?thesis unfolding avail_inv_def
  proof
    fix j
    show "(pcs (s\<lparr>pool := p, pcs := (pcs s)(i := c)\<rparr>) j = Worker Get_Dequeue \<longrightarrow>
          queue_contents (tasks_queue (pool (s\<lparr>pool := p, pcs := (pcs s)(i := c)\<rparr>))) \<noteq> []) \<and>
       (pcs (s\<lparr>pool := p, pcs := (pcs s)(i := c)\<rparr>) j = Worker Get_Stop \<longrightarrow>
          queue_contents (tasks_queue (pool (s\<lparr>pool := p, pcs := (pcs s)(i := c)\<rparr>))) \<noteq> [] \<or>
          stop_flag (pool (s\<lparr>pool := p, pcs := (pcs s)(i := c)\<rparr>)) \<noteq> 0) \<and>
       (\<forall>f d. pcs (s\<lparr>pool := p, pcs := (pcs s)(i := c)\<rparr>) j = Adding (Add_Dequeue f d) \<longrightarrow>
          queue_contents (free_tasks_queue (pool (s\<lparr>pool := p, pcs := (pcs s)(i := c)\<rparr>))) \<noteq> [])"
    proof (cases "j = i")
      case True then show ?thesis using me by simp
    next
      case False
      then show ?thesis using inv(1) q [of j] f [of j] by (auto simp: avail_inv_def)
    qed
  qed
qed

lemma avail_inv_env:
  assumes "avail_inv s" "env_step ok s s'"
  shows "avail_inv s'"
proof -
  have q: "tasks_queue (pool s') = tasks_queue (pool s)"
    "free_tasks_queue (pool s') = free_tasks_queue (pool s)"
    using env_step_same [OF assms(2)] by (simp_all add: same_pool_def)
  have "pcs s' i = Worker w \<Longrightarrow> pcs s i = Worker w"
    "pcs s' i = Adding (Add_Dequeue f d) \<Longrightarrow> pcs s i = Adding (Add_Dequeue f d)" for i w f d
    using env_step_pcs(1) [OF assms(2), of i] by auto
  then show ?thesis using assms(1) env_step_stop [OF assms(2)] unfolding avail_inv_def q by metis
qed

text \<open>
  The tasks queue holds the latest submissions in order and unchanged: what has been taken from
  it is the rest of the log. A task that is executed was submitted.
\<close>

fun taken :: "('f, 'd) pc \<Rightarrow> nat option" where
  "taken (Worker (Get_Unlock t)) = t"
| "taken (Worker (Loop_Task t)) = t"
| "taken _ = None"

lemma taken_holds: "taken c = Some t \<Longrightarrow> holds c = Some t"
  by (cases c rule: taken.cases) auto

definition fifo :: "('f, 'd) threadpool \<Rightarrow> (tid \<Rightarrow> nat option) \<Rightarrow> bool" where
  "fifo p T \<longleftrightarrow>
     (\<exists>done. submitted p = done @ map (\<lambda>t. tasks p ! t) (queue_contents (tasks_queue p))) \<and>
     set (executed p) \<subseteq> set (submitted p) \<and>
     (\<forall>i t. T i = Some t \<longrightarrow> tasks p ! t \<in> set (submitted p))"

definition fifo_inv :: "('f, 'd) sys \<Rightarrow> bool" where
  "fifo_inv s \<longleftrightarrow> fifo (pool s) (\<lambda>i. taken (pcs s i))"

lemma init_invs:
  assumes "threadpool_init e (int n) = Some (Init_Pool p)"
  defines "s \<equiv> \<lparr>pool = p, pcs = (\<lambda>i. if i < n then Worker Get_Enter else Idle)\<rparr>"
  shows "mutex_inv s" "tasks_inv s" "avail_inv s" "fifo_inv s"
proof -
  note p = init_pool [OF assms(1)]
  show "mutex_inv s" using p by (simp add: s_def mutex_inv_def)
  show "tasks_inv s" using p filled_queue tpq.invar_init
    by (simp add: s_def tasks_inv_def placed_def tpq.contents_init)
  show "avail_inv s" using p by (simp add: s_def avail_inv_def)
  show "fifo_inv s" using p by (simp add: s_def fifo_inv_def fifo_def tpq.contents_init)
qed

text \<open>What a step does to the array of tasks and to the logs: one of five things.\<close>

inductive log_step ::
  "('f, 'd) threadpool \<Rightarrow> ('f, 'd) pc \<Rightarrow> ('f, 'd) threadpool \<Rightarrow> ('f, 'd) pc \<Rightarrow> bool"
for p c p' c' where
  keep: "tasks p' = tasks p \<Longrightarrow> submitted p' = submitted p \<Longrightarrow> executed p' = executed p \<Longrightarrow>
    queue_contents (tasks_queue p') = queue_contents (tasks_queue p) \<Longrightarrow>
    taken c' = None \<or> taken c' = taken c \<Longrightarrow> log_step p c p' c'"
| fill: "tasks p' = (tasks p)[t := x] \<Longrightarrow> submitted p' = submitted p \<Longrightarrow> executed p' = executed p \<Longrightarrow>
    queue_contents (tasks_queue p') = queue_contents (tasks_queue p) \<Longrightarrow>
    holds c = Some t \<Longrightarrow> taken c' = None \<Longrightarrow> log_step p c p' c'"
| take: "tasks p' = tasks p \<Longrightarrow> submitted p' = submitted p \<Longrightarrow> executed p' = executed p \<Longrightarrow>
    queue_contents (tasks_queue p) = t # queue_contents (tasks_queue p') \<Longrightarrow>
    taken c' = Some t \<Longrightarrow> log_step p c p' c'"
| submit: "tasks p' = tasks p \<Longrightarrow> submitted p' = submitted p @ [tasks p ! t] \<Longrightarrow>
    executed p' = executed p \<Longrightarrow>
    queue_contents (tasks_queue p') = queue_contents (tasks_queue p) @ [t] \<Longrightarrow>
    taken c' = None \<Longrightarrow> log_step p c p' c'"
| execute: "tasks p' = tasks p \<Longrightarrow> submitted p' = submitted p \<Longrightarrow>
    executed p' = executed p @ [tasks p ! t] \<Longrightarrow>
    queue_contents (tasks_queue p') = queue_contents (tasks_queue p) \<Longrightarrow>
    taken c = Some t \<Longrightarrow> taken c' = None \<Longrightarrow> log_step p c p' c'"

lemma worker_log:
  assumes st: "worker_thr_routine i rc p w = Some (p', w')" and inv: "queue_inv (tasks_queue p)"
  shows "log_step p (Worker w) p' (Worker w')"
proof (cases w)
  case Get_Dequeue
  obtain d q where D: "threadpool_queue_dequeue (tasks_queue p) = (d, q)" by fastforce
  from dequeue_cases [OF inv D] D Get_Dequeue st show ?thesis
    by (auto simp: step_defs intro: log_step.keep log_step.take)
next
  case (Loop_Task t)
  with st show ?thesis
    by (auto simp: step_defs intro: log_step.keep log_step.execute split: option.splits)
next
  case (Release_Init t)
  with st show ?thesis by (auto simp: step_defs intro: log_step.fill [where t = t])
qed (use st in \<open>auto simp: step_defs intro!: log_step.keep split: if_splits prod.splits\<close>)

lemma add_log:
  assumes st: "threadpool_add_task_step i rc p w = Some (p', w')" and inv: "queue_inv (tasks_queue p)"
  shows "log_step p (Adding w) p' (Adding w')"
proof (cases w)
  case (Add_Enqueue t)
  obtain r q where E: "threadpool_queue_enqueue (tasks_queue p) (Some t) = (r, q)" by fastforce
  show ?thesis
  proof (cases "r = 0")
    case True
    with enqueue_cases [OF inv E] E Add_Enqueue st show ?thesis
      by (intro log_step.submit [where t = t]) (auto simp: step_defs)
  next
    case False
    with enqueue_cases [OF inv E] E Add_Enqueue st show ?thesis
      by (intro log_step.keep) (auto simp: step_defs)
  qed
next
  case (Add_Fill f d t)
  with st show ?thesis by (auto simp: step_defs intro: log_step.fill [where t = t])
qed (use st in \<open>auto simp: step_defs intro!: log_step.keep split: if_splits prod.splits option.splits\<close>)

lemma pc_step_log:
  assumes "pc_step ex i rc p c = Some (p', c')" "queue_inv (tasks_queue p)"
  shows "log_step p c p' c'"
  using assms(1)
proof (cases rule: pc_step_cases)
  case (work w w') then show ?thesis using worker_log assms(2) by blast
next
  case (add w w') then show ?thesis using add_log assms(2) by blast
next
  case (stop w w') then show ?thesis using stop_queues [OF stop(3)] by (simp add: log_step.keep)
qed

lemma fifo_log_step:
  assumes "log_step p c p' c'" "fifo p T" "T i = taken c"
    and frame: "\<And>t. holds c = Some t \<Longrightarrow> t \<notin> set (queue_contents (tasks_queue p)) \<and> (\<forall>j. j \<noteq> i \<longrightarrow> T j \<noteq> Some t)"
  shows "fifo p' (T(i := taken c'))"
  using assms(1)
proof cases
  case keep
  then show ?thesis using assms(2,3) unfolding fifo_def by auto
next
  case (fill t x)
  have "map (\<lambda>u. (tasks p)[t := x] ! u) (queue_contents (tasks_queue p)) =
      map (\<lambda>u. tasks p ! u) (queue_contents (tasks_queue p))"
    using frame [OF fill(5)] by (intro map_cong refl) (metis nth_list_update_neq)
  moreover have "(tasks p)[t := x] ! u = tasks p ! u" if "j \<noteq> i" "T j = Some u" for j u
    using frame [OF fill(5)] that by (metis nth_list_update_neq)
  ultimately show ?thesis using assms(2) fill unfolding fifo_def by auto
next
  case (take t)
  from assms(2) obtain D where "submitted p = D @ map (\<lambda>t. tasks p ! t) (queue_contents (tasks_queue p))"
    unfolding fifo_def by blast
  then have "submitted p' = (D @ [tasks p' ! t]) @ map (\<lambda>t. tasks p' ! t) (queue_contents (tasks_queue p'))"
    using take by simp
  then show ?thesis using assms(2) take unfolding fifo_def by auto
next
  case (submit t)
  then show ?thesis using assms(2) unfolding fifo_def by auto
next
  case (execute t)
  then show ?thesis using assms(2,3) unfolding fifo_def by auto
qed

lemma fifo_inv_step:
  assumes inv: "fifo_inv s" "tasks_inv s" and st: "pc_step ex i rc (pool s) (pcs s i) = Some (p, c)"
  shows "fifo_inv (s\<lparr>pool := p, pcs := (pcs s)(i := c)\<rparr>)"
proof -
  have fr: "t \<notin> set (queue_contents (tasks_queue (pool s))) \<and> (\<forall>j. j \<noteq> i \<longrightarrow> taken (pcs s j) \<noteq> Some t)"
    if "holds (pcs s i) = Some t" for t
    using inv(2) that taken_holds unfolding tasks_inv_def placed_def by fastforce
  have "log_step (pool s) (pcs s i) p c" using pc_step_log [OF st] inv(2) by (simp add: tasks_inv_def)
  then have "fifo p ((\<lambda>j. taken (pcs s j))(i := taken c))"
    by (rule fifo_log_step) (use inv(1) fr in \<open>simp_all add: fifo_inv_def\<close>)
  moreover have "(\<lambda>j. taken (((pcs s)(i := c)) j)) = (\<lambda>j. taken (pcs s j))(i := taken c)" by auto
  ultimately show ?thesis by (simp add: fifo_inv_def)
qed

lemma fifo_inv_env:
  assumes "fifo_inv s" "env_step ok s s'"
  shows "fifo_inv s'"
proof -
  have "quiet c \<Longrightarrow> taken c = None" for c :: "('a, 'b) pc"
    using taken_holds [of c] quiet_facts [of c] by (cases "taken c") auto
  then have "taken (pcs s' i) = taken (pcs s i)" for i
    using env_step_pcs [OF assms(2), of i] by metis
  then show ?thesis using assms(1) env_step_same [OF assms(2)]
    by (simp add: fifo_inv_def fifo_def same_pool_def)
qed

lemma reachable_invs:
  assumes "reachable ok s"
  shows "mutex_inv s \<and> tasks_inv s \<and> avail_inv s \<and> fifo_inv s"
  using assms
proof (induction rule: reachable_pool_induct)
  case (init e n p)
  then show ?case using init_invs by blast
next
  case (step s i rc p c)
  note st = \<open>pc_step _ _ _ _ _ = _\<close>
  show ?case using step.IH
    by (simp add: mutex_inv_step [OF _ st] tasks_inv_step [OF _ st] avail_inv_step [OF _ _ _ st]
        fifo_inv_step [OF _ _ st])
next
  case (env s s')
  then show ?case using mutex_inv_env tasks_inv_env avail_inv_env fifo_inv_env by blast
qed

end
