(* ===== verification/Threadpool_Wakeup.thy ===== *)
theory Threadpool_Wakeup
  imports Threadpool_Safety
begin

text \<open>
  Sleeping and waking, when the pthread calls succeed: a broadcast happens only when a queue
  goes from empty to one element, and that is enough for no thread to sleep while there is
  something for it to do. Then the shutdown: the pool is freed only after its workers have left.
\<close>

abbreviation all_ok :: "int \<Rightarrow> bool" where
  "all_ok rc \<equiv> rc = 0"

abbreviation queued :: "('f, 'd) threadpool \<Rightarrow> nat list" where
  "queued p \<equiv> queue_contents (tasks_queue p)"

abbreviation free_tasks :: "('f, 'd) threadpool \<Rightarrow> nat list" where
  "free_tasks p \<equiv> queue_contents (free_tasks_queue p)"

section \<open>What one step does to the sleepers\<close>

lemma cond_grows:
  assumes "pc_step ex i 0 p c = Some (p', c')" "c \<noteq> Worker Get_Wait"
  shows "cond p' \<subseteq> cond p"
  using assms(1)
proof (cases rule: pc_step_cases)
  case (work w w') then show ?thesis using assms(2)
    by (cases w) (auto simp: step_defs split: if_splits option.splits prod.splits)
next
  case (add w w') then show ?thesis
    by (cases w) (auto simp: step_defs split: if_splits option.splits prod.splits)
next
  case (stop w w') then show ?thesis by (cases w) (auto simp: step_defs split: if_splits)
qed

lemma queued_changes:
  assumes "pc_step ex i 0 p c = Some (p', c')" "c \<noteq> Worker Get_Dequeue" "\<And>t. c \<noteq> Adding (Add_Enqueue t)"
  shows "tasks_queue p' = tasks_queue p"
  using assms(1)
proof (cases rule: pc_step_cases)
  case (work w w') then show ?thesis using assms(2)
    by (cases w) (auto simp: step_defs split: if_splits option.splits prod.splits)
next
  case (add w w') then show ?thesis using assms(3)
    by (cases w) (auto simp: step_defs split: if_splits option.splits prod.splits)
next
  case (stop w w') then show ?thesis by (cases w) (auto simp: step_defs split: if_splits)
qed

lemma size_step:
  assumes "pc_step ex i 0 p (Adding Add_Size) = Some (p', c')" "queue_inv (tasks_queue p)"
    "length (queued p) = 1"
  shows "cond p' = {}"
  using assms tpq.getsize_eq [OF assms(2)] by (auto simp: pc_step_def step_defs)

lemma enqueue_step:
  assumes "pc_step ex i 0 p (Adding (Add_Enqueue t)) = Some (p', c')" "queue_inv (tasks_queue p)"
  shows "queued p' = queued p @ [t] \<and> c' = Adding Add_Size \<or> queued p' = queued p"
proof -
  obtain r q where E: "threadpool_queue_enqueue (tasks_queue p) (Some t) = (r, q)" by fastforce
  from enqueue_cases [OF assms(2) E] E assms(1) show ?thesis
    by (auto simp: pc_step_def step_defs)
qed

lemma wait_step:
  assumes "pc_step ex i 0 p c = Some (p', Worker Get_Wait)" "queue_inv (tasks_queue p)"
  shows "queued p = [] \<and> stop_flag p = 0 \<and> tasks_queue p' = tasks_queue p"
  using assms(1)
proof (cases rule: pc_step_cases)
  case (work w w') then show ?thesis using tpq.is_empty_iff [OF assms(2)]
    by (cases w) (auto simp: step_defs split: if_splits option.splits prod.splits)
qed simp_all

lemma stop_steps:
  "pc_step ex i 0 p c = Some (p', c') \<Longrightarrow> stop_flag p = 0 \<Longrightarrow> stop_flag p' \<noteq> 0 \<Longrightarrow> c' = Stopping Stop_Lock"
  "pc_step ex i 0 p (Stopping Stop_Lock) = Some (p', c') \<Longrightarrow> c' = Stopping Stop_Broadcast"
  "pc_step ex i 0 p (Stopping Stop_Broadcast) = Some (p', c') \<Longrightarrow> cond p' = {}"
proof -
  assume st: "pc_step ex i 0 p c = Some (p', c')" and z: "stop_flag p = 0" "stop_flag p' \<noteq> 0"
  from st show "c' = Stopping Stop_Lock"
  proof (cases rule: pc_step_cases)
    case (work w w') then show ?thesis using worker_queues z by fastforce
  next
    case (add w w') then show ?thesis using add_queues z by fastforce
  next
    case (stop w w') then show ?thesis using z by (cases w) (auto simp: step_defs split: if_splits)
  qed
qed (auto simp: pc_step_def step_defs split: if_splits)

section \<open>No lost wakeup of a worker\<close>

definition wake_inv :: "('f, 'd) sys \<Rightarrow> bool" where
  "wake_inv s \<longleftrightarrow>
     (cond (pool s) \<noteq> {} \<longrightarrow> queued (pool s) = [] \<or>
        length (queued (pool s)) = 1 \<and> (\<exists>j. pcs s j = Adding Add_Size)) \<and>
     (\<forall>i. pcs s i = Worker Get_Wait \<longrightarrow> queued (pool s) = []) \<and>
     (stop_flag (pool s) \<noteq> 0 \<and> (cond (pool s) \<noteq> {} \<or> (\<exists>i. pcs s i = Worker Get_Wait)) \<longrightarrow>
        (\<exists>j. pcs s j = Stopping Stop_Lock \<or> pcs s j = Stopping Stop_Broadcast))"

lemma wake_sleepers_step:
  assumes wake: "wake_inv s" and inv: "mutex_inv s" "tasks_inv s" "avail_inv s"
    and st: "pc_step ex i 0 (pool s) (pcs s i) = Some (p, c)" and slp: "cond p \<noteq> {}"
  shows "queued p = [] \<or> length (queued p) = 1 \<and> (\<exists>j. ((pcs s)(i := c)) j = Adding Add_Size)"
proof -
  note W = wake [unfolded wake_inv_def]
  have qi: "queue_inv (tasks_queue (pool s))" using inv(2) by (simp add: tasks_inv_def)
  have alone: "pcs s j = Adding Add_Size \<Longrightarrow> owns_mutex (pcs s i) \<Longrightarrow> pcs s i = Adding Add_Size" for j
    using mutex_inv_unique(1) [OF inv(1), of i j] by force
  consider "pcs s i = Worker Get_Wait" | t where "pcs s i = Adding (Add_Enqueue t)"
    | "pcs s i = Worker Get_Dequeue" | "pcs s i = Adding Add_Size"
    | "pcs s i \<noteq> Worker Get_Wait" "\<And>t. pcs s i \<noteq> Adding (Add_Enqueue t)"
      "pcs s i \<noteq> Worker Get_Dequeue" "pcs s i \<noteq> Adding Add_Size" by blast
  then show ?thesis
  proof cases
    case 1
    then show ?thesis using W queued_changes [OF st] by auto
  next
    case (2 t)
    then have "cond (pool s) \<noteq> {}" using cond_grows [OF st] slp by auto
    then have "queued (pool s) = []" using W alone 2 by fastforce
    then show ?thesis using enqueue_step [of ex i "pool s" t p c] st 2 qi
      by (auto simp del: length_queue_contents)
  next
    case 3
    then have "cond (pool s) \<noteq> {}" using cond_grows [OF st] slp by auto
    then have "queued (pool s) = []" using W alone 3 by fastforce
    then show ?thesis using inv(3) 3 by (auto simp: avail_inv_def)
  next
    case 4
    then have "cond (pool s) \<noteq> {}" using cond_grows [OF st] slp by auto
    moreover have "length (queued (pool s)) \<noteq> 1" using size_step [of ex i "pool s" p c] st 4 qi slp by auto
    ultimately show ?thesis using W queued_changes [OF st] 4 by auto
  next
    case 5
    then have "cond (pool s) \<noteq> {}" using cond_grows [OF st] slp by auto
    then show ?thesis using W queued_changes [OF st] 5 by (metis fun_upd_other)
  qed
qed

lemma wake_waiting_step:
  assumes wake: "wake_inv s" and inv: "mutex_inv s" "tasks_inv s"
    and st: "pc_step ex i 0 (pool s) (pcs s i) = Some (p, c)"
    and wt: "((pcs s)(i := c)) j = Worker Get_Wait"
  shows "queued p = []"
proof (cases "j = i")
  case True
  then show ?thesis using wait_step [of ex i "pool s" "pcs s i" p] st wt inv(2) by (auto simp: tasks_inv_def)
next
  case False
  then have j: "pcs s j = Worker Get_Wait" "owns_mutex (pcs s j)" using wt by auto
  then have "\<not> owns_mutex (pcs s i)" using mutex_inv_unique(1) [OF inv(1)] False by blast
  then have "tasks_queue p = tasks_queue (pool s)" using pc_step_queues [OF st] by blast
  then show ?thesis using wake j by (auto simp: wake_inv_def)
qed

lemma wake_stop_step:
  assumes wake: "wake_inv s" and inv: "mutex_inv s" "tasks_inv s"
    and st: "pc_step ex i 0 (pool s) (pcs s i) = Some (p, c)"
    and flag: "stop_flag p \<noteq> 0"
    and slp: "cond p \<noteq> {} \<or> (\<exists>j. ((pcs s)(i := c)) j = Worker Get_Wait)"
  shows "\<exists>j. ((pcs s)(i := c)) j = Stopping Stop_Lock \<or> ((pcs s)(i := c)) j = Stopping Stop_Broadcast"
proof (cases "stop_flag (pool s) = 0")
  case True
  then show ?thesis using stop_steps(1) [OF st] flag by (metis fun_upd_same)
next
  case F: False
  have qi: "queue_inv (tasks_queue (pool s))" using inv(2) by (simp add: tasks_inv_def)
  have "c \<noteq> Worker Get_Wait" using wait_step [of ex i "pool s" "pcs s i" p] st qi F by auto
  then have old: "cond (pool s) \<noteq> {} \<or> (\<exists>j. pcs s j = Worker Get_Wait)"
    using slp cond_grows [OF st] by (metis fun_upd_apply subset_empty)
  then obtain j where j: "pcs s j = Stopping Stop_Lock \<or> pcs s j = Stopping Stop_Broadcast"
    using wake F unfolding wake_inv_def by blast
  show ?thesis
  proof (cases "j = i")
    case False
    then show ?thesis using j by (metis fun_upd_other)
  next
    case True
    show ?thesis
    proof (cases "pcs s i = Stopping Stop_Lock")
      case True
      then show ?thesis using stop_steps(2) [of ex i "pool s" p c] st by (metis fun_upd_same)
    next
      case False
      then have b: "pcs s i = Stopping Stop_Broadcast" using j True by auto
      then have "cond p = {}" using stop_steps(3) [of ex i "pool s" p c] st by auto
      then obtain k where "k \<noteq> i" "pcs s k = Worker Get_Wait"
        using slp \<open>c \<noteq> Worker Get_Wait\<close> by (metis fun_upd_apply)
      then show ?thesis using mutex_inv_unique(1) [OF inv(1), of i k] b by auto
    qed
  qed
qed

lemma wake_inv_step:
  assumes "wake_inv s" "mutex_inv s" "tasks_inv s" "avail_inv s"
    and "pc_step ex i 0 (pool s) (pcs s i) = Some (p, c)"
  shows "wake_inv (s\<lparr>pool := p, pcs := (pcs s)(i := c)\<rparr>)"
  unfolding wake_inv_def
  using wake_sleepers_step [OF assms] wake_waiting_step [OF assms(1-3,5)] wake_stop_step [OF assms(1-3,5)]
  by simp

section \<open>No lost wakeup of a caller that waits for a free task\<close>

lemma free_cond_grows:
  assumes "pc_step ex i 0 p c = Some (p', c')" "\<And>f d b. c \<noteq> Adding (Add_Wait f d b)"
  shows "free_tasks_cond p' \<subseteq> free_tasks_cond p"
  using assms(1)
proof (cases rule: pc_step_cases)
  case (work w w') then show ?thesis
    by (cases w) (auto simp: step_defs split: if_splits option.splits prod.splits)
next
  case (add w w') then show ?thesis using assms(2)
    by (cases w) (auto simp: step_defs split: if_splits option.splits prod.splits)
next
  case (stop w w') then show ?thesis by (cases w) (auto simp: step_defs split: if_splits)
qed

lemma free_changes:
  assumes "pc_step ex i 0 p c = Some (p', c')" "\<And>f d. c \<noteq> Adding (Add_Dequeue f d)"
    "\<And>t. c \<noteq> Worker (Release_Enqueue t)"
  shows "free_tasks_queue p' = free_tasks_queue p"
  using assms(1)
proof (cases rule: pc_step_cases)
  case (work w w') then show ?thesis using assms(3)
    by (cases w) (auto simp: step_defs split: if_splits option.splits prod.splits)
next
  case (add w w') then show ?thesis using assms(2)
    by (cases w) (auto simp: step_defs split: if_splits option.splits prod.splits)
next
  case (stop w w') then show ?thesis by (cases w) (auto simp: step_defs split: if_splits)
qed

lemma release_size_step:
  assumes "pc_step ex i 0 p (Worker Release_Size) = Some (p', c')" "queue_inv (free_tasks_queue p)"
    "length (free_tasks p) = 1"
  shows "free_tasks_cond p' = {}"
  using assms tpq.getsize_eq [OF assms(2)] by (auto simp: pc_step_def step_defs)

lemma release_step:
  assumes "pc_step ex i 0 p (Worker (Release_Enqueue t)) = Some (p', c')" "queue_inv (free_tasks_queue p)"
  shows "free_tasks p' = free_tasks p @ [t] \<and> c' = Worker Release_Size \<or> free_tasks p' = free_tasks p"
proof -
  obtain r q where E: "threadpool_queue_enqueue (free_tasks_queue p) (Some t) = (r, q)" by fastforce
  from enqueue_cases [OF assms(2) E] E assms(1) show ?thesis
    by (auto simp: pc_step_def step_defs)
qed

lemma add_wait_step:
  assumes "pc_step ex i 0 p c = Some (p', Adding (Add_Wait f d b))" "queue_inv (free_tasks_queue p)"
  shows "free_tasks p = [] \<and> free_tasks_queue p' = free_tasks_queue p"
  using assms(1)
proof (cases rule: pc_step_cases)
  case (add w w') then show ?thesis using tpq.is_empty_iff [OF assms(2)]
    by (cases w) (auto simp: step_defs split: if_splits option.splits prod.splits)
qed simp_all

definition free_wake_inv :: "('f, 'd) sys \<Rightarrow> bool" where
  "free_wake_inv s \<longleftrightarrow>
     (free_tasks_cond (pool s) \<noteq> {} \<longrightarrow> free_tasks (pool s) = [] \<or>
        length (free_tasks (pool s)) = 1 \<and> (\<exists>j. pcs s j = Worker Release_Size)) \<and>
     (\<forall>i f d b. pcs s i = Adding (Add_Wait f d b) \<longrightarrow> free_tasks (pool s) = [])"

lemma free_sleepers_step:
  assumes wake: "free_wake_inv s" and inv: "mutex_inv s" "tasks_inv s" "avail_inv s"
    and st: "pc_step ex i 0 (pool s) (pcs s i) = Some (p, c)" and slp: "free_tasks_cond p \<noteq> {}"
  shows "free_tasks p = [] \<or> length (free_tasks p) = 1 \<and> (\<exists>j. ((pcs s)(i := c)) j = Worker Release_Size)"
proof -
  note W = wake [unfolded free_wake_inv_def]
  have qi: "queue_inv (free_tasks_queue (pool s))" using inv(2) by (simp add: tasks_inv_def)
  have alone: "pcs s j = Worker Release_Size \<Longrightarrow> owns_free_mutex (pcs s i) \<Longrightarrow> pcs s i = Worker Release_Size"
    for j using mutex_inv_unique(2) [OF inv(1), of i j] by force
  consider f d b where "pcs s i = Adding (Add_Wait f d b)" | t where "pcs s i = Worker (Release_Enqueue t)"
    | f d where "pcs s i = Adding (Add_Dequeue f d)" | "pcs s i = Worker Release_Size"
    | "\<And>f d b. pcs s i \<noteq> Adding (Add_Wait f d b)" "\<And>t. pcs s i \<noteq> Worker (Release_Enqueue t)"
      "\<And>f d. pcs s i \<noteq> Adding (Add_Dequeue f d)" "pcs s i \<noteq> Worker Release_Size" by blast
  then show ?thesis
  proof cases
    case 1
    then show ?thesis using W free_changes [OF st] by auto
  next
    case (2 t)
    then have "free_tasks_cond (pool s) \<noteq> {}" using free_cond_grows [OF st] slp by auto
    then have "free_tasks (pool s) = []" using W alone 2 by fastforce
    then show ?thesis using release_step [of ex i "pool s" t p c] st 2 qi
      by (auto simp del: length_queue_contents)
  next
    case (3 f d)
    then have "free_tasks_cond (pool s) \<noteq> {}" using free_cond_grows [OF st] slp by auto
    then have "free_tasks (pool s) = []" using W alone 3 by fastforce
    then show ?thesis using inv(3) 3 by (auto simp: avail_inv_def)
  next
    case 4
    then have "free_tasks_cond (pool s) \<noteq> {}" using free_cond_grows [OF st] slp by auto
    moreover have "length (free_tasks (pool s)) \<noteq> 1"
      using release_size_step [of ex i "pool s" p c] st 4 qi slp by auto
    ultimately show ?thesis using W free_changes [OF st] 4 by auto
  next
    case 5
    then have "free_tasks_cond (pool s) \<noteq> {}" using free_cond_grows [OF st] slp by auto
    then show ?thesis using W free_changes [OF st] 5 by (metis fun_upd_other)
  qed
qed

lemma free_waiting_step:
  assumes wake: "free_wake_inv s" and inv: "mutex_inv s" "tasks_inv s"
    and st: "pc_step ex i 0 (pool s) (pcs s i) = Some (p, c)"
    and wt: "((pcs s)(i := c)) j = Adding (Add_Wait f d b)"
  shows "free_tasks p = []"
proof (cases "j = i")
  case True
  then show ?thesis using add_wait_step [of ex i "pool s" "pcs s i" p] st wt inv(2) by (auto simp: tasks_inv_def)
next
  case False
  then have j: "pcs s j = Adding (Add_Wait f d b)" "owns_free_mutex (pcs s j)" using wt by auto
  then have "\<not> owns_free_mutex (pcs s i)" using mutex_inv_unique(2) [OF inv(1)] False by blast
  then have "free_tasks_queue p = free_tasks_queue (pool s)" using pc_step_queues [OF st] by blast
  then show ?thesis using wake j by (auto simp: free_wake_inv_def)
qed

lemma free_wake_inv_step:
  assumes "free_wake_inv s" "mutex_inv s" "tasks_inv s" "avail_inv s"
    and "pc_step ex i 0 (pool s) (pcs s i) = Some (p, c)"
  shows "free_wake_inv (s\<lparr>pool := p, pcs := (pcs s)(i := c)\<rparr>)"
  unfolding free_wake_inv_def
  using free_sleepers_step [OF assms] free_waiting_step [OF assms(1-3,5)]
  by simp

section \<open>Shutdown\<close>

text \<open>
  The workers are the threads of \<open>thr_arr\<close>; the joins go through the array in order, so that the
  thread that frees the pool has seen all of them exit.
\<close>

definition join_inv :: "('f, 'd) sys \<Rightarrow> bool" where
  "join_inv s \<longleftrightarrow>
     unat (num_of_threads (pool s)) = length (thr_arr (pool s)) \<and>
     (\<forall>i w. pcs s i = Worker w \<longrightarrow> i \<in> set (thr_arr (pool s))) \<and>
     (\<forall>j k m. pcs s j = Stopping (Stop_Join k) \<longrightarrow> m < k \<longrightarrow> m < length (thr_arr (pool s)) \<longrightarrow>
        pcs s (thr_arr (pool s) ! m) = Worker Exited) \<and>
     (\<forall>j i w. pcs s j = Stopping Stop_Free \<longrightarrow> pcs s i = Worker w \<longrightarrow> w = Exited) \<and>
     (freed (pool s) \<longrightarrow> (\<forall>i w. pcs s i = Worker w \<longrightarrow> w = Exited))"

lemma pc_step_threads:
  assumes "pc_step ex i rc p c = Some (p', c')"
  shows "thr_arr p' = thr_arr p \<and> num_of_threads p' = num_of_threads p \<and>
    c \<noteq> Worker Exited \<and> (\<exists>w. c' = Worker w) = (\<exists>w. c = Worker w) \<and>
    (freed p' \<longrightarrow> freed p \<or> c = Stopping Stop_Free)"
  using assms
proof (cases rule: pc_step_cases)
  case (work w w') then show ?thesis
    by (cases w) (auto simp: step_defs split: if_splits option.splits prod.splits)
next
  case (add w w') then show ?thesis
    by (cases w) (auto simp: step_defs split: if_splits option.splits prod.splits)
next
  case (stop w w') then show ?thesis by (cases w) (auto simp: step_defs split: if_splits)
qed

lemma join_step:
  "pc_step ex i 0 p c = Some (p', Stopping (Stop_Join k)) \<Longrightarrow>
     k = 0 \<or> c = Stopping (Stop_Join (k - 1)) \<and> ex (thr_arr p ! (k - 1))"
  "pc_step ex i 0 p c = Some (p', Stopping Stop_Free) \<Longrightarrow>
     \<exists>k. c = Stopping (Stop_Join k) \<and> unat (num_of_threads p) \<le> k"
  by (cases c; auto simp: pc_step_def step_defs split: stop_pc.splits if_splits)+

lemma join_inv_step:
  assumes inv: "join_inv s"
    and st: "pc_step (\<lambda>j. pcs s j = Worker Exited) i 0 (pool s) (pcs s i) = Some (p, c)"
  shows "join_inv (s\<lparr>pool := p, pcs := (pcs s)(i := c)\<rparr>)"
proof -
  let ?n = "length (thr_arr (pool s))"
  note J = inv [unfolded join_inv_def]
  note T = pc_step_threads [OF st]
  have stay: "((pcs s)(i := c)) j = Worker Exited" if "pcs s j = Worker Exited" for j
    using T that by auto
  have old: "\<exists>w. pcs s j = Worker w" if "((pcs s)(i := c)) j = Worker w'" for j w'
    using T that by (auto split: if_splits)
  have joined: "pcs s (thr_arr (pool s) ! m) = Worker Exited"
    if jn: "c = Stopping (Stop_Join k)" "m < k" "m < ?n" for k m
  proof -
    have "pcs s i = Stopping (Stop_Join (k - 1)) \<and> pcs s (thr_arr (pool s) ! (k - 1)) = Worker Exited"
      using join_step(1) [OF st [unfolded jn(1)]] jn(2) by auto
    moreover have "m = k - 1 \<or> m < k - 1" using jn(2) by linarith
    ultimately show ?thesis using J jn(3) by metis
  qed
  have all: "pcs s j = Worker Exited" if jn: "pcs s i = Stopping (Stop_Join k)" "?n \<le> k" "pcs s j = Worker w"
    for j k w
  proof -
    obtain m where "m < ?n" "thr_arr (pool s) ! m = j" using J jn(3) by (metis in_set_conv_nth)
    then show ?thesis using J jn by (metis less_le_trans)
  qed
  have free: "pcs s j = Worker Exited" if "c = Stopping Stop_Free" "pcs s j = Worker w" for j w
    using join_step(2) [of _ i "pool s" "pcs s i" p] st that J all by metis
  show ?thesis unfolding join_inv_def
  proof (intro conjI allI impI)
    show "unat (num_of_threads (pool (s\<lparr>pool := p, pcs := (pcs s)(i := c)\<rparr>))) =
        length (thr_arr (pool (s\<lparr>pool := p, pcs := (pcs s)(i := c)\<rparr>)))" using J T by simp
  next
    fix j w assume "pcs (s\<lparr>pool := p, pcs := (pcs s)(i := c)\<rparr>) j = Worker w"
    then show "j \<in> set (thr_arr (pool (s\<lparr>pool := p, pcs := (pcs s)(i := c)\<rparr>)))"
      using old [of j w] J T by auto
  next
    fix j k m
    assume "pcs (s\<lparr>pool := p, pcs := (pcs s)(i := c)\<rparr>) j = Stopping (Stop_Join k)" "m < k"
      "m < length (thr_arr (pool (s\<lparr>pool := p, pcs := (pcs s)(i := c)\<rparr>)))"
    then have "pcs s (thr_arr (pool s) ! m) = Worker Exited"
      using joined [of k m] J T by (cases "j = i") auto
    then show "pcs (s\<lparr>pool := p, pcs := (pcs s)(i := c)\<rparr>)
        (thr_arr (pool (s\<lparr>pool := p, pcs := (pcs s)(i := c)\<rparr>)) ! m) = Worker Exited"
      using stay T by simp
  next
    fix j k w
    assume "pcs (s\<lparr>pool := p, pcs := (pcs s)(i := c)\<rparr>) j = Stopping Stop_Free"
      and k: "pcs (s\<lparr>pool := p, pcs := (pcs s)(i := c)\<rparr>) k = Worker w"
    then have "pcs s k = Worker Exited"
      using old [of k w] free [of k] J by (cases "j = i") auto
    then show "w = Exited" using stay [of k] k by simp
  next
    fix k w
    assume "freed (pool (s\<lparr>pool := p, pcs := (pcs s)(i := c)\<rparr>))"
      and k: "pcs (s\<lparr>pool := p, pcs := (pcs s)(i := c)\<rparr>) k = Worker w"
    then have "pcs s k = Worker Exited" using old [of k w] J T by auto
    then show "w = Exited" using stay [of k] k by simp
  qed
qed

section \<open>The invariants in the reachable states\<close>

lemma wake_inv_env:
  assumes "wake_inv s" "env_step all_ok s s'"
  shows "wake_inv s'"
proof -
  have q: "tasks_queue (pool s') = tasks_queue (pool s)" "cond (pool s') \<subseteq> cond (pool s)"
    using env_step_same [OF assms(2)] by (simp_all add: same_pool_def)
  have f: "stop_flag (pool s') = stop_flag (pool s)" using assms(2) by (auto simp: env_step_def)
  have "pcs s' i = Worker Get_Wait \<longleftrightarrow> pcs s i = Worker Get_Wait"
    "pcs s i = Adding Add_Size \<Longrightarrow> pcs s' i = Adding Add_Size"
    "pcs s i = Stopping Stop_Lock \<Longrightarrow> pcs s' i = Stopping Stop_Lock"
    "pcs s i = Stopping Stop_Broadcast \<Longrightarrow> pcs s' i = Stopping Stop_Broadcast" for i
    using env_step_pcs(1,2) [OF assms(2), of i] by auto
  then show ?thesis using assms(1) q unfolding wake_inv_def f by (metis subset_empty)
qed

lemma free_wake_inv_env:
  assumes "free_wake_inv s" "env_step ok s s'"
  shows "free_wake_inv s'"
proof -
  have q: "free_tasks_queue (pool s') = free_tasks_queue (pool s)"
    "free_tasks_cond (pool s') \<subseteq> free_tasks_cond (pool s)"
    using env_step_same [OF assms(2)] by (simp_all add: same_pool_def)
  have "pcs s' i = Adding (Add_Wait f d b) \<longleftrightarrow> pcs s i = Adding (Add_Wait f d b)"
    "pcs s i = Worker Release_Size \<Longrightarrow> pcs s' i = Worker Release_Size" for i f d b
    using env_step_pcs(1,2) [OF assms(2), of i] by auto
  then show ?thesis using assms(1) q unfolding free_wake_inv_def by (metis subset_empty)
qed

lemma join_inv_env:
  assumes "join_inv s" "env_step ok s s'"
  shows "join_inv s'"
proof -
  have q: "thr_arr (pool s') = thr_arr (pool s)" "num_of_threads (pool s') = num_of_threads (pool s)"
    "freed (pool s') = freed (pool s)"
    using env_step_same [OF assms(2)] by (simp_all add: same_pool_def)
  have "pcs s' i = Worker w \<longleftrightarrow> pcs s i = Worker w"
    "pcs s' i = Stopping (Stop_Join k) \<longleftrightarrow> pcs s i = Stopping (Stop_Join k)"
    "pcs s' i = Stopping Stop_Free \<longleftrightarrow> pcs s i = Stopping Stop_Free" for i w k
    using env_step_pcs(1,2) [OF assms(2), of i] by auto
  then show ?thesis using assms(1) unfolding join_inv_def q by simp
qed

lemma reachable_ok_invs:
  assumes "reachable all_ok s"
  shows "wake_inv s \<and> free_wake_inv s \<and> join_inv s"
  using assms
proof (induction rule: reachable_pool_induct)
  case (init e n p)
  then show ?case using init_pool [OF init]
    by (simp add: wake_inv_def free_wake_inv_def join_inv_def)
next
  case (step s i rc p c)
  then have st: "pc_step (\<lambda>j. pcs s j = Worker Exited) i 0 (pool s) (pcs s i) = Some (p, c)" by simp
  have "mutex_inv s" "tasks_inv s" "avail_inv s" using reachable_invs [OF step.hyps(1)] by simp_all
  then show ?case using step.IH wake_inv_step [OF _ _ _ _ st] free_wake_inv_step [OF _ _ _ _ st]
      join_inv_step [OF _ st] by simp
next
  case (env s s')
  then show ?case using wake_inv_env free_wake_inv_env join_inv_env by blast
qed

end
