(* ===== verification/Threadpool_Correct.thy ===== *)
theory Threadpool_Correct
  imports Threadpool_Wakeup
begin

text \<open>
  The properties of the thread pool, read off the invariants, and a small run of a pool with
  two workers at which they are instantiated.
\<close>

section \<open>A run of a pool with two workers\<close>

definition demo_env :: init_env where
  "demo_env = \<lparr>malloc_pool = True, free_tasks_mutex_init = 0, mutex_init = 0, free_tasks_cond_init = 0,
     cond_init = 0, malloc_thr_arr = True, create = (\<lambda>_. 0)\<rparr>"

definition demo_pool :: "(nat, nat) threadpool" where
  "demo_pool = (start_pool 2)\<lparr>thr_arr := [0, 1], num_of_threads := 2\<rparr>"

lemma demo_init: "threadpool_init demo_env (int 2) = Some (Init_Pool demo_pool)"
proof -
  let ?q = "\<lambda>ta k. (start_pool 2 :: (nat, nat) threadpool)\<lparr>thr_arr := ta, num_of_threads := k\<rparr>"
  have "start_threads (\<lambda>_. 0) 2 2 (?q [0, 1] 2) = Some (0, ?q [0, 1] 2)"
    by (subst start_threads.simps) simp
  then have "start_threads (\<lambda>_. 0) 2 1 (?q [0, 0] 1) = Some (0, ?q [0, 1] 2)"
    by (subst start_threads.simps) (simp add: numeral_2_eq_2)
  then have "start_threads (\<lambda>_. 0) 2 0 (start_pool 2) = Some (0, ?q [0, 1] 2)"
    by (subst start_threads.simps) (simp add: start_pool_fields eval_nat_numeral)
  then show ?thesis
    by (simp add: threadpool_init_eq init_env_ok_def demo_env_def demo_pool_def)
qed

definition demo_start :: "(nat, nat) sys" where
  "demo_start = \<lparr>pool = demo_pool, pcs = (\<lambda>i. if i < 2 then Worker Get_Enter else Idle)\<rparr>"

lemma demo_start_reachable: "reachable ok demo_start"
  unfolding demo_start_def using demo_init by (rule reachable.start)

text \<open>Thread 2 has called \<open>threadpool_add_task\<close> and is about to take a free task.\<close>

definition demo_adding :: "(nat, nat) sys" where
  "demo_adding = \<lparr>pool = demo_pool\<lparr>free_tasks_mutex := Some 2\<rparr>,
     pcs = (pcs demo_start)(2 := Adding (Add_Dequeue (Some 7) (Some 8)))\<rparr>"

lemma demo_pool_fields [simp]:
  "free_tasks_queue demo_pool = filled_queue" "free_tasks_mutex demo_pool = None"
  "tasks_queue demo_pool = threadpool_queue_init" "mutex demo_pool = None" "submitted demo_pool = []"
  "cond demo_pool = {}" "free_tasks_cond demo_pool = {}" "stop_flag demo_pool = 0"
  "tasks demo_pool \<noteq> []"
  by (simp_all add: demo_pool_def start_pool_def)

lemma demo_adding_reachable:
  assumes "ok 0"
  shows "reachable ok demo_adding"
proof -
  let ?at = "\<lambda>p c. \<lparr>pool = p, pcs = (pcs demo_start)(2 := Adding c)\<rparr>"
  let ?locked = "demo_pool\<lparr>free_tasks_mutex := Some 2\<rparr>"
  have "reachable ok (?at demo_pool (Add_Lock (Some 7) (Some 8) True))"
    using reachable.call_add [OF demo_start_reachable, of 2 ok "Some 7" "Some 8" 1]
    by (simp add: demo_start_def threadpool_add_task_def)
  then have "reachable ok (?at ?locked (Add_While (Some 7) (Some 8) True))"
    by (rule reachable.run [where rc = 0 and i = 2])
      (simp_all add: assms thread_step_def threadpool_add_task_step_def)
  then show ?thesis unfolding demo_adding_def
    by (rule reachable.run [where rc = 0 and i = 2])
      (simp_all add: assms thread_step_def threadpool_add_task_step_def tpq.is_empty_iff filled_queue)
qed

text \<open>A system with workers 0 and 1 and a client thread 2, and its steps.\<close>

definition at3 :: "('f, 'd) threadpool \<Rightarrow> ('f, 'd) pc \<Rightarrow> ('f, 'd) pc \<Rightarrow> ('f, 'd) pc \<Rightarrow> ('f, 'd) sys" where
  "at3 p c0 c1 c2 = \<lparr>pool = p, pcs = (\<lambda>i. if i = 0 then c0 else if i = 1 then c1 else if i = 2 then c2 else Idle)\<rparr>"

lemma demo_start_at3: "demo_start = at3 demo_pool (Worker Get_Enter) (Worker Get_Enter) Idle"
  by (auto simp: demo_start_def at3_def fun_eq_iff)

lemma at3_upd:
  "\<lparr>pool = p, pcs = (pcs (at3 q c0 c1 c2))(0 := c)\<rparr> = at3 p c c1 c2"
  "\<lparr>pool = p, pcs = (pcs (at3 q c0 c1 c2))(1 := c)\<rparr> = at3 p c0 c c2"
  "\<lparr>pool = p, pcs = (pcs (at3 q c0 c1 c2))(2 := c)\<rparr> = at3 p c0 c1 c"
  by (auto simp: at3_def fun_eq_iff)

lemma at3_sel:
  "pool (at3 p c0 c1 c2) = p" "pcs (at3 p c0 c1 c2) 2 = c2"
  "(at3 q c0 c1 c2)\<lparr>pcs := (pcs (at3 q c0 c1 c2))(2 := c)\<rparr> = at3 q c0 c1 c"
  "(at3 q c0 c1 c2)\<lparr>pool := p, pcs := (pcs (at3 q c0 c1 c2))(2 := c)\<rparr> = at3 p c0 c1 c"
  by (auto simp: at3_def fun_eq_iff)

lemma reachable_at3:
  "reachable all_ok (at3 p (Worker c) c1 c2) \<Longrightarrow> worker_thr_routine 0 0 p c = Some (p', c') \<Longrightarrow>
     reachable all_ok (at3 p' (Worker c') c1 c2)"
  "reachable all_ok (at3 p c0 (Worker c) c2) \<Longrightarrow> worker_thr_routine 1 0 p c = Some (p', c') \<Longrightarrow>
     reachable all_ok (at3 p' c0 (Worker c') c2)"
  "reachable all_ok (at3 p c0 c1 (Adding a)) \<Longrightarrow> threadpool_add_task_step 2 0 p a = Some (p', a') \<Longrightarrow>
     reachable all_ok (at3 p' c0 c1 (Adding a'))"
  "reachable all_ok (at3 p c0 c1 (Stopping t)) \<Longrightarrow>
     stop_worker_thr_routines_cb (\<lambda>j. pcs (at3 p c0 c1 (Stopping t)) j = Worker Exited) 2 0 p t = Some (p', t') \<Longrightarrow>
     reachable all_ok (at3 p' c0 c1 (Stopping t'))"
proof -
  assume "reachable all_ok (at3 p (Worker c) c1 c2)" "worker_thr_routine 0 0 p c = Some (p', c')"
  then show "reachable all_ok (at3 p' (Worker c') c1 c2)"
    using reachable.run [where i = 0 and rc = 0 and ok = all_ok and s' = "at3 p' (Worker c') c1 c2"]
    by (fastforce simp: thread_step_def at3_def fun_eq_iff)
next
  assume "reachable all_ok (at3 p c0 (Worker c) c2)" "worker_thr_routine 1 0 p c = Some (p', c')"
  then show "reachable all_ok (at3 p' c0 (Worker c') c2)"
    using reachable.run [where i = 1 and rc = 0 and ok = all_ok and s' = "at3 p' c0 (Worker c') c2"]
    by (fastforce simp: thread_step_def at3_def fun_eq_iff)
next
  assume "reachable all_ok (at3 p c0 c1 (Adding a))" "threadpool_add_task_step 2 0 p a = Some (p', a')"
  then show "reachable all_ok (at3 p' c0 c1 (Adding a'))"
    using reachable.run [where i = 2 and rc = 0 and ok = all_ok and s' = "at3 p' c0 c1 (Adding a')"]
    by (fastforce simp: thread_step_def at3_def fun_eq_iff)
next
  assume "reachable all_ok (at3 p c0 c1 (Stopping t))"
    "stop_worker_thr_routines_cb (\<lambda>j. pcs (at3 p c0 c1 (Stopping t)) j = Worker Exited) 2 0 p t = Some (p', t')"
  then show "reachable all_ok (at3 p' c0 c1 (Stopping t'))"
    using reachable.run [where i = 2 and rc = 0 and ok = all_ok and s' = "at3 p' c0 c1 (Stopping t')"]
    by (fastforce simp: thread_step_def at3_def fun_eq_iff)
qed

text \<open>Worker 0 finds no task and sleeps.\<close>

definition demo_sleeping :: "(nat, nat) sys" where
  "demo_sleeping = at3 (demo_pool\<lparr>cond := {0}\<rparr>) (Worker Get_Waiting) (Worker Get_Enter) Idle"

lemma demo_sleeping_reachable: "reachable all_ok demo_sleeping"
proof -
  let ?S = "\<lambda>p c. at3 p (Worker c) (Worker Get_Enter) Idle"
  have a: "reachable all_ok (?S demo_pool Get_Enter)"
    using demo_start_reachable by (simp add: demo_start_at3)
  note st = worker_thr_routine_def threadpool_task_get_task_def
  have b: "reachable all_ok (?S demo_pool Get_Lock)"
    by (rule reachable_at3(1) [OF a]) (simp add: st)
  have c: "reachable all_ok (?S (demo_pool\<lparr>mutex := Some 0\<rparr>) Get_While)"
    by (rule reachable_at3(1) [OF b]) (simp add: st)
  have d: "reachable all_ok (?S (demo_pool\<lparr>mutex := Some 0\<rparr>) Get_Wait)"
    by (rule reachable_at3(1) [OF c]) (simp add: st threadpool_queue_is_empty_def threadpool_queue_init_def)
  have "reachable all_ok (?S (demo_pool\<lparr>mutex := None, cond := {0}\<rparr>) Get_Waiting)"
    by (rule reachable_at3(1) [OF d]) (simp add: st)
  moreover have "demo_pool\<lparr>mutex := None, cond := {0}\<rparr> = demo_pool\<lparr>cond := {0}\<rparr>"
    by (simp add: demo_pool_def start_pool_def)
  ultimately show ?thesis by (simp add: demo_sleeping_def)
qed

text \<open>Thread 2 frees the pool, which waits for the two workers to leave.\<close>

lemma demo_freed:
  "\<exists>s :: (nat, nat) sys. reachable all_ok s \<and> freed (pool s) \<and> pcs s 0 = Worker Exited"
proof -
  let ?W = "Worker Get_Enter" and ?X = "Worker Exited" and ?f = "demo_pool\<lparr>stop_flag := 1\<rparr>"
  have a: "reachable all_ok (at3 demo_pool ?W ?W (Stopping Stop_Flag))"
    using reachable.call_free [OF demo_start_reachable, of 2 all_ok 0 1 demo_pool Free_Inline 2]
    by (simp add: demo_start_at3 at3_sel at3_upd threadpool_free_def)
  note st = stop_worker_thr_routines_cb_def worker_thr_routine_def threadpool_task_get_task_def
  have b: "reachable all_ok (at3 ?f ?W ?W (Stopping Stop_Lock))"
    by (rule reachable_at3(4) [OF a]) (simp add: st)
  have c: "reachable all_ok (at3 (?f\<lparr>mutex := Some 2\<rparr>) ?W ?W (Stopping Stop_Broadcast))"
    by (rule reachable_at3(4) [OF b]) (simp add: st demo_pool_def start_pool_def)
  have d: "reachable all_ok (at3 (?f\<lparr>mutex := Some 2\<rparr>) ?W ?W (Stopping Stop_Unlock))"
    by (rule reachable_at3(4) [OF c]) (simp add: st)
  have e: "reachable all_ok (at3 (?f\<lparr>mutex := None\<rparr>) ?W ?W (Stopping (Stop_Join 0)))"
    by (rule reachable_at3(4) [OF d]) (simp add: st)
  have "reachable all_ok (at3 (?f\<lparr>mutex := None\<rparr>) (Worker (Loop_Task None)) ?W (Stopping (Stop_Join 0)))"
    by (rule reachable_at3(1) [OF e]) (simp add: st)
  then have "reachable all_ok (at3 (?f\<lparr>mutex := None\<rparr>) ?X ?W (Stopping (Stop_Join 0)))"
    by (rule reachable_at3(1)) (simp add: st)
  then have "reachable all_ok (at3 (?f\<lparr>mutex := None\<rparr>) ?X (Worker (Loop_Task None)) (Stopping (Stop_Join 0)))"
    by (rule reachable_at3(2)) (simp add: st)
  then have g: "reachable all_ok (at3 (?f\<lparr>mutex := None\<rparr>) ?X ?X (Stopping (Stop_Join 0)))"
    by (rule reachable_at3(2)) (simp add: st)
  have h: "reachable all_ok (at3 (?f\<lparr>mutex := None\<rparr>) ?X ?X (Stopping (Stop_Join 1)))"
    by (rule reachable_at3(4) [OF g]) (simp add: st demo_pool_def at3_def)
  have i: "reachable all_ok (at3 (?f\<lparr>mutex := None\<rparr>) ?X ?X (Stopping (Stop_Join 2)))"
    by (rule reachable_at3(4) [OF h]) (simp add: st demo_pool_def at3_def)
  have j: "reachable all_ok (at3 (?f\<lparr>mutex := None\<rparr>) ?X ?X (Stopping Stop_Free))"
    by (rule reachable_at3(4) [OF i]) (simp add: st demo_pool_def)
  have "reachable all_ok (at3 (?f\<lparr>mutex := None, freed := True\<rparr>) ?X ?X (Stopping Stop_Done))"
    by (rule reachable_at3(4) [OF j]) (simp add: st)
  moreover have "freed (pool (at3 (?f\<lparr>mutex := None, freed := True\<rparr>) ?X ?X (Stopping Stop_Done)))"
    by (simp add: at3_def)
  ultimately show ?thesis by (fastforce simp: at3_def)
qed

text \<open>Thread 2 adds a task whose routine is NULL, and worker 0 takes it.\<close>

definition demo_free_rest :: "nat threadpool_queue" where
  "demo_free_rest = snd (threadpool_queue_dequeue filled_queue)"

definition demo_tasks :: "nat threadpool_queue" where
  "demo_tasks = snd (threadpool_queue_enqueue threadpool_queue_init (Some 0))"

definition demo_tasks_rest :: "nat threadpool_queue" where
  "demo_tasks_rest = snd (threadpool_queue_dequeue demo_tasks)"

definition demo_null_pool :: "(nat, nat) threadpool" where
  "demo_null_pool = demo_pool\<lparr>tasks_queue := demo_tasks_rest,
     free_tasks_queue := demo_free_rest,
     submitted := [threadpool_task_init],
     tasks := (tasks demo_pool)[0 := threadpool_task_init]\<rparr>"

definition demo_null :: "(nat, nat) sys" where
  "demo_null = \<lparr>pool = demo_null_pool, pcs = (\<lambda>i. if i = 0 then Worker (Loop_Task (Some 0))
     else if i = 1 then Worker Get_Enter else if i = 2 then Adding (Add_Ret 0) else Idle)\<rparr>"

lemma demo_queue_facts:
  "threadpool_queue_dequeue filled_queue = (Some 0, demo_free_rest)"
  "threadpool_queue_enqueue threadpool_queue_init (Some 0) = (0, demo_tasks)"
  "queue_inv demo_tasks" "queue_contents demo_tasks = [0]"
  "threadpool_queue_dequeue demo_tasks = (Some 0, demo_tasks_rest)"
proof -
  have ne: "queue_contents filled_queue \<noteq> []" "hd (queue_contents filled_queue) = 0"
    by (simp_all add: filled_queue upt_rec)
  show "threadpool_queue_dequeue filled_queue = (Some 0, demo_free_rest)"
    using tpq.deq_cons [OF filled_queue(2) ne(1), of "fst (threadpool_queue_dequeue filled_queue)" demo_free_rest]
      ne(2) by (simp add: demo_free_rest_def prod_eq_iff)
  have E: "threadpool_queue_enqueue threadpool_queue_init (Some 0) =
      (fst (threadpool_queue_enqueue threadpool_queue_init (Some (0 :: nat))), demo_tasks)"
    by (simp add: demo_tasks_def)
  note e = tpq.enq_room [OF tpq.invar_init _ E, unfolded tpq.contents_init, simplified]
  then show "threadpool_queue_enqueue threadpool_queue_init (Some 0) = (0, demo_tasks)"
    "queue_inv demo_tasks" and c: "queue_contents demo_tasks = [0]" using E by simp_all
  show "threadpool_queue_dequeue demo_tasks = (Some 0, demo_tasks_rest)"
    using tpq.deq_cons [of demo_tasks "fst (threadpool_queue_dequeue demo_tasks)"
        demo_tasks_rest] c e by (simp add: prod_eq_iff demo_tasks_rest_def)
qed

lemma demo_null_reachable: "reachable all_ok demo_null"
proof -
  let ?W = "Worker Get_Enter" and ?A = "\<lambda>p c. at3 p (Worker Get_Enter) (Worker Get_Enter) (Adding c)"
  let ?p1 = "demo_pool\<lparr>free_tasks_queue := demo_free_rest, tasks := (tasks demo_pool)[0 := threadpool_task_init]\<rparr>"
  let ?p2 = "?p1\<lparr>tasks_queue := demo_tasks, submitted := [threadpool_task_init]\<rparr>"
  let ?B = "\<lambda>p c. at3 p (Worker c) ?W (Adding (Add_Ret 0))"
  note q = demo_queue_facts
  have size: "threadpool_queue_getsize demo_tasks = 1" "threadpool_queue_is_empty demo_tasks = 0"
    "threadpool_queue_is_empty filled_queue = 0"
    using tpq.getsize_eq [OF q(3)] tpq.is_empty_iff [OF q(3)] tpq.is_empty_iff [OF filled_queue(2)] q(4) filled_queue(3)
    by (simp_all del: length_queue_contents)
  note st = threadpool_add_task_step_def worker_thr_routine_def threadpool_task_get_task_def q size
    threadpool_task_init_def
  have a: "reachable all_ok (?A demo_pool (Add_Lock None None True))"
    using reachable.call_add [OF demo_start_reachable, of 2 all_ok None None 1]
    by (simp add: demo_start_at3 at3_sel at3_upd threadpool_add_task_def)
  have b: "reachable all_ok (?A (demo_pool\<lparr>free_tasks_mutex := Some 2\<rparr>) (Add_While None None True))"
    by (rule reachable_at3(3) [OF a]) (simp add: st)
  have c: "reachable all_ok (?A (demo_pool\<lparr>free_tasks_mutex := Some 2\<rparr>) (Add_Dequeue None None))"
    by (rule reachable_at3(3) [OF b]) (simp add: st)
  have d: "reachable all_ok (?A (demo_pool\<lparr>free_tasks_mutex := Some 2, free_tasks_queue := demo_free_rest\<rparr>)
      (Add_Unlock None None 0))"
    by (rule reachable_at3(3) [OF c]) (simp add: st)
  have e: "reachable all_ok (?A (demo_pool\<lparr>free_tasks_queue := demo_free_rest\<rparr>) (Add_Fill None None 0))"
    by (rule reachable_at3(3) [OF d]) (simp add: st)
  have f: "reachable all_ok (?A ?p1 (Add_Lock_Tasks 0))"
    by (rule reachable_at3(3) [OF e]) (simp add: st)
  have g: "reachable all_ok (?A (?p1\<lparr>mutex := Some 2\<rparr>) (Add_Enqueue 0))"
    by (rule reachable_at3(3) [OF f]) (simp add: st)
  have h: "reachable all_ok (?A (?p2\<lparr>mutex := Some 2\<rparr>) Add_Size)"
    by (rule reachable_at3(3) [OF g]) (simp add: st)
  have i: "reachable all_ok (?A (?p2\<lparr>mutex := Some 2\<rparr>) Add_Unlock_Tasks)"
    by (rule reachable_at3(3) [OF h]) (simp add: st)
  have j: "reachable all_ok (?B ?p2 Get_Enter)" by (rule reachable_at3(3) [OF i]) (simp add: st)
  have k: "reachable all_ok (?B ?p2 Get_Lock)" by (rule reachable_at3(1) [OF j]) (simp add: st)
  have l: "reachable all_ok (?B (?p2\<lparr>mutex := Some 0\<rparr>) Get_While)"
    by (rule reachable_at3(1) [OF k]) (simp add: st)
  have m: "reachable all_ok (?B (?p2\<lparr>mutex := Some 0\<rparr>) Get_Stop)"
    by (rule reachable_at3(1) [OF l]) (simp add: st)
  have n: "reachable all_ok (?B (?p2\<lparr>mutex := Some 0\<rparr>) Get_Dequeue)"
    by (rule reachable_at3(1) [OF m]) (simp add: st)
  have o: "reachable all_ok (?B (?p2\<lparr>mutex := Some 0, tasks_queue := demo_tasks_rest\<rparr>)
      (Get_Unlock (Some 0)))"
    by (rule reachable_at3(1) [OF n]) (simp add: st)
  have "reachable all_ok (?B demo_null_pool (Loop_Task (Some 0)))"
    by (rule reachable_at3(1) [OF o]) (simp add: st demo_null_pool_def)
  then show ?thesis by (simp add: demo_null_def at3_def)
qed

lemmas demo_any = demo_adding_reachable [of "\<lambda>_. True", OF TrueI]
lemmas demo_ok = demo_adding_reachable [of all_ok, OF refl]

section \<open>Properties\<close>

text \<open>C1: In every interleaving, whatever the pthread calls return, at most one thread is between
  locking and unlocking \<open>mutex\<close> (which guards the tasks queue), and at most one between locking
  and unlocking \<open>free_tasks_mutex\<close> (which guards the free queue); a queue only changes in a step
  of the thread that owns its mutex.\<close>

theorem threadpool_mutual_exclusion:
  assumes "reachable ok s"
  shows "(owns_mutex (pcs s i) \<longrightarrow> owns_mutex (pcs s j) \<longrightarrow> i = j) \<and>
    (owns_free_mutex (pcs s i) \<longrightarrow> owns_free_mutex (pcs s j) \<longrightarrow> i = j) \<and>
    (thread_step i rc s = Some s' \<longrightarrow>
      (tasks_queue (pool s') \<noteq> tasks_queue (pool s) \<longrightarrow> mutex (pool s) = Some i) \<and>
      (free_tasks_queue (pool s') \<noteq> free_tasks_queue (pool s) \<longrightarrow> free_tasks_mutex (pool s) = Some i))"
proof -
  have inv: "mutex_inv s" using reachable_invs [OF assms] by blast
  have "(tasks_queue (pool s') \<noteq> tasks_queue (pool s) \<longrightarrow> mutex (pool s) = Some i) \<and>
      (free_tasks_queue (pool s') \<noteq> free_tasks_queue (pool s) \<longrightarrow> free_tasks_mutex (pool s) = Some i)"
    if st: "thread_step i rc s = Some s'"
    using st
  proof (rule thread_stepE)
    fix p c
    assume "pc_step (\<lambda>j. pcs s j = Worker Exited) i rc (pool s) (pcs s i) = Some (p, c)"
      and "s' = s\<lparr>pool := p, pcs := (pcs s)(i := c)\<rparr>"
    then show ?thesis using pc_step_queues inv unfolding mutex_inv_def by fastforce
  qed
  then show ?thesis using mutex_inv_unique [OF inv] by blast
qed

theorem threadpool_mutual_exclusion_witness:
  "{j. owns_free_mutex (pcs demo_adding j)} = {2}"
proof -
  have "owns_free_mutex (pcs demo_adding 2)" by (simp add: demo_adding_def)
  moreover have "owns_free_mutex (pcs demo_adding 2) \<longrightarrow> owns_free_mutex (pcs demo_adding j) \<longrightarrow> 2 = j" for j
    using threadpool_mutual_exclusion [OF demo_any, of 2 j 0 demo_adding] by (rule conjunct1 [OF conjunct2])
  ultimately show ?thesis by blast
qed

text \<open>C2: The four error branches on the queues are dead code: in every reachable state a worker
  that releases a task finds room in the free queue, a caller that adds a task finds room in the
  tasks queue, and each dequeue behind a non-empty test obtains a task. The reason is that every
  task of the array is in at most one place.\<close>

theorem threadpool_queue_errors_unreachable:
  assumes "reachable ok s"
  shows "(\<forall>t. pcs s i = Worker (Release_Enqueue t) \<longrightarrow>
      fst (threadpool_queue_enqueue (free_tasks_queue (pool s)) (Some t)) = 0) \<and>
    (\<forall>t. pcs s i = Adding (Add_Enqueue t) \<longrightarrow>
      fst (threadpool_queue_enqueue (tasks_queue (pool s)) (Some t)) = 0) \<and>
    (pcs s i = Worker Get_Dequeue \<longrightarrow> fst (threadpool_queue_dequeue (tasks_queue (pool s))) \<noteq> None) \<and>
    (\<forall>f d. pcs s i = Adding (Add_Dequeue f d) \<longrightarrow>
      fst (threadpool_queue_dequeue (free_tasks_queue (pool s))) \<noteq> None)"
proof -
  have inv: "tasks_inv s" "avail_inv s" using reachable_invs [OF assms] by blast+
  then have q: "queue_inv (free_tasks_queue (pool s))" "queue_inv (tasks_queue (pool s))"
    by (simp_all add: tasks_inv_def)
  have room: "length (queue_contents (free_tasks_queue (pool s))) < THREAD_POOL_QUEUE_SIZE"
    "length (queue_contents (tasks_queue (pool s))) < THREAD_POOL_QUEUE_SIZE"
    if "holds (pcs s i) = Some t" for t
    using inv(1) that by (auto simp: tasks_inv_def placed_def simp del: length_queue_contents
        intro: distinct_subset_length_less [where x = t])
  show ?thesis
    using room tpq.enq_code [OF q(1)] tpq.enq_code [OF q(2)] tpq.deq_code [OF q(1)] tpq.deq_code [OF q(2)]
      inv(2) unfolding avail_inv_def by auto
qed

theorem threadpool_queue_errors_unreachable_witness:
  "pcs demo_adding 2 = Adding (Add_Dequeue (Some 7) (Some 8)) \<and>
   fst (threadpool_queue_dequeue (free_tasks_queue (pool demo_adding))) \<noteq> None"
  using threadpool_queue_errors_unreachable [OF demo_any, of 2]
  by (simp add: demo_adding_def)

text \<open>C3: The tasks queue is first-in first-out across all interleavings: the log of submitted
  tasks is what has been taken from the queue followed by what is in it, with the routine and the
  data of each queued task unchanged since its submission, and every executed task was submitted.\<close>

theorem threadpool_fifo:
  assumes "reachable ok s"
  shows "(\<exists>done. submitted (pool s) =
      done @ map (\<lambda>t. tasks (pool s) ! t) (queue_contents (tasks_queue (pool s)))) \<and>
    set (executed (pool s)) \<subseteq> set (submitted (pool s))"
  using reachable_invs [OF assms] unfolding fifo_inv_def fifo_def by blast

theorem threadpool_fifo_witness:
  "reachable all_ok demo_adding \<and> set (executed (pool demo_adding)) \<subseteq> set (submitted (pool demo_adding))"
  using threadpool_fifo [OF demo_ok] demo_ok by simp

text \<open>C4: No wakeup is lost while the pthread calls succeed, although broadcasts happen only when a
  queue grows from empty to one element. If a worker sleeps, the tasks queue is empty or a caller
  is about to broadcast, and if the stop flag is up, the stopping thread has yet to broadcast; if
  a caller sleeps for a free task, the free queue is empty or a worker is about to broadcast.\<close>

theorem threadpool_no_lost_wakeup:
  assumes "reachable all_ok s"
  shows "(cond (pool s) \<noteq> {} \<longrightarrow>
      (queue_contents (tasks_queue (pool s)) = [] \<or> (\<exists>j. pcs s j = Adding Add_Size)) \<and>
      (stop_flag (pool s) \<noteq> 0 \<longrightarrow>
        (\<exists>j. pcs s j = Stopping Stop_Lock \<or> pcs s j = Stopping Stop_Broadcast))) \<and>
    (free_tasks_cond (pool s) \<noteq> {} \<longrightarrow>
      queue_contents (free_tasks_queue (pool s)) = [] \<or> (\<exists>j. pcs s j = Worker Release_Size))"
  using reachable_ok_invs [OF assms] unfolding wake_inv_def free_wake_inv_def by blast

theorem threadpool_no_lost_wakeup_witness:
  "reachable all_ok demo_sleeping \<and> cond (pool demo_sleeping) = {0} \<and>
   (queue_contents (tasks_queue (pool demo_sleeping)) = [] \<or> (\<exists>j. pcs demo_sleeping j = Adding Add_Size))"
proof -
  have "cond (pool demo_sleeping) = {0}" by (simp add: demo_sleeping_def at3_sel)
  then show ?thesis
    using demo_sleeping_reachable threadpool_no_lost_wakeup [OF demo_sleeping_reachable] by blast
qed



text \<open>C6: The ring buffer is a FIFO queue of capacity \<open>THREAD_POOL_QUEUE_SIZE\<close>: with its invariant, an
  enqueue appends and returns 0 exactly when there is room (and changes nothing otherwise), a
  dequeue returns NULL and changes nothing on an empty queue and otherwise removes the oldest
  element, both keep the invariant, and no index is ever out of the array.\<close>

theorem threadpool_queue_refines_list:
  assumes "queue_inv q" "threadpool_queue_enqueue q (Some x) = (r, q')"
    "threadpool_queue_dequeue q = (d, q'')"
  shows "queue_inv q' \<and> queue_inv q'' \<and>
    (if length (queue_contents q) < THREAD_POOL_QUEUE_SIZE
     then r = 0 \<and> queue_contents q' = queue_contents q @ [x] else r = -1 \<and> q' = q) \<and>
    (case queue_contents q of [] \<Rightarrow> d = None \<and> q'' = q | y # ys \<Rightarrow> d = Some y \<and> queue_contents q'' = ys) \<and>
    q_head q < length (cells q) \<and> q_tail q < length (cells q)"
proof -
  have "q_head q < length (cells q) \<and> q_tail q < length (cells q)"
    using queue_invD(1,2,4) [OF assms(1)] by simp
  moreover have "case queue_contents q of [] \<Rightarrow> d = None \<and> q'' = q
      | y # ys \<Rightarrow> d = Some y \<and> queue_contents q'' = ys"
    using dequeue_cases [OF assms(1,3)] by (auto split: list.splits)
  moreover have "if length (queue_contents q) < THREAD_POOL_QUEUE_SIZE
     then r = 0 \<and> queue_contents q' = queue_contents q @ [x] else r = -1 \<and> q' = q"
    using tpq.enq_room [OF assms(1) _ assms(2)] tpq.enq_full [OF assms(1), of "Some x"] assms(2)
      tpq.contents_cap [OF assms(1)] by auto
  ultimately show ?thesis
    using dequeue_cases [OF assms(1,3)] enqueue_cases [OF assms(1,2)] by simp
qed

theorem threadpool_queue_refines_list_witness:
  "queue_contents (snd (threadpool_queue_enqueue threadpool_queue_init (Some (5 :: nat)))) = [5] \<and>
   fst (threadpool_queue_enqueue threadpool_queue_init (Some (5 :: nat))) = 0"
  using threadpool_queue_refines_list [OF tpq.invar_init, of 5
      "fst (threadpool_queue_enqueue threadpool_queue_init (Some (5 :: nat)))"
      "snd (threadpool_queue_enqueue threadpool_queue_init (Some (5 :: nat)))"
      "fst (threadpool_queue_dequeue threadpool_queue_init)"
      "snd (threadpool_queue_dequeue (threadpool_queue_init :: nat threadpool_queue))"]
  by (simp add: tpq.contents_init)

text \<open>C7: With a cooperating environment \<open>threadpool_init\<close> returns a pool for every thread count
  that fits the 16-bit counter: all tasks are free in array order, none is queued, and the thread
  array lists the \<open>n\<close> threads created.\<close>

theorem threadpool_init_returns:
  assumes "init_env_ok e" "\<forall>k. create e k = 0" "n \<le> 65535"
  shows "\<exists>p :: ('f, 'd) threadpool. threadpool_init e (int n) = Some (Init_Pool p) \<and>
    queue_contents (free_tasks_queue p) = [0..<THREAD_POOL_QUEUE_SIZE] \<and>
    queue_contents (tasks_queue p) = [] \<and> unat (num_of_threads p) = n \<and> thr_arr p = [0..<n]"
proof -
  obtain p where st: "start_threads (create e) (int n) 0 (start_pool (int n) :: ('f, 'd) threadpool) = Some (0, p)"
    using start_threads_total [of n "start_pool (int n) :: ('f, 'd) threadpool" 0 "create e"] assms(2,3)
    by (auto simp: start_pool_fields)
  then have i: "threadpool_init e (int n) = Some (Init_Pool p)"
    using assms(1) by (simp add: threadpool_init_eq)
  then show ?thesis using init_pool [OF i] filled_queue(3) by (auto simp: tpq.contents_init)
qed

theorem threadpool_init_returns_witness:
  "\<exists>p :: (nat, nat) threadpool. threadpool_init demo_env 2 = Some (Init_Pool p) \<and>
    queue_contents (free_tasks_queue p) = [0..<THREAD_POOL_QUEUE_SIZE] \<and>
    queue_contents (tasks_queue p) = [] \<and> unat (num_of_threads p) = 2 \<and> thr_arr p = [0..<2]"
  using threadpool_init_returns [of demo_env 2, where 'f = nat and 'd = nat]
  by (simp add: demo_env_def init_env_ok_def)

text \<open>C8: The counter is an \<open>unsigned short\<close> but the argument an \<open>int\<close>: asked for more than 65535
  threads, \<open>threadpool_init\<close> never returns a pool, however many threads can be created.\<close>

theorem threadpool_init_wraps:
  assumes "65535 < n"
  shows "threadpool_init e n \<noteq> Some (Init_Pool p)"
proof
  assume "threadpool_init e n = Some (Init_Pool p)"
  then have "start_threads (create e) n 0 (start_pool n) = Some (0, p)"
    by (auto simp: threadpool_init_eq split: if_splits)
  then show False using start_threads_wraps [OF _ assms] by fastforce
qed

theorem threadpool_init_wraps_witness:
  "\<forall>p :: (nat, nat) threadpool. threadpool_init demo_env 70000 \<noteq> Some (Init_Pool p)"
  by (intro allI threadpool_init_wraps) simp

text \<open>A task that is added with a NULL routine is never released: the worker that takes it goes
  back for the next one, and then the task is in neither queue and in no thread's hands.\<close>

lemma threadpool_null_routine_leaks:
  assumes "reachable ok s" "pcs s i = Worker (Loop_Task (Some t))" "routine_cb (tasks (pool s) ! t) = None"
  shows "\<exists>s'. thread_step i rc s = Some s' \<and>
    t \<notin> set (queue_contents (free_tasks_queue (pool s'))) \<and>
    t \<notin> set (queue_contents (tasks_queue (pool s'))) \<and> (\<forall>j. holds (pcs s' j) \<noteq> Some t)"
proof -
  have "tasks_inv s" using reachable_invs [OF assms(1)] by blast
  then have "t \<notin> set (queue_contents (free_tasks_queue (pool s)))"
    "t \<notin> set (queue_contents (tasks_queue (pool s)))" "\<And>j. j \<noteq> i \<Longrightarrow> holds (pcs s j) \<noteq> Some t"
    using tasks_inv_held [of s i t] assms(2) by auto
  moreover have "thread_step i rc s = Some (s\<lparr>pcs := (pcs s)(i := Worker Get_Enter)\<rparr>)"
    using assms(2,3) by (simp add: thread_step_def worker_thr_routine_def)
  ultimately show ?thesis by auto
qed

lemma threadpool_null_routine_leaks_example:
  "\<exists>s'. thread_step 0 0 demo_null = Some s' \<and>
    0 \<notin> set (queue_contents (free_tasks_queue (pool s'))) \<and>
    0 \<notin> set (queue_contents (tasks_queue (pool s'))) \<and> (\<forall>j. holds (pcs s' j) \<noteq> Some 0)"
  by (rule threadpool_null_routine_leaks [OF demo_null_reachable])
    (simp_all add: demo_null_def demo_null_pool_def threadpool_task_init_def demo_pool_def start_pool_def)

end
