(* ===== verification/Des.thy ===== *)
theory Des
  imports Prelude
begin

text \<open>
  The DES encryption of \<open>c-study/des/des.c\<close>: its tables, its bit macros, the static functions
  that work on byte arrays in place, and the two exported functions. A byte array is a list of
  8-bit words; a function that writes through a pointer returns the new array. The table
  entries are only ever used as bit numbers or counts and are natural numbers, except those of
  the S-boxes, which are data.
\<close>

unbundle bit_operations_syntax

type_synonym uchar = uint8_t

section \<open>Tables\<close>

definition InitialPermuteMap :: "nat list" where
  "InitialPermuteMap =
  [57, 49, 41, 33, 25, 17, 9, 1, 59, 51, 43, 35, 27, 19, 11, 3,
   61, 53, 45, 37, 29, 21, 13, 5, 63, 55, 47, 39, 31, 23, 15, 7,
   56, 48, 40, 32, 24, 16, 8, 0, 58, 50, 42, 34, 26, 18, 10, 2,
   60, 52, 44, 36, 28, 20, 12, 4, 62, 54, 46, 38, 30, 22, 14, 6]"

definition KeyPermuteMap :: "nat list" where
  "KeyPermuteMap =
  [49, 42, 35, 28, 21, 14, 7, 0, 50, 43, 36, 29, 22, 15, 8, 1,
   51, 44, 37, 30, 23, 16, 9, 2, 52, 45, 38, 31, 55, 48, 41, 34,
   27, 20, 13, 6, 54, 47, 40, 33, 26, 19, 12, 5, 53, 46, 39, 32,
   25, 18, 11, 4, 24, 17, 10, 3]"

definition KeyRotation :: "nat list" where
  "KeyRotation =
  [1, 1, 2, 2, 2, 2, 2, 2, 1, 2, 2, 2, 2, 2, 2, 1]"

definition KeyCompression :: "nat list" where
  "KeyCompression =
  [13, 16, 10, 23, 0, 4, 2, 27, 14, 5, 20, 9, 22, 18, 11, 3,
   25, 7, 15, 6, 26, 19, 12, 1, 40, 51, 30, 36, 46, 54, 29, 39,
   50, 44, 32, 47, 43, 48, 38, 55, 33, 52, 45, 41, 49, 35, 28, 31]"

definition DataExpansion :: "nat list" where
  "DataExpansion =
  [31, 0, 1, 2, 3, 4, 3, 4, 5, 6, 7, 8, 7, 8, 9, 10,
   11, 12, 11, 12, 13, 14, 15, 16, 15, 16, 17, 18, 19, 20, 19, 20,
   21, 22, 23, 24, 23, 24, 25, 26, 27, 28, 27, 28, 29, 30, 31, 0]"

definition SBox :: "uint8_t list list" where
  "SBox =
  [[14, 0, 4, 15, 13, 7, 1, 4, 2, 14, 15, 2, 11, 13, 8, 1,
    3, 10, 10, 6, 6, 12, 12, 11, 5, 9, 9, 5, 0, 3, 7, 8,
    4, 15, 1, 12, 14, 8, 8, 2, 13, 4, 6, 9, 2, 1, 11, 7,
    15, 5, 12, 11, 9, 3, 7, 14, 3, 10, 10, 0, 5, 6, 0, 13],
   [15, 3, 1, 13, 8, 4, 14, 7, 6, 15, 11, 2, 3, 8, 4, 14,
    9, 12, 7, 0, 2, 1, 13, 10, 12, 6, 0, 9, 5, 11, 10, 5,
    0, 13, 14, 8, 7, 10, 11, 1, 10, 3, 4, 15, 13, 4, 1, 2,
    5, 11, 8, 6, 12, 7, 6, 12, 9, 0, 3, 5, 2, 14, 15, 9],
   [10, 13, 0, 7, 9, 0, 14, 9, 6, 3, 3, 4, 15, 6, 5, 10,
    1, 2, 13, 8, 12, 5, 7, 14, 11, 12, 4, 11, 2, 15, 8, 1,
    13, 1, 6, 10, 4, 13, 9, 0, 8, 6, 15, 9, 3, 8, 0, 7,
    11, 4, 1, 15, 2, 14, 12, 3, 5, 11, 10, 5, 14, 2, 7, 12],
   [7, 13, 13, 8, 14, 11, 3, 5, 0, 6, 6, 15, 9, 0, 10, 3,
    1, 4, 2, 7, 8, 2, 5, 12, 11, 1, 12, 10, 4, 14, 15, 9,
    10, 3, 6, 15, 9, 0, 0, 6, 12, 10, 11, 1, 7, 13, 13, 8,
    15, 9, 1, 4, 3, 5, 14, 11, 5, 12, 2, 7, 8, 2, 4, 14],
   [2, 14, 12, 11, 4, 2, 1, 12, 7, 4, 10, 7, 11, 13, 6, 1,
    8, 5, 5, 0, 3, 15, 15, 10, 13, 3, 0, 9, 14, 8, 9, 6,
    4, 11, 2, 8, 1, 12, 11, 7, 10, 1, 13, 14, 7, 2, 8, 13,
    15, 6, 9, 15, 12, 0, 5, 9, 6, 10, 3, 4, 0, 5, 14, 3],
   [12, 10, 1, 15, 10, 4, 15, 2, 9, 7, 2, 12, 6, 9, 8, 5,
    0, 6, 13, 1, 3, 13, 4, 14, 14, 0, 7, 11, 5, 3, 11, 8,
    9, 4, 14, 3, 15, 2, 5, 12, 2, 9, 8, 5, 12, 15, 3, 10,
    7, 11, 0, 14, 4, 1, 10, 7, 1, 6, 13, 0, 11, 8, 6, 13],
   [4, 13, 11, 0, 2, 11, 14, 7, 15, 4, 0, 9, 8, 1, 13, 10,
    3, 14, 12, 3, 9, 5, 7, 12, 5, 2, 10, 15, 6, 8, 1, 6,
    1, 6, 4, 11, 11, 13, 13, 8, 12, 1, 3, 4, 7, 10, 14, 7,
    10, 9, 15, 5, 6, 0, 8, 15, 0, 14, 5, 2, 9, 3, 2, 12],
   [13, 1, 2, 15, 8, 13, 4, 8, 6, 10, 15, 3, 11, 7, 1, 4,
    10, 12, 9, 5, 3, 6, 14, 11, 5, 0, 0, 14, 12, 9, 7, 2,
    7, 2, 11, 1, 4, 14, 1, 7, 9, 4, 12, 10, 14, 8, 2, 13,
    0, 15, 6, 12, 10, 9, 13, 0, 15, 3, 3, 5, 5, 6, 8, 11]]"

definition PBox :: "nat list" where
  "PBox =
  [15, 6, 19, 20, 28, 11, 27, 16, 0, 14, 22, 25, 4, 17, 30, 9,
   1, 7, 23, 13, 31, 26, 2, 8, 18, 12, 29, 5, 21, 10, 3, 24]"

definition FinalPermuteMap :: "nat list" where
  "FinalPermuteMap =
  [7, 39, 15, 47, 23, 55, 31, 63, 6, 38, 14, 46, 22, 54, 30, 62,
   5, 37, 13, 45, 21, 53, 29, 61, 4, 36, 12, 44, 20, 52, 28, 60,
   3, 35, 11, 43, 19, 51, 27, 59, 2, 34, 10, 42, 18, 50, 26, 58,
   1, 33, 9, 41, 17, 49, 25, 57, 0, 32, 8, 40, 16, 48, 24, 56]"

section \<open>Bits of a byte array\<close>

definition CLRBIT :: "uchar list \<Rightarrow> nat \<Rightarrow> uchar list" where
  "CLRBIT str idx = str[idx div 8 := str ! (idx div 8) AND NOT (push_bit (7 - idx mod 8) 1)]"

definition SETBIT :: "uchar list \<Rightarrow> nat \<Rightarrow> uchar list" where
  "SETBIT str idx = str[idx div 8 := str ! (idx div 8) OR push_bit (7 - idx mod 8) 1]"

definition GETBIT :: "uchar list \<Rightarrow> nat \<Rightarrow> uchar" where
  "GETBIT str idx = drop_bit (7 - idx mod 8) (str ! (idx div 8)) AND 1"

section \<open>The static functions\<close>

text \<open>Clear the first \<open>mapsize\<close> bytes of the destination, then set the bits whose source bit is set.\<close>

definition Permute :: "uchar list \<Rightarrow> uchar list \<Rightarrow> nat list \<Rightarrow> nat \<Rightarrow> uchar list" where
  "Permute dst src mp mapsize =
     fold (\<lambda>i d. if GETBIT src (mp ! i) \<noteq> 0 then SETBIT d i else d) [0..<mapsize * 8]
       (fold (\<lambda>i d. d[i := 0]) [0..<mapsize] dst)"

text \<open>
  One round of \<open>KeyShift\<close> on the key and the byte \<open>keep\<close>: shift the seven bytes left through each
  other, move bit 27 to bit 55, and copy the top bit of \<open>keep\<close> to bit 27.
\<close>

definition KeyShift_bytes :: "uchar list \<Rightarrow> uchar list" where
  "KeyShift_bytes key =
     fold (\<lambda>j key.
         let key' = (if j \<noteq> 0 \<and> key ! j AND 0x80 \<noteq> 0 then key[j - 1 := key ! (j - 1) OR 1] else key)
         in key'[j := push_bit 1 (key' ! j)])
       [0..<7] key"

definition KeyShift_round :: "uchar list \<times> uchar \<Rightarrow> uchar list \<times> uchar" where
  "KeyShift_round = (\<lambda>(key, keep).
     let key = KeyShift_bytes key;
         key = (if GETBIT key 27 \<noteq> 0 then SETBIT (CLRBIT key 27) 55 else key);
         key = (if keep AND 0x80 \<noteq> 0 then SETBIT key 27 else key)
     in (key, push_bit 1 keep))"

definition KeyShift :: "uchar list \<Rightarrow> nat \<Rightarrow> uchar list" where
  "KeyShift key numbits = fst ((KeyShift_round ^^ numbits) (key, key ! 0))"

definition sbox_Snum :: "uchar list \<Rightarrow> nat \<Rightarrow> nat" where
  "sbox_Snum src i =
     fold (\<lambda>j Snum. push_bit 1 Snum OR unat (GETBIT src (i * 6 + j))) [0..<6] 0"

definition sbox :: "uchar list \<Rightarrow> uchar list \<Rightarrow> uchar list" where
  "sbox dst src =
     fold (\<lambda>i d.
         let s = SBox ! i ! sbox_Snum src i
         in d[i div 2 := d ! (i div 2) OR (if i mod 2 = 0 then push_bit 4 s else s)])
       [0..<8] (fold (\<lambda>i d. d[i := 0]) [0..<4] dst)"

definition xor :: "uchar list \<Rightarrow> uchar list \<Rightarrow> uchar list \<Rightarrow> nat \<Rightarrow> uchar list" where
  "xor dst a b count = fold (\<lambda>i d. d[i := a ! i XOR b ! i]) [0..<count] dst"

section \<open>The exported functions\<close>

definition map8to7 :: "nat list" where
  "map8to7 =
  [0, 1, 2, 3, 4, 5, 6, 8, 9, 10, 11, 12, 13, 14,
   16, 17, 18, 19, 20, 21, 22, 24, 25, 26, 27, 28, 29, 30,
   32, 33, 34, 35, 36, 37, 38, 40, 41, 42, 43, 44, 45, 46,
   48, 49, 50, 51, 52, 53, 54, 56, 57, 58, 59, 60, 61, 62]"

definition auth_DESkey8to7 :: "uchar list ptr \<Rightarrow> uchar list ptr \<Rightarrow> uchar list ptr" where
  "auth_DESkey8to7 dst key =
     (case (dst, key) of
        (Some d, Some k) \<Rightarrow>
          let tmp = Permute (replicate 7 0) k map8to7 7
          in Some (fold (\<lambda>i d. d[i := tmp ! i]) [0..<7] d)
      | _ \<Rightarrow> None)"

text \<open>
  The local arrays \<open>K\<close>, \<open>D\<close>, \<open>Rexp\<close>, \<open>Rn\<close> and \<open>SubK\<close> are not initialised in the source; here they start
  as zeros, and each is cleared by the first function it is passed to. \<open>L\<close> and \<open>R\<close> point into
  \<open>D\<close>: the last step of a round copies within \<open>D\<close>, byte by byte.
\<close>

definition DES_f :: "uchar list \<Rightarrow> uchar list \<Rightarrow> uchar list \<Rightarrow> uchar list" where
  "DES_f K L R =
     (let SubK = Permute (replicate 6 0) K KeyCompression 6;
          Rexp = Permute (replicate 6 0) R DataExpansion 6;
          Rexp = xor Rexp Rexp SubK 6;
          Rn = sbox (replicate 4 0) Rexp;
          Rexp = Permute Rexp Rn PBox 4
      in xor Rn L Rexp 4)"

definition DES_round :: "nat \<Rightarrow> uchar list \<times> uchar list \<Rightarrow> uchar list \<times> uchar list" where
  "DES_round i = (\<lambda>(K, D).
     let K = KeyShift K (KeyRotation ! i);
         Rn = DES_f K D (drop 4 D)
     in (K, fold (\<lambda>j D. D[j := D ! (4 + j), 4 + j := Rn ! j]) [0..<4] D))"

definition auth_DEShash :: "uchar list \<Rightarrow> uchar list \<Rightarrow> uchar list \<Rightarrow> uchar list" where
  "auth_DEShash dst key src =
     (let K = Permute (replicate 7 0) key KeyPermuteMap 7;
          D = Permute (replicate 8 0) src InitialPermuteMap 8;
          (K, D) = fold DES_round [0..<16] (K, D)
      in Permute dst D FinalPermuteMap 8)"

end
