(* ===== verification/Des_Spec.thy ===== *)
theory Des_Spec
  imports Prelude
begin

text \<open>
  The Data Encryption Standard as FIPS PUB 46-3 states it, on lists of bits: the published
  tables (which number bits from 1), the cipher function, the key schedule, enciphering and
  deciphering. Deciphering inverts enciphering because the rounds are a Feistel network, which
  is a locale of its own.
\<close>

section \<open>Feistel networks\<close>

text \<open>Half blocks from \<open>C\<close>, combined by \<open>x\<close>, which undoes itself; \<open>f\<close> is any round function into \<open>C\<close>.\<close>

locale feistel =
  fixes C :: "'b set" and x :: "'b \<Rightarrow> 'b \<Rightarrow> 'b" and f :: "'k \<Rightarrow> 'b \<Rightarrow> 'b"
  assumes x_closed: "a \<in> C \<Longrightarrow> b \<in> C \<Longrightarrow> x a b \<in> C"
    and x_cancel: "a \<in> C \<Longrightarrow> b \<in> C \<Longrightarrow> x (x a b) b = a"
    and f_closed: "a \<in> C \<Longrightarrow> f k a \<in> C"
begin

definition round :: "'k \<Rightarrow> 'b \<times> 'b \<Rightarrow> 'b \<times> 'b" where
  "round k = (\<lambda>(l, r). (r, x l (f k r)))"

lemma rounds_closed: "p \<in> C \<times> C \<Longrightarrow> fold round ks p \<in> C \<times> C"
  by (induction ks arbitrary: p) (auto simp: round_def x_closed f_closed)

lemma round_swap: "p \<in> C \<times> C \<Longrightarrow> round k (prod.swap (round k p)) = prod.swap p"
  by (auto simp: round_def x_cancel f_closed)

lemma rounds_invert: "p \<in> C \<times> C \<Longrightarrow> fold round (rev ks) (prod.swap (fold round ks p)) = prod.swap p"
proof (induction ks arbitrary: p)
  case (Cons k ks)
  have "round k p \<in> C \<times> C" using rounds_closed [of p "[k]"] Cons.prems by simp
  then show ?case using Cons.IH Cons.prems by (simp add: round_swap)
qed simp

end

section \<open>The published tables\<close>

definition FIPS_IP :: "nat list" where
  "FIPS_IP =
  [58, 50, 42, 34, 26, 18, 10, 2, 60, 52, 44, 36, 28, 20, 12, 4,
   62, 54, 46, 38, 30, 22, 14, 6, 64, 56, 48, 40, 32, 24, 16, 8,
   57, 49, 41, 33, 25, 17, 9, 1, 59, 51, 43, 35, 27, 19, 11, 3,
   61, 53, 45, 37, 29, 21, 13, 5, 63, 55, 47, 39, 31, 23, 15, 7]"

definition FIPS_IP_inv :: "nat list" where
  "FIPS_IP_inv =
  [40, 8, 48, 16, 56, 24, 64, 32, 39, 7, 47, 15, 55, 23, 63, 31,
   38, 6, 46, 14, 54, 22, 62, 30, 37, 5, 45, 13, 53, 21, 61, 29,
   36, 4, 44, 12, 52, 20, 60, 28, 35, 3, 43, 11, 51, 19, 59, 27,
   34, 2, 42, 10, 50, 18, 58, 26, 33, 1, 41, 9, 49, 17, 57, 25]"

definition FIPS_E :: "nat list" where
  "FIPS_E =
  [32, 1, 2, 3, 4, 5, 4, 5, 6, 7, 8, 9,
   8, 9, 10, 11, 12, 13, 12, 13, 14, 15, 16, 17,
   16, 17, 18, 19, 20, 21, 20, 21, 22, 23, 24, 25,
   24, 25, 26, 27, 28, 29, 28, 29, 30, 31, 32, 1]"

definition FIPS_P :: "nat list" where
  "FIPS_P =
  [16, 7, 20, 21, 29, 12, 28, 17, 1, 15, 23, 26, 5, 18, 31, 10,
   2, 8, 24, 14, 32, 27, 3, 9, 19, 13, 30, 6, 22, 11, 4, 25]"

definition FIPS_PC1 :: "nat list" where
  "FIPS_PC1 =
  [57, 49, 41, 33, 25, 17, 9, 1, 58, 50, 42, 34, 26, 18,
   10, 2, 59, 51, 43, 35, 27, 19, 11, 3, 60, 52, 44, 36,
   63, 55, 47, 39, 31, 23, 15, 7, 62, 54, 46, 38, 30, 22,
   14, 6, 61, 53, 45, 37, 29, 21, 13, 5, 28, 20, 12, 4]"

definition FIPS_PC2 :: "nat list" where
  "FIPS_PC2 =
  [14, 17, 11, 24, 1, 5, 3, 28, 15, 6, 21, 10,
   23, 19, 12, 4, 26, 8, 16, 7, 27, 20, 13, 2,
   41, 52, 31, 37, 47, 55, 30, 40, 51, 45, 33, 48,
   44, 49, 39, 56, 34, 53, 46, 42, 50, 36, 29, 32]"

definition FIPS_S :: "nat list list list" where
  "FIPS_S =
  [[[14, 4, 13, 1, 2, 15, 11, 8, 3, 10, 6, 12, 5, 9, 0, 7],
    [0, 15, 7, 4, 14, 2, 13, 1, 10, 6, 12, 11, 9, 5, 3, 8],
    [4, 1, 14, 8, 13, 6, 2, 11, 15, 12, 9, 7, 3, 10, 5, 0],
    [15, 12, 8, 2, 4, 9, 1, 7, 5, 11, 3, 14, 10, 0, 6, 13]],
   [[15, 1, 8, 14, 6, 11, 3, 4, 9, 7, 2, 13, 12, 0, 5, 10],
    [3, 13, 4, 7, 15, 2, 8, 14, 12, 0, 1, 10, 6, 9, 11, 5],
    [0, 14, 7, 11, 10, 4, 13, 1, 5, 8, 12, 6, 9, 3, 2, 15],
    [13, 8, 10, 1, 3, 15, 4, 2, 11, 6, 7, 12, 0, 5, 14, 9]],
   [[10, 0, 9, 14, 6, 3, 15, 5, 1, 13, 12, 7, 11, 4, 2, 8],
    [13, 7, 0, 9, 3, 4, 6, 10, 2, 8, 5, 14, 12, 11, 15, 1],
    [13, 6, 4, 9, 8, 15, 3, 0, 11, 1, 2, 12, 5, 10, 14, 7],
    [1, 10, 13, 0, 6, 9, 8, 7, 4, 15, 14, 3, 11, 5, 2, 12]],
   [[7, 13, 14, 3, 0, 6, 9, 10, 1, 2, 8, 5, 11, 12, 4, 15],
    [13, 8, 11, 5, 6, 15, 0, 3, 4, 7, 2, 12, 1, 10, 14, 9],
    [10, 6, 9, 0, 12, 11, 7, 13, 15, 1, 3, 14, 5, 2, 8, 4],
    [3, 15, 0, 6, 10, 1, 13, 8, 9, 4, 5, 11, 12, 7, 2, 14]],
   [[2, 12, 4, 1, 7, 10, 11, 6, 8, 5, 3, 15, 13, 0, 14, 9],
    [14, 11, 2, 12, 4, 7, 13, 1, 5, 0, 15, 10, 3, 9, 8, 6],
    [4, 2, 1, 11, 10, 13, 7, 8, 15, 9, 12, 5, 6, 3, 0, 14],
    [11, 8, 12, 7, 1, 14, 2, 13, 6, 15, 0, 9, 10, 4, 5, 3]],
   [[12, 1, 10, 15, 9, 2, 6, 8, 0, 13, 3, 4, 14, 7, 5, 11],
    [10, 15, 4, 2, 7, 12, 9, 5, 6, 1, 13, 14, 0, 11, 3, 8],
    [9, 14, 15, 5, 2, 8, 12, 3, 7, 0, 4, 10, 1, 13, 11, 6],
    [4, 3, 2, 12, 9, 5, 15, 10, 11, 14, 1, 7, 6, 0, 8, 13]],
   [[4, 11, 2, 14, 15, 0, 8, 13, 3, 12, 9, 7, 5, 10, 6, 1],
    [13, 0, 11, 7, 4, 9, 1, 10, 14, 3, 5, 12, 2, 15, 8, 6],
    [1, 4, 11, 13, 12, 3, 7, 14, 10, 15, 6, 8, 0, 5, 9, 2],
    [6, 11, 13, 8, 1, 4, 10, 7, 9, 5, 0, 15, 14, 2, 3, 12]],
   [[13, 2, 8, 4, 6, 15, 11, 1, 10, 9, 3, 14, 5, 0, 12, 7],
    [1, 15, 13, 8, 10, 3, 7, 4, 12, 5, 6, 11, 0, 14, 9, 2],
    [7, 11, 4, 1, 9, 12, 14, 2, 0, 6, 10, 13, 15, 3, 5, 8],
    [2, 1, 14, 7, 4, 10, 8, 13, 15, 12, 9, 0, 3, 5, 6, 11]]]"

definition FIPS_shifts :: "nat list" where
  "FIPS_shifts = [1, 1, 2, 2, 2, 2, 2, 2, 1, 2, 2, 2, 2, 2, 2, 1]"

section \<open>The cipher\<close>

definition select :: "nat list \<Rightarrow> bool list \<Rightarrow> bool list" where
  "select tab bs = map (\<lambda>i. bs ! (i - 1)) tab"

definition xor_bits :: "bool list \<Rightarrow> bool list \<Rightarrow> bool list" where
  "xor_bits = map2 (\<noteq>)"

text \<open>The number a list of bits denotes, most significant bit first, and a number as four bits.\<close>

definition bits_nat :: "bool list \<Rightarrow> nat" where
  "bits_nat = foldl (\<lambda>n b. 2 * n + of_bool b) 0"

definition nibble :: "nat \<Rightarrow> bool list" where
  "nibble n = map (bit n) [3, 2, 1, 0]"

text \<open>The first and last bit of a six-bit block choose the row of its S-box, the middle four the column.\<close>

definition S_select :: "nat \<Rightarrow> bool list \<Rightarrow> nat" where
  "S_select i b = FIPS_S ! i ! bits_nat [b ! 0, b ! 5] ! bits_nat [b ! 1, b ! 2, b ! 3, b ! 4]"

definition cipher_f :: "bool list \<Rightarrow> bool list \<Rightarrow> bool list" where
  "cipher_f K R =
     (let B = xor_bits (select FIPS_E R) K
      in select FIPS_P (concat (map (\<lambda>i. nibble (S_select i (take 6 (drop (6 * i) B)))) [0..<8])))"

fun key_halves :: "bool list \<Rightarrow> nat \<Rightarrow> bool list \<times> bool list" where
  "key_halves key 0 = (take 28 (select FIPS_PC1 key), drop 28 (select FIPS_PC1 key))"
| "key_halves key (Suc n) =
     (case key_halves key n of (c, d) \<Rightarrow> (rotate (FIPS_shifts ! n) c, rotate (FIPS_shifts ! n) d))"

definition subkey :: "bool list \<Rightarrow> nat \<Rightarrow> bool list" where
  "subkey key n = (case key_halves key (Suc n) of (c, d) \<Rightarrow> select FIPS_PC2 (c @ d))"

definition cipher_round :: "bool list \<Rightarrow> bool list \<times> bool list \<Rightarrow> bool list \<times> bool list" where
  "cipher_round K = (\<lambda>(L, R). (R, xor_bits L (cipher_f K R)))"

definition DES_rounds :: "bool list list \<Rightarrow> bool list \<Rightarrow> bool list" where
  "DES_rounds Ks block =
     (let B = select FIPS_IP block;
          (L, R) = fold cipher_round Ks (take 32 B, drop 32 B)
      in select FIPS_IP_inv (R @ L))"

definition DES_encipher :: "bool list \<Rightarrow> bool list \<Rightarrow> bool list" where
  "DES_encipher key = DES_rounds (map (subkey key) [0..<16])"

definition DES_decipher :: "bool list \<Rightarrow> bool list \<Rightarrow> bool list" where
  "DES_decipher key = DES_rounds (rev (map (subkey key) [0..<16]))"

section \<open>Deciphering inverts enciphering\<close>

lemma length_select [simp]: "length (select tab bs) = length tab"
  by (simp add: select_def)

lemma length_tables [simp]:
  "length FIPS_IP = 64" "length FIPS_IP_inv = 64" "length FIPS_E = 48" "length FIPS_P = 32"
  "length FIPS_PC1 = 56" "length FIPS_PC2 = 48"
  by (simp_all add: FIPS_IP_def FIPS_IP_inv_def FIPS_E_def FIPS_P_def FIPS_PC1_def FIPS_PC2_def)

lemma select_nth: "i < length tab \<Longrightarrow> select tab bs ! i = bs ! (tab ! i - 1)"
  by (simp add: select_def)

lemma length_cipher_f [simp]: "length (cipher_f K R) = 32"
  by (simp add: cipher_f_def Let_def)

lemma length_xor_bits [simp]: "length (xor_bits a b) = min (length a) (length b)"
  by (simp add: xor_bits_def)

lemma xor_bits_nth: "i < length a \<Longrightarrow> i < length b \<Longrightarrow> xor_bits a b ! i = (a ! i \<noteq> b ! i)"
  by (simp add: xor_bits_def)

lemma xor_bits_cancel: "length a = length b \<Longrightarrow> xor_bits (xor_bits a b) b = a"
  by (rule nth_equalityI) (auto simp: xor_bits_nth)

interpretation des: feistel "{bs. length bs = 32}" xor_bits cipher_f
  rewrites "feistel.round xor_bits cipher_f = cipher_round"
proof -
  show f: "feistel {bs. length bs = 32} xor_bits cipher_f"
    by unfold_locales (auto simp: xor_bits_cancel)
  show "feistel.round xor_bits cipher_f = cipher_round"
    by (intro ext) (simp add: feistel.round_def [OF f] cipher_round_def)
qed

lemma cancel_maps:
  assumes "list_all2 (\<lambda>i a. a < length s \<and> s ! a = i) ([0..<length t]) t'" "length bs = length t"
    "length t' = length t"
  shows "map (\<lambda>a. map (\<lambda>i. bs ! i) s ! a) t' = bs"
  using assms by (intro nth_equalityI) (auto simp: list_all2_conv_all_nth)

lemma IP_inv_IP: "length bs = 64 \<Longrightarrow> select FIPS_IP_inv (select FIPS_IP bs) = bs"
  using cancel_maps [of "map (\<lambda>i. i - 1) FIPS_IP" bs "map (\<lambda>i. i - 1) FIPS_IP_inv" bs]
  by (simp add: select_def comp_def FIPS_IP_def FIPS_IP_inv_def upt_rec)

lemma IP_IP_inv: "length bs = 64 \<Longrightarrow> select FIPS_IP (select FIPS_IP_inv bs) = bs"
  using cancel_maps [of "map (\<lambda>i. i - 1) FIPS_IP_inv" bs "map (\<lambda>i. i - 1) FIPS_IP" bs]
  by (simp add: select_def comp_def FIPS_IP_def FIPS_IP_inv_def upt_rec)

lemma DES_rounds_invert:
  assumes "length block = 64"
  shows "DES_rounds (rev Ks) (DES_rounds Ks block) = block"
proof -
  let ?B = "select FIPS_IP block"
  obtain L R where LR: "fold cipher_round Ks (take 32 ?B, drop 32 ?B) = (L, R)" by fastforce
  have C: "(take 32 ?B, drop 32 ?B) \<in> {bs. length bs = 32} \<times> {bs. length bs = 32}" by simp
  have l: "length L = 32" "length R = 32" using des.rounds_closed [OF C, of Ks] LR by auto
  then have "fold cipher_round (rev Ks) (R, L) = (drop 32 ?B, take 32 ?B)"
    using des.rounds_invert [OF C, of Ks] LR by simp
  then show ?thesis using assms l LR by (simp add: DES_rounds_def IP_IP_inv IP_inv_IP)
qed

end
