(* ===== verification/Des_Bits.thy ===== *)
theory Des_Bits
  imports Des Des_Spec
begin

text \<open>
  What the byte-array functions of \<open>des.c\<close> do to the bits of the arrays, read from the highest
  order bit of the first byte.
\<close>

definition bitat :: "uchar list \<Rightarrow> nat \<Rightarrow> bool" where
  "bitat bs i = bit (bs ! (i div 8)) (7 - i mod 8)"

definition bits :: "uchar list \<Rightarrow> bool list" where
  "bits bs = map (bitat bs) [0..<8 * length bs]"

section \<open>The macros\<close>

lemma length_bits [simp]: "length (bits bs) = 8 * length bs"
  by (simp add: bits_def)

lemma bits_nth [simp]: "i < 8 * length bs \<Longrightarrow> bits bs ! i = bitat bs i"
  by (simp add: bits_def)

lemma mod8_le: "(i :: nat) mod 8 \<le> 7"
  using mod_less_divisor [of 8 i] by linarith

lemma same_bit: "i div 8 = j div 8 \<Longrightarrow> 7 - i mod 8 = 7 - j mod 8 \<Longrightarrow> i = (j :: nat)"
  using mod8_le [of i] mod8_le [of j] div_mult_mod_eq [of i 8] div_mult_mod_eq [of j 8]
  by linarith

lemma GETBIT_iff [byte_simps]: "GETBIT bs i \<noteq> 0 \<longleftrightarrow> bitat bs i"
proof -
  have "x AND 1 \<noteq> 0 \<longleftrightarrow> bit x 0" for x :: uint8_t
    by (simp add: and_one_eq odd_iff_mod_2_eq_one bit_0)
  then show ?thesis by (simp add: GETBIT_def bitat_def bit_drop_bit_eq)
qed

lemma unat_GETBIT: "unat (GETBIT bs i) = of_bool (bitat bs i)"
proof -
  have "unat (x AND 1) = of_bool (bit x 0)" for x :: uint8_t
    by (simp add: and_one_eq bit_0 unat_mod mod_2_eq_odd)
  then show ?thesis by (simp add: GETBIT_def bitat_def bit_drop_bit_eq)
qed

lemma length_SETBIT [simp]: "length (SETBIT bs i) = length bs"
  by (simp add: SETBIT_def)

lemma length_CLRBIT [simp]: "length (CLRBIT bs i) = length bs"
  by (simp add: CLRBIT_def)

lemma bitat_update:
  assumes "i < length bs"
  shows "bitat (bs[i := w]) j = (if j div 8 = i then bit w (7 - j mod 8) else bitat bs j)"
  using assms by (simp add: bitat_def)

lemma bitat_SETBIT [byte_simps]:
  assumes "i < 8 * length bs"
  shows "bitat (SETBIT bs i) j = (j = i \<or> bitat bs j)"
proof -
  have i: "i div 8 < length bs" using assms by (simp add: less_mult_imp_div_less mult.commute)
  have "7 - j mod 8 < LENGTH(8)" by simp
  then show ?thesis using same_bit [of i j]
    by (auto simp: SETBIT_def bitat_update [OF i] bit_or_iff bit_exp_iff)
      (auto simp: bitat_def)
qed

lemma bitat_CLRBIT [byte_simps]:
  assumes "i < 8 * length bs"
  shows "bitat (CLRBIT bs i) j = (j \<noteq> i \<and> bitat bs j)"
proof -
  have i: "i div 8 < length bs" using assms by (simp add: less_mult_imp_div_less mult.commute)
  have "7 - j mod 8 < LENGTH(8)" by simp
  then show ?thesis using same_bit [of i j]
    by (auto simp: CLRBIT_def bitat_update [OF i] bit_and_iff bit_not_iff bit_exp_iff)
      (auto simp: bitat_def)
qed

section \<open>Loops that fill an array\<close>

lemma length_fold_update [simp]:
  "(\<And>i d. length (g i d) = length d) \<Longrightarrow> length (fold g is d) = length d"
  by (induction "is" arbitrary: d) simp_all

lemma fold_assign:
  "k \<le> length d \<Longrightarrow> fold (\<lambda>i d. d[i := v i]) [0..<k] d = map v [0..<k] @ drop k d"
proof (induction k)
  case (Suc k)
  then have "drop k d = d ! k # drop (Suc k) d" by (simp add: Cons_nth_drop_Suc)
  then show ?case using Suc by (simp add: list_update_append)
qed simp

lemma fold_SETBIT:
  assumes "n \<le> 8 * length d"
  shows "bitat (fold (\<lambda>i d. if P i then SETBIT d i else d) [0..<n] d) j =
    (j < n \<and> P j \<or> bitat d j)"
  using assms
proof (induction n)
  case (Suc n)
  then show ?case
    by (cases "j = n") (auto simp: bitat_SETBIT less_Suc_eq)
qed simp

lemma bitat_append: "bitat (xs @ ys) j = (if j < 8 * length xs then bitat xs j else bitat ys (j - 8 * length xs))"
proof (cases "j < 8 * length xs")
  case True
  then show ?thesis by (simp add: bitat_def nth_append less_mult_imp_div_less mult.commute)
next
  case False
  then obtain k where "j = k + length xs * 8" by (metis add.commute le_Suc_ex mult.commute not_less)
  then show ?thesis by (simp add: bitat_def nth_append mult.commute)
qed

lemma bits_append: "bits (xs @ ys) = bits xs @ bits ys"
  by (rule nth_equalityI) (auto simp: bitat_append nth_append)

lemma bits_split: "k \<le> length bs \<Longrightarrow> bits (take k bs) = take (8 * k) (bits bs)"
  "k \<le> length bs \<Longrightarrow> bits (drop k bs) = drop (8 * k) (bits bs)"
  using bits_append [of "take k bs" "drop k bs"] by (simp_all add: append_eq_conv_conj)

lemma bits_inject: "bits a = bits b \<longleftrightarrow> a = b"
proof
  assume *: "bits a = bits b"
  then have l: "length a = length b" using length_bits [of a] length_bits [of b] by simp
  show "a = b"
  proof (rule nth_equalityI [OF l], rule bit_eqI)
    fix i n assume i: "i < length a" and "possible_bit TYPE(uint8_t) n"
    then have n: "n < 8" by simp
    define m where "m = 7 - n"
    then have m: "m < 8" "n = 7 - m" using n by simp_all
    have "bitat a (8 * i + m) = bitat b (8 * i + m)"
      using arg_cong [OF *, of "\<lambda>x. x ! (8 * i + m)"] i l m(1) by simp
    then show "bit (a ! i) n = bit (b ! i) n" using m by (simp add: bitat_def)
  qed
qed simp

section \<open>Permute and xor\<close>

lemma length_Permute [simp]: "length (Permute dst src mp m) = length dst"
  by (simp add: Permute_def)

lemma bitat_Permute:
  assumes "m \<le> length dst"
  shows "bitat (Permute dst src mp m) j =
    (if j < 8 * m then bitat src (mp ! j) else bitat dst j)"
proof -
  have z: "fold (\<lambda>i d. d[i := 0]) [0..<m] dst = replicate m 0 @ drop m dst"
    using assms by (simp add: fold_assign map_replicate_const)
  have "bitat (replicate m 0) j = False" if "j < 8 * m"
    using that by (simp add: bitat_def less_mult_imp_div_less mult.commute)
  then have "bitat (replicate m 0 @ drop m dst) j = (\<not> j < 8 * m \<and> bitat dst j)"
    using assms bitat_append [of "take m dst" "drop m dst" j]
    by (simp add: bitat_append [of "replicate m 0"] min_absorb2)
  then show ?thesis
    using assms by (auto simp: Permute_def z GETBIT_iff fold_SETBIT)
qed

text \<open>A table of the source is one of the standard with its bits numbered from 0.\<close>

lemma bits_Permute:
  assumes "m \<le> length dst" "length mp = 8 * m" "list_all (\<lambda>i. i < 8 * length src) mp"
  shows "bits (take m (Permute dst src mp m)) = select (map Suc mp) (bits src)"
proof (rule nth_equalityI)
  fix i assume "i < length (bits (take m (Permute dst src mp m)))"
  then have "i < 8 * m" by simp
  then show "bits (take m (Permute dst src mp m)) ! i = select (map Suc mp) (bits src) ! i"
    using assms by (simp add: bits_split bitat_Permute select_nth list_all_length)
qed (use assms in simp)

lemma drop_Permute:
  assumes "m \<le> length dst"
  shows "drop m (Permute dst src mp m) = drop m dst"
  by (rule bits_inject [THEN iffD1], rule nth_equalityI)
    (use assms in \<open>auto simp: bits_split bitat_Permute\<close>)

lemma length_xor [simp]: "length (xor dst a b n) = length dst"
  by (simp add: xor_def)

lemma bits_xor:
  assumes "n \<le> length a" "n \<le> length b" "n = length dst"
  shows "bits (xor dst a b n) = xor_bits (bits (take n a)) (bits (take n b))"
proof (rule nth_equalityI)
  fix i assume "i < length (bits (xor dst a b n))"
  then have "i < 8 * n" "i div 8 < n" using assms(3) by (simp_all add: less_mult_imp_div_less mult.commute)
  then show "bits (xor dst a b n) ! i = xor_bits (bits (take n a)) (bits (take n b)) ! i"
    using assms by (simp add: xor_bits_nth bitat_def xor_def fold_assign bit_xor_iff)
qed (use assms in simp)

end
