(* ===== verification/Des_Correct.thy ===== *)
theory Des_Correct
  imports Des_Bits
begin

text \<open>
  The key rotation and the S-boxes on bits, and the correctness of \<open>auth_DEShash\<close>: it is the
  DES of the standard.
\<close>

section \<open>Rotating the key\<close>

lemma and_0x80: "w AND 0x80 \<noteq> 0 \<longleftrightarrow> bit w 7" for w :: uint8_t
  using and_exp_eq_0_iff_not_bit [of w 7] by simp

lemma bit_shift1:
  fixes w :: uint8_t
  assumes "n < 8"
  shows "bit (push_bit 1 w OR of_bool b) n = (if n = 0 then b else bit w (n - 1))"
proof -
  have "bit (push_bit 1 w) n = (1 \<le> n \<and> bit w (n - 1))"
    using assms by (subst bit_push_bit_iff) simp
  then show ?thesis by (auto simp: bit_or_iff bit_1_iff bit_of_bool_iff simp del: push_bit_of_1)
qed

lemma KeyShift_bytes_eq:
  fixes key :: "uchar list"
  assumes "n \<le> length key"
  shows "fold (\<lambda>j key.
         let key' = (if j \<noteq> 0 \<and> key ! j AND 0x80 \<noteq> 0 then key[j - 1 := key ! (j - 1) OR 1] else key)
         in key'[j := push_bit 1 (key' ! j)]) [0..<n] key =
    map (\<lambda>j. push_bit 1 (key ! j) OR of_bool (Suc j < n \<and> bit (key ! Suc j) 7)) [0..<n] @ drop n key"
  (is "fold ?g _ _ = ?r n")
  using assms
proof (induction n)
  case (Suc n)
  have g: "?g j ks = (ks[j - 1 := ks ! (j - 1) OR of_bool (j \<noteq> 0 \<and> bit (ks ! j) 7)])[j := push_bit 1 (ks ! j)]"
    for j ks by (cases j) (auto simp: Let_def and_0x80)
  have r: "?r m ! i = (if i < m then push_bit 1 (key ! i) OR of_bool (Suc i < m \<and> bit (key ! Suc i) 7) else key ! i)"
    if "m \<le> length key" "i < length key" for m i
    using that by (simp add: nth_append del: upt_Suc)
  define ks ks' where "ks = ?r n" and "ks' = ?r (Suc n)"
  have l: "length ks = length key" "length ks' = length key" using Suc.prems by (auto simp: ks_def ks'_def)
  have r: "ks ! i = (if i < n then push_bit 1 (key ! i) OR of_bool (Suc i < n \<and> bit (key ! Suc i) 7) else key ! i)"
    "ks' ! i = (if i \<le> n then push_bit 1 (key ! i) OR of_bool (i < n \<and> bit (key ! Suc i) 7) else key ! i)"
    if "i < length key" for i
    using that Suc.prems r [of n i] r [of "Suc n" i] by (simp_all add: ks_def ks'_def less_Suc_eq_le del: upt_Suc)
  have "?g n ks = ks'"
    unfolding g using Suc.prems by (intro nth_equalityI) (auto simp: l r nth_list_update le_less dest: Suc_lessI)
  then have "?g n (?r n) = ?r (Suc n)" unfolding ks_def ks'_def .
  moreover have "fold h [0..<Suc n] k = h n (fold h [0..<n] k)" for h and k :: "uchar list" by simp
  ultimately show ?case using Suc.IH [OF Suc_leD [OF Suc.prems]] by (simp only:)
qed simp

lemma length_KeyShift_bytes [simp]: "length (KeyShift_bytes key) = length key"
  by (simp add: KeyShift_bytes_def Let_def)

lemma bitat_KeyShift_bytes:
  assumes "length key = 7" "i < 56"
  shows "bitat (KeyShift_bytes key) i = (i < 55 \<and> bitat key (Suc i))"
proof -
  obtain q r where i: "i = 8 * q + r" "r < 8" "q < 7"
    using assms(2) by (intro that [of "i div 8" "i mod 8"]) auto
  have "KeyShift_bytes key ! q = push_bit 1 (key ! q) OR of_bool (Suc q < 7 \<and> bit (key ! Suc q) 7)"
    using assms(1) i(3) KeyShift_bytes_eq [of 7 key]
    by (simp add: KeyShift_bytes_def del: upt_Suc)
  then have "bitat (KeyShift_bytes key) i =
      (if r = 7 then Suc q < 7 \<and> bit (key ! Suc q) 7 else bit (key ! q) (6 - r))"
    using i(1,2) bit_shift1 [of "7 - r" "key ! q" "Suc q < 7 \<and> bit (key ! Suc q) 7"]
    by (simp add: bitat_def)
  moreover have "Suc i div 8 = (if r = 7 then Suc q else q)" "Suc i mod 8 = (if r = 7 then 0 else Suc r)"
    using i(1,2) by auto
  ultimately show ?thesis using i by (auto simp: bitat_def)
qed

definition rotate_halves :: "bool list \<Rightarrow> nat \<Rightarrow> bool list" where
  "rotate_halves bs n = rotate n (take 28 bs) @ rotate n (drop 28 bs)"

lemma bits_KeyShift_round:
  assumes "length key = 7" "bit keep 7 = bitat key 0" "KeyShift_round (key, keep) = (key', keep')"
  shows "length key' = 7" "keep' = push_bit 1 keep" "bits key' = rotate_halves (bits key) 1"
proof -
  let ?k = "KeyShift_bytes key"
  let ?k1 = "if bitat ?k 27 then SETBIT (CLRBIT ?k 27) 55 else ?k"
  have k': "key' = (if bit keep 7 then SETBIT ?k1 27 else ?k1)" "keep' = push_bit 1 keep"
    using assms(3) by (simp_all add: KeyShift_round_def Let_def GETBIT_iff and_0x80)
  show l: "length key' = 7" "keep' = push_bit 1 keep" using k' assms(1) by simp_all
  show "bits key' = rotate_halves (bits key) 1"
  proof (rule nth_equalityI)
    fix i assume "i < length (bits key')"
    then have i: "i < 56" using l by simp
    have "bitat key' i = (if i = 27 then bitat key 0 else if i = 55 then bitat key 28 else bitat key (Suc i))"
      using assms(1,2) i by (auto simp: k' bitat_SETBIT bitat_CLRBIT bitat_KeyShift_bytes)
    moreover have "rotate_halves (bits key) 1 ! i =
        (if i = 27 then bitat key 0 else if i = 55 then bitat key 28 else bitat key (Suc i))"
      using assms(1) i by (auto simp: rotate_halves_def nth_append nth_rotate1 mod_Suc)
    ultimately show "bits key' ! i = rotate_halves (bits key) 1 ! i" using i l by simp
  qed (use assms(1) l in \<open>simp add: rotate_halves_def\<close>)
qed

text \<open>The byte \<open>keep\<close> is enough for rotations by up to eight bits.\<close>

lemma bits_KeyShift:
  assumes "length key = 7" "n \<le> 8"
  shows "length (KeyShift key n) = 7" "bits (KeyShift key n) = rotate_halves (bits key) n"
proof -
  let ?s = "\<lambda>n. (KeyShift_round ^^ n) (key, key ! 0)"
  have "length (fst (?s n)) = 7 \<and> bits (fst (?s n)) = rotate_halves (bits key) n \<and>
      snd (?s n) = push_bit n (key ! 0)"
    using assms(2)
  proof (induction n)
    case 0
    then show ?case using assms(1) by (simp add: rotate_halves_def)
  next
    case (Suc n)
    then have IH: "length (fst (?s n)) = 7" "bits (fst (?s n)) = rotate_halves (bits key) n"
      "snd (?s n) = push_bit n (key ! 0)" by simp_all
    have "bitat (fst (?s n)) 0 = rotate_halves (bits key) n ! 0"
      using IH(1,2) bits_nth [of 0 "fst (?s n)"] by simp
    also have "\<dots> = bitat key n"
      using assms(1) Suc.prems by (simp add: rotate_halves_def nth_append nth_rotate)
    also have "\<dots> = bit (snd (?s n)) 7"
      using Suc.prems by (simp add: IH(3) bitat_def bit_push_bit_iff)
    finally have b: "bit (snd (?s n)) 7 = bitat (fst (?s n)) 0" ..
    have "KeyShift_round (fst (?s n), snd (?s n)) = (fst (?s (Suc n)), snd (?s (Suc n)))" by simp
    note r = bits_KeyShift_round [OF IH(1) b this]
    have "rotate_halves (rotate_halves (bits key) n) 1 = rotate_halves (bits key) (Suc n)"
      using assms(1) by (simp add: rotate_halves_def)
    then show ?case using r IH by simp
  qed
  then show "length (KeyShift key n) = 7" "bits (KeyShift key n) = rotate_halves (bits key) n"
    by (simp_all add: KeyShift_def)
qed

section \<open>The S-boxes\<close>

text \<open>The tables of the source list, for each six-bit number, what the standard finds by row and column.\<close>

lemma SBox_table:
  "list_all (\<lambda>i. list_all (\<lambda>v. unat (SBox ! i ! v) =
     FIPS_S ! i ! (2 * (v div 32) + v mod 2) ! (v div 2 mod 16)) [0..<64]) [0..<8]"
  by code_simp

lemma SBox_small: "list_all (\<lambda>i. list_all (\<lambda>v. unat (SBox ! i ! v) < 16) [0..<64]) [0..<8]"
  by code_simp

lemma length_6: "length b = 6 \<Longrightarrow> b = [b ! 0, b ! 1, b ! 2, b ! 3, b ! 4, b ! 5]"
  by (rule nth_equalityI) (auto simp: less_Suc_eq numeral_eq_Suc)

lemma SBox_select:
  assumes "length b = 6" "i < 8"
  shows "unat (SBox ! i ! bits_nat b) = S_select i b" "unat (SBox ! i ! bits_nat b) < 16"
proof -
  obtain b0 b1 b2 b3 b4 b5 where b: "b = [b0, b1, b2, b3, b4, b5]" using length_6 [OF assms(1)] by blast
  define v where "v = bits_nat b"
  have v: "v < 64" "bits_nat [b0, b5] = 2 * (v div 32) + v mod 2" "bits_nat [b1, b2, b3, b4] = v div 2 mod 16"
    by (cases b0; cases b1; cases b2; cases b3; cases b4; cases b5; simp add: v_def b bits_nat_def)+
  moreover have "S_select i b = FIPS_S ! i ! bits_nat [b0, b5] ! bits_nat [b1, b2, b3, b4]"
    by (simp add: S_select_def b)
  ultimately show "unat (SBox ! i ! bits_nat b) = S_select i b" "unat (SBox ! i ! bits_nat b) < 16"
    using SBox_table SBox_small assms(2) by (simp_all add: v_def [symmetric] list_all_iff)
qed

lemma push_or_of_bool: "push_bit 1 n OR of_bool b = 2 * n + of_bool b" for n :: nat
  by (cases b) (simp_all add: or_Suc_0_eq mult.commute)

lemma sbox_Snum_eq:
  assumes "length src = 6" "i < 8"
  shows "sbox_Snum src i = bits_nat (take 6 (drop (6 * i) (bits src)))"
proof -
  have "take 6 (drop (6 * i) (bits src)) = map (\<lambda>j. bitat src (i * 6 + j)) [0..<6]"
    using assms by (intro nth_equalityI) (simp_all add: mult.commute)
  then show ?thesis
    by (simp add: sbox_Snum_def bits_nat_def upt_rec unat_GETBIT push_or_of_bool del: push_bit_of_Suc_0)
qed

lemma small_word:
  fixes s :: uint8_t
  assumes "unat s < 16"
  shows "4 \<le> n \<Longrightarrow> \<not> bit s n" "bit s n = bit (unat s) n"
proof -
  show *: "bit s n = bit (unat s) n" for n
    by (simp add: bit_unsigned_iff bit_imp_possible_bit)
  assume "4 \<le> n"
  then have "unat s < 2 ^ n" using assms power_increasing [of 4 n "2 :: nat"] by simp
  then show "\<not> bit s n" unfolding * by (simp add: bit_iff_odd)
qed

lemma bits_sbox:
  assumes "length dst = 4" "length src = 6"
  shows "length (sbox dst src) = 4"
    "bits (sbox dst src) =
      concat (map (\<lambda>i. nibble (S_select i (take 6 (drop (6 * i) (bits src))))) [0..<8])"
proof -
  define s where "s i = SBox ! i ! sbox_Snum src i" for i
  have s: "unat (s i) = S_select i (take 6 (drop (6 * i) (bits src)))" "unat (s i) < 16" if "i < 8" for i
    using that assms(2) SBox_select [of "take 6 (drop (6 * i) (bits src))" i]
    by (simp_all add: s_def sbox_Snum_eq)
  have "fold (\<lambda>i d. d[i := 0]) [0..<4] dst = [0, 0, 0, 0]"
    using assms(1) by (subst fold_assign) (simp_all add: upt_rec)
  moreover have up: "[0..<8] = [0, 1, 2, 3, 4, 5, 6, 7 :: nat]" by code_simp
  ultimately have d: "sbox dst src = [push_bit 4 (s 0) OR s 1, push_bit 4 (s 2) OR s 3,
      push_bit 4 (s 4) OR s 5, push_bit 4 (s 6) OR s 7]"
    by (simp add: sbox_def s_def [symmetric] Let_def up)
  then show "length (sbox dst src) = 4" by simp
  have byte: "map (\<lambda>n. bit (push_bit 4 (s i) OR s j) n) [7, 6, 5, 4, 3, 2, 1, 0] =
      nibble (unat (s i)) @ nibble (unat (s j))" if "i < 8" "j < 8" for i j
    using small_word [OF s(2) [OF that(1)]] small_word [OF s(2) [OF that(2)]]
    by (simp add: nibble_def bit_or_iff bit_push_bit_iff)
  have bytes: "bits [a, b, c, d] = map (bit a) [7, 6, 5, 4, 3, 2, 1, 0] @ map (bit b) [7, 6, 5, 4, 3, 2, 1, 0] @
      map (bit c) [7, 6, 5, 4, 3, 2, 1, 0] @ map (bit d) [7, 6, 5, 4, 3, 2, 1, 0]" for a b c d
    by (simp add: bits_def bitat_def upt_rec)
  have "bits (sbox dst src) = (nibble (unat (s 0)) @ nibble (unat (s 1))) @ (nibble (unat (s 2)) @ nibble (unat (s 3)))
      @ (nibble (unat (s 4)) @ nibble (unat (s 5))) @ (nibble (unat (s 6)) @ nibble (unat (s 7)))"
    unfolding d bytes by (intro arg_cong2 [where f = "(@)"] byte) simp_all
  then show "bits (sbox dst src) =
      concat (map (\<lambda>i. nibble (S_select i (take 6 (drop (6 * i) (bits src))))) [0..<8])"
    by (simp add: s(1) up)
qed

end
