(* ===== verification/Des_Hash.thy ===== *)
theory Des_Hash
  imports Des_Correct
begin

text \<open>
  The sixteen rounds of \<open>auth_DEShash\<close> and its properties.
\<close>

section \<open>The tables of the source are those of the standard\<close>

lemma source_tables:
  "map Suc InitialPermuteMap = FIPS_IP" "map Suc KeyCompression = FIPS_PC2"
  "map Suc DataExpansion = FIPS_E" "map Suc PBox = FIPS_P" "KeyRotation = FIPS_shifts"
  "FinalPermuteMap = map (\<lambda>i. (i - 1 + 32) mod 64) FIPS_IP_inv"
  "map (\<lambda>i. map8to7 ! i) KeyPermuteMap = map (\<lambda>i. i - 1) FIPS_PC1"
  by code_simp+

lemma source_bounds:
  "list_all (\<lambda>i. i < 64) InitialPermuteMap" "list_all (\<lambda>i. i < 56) KeyPermuteMap"
  "list_all (\<lambda>i. i < 56) KeyCompression" "list_all (\<lambda>i. i < 32) DataExpansion"
  "list_all (\<lambda>i. i < 32) PBox" "list_all (\<lambda>i. i < 64) FinalPermuteMap" "list_all (\<lambda>i. i < 64) map8to7"
  "length InitialPermuteMap = 64" "length KeyPermuteMap = 56" "length KeyCompression = 48"
  "length DataExpansion = 48" "length PBox = 32" "length FinalPermuteMap = 64" "length map8to7 = 56"
  "list_all (\<lambda>n. n \<le> 8) KeyRotation" "length KeyRotation = 16"
  by code_simp+

lemma in_range_mono: "list_all (\<lambda>i. i < n) mp \<Longrightarrow> n \<le> m \<Longrightarrow> list_all (\<lambda>i. i < (m :: nat)) mp"
  by (auto simp: list_all_iff)

section \<open>A round\<close>

lemma bits_DES_f:
  assumes "length K = 7" "4 \<le> length L" "length R = 4"
  shows "length (DES_f K L R) = 4"
    "bits (DES_f K L R) = xor_bits (bits (take 4 L)) (cipher_f (select FIPS_PC2 (bits K)) (bits R))"
proof -
  define SubK where "SubK = Permute (replicate 6 0) K KeyCompression 6"
  define E where "E = Permute (replicate 6 0) R DataExpansion 6"
  define Rexp where "Rexp = xor E E SubK 6"
  define Rn where "Rn = sbox (replicate 4 0) Rexp"
  have len: "length SubK = 6" "length E = 6" "length Rexp = 6" by (simp_all add: SubK_def E_def Rexp_def)
  have "bits SubK = select FIPS_PC2 (bits K)"
    using bits_Permute [of 6 "replicate 6 0" KeyCompression K] len(1)
    by (simp add: SubK_def assms(1) source_bounds(3,10) source_tables(2))
  moreover have "bits E = select FIPS_E (bits R)"
    using bits_Permute [of 6 "replicate 6 0" DataExpansion R] len(2)
    by (simp add: E_def assms(3) source_bounds(4,11) source_tables(3))
  moreover have "bits Rexp = xor_bits (bits (take 6 E)) (bits (take 6 SubK))"
    unfolding Rexp_def by (rule bits_xor) (simp_all only: len order_refl)
  ultimately have B: "bits Rexp = xor_bits (select FIPS_E (bits R)) (select FIPS_PC2 (bits K))"
    by (simp only: len take_all order_refl)
  have Rn: "length Rn = 4"
    "bits Rn = concat (map (\<lambda>i. nibble (S_select i (take 6 (drop (6 * i) (bits Rexp))))) [0..<8])"
    using bits_sbox [of "replicate 4 0" Rexp] len by (simp_all add: Rn_def)
  have "bits (take 4 (Permute Rexp Rn PBox 4)) = select FIPS_P (bits Rn)"
    using bits_Permute [of 4 Rexp PBox Rn] by (simp add: len(3) Rn(1) source_bounds(5,12) source_tables(4))
  also have "\<dots> = cipher_f (select FIPS_PC2 (bits K)) (bits R)"
    by (simp add: cipher_f_def Let_def Rn(2) B)
  finally have P: "bits (take 4 (Permute Rexp Rn PBox 4)) = cipher_f (select FIPS_PC2 (bits K)) (bits R)" .
  have f: "DES_f K L R = xor Rn L (Permute Rexp Rn PBox 4) 4"
    by (simp add: DES_f_def Let_def SubK_def E_def Rexp_def Rn_def)
  then show "length (DES_f K L R) = 4" using Rn(1) by simp
  show "bits (DES_f K L R) = xor_bits (bits (take 4 L)) (cipher_f (select FIPS_PC2 (bits K)) (bits R))"
    unfolding f P [symmetric] using assms(2) len(3) Rn(1) by (intro bits_xor) simp_all
qed

lemma swap_halves:
  assumes "length D = 8" "length Rn = 4"
  shows "fold (\<lambda>j D. D[j := D ! (4 + j), 4 + j := Rn ! j]) [0..<4] D = drop 4 D @ Rn"
proof -
  have "[0..<4] = [0, 1, 2, 3 :: nat]" by code_simp
  moreover obtain a b c d e f g h where "D = [a, b, c, d, e, f, g, h]"
    using assms(1) by (auto simp: numeral_eq_Suc length_Suc_conv)
  moreover obtain r0 r1 r2 r3 where "Rn = [r0, r1, r2, r3]"
    using assms(2) by (auto simp: numeral_eq_Suc length_Suc_conv)
  moreover have "fold (\<lambda>j D. D[j := D ! (4 + j), 4 + j := [r0, r1, r2, r3] ! j]) [0, 1, 2, 3] [a, b, c, d, e, f, g, h] =
      drop 4 [a, b, c, d, e, f, g, h] @ [r0, r1, r2, r3]" for a b c d e f g h r0 r1 r2 r3 :: uchar
    by simp
  ultimately show ?thesis by simp
qed

lemma length_key_halves:
  "length (fst (key_halves key n)) = 28" "length (snd (key_halves key n)) = 28"
  by (induction n) (auto simp: case_prod_beta)

lemma rounds:
  assumes "length K = 7" "length D = 8" "bits K = select FIPS_PC1 key" "n \<le> 16"
    "fold DES_round [0..<n] (K, D) = (K', D')"
  shows "length K' = 7 \<and> length D' = 8 \<and> bits K' = fst (key_halves key n) @ snd (key_halves key n) \<and>
    (take 32 (bits D'), drop 32 (bits D')) =
      fold cipher_round (map (subkey key) [0..<n]) (take 32 (bits D), drop 32 (bits D))"
  using assms(4,5)
proof (induction n arbitrary: K' D')
  case 0
  then show ?case using assms by (simp flip: assms(3))
next
  case (Suc n)
  obtain K1 D1 where s: "fold DES_round [0..<n] (K, D) = (K1, D1)" by fastforce
  have IH: "length K1 = 7" "length D1 = 8" "bits K1 = fst (key_halves key n) @ snd (key_halves key n)"
    "(take 32 (bits D1), drop 32 (bits D1)) =
      fold cipher_round (map (subkey key) [0..<n]) (take 32 (bits D), drop 32 (bits D))"
    using Suc.IH [OF _ s] Suc.prems(1) by simp_all
  have rot: "KeyRotation ! n \<le> 8" using source_bounds(15,16) Suc.prems(1) by (auto simp: list_all_length)
  define K2 where "K2 = KeyShift K1 (KeyRotation ! n)"
  have K2: "length K2 = 7" "bits K2 = fst (key_halves key (Suc n)) @ snd (key_halves key (Suc n))"
    using bits_KeyShift [OF IH(1) rot] IH(3) length_key_halves [of key n]
    by (auto simp: K2_def rotate_halves_def source_tables(5) split: prod.splits)
  then have sub: "select FIPS_PC2 (bits K2) = subkey key n" by (simp add: subkey_def split: prod.splits)
  define Rn where "Rn = DES_f K2 D1 (drop 4 D1)"
  have Rn: "length Rn = 4" "bits Rn = xor_bits (take 32 (bits D1)) (cipher_f (subkey key n) (drop 32 (bits D1)))"
    using bits_DES_f [OF K2(1), of D1 "drop 4 D1"] IH(2) by (simp_all add: Rn_def sub bits_split)
  have "(K', D') = (K2, drop 4 D1 @ Rn)"
  proof -
    have "(K', D') = DES_round n (K1, D1)" using Suc.prems(2) s by simp
    then show ?thesis using swap_halves [OF IH(2) Rn(1)]
      by (simp add: DES_round_def Let_def K2_def Rn_def)
  qed
  then show ?case
    using K2 Rn IH(2) IH(4) [symmetric]
    by (simp add: bits_append bits_split cipher_round_def [of "subkey key n"] del: key_halves.simps)
qed

section \<open>The whole function\<close>

lemma final_map: "length bs = 64 \<Longrightarrow> select (map Suc FinalPermuteMap) bs = select FIPS_IP_inv (drop 32 bs @ take 32 bs)"
proof -
  assume l: "length bs = 64"
  have "list_all (\<lambda>i. (i - 1 + 32) mod 64 = (if i - 1 < 32 then 32 + (i - 1) else i - 1 - 32) \<and> i - 1 < 64) FIPS_IP_inv"
    by code_simp
  then show ?thesis using l
    by (auto simp: select_def source_tables(6) list_all_iff nth_append)
qed

lemma auth_DEShash_bits:
  assumes "7 \<le> length k" "length src = 8" "8 \<le> length dst"
    "select (map Suc KeyPermuteMap) (bits k) = select FIPS_PC1 key"
  shows "bits (take 8 (auth_DEShash dst k src)) = DES_encipher key (bits src)"
proof -
  define K where "K = Permute (replicate 7 0) k KeyPermuteMap 7"
  define D where "D = Permute (replicate 8 0) src InitialPermuteMap 8"
  obtain K' D' where r: "fold DES_round [0..<16] (K, D) = (K', D')" by fastforce
  have K: "length K = 7" "bits K = select FIPS_PC1 key"
    using bits_Permute [of 7 "replicate 7 0" KeyPermuteMap k] assms(1,4)
      in_range_mono [OF source_bounds(2), of "8 * length k"] by (simp_all add: K_def source_bounds(9))
  have D: "length D = 8" "bits D = select FIPS_IP (bits src)"
    using bits_Permute [of 8 "replicate 8 0" InitialPermuteMap src] assms(2)
    by (simp_all add: D_def source_bounds(1,8) source_tables(1))
  note inv = rounds [OF K(1) D(1) K(2) order_refl r]
  have "bits (take 8 (auth_DEShash dst k src)) = select (map Suc FinalPermuteMap) (bits D')"
    using bits_Permute [of 8 dst FinalPermuteMap D'] assms(3) inv
    unfolding auth_DEShash_def Let_def K_def [symmetric] D_def [symmetric] r prod.case
    by (simp add: source_bounds(6,13))
  also have "\<dots> = select FIPS_IP_inv (drop 32 (bits D') @ take 32 (bits D'))"
    using inv by (intro final_map) simp
  also have "\<dots> = DES_encipher key (bits src)"
    using inv [THEN conjunct2, THEN conjunct2, THEN conjunct2, symmetric]
    unfolding DES_encipher_def DES_rounds_def Let_def D(2) [symmetric] by (simp only: prod.case)
  finally show ?thesis .
qed

section \<open>Keys\<close>

lemma select_compose:
  "list_all (\<lambda>i. i < length t) s \<Longrightarrow>
     select (map Suc s) (select (map Suc t) bs) = select (map (\<lambda>i. Suc (t ! i)) s) bs"
  by (auto simp: select_def list_all_iff)

text \<open>A 56-bit key with a parity bit after every seven bits, which the standard ignores.\<close>

definition with_parity :: "bool list \<Rightarrow> bool list" where
  "with_parity bs = concat (map (\<lambda>i. take 7 (drop (7 * i) bs) @ [False]) [0..<8])"

definition drop_parity :: "bool list \<Rightarrow> bool list" where
  "drop_parity bs = concat (map (\<lambda>i. take 7 (drop (8 * i) bs)) [0..<8])"

lemma blocks_nth:
  assumes "k * n \<le> length bs"
  shows "concat (map (\<lambda>i. take k (drop (k * i) bs)) [0..<n]) = take (k * n) bs"
  using assms
proof (induction n)
  case (Suc n)
  then show ?case using take_add [of "k * n" k bs] by (simp add: add.commute)
qed simp

lemma upt8: "[0..<8] = [0, 1, 2, 3, 4, 5, 6, 7 :: nat]"
  by code_simp

lemma length_with_parity:
  assumes "length bs = 56" shows "length (with_parity bs) = 64"
  using assms by (simp add: with_parity_def upt8)

lemma map8to7_eq: "map Suc map8to7 = concat (map (\<lambda>i. map (\<lambda>j. Suc (8 * i + j)) [0..<7]) [0..<8])"
  by code_simp

lemma select_map8to7:
  assumes "length bs = 64" shows "select (map Suc map8to7) bs = drop_parity bs"
proof -
  have "map (\<lambda>j. bs ! (8 * i + j)) [0..<7] = take 7 (drop (8 * i) bs)" if "i < 8" for i
    using that assms by (intro nth_equalityI) simp_all
  then have "map (\<lambda>i. map (\<lambda>j. bs ! (8 * i + j)) [0..<7]) [0..<8] = map (\<lambda>i. take 7 (drop (8 * i) bs)) [0..<8]"
    by (intro map_cong) auto
  moreover have "select (map Suc map8to7) bs = concat (map (\<lambda>i. map (\<lambda>j. bs ! (8 * i + j)) [0..<7]) [0..<8])"
    unfolding map8to7_eq select_def by (simp add: map_concat comp_def)
  ultimately show ?thesis by (simp only: drop_parity_def)
qed

lemma drop_with_parity:
  assumes "length bs = 56" shows "drop_parity (with_parity bs) = bs"
proof -
  have "drop_parity (with_parity bs) = concat (map (\<lambda>i. take 7 (drop (7 * i) bs)) [0..<8])"
    using assms by (simp add: drop_parity_def with_parity_def upt8)
  then show ?thesis using blocks_nth [of 7 8 bs] assms by simp
qed

lemma PC1_eq:
  assumes "length bs = 64"
  shows "select FIPS_PC1 bs = select (map Suc KeyPermuteMap) (drop_parity bs)"
proof -
  have "select (map Suc KeyPermuteMap) (drop_parity bs) = select (map (\<lambda>i. Suc (map8to7 ! i)) KeyPermuteMap) bs"
    using source_bounds(2,14) select_map8to7 [OF assms] select_compose [of map8to7 KeyPermuteMap bs] by simp
  also have "map (\<lambda>i. Suc (map8to7 ! i)) KeyPermuteMap = FIPS_PC1" by code_simp
  finally show ?thesis by simp
qed

lemma bits_auth_DESkey8to7:
  assumes "7 \<le> length d" "length k = 8"
  shows "\<exists>k7. auth_DESkey8to7 (Some d) (Some k) = Some k7 \<and> length k7 = length d \<and>
    drop 7 k7 = drop 7 d \<and> bits (take 7 k7) = drop_parity (bits k)"
proof -
  define tmp where "tmp = Permute (replicate 7 0) k map8to7 7"
  have "map ((!) tmp) [0..<7] = tmp" by (rule nth_equalityI) (simp_all add: tmp_def)
  moreover have "bits tmp = drop_parity (bits k)"
    using bits_Permute [of 7 "replicate 7 0" map8to7 k] assms(2) select_map8to7 [of "bits k"]
    by (simp add: tmp_def source_bounds(7,14))
  moreover have "length tmp = 7" by (simp add: tmp_def)
  ultimately show ?thesis using assms(1) by (simp add: auth_DESkey8to7_def tmp_def [symmetric] fold_assign)
qed

section \<open>Properties\<close>

text \<open>C10: \<open>auth_DESkey8to7\<close> followed by \<open>auth_DEShash\<close> is the DES of FIPS PUB 46-3, for every 64-bit key and
  block: the first eight bytes of the destination receive the enciphered block, and bytes
  beyond them keep their value.\<close>

theorem auth_DEShash_is_DES:
  assumes "length key = 8" "length src = 8" "7 \<le> length d" "8 \<le> length dst"
    "auth_DESkey8to7 (Some d) (Some key) = Some k7"
  shows "bits (take 8 (auth_DEShash dst k7 src)) = DES_encipher (bits key) (bits src) \<and>
    drop 8 (auth_DEShash dst k7 src) = drop 8 dst"
proof -
  have k7: "length k7 = length d" "take 56 (bits k7) = drop_parity (bits key)"
    using bits_auth_DESkey8to7 [OF assms(3,1)] assms(3,5) by (auto simp: bits_split)
  have "select (map Suc KeyPermuteMap) (take 56 (bits k7)) = select (map Suc KeyPermuteMap) (bits k7)"
    using source_bounds(2) by (auto simp: select_def list_all_iff)
  then have "select (map Suc KeyPermuteMap) (bits k7) = select FIPS_PC1 (bits key)"
    using k7(2) PC1_eq [of "bits key"] assms(1) by simp
  moreover have "drop 8 (auth_DEShash dst k7 src) = drop 8 dst"
    using assms(4) by (simp add: auth_DEShash_def drop_Permute split: prod.split)
  ultimately show ?thesis
    using auth_DEShash_bits [of k7 src dst "bits key"] k7(1) assms by simp
qed

definition demo_key :: "uchar list" where
  "demo_key = [0x13, 0x34, 0x57, 0x79, 0x9b, 0xbc, 0xdf, 0xf1]"

definition demo_block :: "uchar list" where
  "demo_block = [0x01, 0x23, 0x45, 0x67, 0x89, 0xab, 0xcd, 0xef]"

theorem auth_DEShash_is_DES_witness:
  "auth_DESkey8to7 (Some (replicate 7 0)) (Some demo_key) = Some [0x12, 0x69, 0x5b, 0xc9, 0xb7, 0xb7, 0xf8] \<and>
   bits (take 8 (auth_DEShash (replicate 8 0) [0x12, 0x69, 0x5b, 0xc9, 0xb7, 0xb7, 0xf8] demo_block)) =
     DES_encipher (bits demo_key) (bits demo_block)"
proof -
  have k: "auth_DESkey8to7 (Some (replicate 7 0)) (Some demo_key) = Some [0x12, 0x69, 0x5b, 0xc9, 0xb7, 0xb7, 0xf8]"
    by code_simp
  have "length demo_key = 8" "length demo_block = 8" by (simp_all add: demo_key_def demo_block_def)
  then show ?thesis
    using k auth_DEShash_is_DES [OF _ _ _ _ k, of demo_block "replicate 8 0"]
    by (simp del: take_all take_all_iff)
qed

text \<open>C11: With any seven-byte key, deciphering (the standard's algorithm, with the subkeys reversed)
  recovers the source from the result of \<open>auth_DEShash\<close>; so two blocks have the same result only
  when they are equal.\<close>

theorem auth_DEShash_decipher:
  assumes "length k = 7" "length src = 8" "8 \<le> length dst"
  shows "DES_decipher (with_parity (bits k)) (bits (take 8 (auth_DEShash dst k src))) = bits src \<and>
    (\<forall>src'. length src' = 8 \<longrightarrow>
      (take 8 (auth_DEShash dst k src') = take 8 (auth_DEShash dst k src) \<longleftrightarrow> src' = src))"
proof -
  let ?key = "with_parity (bits k)"
  have "select (map Suc KeyPermuteMap) (bits k) = select FIPS_PC1 ?key"
    using assms(1) by (simp add: PC1_eq length_with_parity drop_with_parity)
  then have e: "bits (take 8 (auth_DEShash dst k s)) = DES_encipher ?key (bits s)" if "length s = 8" for s
    using that assms by (intro auth_DEShash_bits) simp_all
  have d: "DES_decipher ?key (DES_encipher ?key (bits s)) = bits s" if "length s = 8" for s
    using that by (simp add: DES_decipher_def DES_encipher_def DES_rounds_invert del: upt_Suc)
  show ?thesis using e d assms(2) bits_inject by metis
qed

theorem auth_DEShash_decipher_witness:
  "DES_decipher (with_parity (bits (replicate 7 5)))
     (bits (take 8 (auth_DEShash (replicate 8 0) (replicate 7 5) demo_block))) = bits demo_block"
  using auth_DEShash_decipher [of "replicate 7 5" demo_block "replicate 8 0"] by (simp add: demo_block_def)

text \<open>\<open>auth_DESkey8to7\<close> returns NULL exactly when one of its arguments is NULL, and otherwise
  writes the key without the lowest bit of each byte into the first seven bytes of the destination.\<close>

theorem auth_DESkey8to7_drops_parity:
  "(auth_DESkey8to7 dst key = None \<longleftrightarrow> dst = None \<or> key = None) \<and>
   (\<forall>d k. dst = Some d \<and> key = Some k \<and> 7 \<le> length d \<and> length k = 8 \<longrightarrow>
     (\<exists>k7. auth_DESkey8to7 dst key = Some k7 \<and> drop 7 k7 = drop 7 d \<and>
        bits (take 7 k7) = drop_parity (bits k)))"
proof -
  have "auth_DESkey8to7 dst key = None \<longleftrightarrow> dst = None \<or> key = None"
    by (cases dst; cases key) (simp_all add: auth_DESkey8to7_def Let_def)
  then show ?thesis using bits_auth_DESkey8to7 by blast
qed

theorem auth_DESkey8to7_drops_parity_witness:
  "\<exists>k7. auth_DESkey8to7 (Some (replicate 9 1)) (Some demo_key) = Some k7 \<and> drop 7 k7 = [1, 1] \<and>
     bits (take 7 k7) = drop_parity (bits demo_key)"
  using auth_DESkey8to7_drops_parity [of "Some (replicate 9 1)" "Some demo_key"]
  by (simp add: demo_key_def numeral_eq_Suc)

text \<open>\<open>KeyShift\<close> rotates the two 28-bit halves of the key by up to eight bits, and the rotations
  of the sixteen rounds bring the key back to where it started.\<close>

theorem KeyShift_rotates:
  assumes "length key = 7"
  shows "(n \<le> 8 \<longrightarrow> bits (KeyShift key n) =
      rotate n (take 28 (bits key)) @ rotate n (drop 28 (bits key))) \<and>
    fold (\<lambda>i key. KeyShift key (KeyRotation ! i)) [0..<16] key = key"
proof -
  have "bits (fold (\<lambda>i key. KeyShift key (KeyRotation ! i)) [0..<m] key) =
      rotate_halves (bits key) (sum_list (take m KeyRotation)) \<and>
      length (fold (\<lambda>i key. KeyShift key (KeyRotation ! i)) [0..<m] key) = 7" if "m \<le> 16" for m
    using that
  proof (induction m)
    case (Suc m)
    then have "KeyRotation ! m \<le> 8" "take (Suc m) KeyRotation = take m KeyRotation @ [KeyRotation ! m]"
      using source_bounds(15,16) by (auto simp: list_all_length take_Suc_conv_app_nth)
    then show ?case using Suc assms
      by (simp add: bits_KeyShift) (simp add: rotate_halves_def rotate_rotate add.commute)
  qed (simp add: rotate_halves_def assms)
  note m = this [of 16]
  have "sum_list (take 16 KeyRotation) = 28" by code_simp
  then have "bits (fold (\<lambda>i key. KeyShift key (KeyRotation ! i)) [0..<16] key) = bits key"
    using m assms rotate_id [of 28 "take 28 (bits key)"] rotate_id [of 28 "drop 28 (bits key)"]
    by (simp add: rotate_halves_def)
  then show ?thesis using assms bits_KeyShift(2) [OF assms] by (simp add: bits_inject rotate_halves_def)
qed

theorem KeyShift_rotates_witness:
  "bits (KeyShift (take 7 demo_key) 2) =
     rotate 2 (take 28 (bits (take 7 demo_key))) @ rotate 2 (drop 28 (bits (take 7 demo_key)))"
  using KeyShift_rotates [of "take 7 demo_key" 2] by (simp add: demo_key_def)

end
