(* ===== verification/Quic.thy ===== *)
theory Quic
  imports Prelude
begin

text \<open>
  The QUIC packet code of \<open>c-study/quic/iquic.c\<close>: version tests, variable-length integers, key
  derivation, header protection and packet decryption. libgcrypt is a parameter: a record of the
  functions the source calls. A buffer is a list of bytes, and reading beyond its end is the
  value \<open>None\<close>. Every \<open>malloc\<close> asks the environment whether it succeeds, and the number of live
  blocks is part of the state, so that leaks are visible.
\<close>

unbundle bit_operations_syntax

type_synonym bytes = "uint8_t list"

section \<open>Versions\<close>

definition V_Q024 :: uint32_t where "V_Q024 = 0x51303234"
definition V_Q025 :: uint32_t where "V_Q025 = 0x51303235"
definition V_Q030 :: uint32_t where "V_Q030 = 0x51303330"
definition V_Q033 :: uint32_t where "V_Q033 = 0x51303333"
definition V_Q034 :: uint32_t where "V_Q034 = 0x51303334"
definition V_Q035 :: uint32_t where "V_Q035 = 0x51303335"
definition V_Q037 :: uint32_t where "V_Q037 = 0x51303337"
definition V_Q039 :: uint32_t where "V_Q039 = 0x51303339"
definition V_Q043 :: uint32_t where "V_Q043 = 0x51303433"
definition V_Q046 :: uint32_t where "V_Q046 = 0x51303436"
definition V_Q050 :: uint32_t where "V_Q050 = 0x51303530"
definition V_T050 :: uint32_t where "V_T050 = 0x54303530"
definition V_T051 :: uint32_t where "V_T051 = 0x54303531"
definition V_MVFST_22 :: uint32_t where "V_MVFST_22 = 0xfaceb001"
definition V_MVFST_27 :: uint32_t where "V_MVFST_27 = 0xfaceb002"
definition V_MVFST_EXP :: uint32_t where "V_MVFST_EXP = 0xfaceb00e"

lemmas version_defs = V_Q024_def V_Q025_def V_Q030_def V_Q033_def V_Q034_def V_Q035_def V_Q037_def
  V_Q039_def V_Q043_def V_Q046_def V_Q050_def V_T050_def V_T051_def V_MVFST_22_def V_MVFST_27_def
  V_MVFST_EXP_def

definition is_version_gquic :: "uint32_t \<Rightarrow> bool" where
  "is_version_gquic version \<longleftrightarrow>
     version AND 0xFFFFFF00 = 0x54303500 \<or> version AND 0xFFFFFF00 = 0x51303500 \<or>
     version AND 0xFFFFFF00 = 0x51303400 \<or> version AND 0xFFFFFF00 = 0x51303300 \<or>
     version AND 0xFFFFFF00 = 0x51303200"

definition is_version_quic :: "uint32_t \<Rightarrow> bool" where
  "is_version_quic version \<longleftrightarrow>
     version AND 0xFFFFFF00 = 0xFF000000 \<or> version AND 0xFFFFF000 = 0xfaceb000"

definition is_version_valid :: "uint32_t \<Rightarrow> bool" where
  "is_version_valid version \<longleftrightarrow> is_version_gquic version \<or> is_version_quic version"

definition get_u8_quic_ver :: "uint32_t \<Rightarrow> uint8_t" where
  "get_u8_quic_ver version = (if drop_bit 8 version = 0xff0000 then ucast version else 0)"

definition is_quic_ver_less_than :: "uint32_t \<Rightarrow> uint8_t \<Rightarrow> bool" where
  "is_quic_ver_less_than version max_version =
     (let u8_ver = get_u8_quic_ver version in u8_ver \<noteq> 0 \<and> u8_ver \<le> max_version)"

definition is_quic_ver_greater_than :: "uint32_t \<Rightarrow> uint8_t \<Rightarrow> bool" where
  "is_quic_ver_greater_than version min_version \<longleftrightarrow> min_version \<le> get_u8_quic_ver version"

section \<open>Byte order\<close>

text \<open>
  The byte order of the host is a parameter: \<open>be\<close> says that it is big-endian. Memory is read
  through a cast pointer in the host's order, and \<open>ntohs\<close> and \<open>ntohl\<close> swap the bytes on a
  little-endian host only.
\<close>

definition load :: "bool \<Rightarrow> bytes \<Rightarrow> 'a::len word" where
  "load be bs = word_of_nat (be_nat (if be then bs else rev bs))"

definition ntohs :: "bool \<Rightarrow> uint16_t \<Rightarrow> uint16_t" where
  "ntohs be x = (if be then x else word_of_nat (be_nat (rev (be_bytes 2 (unat x)))))"

definition ntohl :: "bool \<Rightarrow> uint32_t \<Rightarrow> uint32_t" where
  "ntohl be x = (if be then x else word_of_nat (be_nat (rev (be_bytes 4 (unat x)))))"

definition ntohll :: "bool \<Rightarrow> uint64_t \<Rightarrow> uint64_t" where
  "ntohll be val = push_bit 32 (ucast (ntohl be (ucast val))) + ucast (ntohl be (ucast (drop_bit 32 val)))"

text \<open>The bytes of a word in the host's memory, and the \<open>atoi\<close> of the C library on them.\<close>

definition store :: "bool \<Rightarrow> uint32_t \<Rightarrow> bytes" where
  "store be x = (if be then be_bytes 4 (unat x) else rev (be_bytes 4 (unat x)))"

definition is_digit :: "uint8_t \<Rightarrow> bool" where
  "is_digit c \<longleftrightarrow> 0x30 \<le> c \<and> c \<le> 0x39"

definition atoi_digits :: "bytes \<Rightarrow> int" where
  "atoi_digits s = foldl (\<lambda>n c. 10 * n + (uint c - 48)) 0 (takeWhile is_digit s)"

definition atoi :: "bytes \<Rightarrow> int" where
  "atoi s =
     (case dropWhile (\<lambda>c. c = 0x20 \<or> 9 \<le> c \<and> c \<le> 13) s of
        [] \<Rightarrow> 0
      | c # cs \<Rightarrow> if c = 0x2d then - atoi_digits cs else if c = 0x2b then atoi_digits cs
                  else atoi_digits (c # cs))"

definition get_u8_gquic_ver :: "bool \<Rightarrow> uint32_t \<Rightarrow> uint8_t" where
  "get_u8_gquic_ver be version =
     (if is_version_gquic version
      then word_of_int (atoi (store be (ntohl be (push_bit 16 (ucast (ucast version :: uint16_t))))))
      else 0)"

definition is_gquic_ver_less_than :: "bool \<Rightarrow> uint32_t \<Rightarrow> uint8_t \<Rightarrow> bool" where
  "is_gquic_ver_less_than be version max_version =
     (let u8_ver = get_u8_gquic_ver be version in u8_ver \<noteq> 0 \<and> u8_ver \<le> max_version)"

definition is_version_supported :: "uint32_t \<Rightarrow> bool" where
  "is_version_supported version \<longleftrightarrow>
     version = V_Q024 \<or> version = V_Q025 \<or> version = V_Q030 \<or> version = V_Q033 \<or>
     version = V_Q034 \<or> version = V_Q035 \<or> version = V_Q037 \<or> version = V_Q039 \<or>
     version = V_Q043 \<or> version = V_Q046 \<or> version = V_Q050 \<or> version = V_T050 \<or>
     version = V_T051 \<or> version = V_MVFST_22 \<or> version = V_MVFST_27 \<or> version = V_MVFST_EXP \<or>
     is_quic_ver_greater_than version 23"

definition is_version_with_encrypted_header :: "uint32_t \<Rightarrow> bool" where
  "is_version_with_encrypted_header version \<longleftrightarrow>
     is_version_quic version \<or> version AND 0xFFFFFF00 = 0x51303500 \<or>
     version AND 0xFFFFFF00 = 0x54303500"

definition is_version_with_tls :: "uint32_t \<Rightarrow> bool" where
  "is_version_with_tls version \<longleftrightarrow> is_version_quic version \<or> version AND 0xFFFFFF00 = 0x54303500"

definition is_version_with_var_int_transport_params :: "uint32_t \<Rightarrow> bool" where
  "is_version_with_var_int_transport_params version \<longleftrightarrow>
     is_version_quic version \<and> is_quic_ver_greater_than version 27 \<or> version = V_T051"

section \<open>Variable-length integers\<close>

text \<open>\<open>rd buf i n\<close> are the \<open>n\<close> bytes of \<open>buf\<close> from index \<open>i\<close>, or \<open>None\<close> when some are not in the buffer.\<close>

definition rd :: "bytes \<Rightarrow> nat \<Rightarrow> nat \<Rightarrow> bytes option" where
  "rd buf i n = (if i + n \<le> length buf then Some (take n (drop i buf)) else None)"

definition quic_len :: "bool \<Rightarrow> bytes \<Rightarrow> (nat \<times> uint64_t) option" where
  "quic_len be buf =
     (case rd buf 0 1 of
        None \<Rightarrow> None
      | Some b \<Rightarrow>
          let value = ucast (b ! 0) :: uint64_t in
          if drop_bit 6 value = 0 then Some (1, value AND 0x3F)
          else if drop_bit 6 value = 1
          then map_option (\<lambda>b. (2, ucast (ntohs be (load be b) AND 0x3FFF))) (rd buf 0 2)
          else if drop_bit 6 value = 2
          then map_option (\<lambda>b. (4, ucast (ntohl be (load be b) AND 0x3FFFFFFF))) (rd buf 0 4)
          else if drop_bit 6 value = 3
          then map_option (\<lambda>b. (8, ntohll be (load be b) AND 0x3FFFFFFFFFFFFFFF)) (rd buf 0 8)
          else Some (0, value))"

definition quic_len_buffer_still_required :: "uint8_t \<Rightarrow> nat" where
  "quic_len_buffer_still_required value =
     (let c = drop_bit 6 value in
      if c = 0 then 0 else if c = 1 then 1 else if c = 2 then 3 else if c = 3 then 7 else 0)"

definition gquic_get_u16 :: "bool \<Rightarrow> bytes \<Rightarrow> uint32_t \<Rightarrow> uint16_t option" where
  "gquic_get_u16 be buf version =
     map_option (\<lambda>b. if V_Q039 \<le> version then ntohs be (load be b) else load be b) (rd buf 0 2)"

definition pntoh64 :: "bytes \<Rightarrow> uint64_t" where
  "pntoh64 p =
     push_bit 56 (ucast (p ! 0)) OR push_bit 48 (ucast (p ! 1)) OR push_bit 40 (ucast (p ! 2)) OR
     push_bit 32 (ucast (p ! 3)) OR push_bit 24 (ucast (p ! 4)) OR push_bit 16 (ucast (p ! 5)) OR
     push_bit 8 (ucast (p ! 6)) OR push_bit 0 (ucast (p ! 7))"

definition phton64 :: "uint64_t \<Rightarrow> bytes" where
  "phton64 v =
     [ucast (drop_bit 56 v), ucast (drop_bit 48 v), ucast (drop_bit 40 v), ucast (drop_bit 32 v),
      ucast (drop_bit 24 v), ucast (drop_bit 16 v), ucast (drop_bit 8 v), ucast (drop_bit 0 v)]"

end
