(* ===== verification/Quic_Len.thy ===== *)
theory Quic_Len
  imports Quic
begin

text \<open>
  Variable-length integers and byte order: what \<open>quic_len\<close> reads on a little-endian host, and the
  64-bit conversions.
\<close>

section \<open>Words as numbers\<close>

lemma unat_and_mask: "unat (w AND mask k) = unat w mod 2 ^ k" for w :: "'a::len word"
proof -
  have "unat (w AND mask k) = take_bit k (unat w)"
    unfolding take_bit_eq_mask [symmetric] by (rule unsigned_take_bit_eq)
  then show ?thesis by (simp only: take_bit_eq_mod)
qed

lemma mask_number: "(ucast (w AND mask k) :: uint64_t) = word_of_nat (unat w mod 2 ^ k)" for w :: "'a::len word"
proof -
  have "ucast v = (word_of_nat (unat v) :: uint64_t)" for v :: "'a word" by simp
  then show ?thesis by (simp only: unat_and_mask)
qed

lemma masks:
  "(0x3F :: uint64_t) = mask 6" "(0x3FFF :: uint16_t) = mask 14" "(0x3FFFFFFF :: uint32_t) = mask 30"
  "(0x3FFFFFFFFFFFFFFF :: uint64_t) = mask 62"
  by (simp_all add: mask_eq_exp_minus_1)

lemma unat_load:
  assumes "2 ^ LENGTH('a) = (256 :: nat) ^ length bs"
  shows "unat (load be bs :: 'a::len word) = be_nat (if be then bs else rev bs)"
  using assms be_nat_less [of bs] be_nat_less [of "rev bs"]
  by (simp add: load_def unat_of_nat)

lemma be_nat_word:
  "length bs = 2 \<Longrightarrow> unat (word_of_nat (be_nat bs) :: uint16_t) = be_nat bs"
  "length bs = 4 \<Longrightarrow> unat (word_of_nat (be_nat bs) :: uint32_t) = be_nat bs"
  "length bs = 8 \<Longrightarrow> unat (word_of_nat (be_nat bs) :: uint64_t) = be_nat bs"
  using be_nat_less [of bs] by (simp_all add: unat_of_nat)

lemma be_bytes_eq: "length bs = n \<Longrightarrow> be_bytes n (be_nat bs) = bs"
  by auto

lemma ntohs_load:
  assumes "length bs = 2" shows "unat (ntohs False (load False bs)) = be_nat bs"
  using assms unat_load [where 'a = 16 and bs = bs and be = False] be_bytes_eq [of "rev bs" 2]
  by (simp add: ntohs_def be_nat_word)

lemma ntohl_load:
  assumes "length bs = 4" shows "unat (ntohl False (load False bs)) = be_nat bs"
  using assms unat_load [where 'a = 32 and bs = bs and be = False] be_bytes_eq [of "rev bs" 4]
  by (simp add: ntohl_def be_nat_word)

text \<open>On a little-endian host, the two halves of a 64-bit load are the loads of the two halves.\<close>

lemma ntohll_load:
  assumes "length bs = 8" shows "unat (ntohll False (load False bs)) = be_nat bs"
proof -
  define xs ys where "xs = take 4 bs" and "ys = drop 4 bs"
  have bs: "bs = xs @ ys" "length xs = 4" "length ys = 4" using assms by (simp_all add: xs_def ys_def)
  define v where "v = (load False bs :: uint64_t)"
  have v: "unat v = be_nat (rev ys) * 2 ^ 32 + be_nat (rev xs)"
    using assms unat_load [where 'a = 64 and bs = bs and be = False] bs by (simp add: v_def be_nat_append)
  have less: "be_nat (rev xs) < 2 ^ 32" "be_nat (rev ys) < 2 ^ 32" "be_nat xs < 2 ^ 32" "be_nat ys < 2 ^ 32"
    using be_nat_less [of "rev xs"] be_nat_less [of "rev ys"] be_nat_less [of xs] be_nat_less [of ys] bs by simp_all
  have "unat (ucast v :: uint32_t) = unat v mod 2 ^ 32" by (simp add: unsigned_ucast_eq take_bit_eq_mod)
  then have lo: "(ucast v :: uint32_t) = load False xs"
    using less(1) unat_load [where 'a = 32 and bs = xs and be = False] bs(2)
    by (intro word_unat_eq_iff [THEN iffD2]) (simp add: v)
  have "unat (ucast (drop_bit 32 v) :: uint32_t) = unat v div 2 ^ 32 mod 2 ^ 32"
    unfolding unsigned_ucast_eq unat_drop_bit_eq by (simp add: take_bit_eq_mod drop_bit_eq_div)
  then have hi: "(ucast (drop_bit 32 v) :: uint32_t) = load False ys"
    using less(1,2) unat_load [where 'a = 32 and bs = ys and be = False] bs(3)
    by (intro word_unat_eq_iff [THEN iffD2]) (simp add: v)
  have "unat (push_bit 32 (ucast (ntohl False (load False xs)) :: uint64_t)) = be_nat xs * 2 ^ 32"
    using less(3) unfolding unsigned_push_bit_eq unsigned_ucast_eq ntohl_load [OF bs(2)]
    by (simp add: push_bit_eq_mult take_bit_eq_mod)
  moreover have "unat (ucast (ntohl False (load False ys)) :: uint64_t) = be_nat ys"
    using less(4) ntohl_load [OF bs(3)] by (simp add: unsigned_ucast_eq take_bit_eq_mod)
  ultimately show ?thesis
    using less(3,4) unfolding ntohll_def v_def [symmetric] lo hi
    by (subst unat_add_lem [THEN iffD1]) (simp_all add: bs be_nat_append)
qed

section \<open>The variable-length integers\<close>

lemma byte_class: "unat (b :: uint8_t) div 64 \<in> {0, 1, 2, 3}"
proof -
  have "c \<in> {0, 1, 2, 3}" if "c < 4" for c :: nat
    using that by (auto simp: less_Suc_eq numeral_eq_Suc)
  moreover have "unat b div 64 < 4" by (rule less_mult_imp_div_less) simp
  ultimately show ?thesis .
qed

lemma unat_ucast64 [simp]: "unat (ucast (b :: uint8_t) :: uint64_t) = unat b"
proof -
  have "unat b < 2 ^ 64" by (rule less_trans [OF unat8_less]) simp
  then show ?thesis by (simp add: unsigned_ucast_eq take_bit_eq_mod)
qed

lemma drop6_iff:
  fixes b :: uint8_t
  assumes "k < 4"
  shows "drop_bit 6 (ucast b :: uint64_t) = word_of_nat k \<longleftrightarrow> unat b div 64 = k"
    "drop_bit 6 b = word_of_nat k \<longleftrightarrow> unat b div 64 = k"
proof -
  have "unat (drop_bit 6 (ucast b :: uint64_t)) = unat b div 64" "unat (drop_bit 6 b) = unat b div 64"
    unfolding unat_drop_bit_eq unat_ucast64 by (simp_all add: drop_bit_eq_div)
  then show "drop_bit 6 (ucast b :: uint64_t) = word_of_nat k \<longleftrightarrow> unat b div 64 = k"
    "drop_bit 6 b = word_of_nat k \<longleftrightarrow> unat b div 64 = k"
    using assms by (simp_all add: word_unat_eq_iff unat_of_nat)
qed

text \<open>What \<open>quic_len\<close> reads on a little-endian host: the top two bits of the first byte give the length.\<close>

lemma quic_len_eq:
  "quic_len False buf =
     (if buf = [] then None
      else let n = 2 ^ (unat (hd buf) div 64) in
        if n \<le> length buf then Some (n, word_of_nat (be_nat (take n buf) mod 2 ^ (8 * n - 2))) else None)"
proof (cases buf)
  case (Cons b bs)
  let ?c = "unat b div 64"
  note d = drop6_iff(1) [of 0 b, simplified] drop6_iff(1) [of 1 b, simplified]
    drop6_iff(1) [of 2 b, simplified] drop6_iff(1) [of 3 b, simplified]
  have b1: "ucast b AND mask 6 = (word_of_nat (unat b mod 2 ^ 6) :: uint64_t)"
    using mask_number [of "ucast b :: uint64_t" 6] unfolding unat_ucast64 by simp
  consider "?c = 0" | "?c = 1" | "?c = 2" | "?c = 3" using byte_class [of b] by auto
  then show ?thesis
  proof cases
    case 1
    have "be_nat [b] = unat b" using be_nat_snoc [of "[]" b] by simp
    then show ?thesis using 1 d b1 by (simp add: quic_len_def rd_def Cons masks)
  next
    case 2
    then show ?thesis using d ntohs_load [of "take 2 buf"]
      by (simp add: quic_len_def rd_def Cons masks mask_number)
  next
    case 3
    then show ?thesis using d ntohl_load [of "take 4 buf"]
      by (simp add: quic_len_def rd_def Cons masks mask_number)
  next
    case 4
    then show ?thesis using d ntohll_load [of "take 8 buf"] mask_number [of "ntohll False (load False (take 8 buf))" 62]
      by (simp add: quic_len_def rd_def Cons masks)
  qed
qed (simp add: quic_len_def rd_def)

lemma be_nat_hd:
  assumes "bs \<noteq> []" shows "unat (hd bs) = be_nat bs div 256 ^ (length bs - 1)"
proof (cases bs)
  case (Cons b cs)
  have "be_nat bs = unat b * 256 ^ length cs + be_nat cs"
    using be_nat_append [of "[b]" cs] be_nat_snoc [of "[]" b] by (simp add: Cons)
  then show ?thesis using be_nat_less [of cs] by (simp add: Cons)
qed (use assms in simp)

text \<open>The encoding of RFC 9000, section 16: \<open>2 ^ c\<close> bytes whose top two bits are \<open>c\<close>.\<close>

definition varint :: "nat \<Rightarrow> nat \<Rightarrow> bytes" where
  "varint c v = be_bytes (2 ^ c) (c * 2 ^ (8 * 2 ^ c - 2) + v)"

lemma powers_256:
  assumes "0 < n"
  shows "(256 :: nat) ^ (n - 1) * 64 = 2 ^ (8 * n - 2)" "(256 :: nat) ^ n = 4 * 2 ^ (8 * n - 2)"
proof -
  obtain m where n: "n = Suc m" using assms by (cases n) auto
  have "(256 :: nat) ^ m = 2 ^ (8 * m)" by (simp add: power_mult)
  moreover have "8 * n - 2 = 8 * m + 6" by (simp add: n)
  ultimately show "(256 :: nat) ^ (n - 1) * 64 = 2 ^ (8 * n - 2)" "(256 :: nat) ^ n = 4 * 2 ^ (8 * n - 2)"
    by (simp_all add: n power_add)
qed

text \<open>The class in the first byte is the number divided by the largest power of its length.\<close>

lemma hd_class:
  assumes "bs \<noteq> []" shows "unat (hd bs) div 64 = be_nat bs div 2 ^ (8 * length bs - 2)"
  using assms powers_256(1) [of "length bs"] by (simp add: be_nat_hd flip: div_mult2_eq)

lemma quic_len_varint:
  assumes "c < 4" "v < 2 ^ (8 * 2 ^ c - 2)"
  shows "quic_len False (varint c v @ rest) = Some (2 ^ c, word_of_nat v)"
    "unat (hd (varint c v)) div 64 = c" "be_nat (varint c v) = c * 2 ^ (8 * 2 ^ c - 2) + v"
proof -
  let ?n = "2 ^ c :: nat"
  let ?p = "2 ^ (8 * ?n - 2) :: nat"
  have "c * ?p \<le> 3 * ?p" using assms(1) by (intro mult_right_mono) simp_all
  then have "c * ?p + v < 4 * ?p" using assms(2) by linarith
  then have bn: "be_nat (varint c v) = c * ?p + v" using powers_256(2) [of ?n] by (simp add: varint_def)
  then show "be_nat (varint c v) = c * ?p + v" .
  have l: "length (varint c v) = ?n" "varint c v \<noteq> []" by (simp_all add: varint_def flip: length_greater_0_conv)
  show h: "unat (hd (varint c v)) div 64 = c" using hd_class [OF l(2)] assms(2) by (simp add: bn l(1))
  then show "quic_len False (varint c v @ rest) = Some (2 ^ c, word_of_nat v)"
    using assms(2) l by (simp add: quic_len_eq Let_def bn)
qed

lemma quic_len_decodes:
  assumes "quic_len False buf = Some (n, w)"
  shows "\<exists>c < 4. n = 2 ^ c \<and> unat w < 2 ^ (8 * n - 2) \<and> take n buf = varint c (unat w)"
proof -
  define c where "c = unat (hd buf) div 64"
  have c: "c < 4" "buf \<noteq> []" "n = 2 ^ c" "n \<le> length buf" "w = word_of_nat (be_nat (take n buf) mod 2 ^ (8 * n - 2))"
    using assms byte_class [of "hd buf"] by (auto simp: quic_len_eq c_def Let_def split: if_splits)
  define x where "x = be_nat (take n buf)"
  have n: "0 < n" "n \<le> 8" using c(1,3) power_increasing [of c 3 "2 :: nat"] by simp_all
  then have ne: "take n buf \<noteq> []" "hd (take n buf) = hd buf" using c(2) by (simp_all add: hd_take)
  have "x div 2 ^ (8 * n - 2) = c" using hd_class [OF ne(1)] c(4) by (simp add: ne(2) c_def x_def)
  then have x: "x = c * 2 ^ (8 * n - 2) + x mod 2 ^ (8 * n - 2)" by (metis div_mult_mod_eq)
  have "x mod 2 ^ (8 * n - 2) < 2 ^ (8 * n - 2)" by simp
  moreover have "(2 :: nat) ^ (8 * n - 2) \<le> 2 ^ 64" using n by (intro power_increasing) simp_all
  ultimately have "x mod 2 ^ (8 * n - 2) < 2 ^ 64" by (rule less_le_trans)
  then have w: "unat w = x mod 2 ^ (8 * n - 2)" unfolding c(5) x_def unat_of_nat by (intro mod_less) simp
  have "take n buf = be_bytes n x" using c(4) be_bytes_eq [of "take n buf" n] by (simp add: x_def)
  also have "\<dots> = varint c (unat w)" using x by (simp add: varint_def w flip: c(3))
  finally show ?thesis using c(1,3) w by (intro exI [of _ c]) simp
qed

section \<open>64-bit conversions\<close>

lemma phton64_nth: "i < 8 \<Longrightarrow> phton64 v ! i = ucast (drop_bit (8 * (7 - i)) v)"
  by (auto simp: phton64_def less_Suc_eq numeral_eq_Suc)

lemma be_nat_phton64: "be_nat (phton64 v) = unat v"
proof (rule bit_eqI)
  fix n
  have l: "length (phton64 v) = 8" by (simp add: phton64_def)
  have u: "bit (unat v) n = bit v n" by (simp add: bit_unsigned_iff bit_imp_possible_bit)
  show "bit (be_nat (phton64 v)) n = bit (unat v) n"
  proof (cases "n < 64")
    case True
    then have d: "n div 8 < 8" by (simp add: less_mult_imp_div_less)
    then have "phton64 v ! (7 - n div 8) = ucast (drop_bit (8 * (n div 8)) v)" by (subst phton64_nth) simp_all
    then show ?thesis using True l u by (simp add: bit_be_nat bit_ucast_iff bit_drop_bit_eq)
  next
    case False
    then show ?thesis using l u bit_imp_le_length [of v n] by (auto simp: bit_be_nat)
  qed
qed


lemma bit_pntoh64:
  assumes "n < 64"
  shows "bit (pntoh64 p) n = (\<exists>k\<in>set [7, 6, 5, 4, 3, 2, 1, 0]. 8 * k \<le> n \<and> bit (p ! (7 - k)) (n - 8 * k))"
proof -
  have "bit (push_bit m (ucast b) :: uint64_t) n = (m \<le> n \<and> bit b (n - m))" for m and b :: uint8_t
    using assms by (auto simp: bit_push_bit_iff bit_ucast_iff)
  then show ?thesis by (simp add: pntoh64_def bit_or_iff del: push_bit_0_id)
qed

lemma pntoh64_eq:
  assumes "length p = 8" shows "pntoh64 p = word_of_nat (be_nat p)"
proof (rule bit_word_eqI)
  fix n assume "n < LENGTH(64)"
  then have n: "n < 64" by simp
  have "k = n div 8" if "8 * k \<le> n" "bit (p ! j) (n - 8 * k)" for k j
    using that bit_imp_le_length [of "p ! j" "n - 8 * k"] by (auto intro: div_nat_eqI [symmetric])
  moreover have "n div 8 \<in> set [7, 6, 5, 4, 3, 2, 1, 0]"
  proof -
    have "c \<in> set [7, 6, 5, 4, 3, 2, 1, 0]" if "c < 8" for c :: nat
      using that by (auto simp: less_Suc_eq numeral_eq_Suc)
    then show ?thesis using n by (simp add: less_mult_imp_div_less)
  qed
  ultimately have "bit (pntoh64 p) n = bit (p ! (7 - n div 8)) (n - 8 * (n div 8))"
    unfolding bit_pntoh64 [OF n] by (metis times_div_less_eq_dividend)
  then show "bit (pntoh64 p) n = bit (word_of_nat (be_nat p) :: uint64_t) n"
    using n assms by (simp add: bit_of_nat_iff bit_be_nat minus_mult_div_eq_mod)
qed

end
