(* ===== verification/Quic_Crypt.thy ===== *)
theory Quic_Crypt
  imports Quic "HOL-Library.Monad_Syntax"
begin

text \<open>
  The cryptographic half of \<open>iquic.c\<close>: HKDF, the TLS 1.3 labels, the ciphers of a connection,
  header protection and packet decryption.
\<close>

section \<open>libgcrypt and the heap\<close>

text \<open>
  The constants and functions of libgcrypt that the source uses. An error code is 0 on success; a handle is a
  value of type \<open>'h\<close>, and an operation on it returns the new handle. \<open>gcry_hmac algo key msg\<close> is
  what \<open>gcry_md_read\<close> yields after the key is set and the message written.
\<close>

record 'h gcrypt =
  GPG_ERR_INV_ARG :: int
  GCRY_MD_SHA256 :: int
  GCRY_CIPHER_AES128 :: int
  GCRY_CIPHER_AES256 :: int
  GCRY_CIPHER_MODE_ECB :: int
  gcry_md_get_algo_dlen :: "int \<Rightarrow> nat"
  gcry_md_open :: "int \<Rightarrow> int"
  gcry_md_setkey :: "int \<Rightarrow> bytes \<Rightarrow> int"
  gcry_hmac :: "int \<Rightarrow> bytes \<Rightarrow> bytes \<Rightarrow> bytes"
  gcry_cipher_get_algo_keylen :: "int \<Rightarrow> nat"
  gcry_cipher_open :: "int \<Rightarrow> int \<Rightarrow> 'h ptr"
  gcry_cipher_setkey :: "'h \<Rightarrow> bytes \<Rightarrow> int \<times> 'h"
  gcry_cipher_encrypt :: "'h \<Rightarrow> bytes \<Rightarrow> int \<times> 'h \<times> bytes"
  gcry_cipher_reset :: "'h \<Rightarrow> 'h"
  gcry_cipher_setiv :: "'h \<Rightarrow> bytes \<Rightarrow> int \<times> 'h"
  gcry_cipher_authenticate :: "'h \<Rightarrow> bytes \<Rightarrow> int \<times> 'h"
  gcry_cipher_decrypt :: "'h \<Rightarrow> bytes \<Rightarrow> int \<times> 'h \<times> bytes"
  gcry_cipher_checktag :: "'h \<Rightarrow> bytes \<Rightarrow> int"

text \<open>The heap: how many times \<open>malloc\<close> has been called, and how many blocks are live.\<close>

record heap =
  mallocs :: nat
  live :: nat

definition malloc :: "(nat \<Rightarrow> bool) \<Rightarrow> heap \<Rightarrow> bool \<times> heap" where
  "malloc ok h =
     (ok (mallocs h), h\<lparr>mallocs := Suc (mallocs h), live := (if ok (mallocs h) then Suc (live h) else live h)\<rparr>)"

definition free_block :: "heap \<Rightarrow> heap" where
  "free_block h = h\<lparr>live := live h - 1\<rparr>"

section \<open>HKDF\<close>

definition ws_hmac_buffer :: "'h gcrypt \<Rightarrow> int \<Rightarrow> bytes \<Rightarrow> bytes \<Rightarrow> int + bytes" where
  "ws_hmac_buffer g algo buffer key =
     (if gcry_md_open g algo \<noteq> 0 then Inl (gcry_md_open g algo)
      else if gcry_md_setkey g algo key \<noteq> 0 then Inl (gcry_md_setkey g algo key)
      else Inr (take (gcry_md_get_algo_dlen g algo) (gcry_hmac g algo key buffer)))"

text \<open>
  The loop of \<open>hkdf_expand\<close> writes block after block to \<open>out\<close>; it stops because a block is not
  empty. The counter byte wraps at 256.
\<close>

function hkdf_expand_loop :: "(bytes \<Rightarrow> bytes) \<Rightarrow> nat \<Rightarrow> bytes \<Rightarrow> nat \<Rightarrow> nat \<Rightarrow> bytes \<Rightarrow> bytes \<Rightarrow> bytes" where
  "hkdf_expand_loop mac hash_len info out_len offset lastoutput out =
     (if offset < out_len \<and> hash_len \<noteq> 0
      then
        let msg = (if 0 < offset then lastoutput else []) @ info @ [word_of_nat (offset div hash_len + 1)];
            lastoutput' = take hash_len (mac msg)
        in hkdf_expand_loop mac hash_len info out_len (offset + hash_len) lastoutput'
             (out @ take (min hash_len (out_len - offset)) lastoutput')
      else out)"
  by pat_completeness auto
termination
  by (relation "measure (\<lambda>(_, _, _, out_len, offset, _, _). out_len - offset)") auto

declare hkdf_expand_loop.simps [simp del]

definition hkdf_expand :: "'h gcrypt \<Rightarrow> int \<Rightarrow> bytes \<Rightarrow> bytes \<Rightarrow> nat \<Rightarrow> int + bytes" where
  "hkdf_expand g hashalgo prk info out_len =
     (let hash_len = gcry_md_get_algo_dlen g hashalgo in
      if \<not> (0 < out_len \<and> out_len \<le> 255 * hash_len mod 2 ^ 32) \<or> \<not> (0 < hash_len \<and> hash_len \<le> 48)
      then Inl (GPG_ERR_INV_ARG g)
      else if gcry_md_open g hashalgo \<noteq> 0 then Inl (gcry_md_open g hashalgo)
      else Inr (hkdf_expand_loop (gcry_hmac g hashalgo prk) hash_len info out_len 0 [] []))"

definition hkdf_extract :: "'h gcrypt \<Rightarrow> int \<Rightarrow> bytes \<Rightarrow> bytes \<Rightarrow> int + bytes" where
  "hkdf_extract g hashalgo salt ikm = ws_hmac_buffer g hashalgo ikm salt"

section \<open>Labels\<close>

definition label_bytes :: "string \<Rightarrow> bytes" where
  "label_bytes s = map of_char s"

definition tls13_info :: "bytes \<Rightarrow> bytes \<Rightarrow> bytes \<Rightarrow> uint16_t \<Rightarrow> bytes" where
  "tls13_info label_prefix label context out_len =
     be_bytes 2 (unat out_len) @ [word_of_nat (length label_prefix + length label)] @ label_prefix @ label @
     [word_of_nat (length context)] @ context"

definition tls13_hkdf_expand_label_context ::
  "'h gcrypt \<Rightarrow> (nat \<Rightarrow> bool) \<Rightarrow> int \<Rightarrow> bytes \<Rightarrow> bytes \<Rightarrow> bytes \<Rightarrow> bytes \<Rightarrow> uint16_t \<Rightarrow> heap
    \<Rightarrow> bytes option \<times> heap"
where
  "tls13_hkdf_expand_label_context g ok md secret label_prefix label context out_len h =
     (if \<not> (0 < length label \<and> length label_prefix + length label \<le> 255) then (None, h)
      else
        case malloc ok h of (info_ok, h) \<Rightarrow>
          if \<not> info_ok then (None, h)
          else
            let info_data = tls13_info label_prefix label context out_len in
            (case malloc ok h of (out_ok, h) \<Rightarrow>
              if \<not> out_ok then (None, h)
              else
                (case hkdf_expand g md secret info_data (unat out_len) of
                  Inl err \<Rightarrow> (None, free_block (free_block h))
                | Inr out \<Rightarrow> (Some out, free_block h))))"

definition tls13_hkdf_expand_label ::
  "'h gcrypt \<Rightarrow> (nat \<Rightarrow> bool) \<Rightarrow> int \<Rightarrow> bytes \<Rightarrow> bytes \<Rightarrow> bytes \<Rightarrow> uint16_t \<Rightarrow> heap \<Rightarrow> bytes option \<times> heap"
where
  "tls13_hkdf_expand_label g ok md secret label_prefix label out_len h =
     tls13_hkdf_expand_label_context g ok md secret label_prefix label [] out_len h"

text \<open>
  The 32-bit length is truncated to 16 bits for the derivation, and all of it is copied: a copy
  of more than was derived is an out-of-bounds read (\<open>None\<close>). The first component of the
  result is the return value with the bytes written to \<open>out\<close>.
\<close>

definition quic_hkdf_expand_label ::
  "'h gcrypt \<Rightarrow> (nat \<Rightarrow> bool) \<Rightarrow> int \<Rightarrow> bytes \<Rightarrow> bytes \<Rightarrow> uint32_t \<Rightarrow> heap \<Rightarrow> (bytes option \<times> heap) option"
where
  "quic_hkdf_expand_label g ok hash_algo secret label out_len h =
     (case tls13_hkdf_expand_label g ok hash_algo secret (label_bytes ''tls13 '') label (ucast out_len) h of
        (None, h) \<Rightarrow> Some (None, h)
      | (Some out_mem, h) \<Rightarrow>
          map_option (\<lambda>b. (Some b, free_block h)) (rd out_mem 0 (unat out_len)))"

section \<open>Ciphers\<close>

text \<open>
  A handle that could not be opened is NULL. The field \<open>closed\<close> only observes: it says that
  \<open>quic_cipher_reset\<close> has closed the handles, whose pointers the struct keeps.
\<close>

record 'h quic_cipher =
  hp_cipher :: "'h ptr"
  pp_cipher :: "'h ptr"
  pp_iv :: bytes
  closed :: bool

definition TLS13_AEAD_NONCE_LENGTH :: nat where "TLS13_AEAD_NONCE_LENGTH = 12"
definition HASH_SHA2_256_LENGTH :: nat where "HASH_SHA2_256_LENGTH = 32"

definition quic_cipher_reset :: "'h quic_cipher \<Rightarrow> 'h quic_cipher" where
  "quic_cipher_reset cipher = cipher\<lparr>closed := True\<rparr>"

text \<open>
  The three derivations are made from left to right until one fails; a failure of any of them
  makes the function return 1. Using a NULL handle, like reading beyond a buffer, is \<open>None\<close>.
\<close>

definition quic_cipher_init ::
  "'h gcrypt \<Rightarrow> (nat \<Rightarrow> bool) \<Rightarrow> 'h quic_cipher \<Rightarrow> int \<Rightarrow> uint8_t \<Rightarrow> bytes \<Rightarrow> heap
    \<Rightarrow> (int \<times> 'h quic_cipher \<times> heap) option"
where
  "quic_cipher_init g ok cipher hash_algo key_length secret h =
     (if 32 < key_length then Some (0, cipher, h)
      else do {
        secret \<leftarrow> rd secret 0 (gcry_md_get_algo_dlen g hash_algo);
        (write_key, h) \<leftarrow> quic_hkdf_expand_label g ok hash_algo secret (label_bytes ''quic key'') (ucast key_length) h;
        case write_key of None \<Rightarrow> Some (1, cipher, h) | Some write_key \<Rightarrow> do {
          (iv, h) \<leftarrow> quic_hkdf_expand_label g ok hash_algo secret (label_bytes ''quic iv'')
                       (word_of_nat TLS13_AEAD_NONCE_LENGTH) h;
          case iv of None \<Rightarrow> Some (1, cipher, h) | Some iv \<Rightarrow> do {
            let cipher = cipher\<lparr>pp_iv := iv\<rparr>;
            (hp_key, h) \<leftarrow> quic_hkdf_expand_label g ok hash_algo secret (label_bytes ''quic hp'') (ucast key_length) h;
            case hp_key of None \<Rightarrow> Some (1, cipher, h) | Some hp_key \<Rightarrow> do {
              hp \<leftarrow> hp_cipher cipher;
              let (e1, hp) = gcry_cipher_setkey g hp hp_key;
              let cipher = cipher\<lparr>hp_cipher := Some hp\<rparr>;
              if e1 \<noteq> 0 then Some (0, cipher, h)
              else do {
                pp \<leftarrow> pp_cipher cipher;
                let (e2, pp) = gcry_cipher_setkey g pp write_key;
                Some (if e2 = 0 then 1 else 0, cipher\<lparr>pp_cipher := Some pp\<rparr>, h)
              }}}}})"

definition quic_get_pn_cipher_algo :: "'h gcrypt \<Rightarrow> int \<Rightarrow> int option" where
  "quic_get_pn_cipher_algo g cipher_algo =
     (if cipher_algo = GCRY_CIPHER_AES128 g \<or> cipher_algo = GCRY_CIPHER_AES256 g
      then Some (GCRY_CIPHER_MODE_ECB g) else None)"

text \<open>A failed \<open>gcry_cipher_open\<close> stores NULL in the handle.\<close>

definition quic_cipher_prepare ::
  "'h gcrypt \<Rightarrow> (nat \<Rightarrow> bool) \<Rightarrow> 'h quic_cipher \<Rightarrow> int \<Rightarrow> int \<Rightarrow> int \<Rightarrow> bytes ptr \<Rightarrow> heap
    \<Rightarrow> (int \<times> 'h quic_cipher \<times> heap) option"
where
  "quic_cipher_prepare g ok cipher hash_algo cipher_algo cipher_mode secret h =
     (case quic_get_pn_cipher_algo g cipher_algo of
        None \<Rightarrow> Some (0, cipher, h)
      | Some hp_cipher_mode \<Rightarrow>
          let cipher = cipher\<lparr>hp_cipher := gcry_cipher_open g cipher_algo hp_cipher_mode\<rparr> in
          if hp_cipher cipher = None then Some (0, quic_cipher_reset cipher, h)
          else
            let cipher = cipher\<lparr>pp_cipher := gcry_cipher_open g cipher_algo cipher_mode, closed := False\<rparr> in
            if pp_cipher cipher = None then Some (0, quic_cipher_reset cipher, h)
            else
              (case secret of
                None \<Rightarrow> Some (1, cipher, h)
              | Some s \<Rightarrow>
                  (case quic_cipher_init g ok cipher hash_algo
                          (word_of_nat (gcry_cipher_get_algo_keylen g cipher_algo)) s h of
                    None \<Rightarrow> None
                  | Some (r, cipher, h) \<Rightarrow>
                      if r = 0 then Some (0, quic_cipher_reset cipher, h) else Some (1, cipher, h))))"

section \<open>Header protection\<close>

text \<open>
  The outer option of the result is \<open>None\<close> on an out-of-bounds read, the inner one on a failure
  (return value 0).
\<close>

definition quic_decrypt_header ::
  "'h gcrypt \<Rightarrow> bytes \<Rightarrow> uint32_t \<Rightarrow> 'h ptr \<Rightarrow> int \<Rightarrow> (uint8_t \<times> uint32_t) option option"
where
  "quic_decrypt_header g packet_payload pn_offset hp hp_cipher_algo =
     (case hp of
        None \<Rightarrow> Some None
      | Some h \<Rightarrow> do {
          sample \<leftarrow> rd packet_payload (unat pn_offset + 4) 16;
          if hp_cipher_algo = GCRY_CIPHER_AES128 g \<or> hp_cipher_algo = GCRY_CIPHER_AES256 g
          then
            case gcry_cipher_encrypt g h sample of (err, _, sample) \<Rightarrow>
              if err \<noteq> 0 then Some None
              else do {
                mask \<leftarrow> rd sample 0 5;
                p \<leftarrow> rd packet_payload 0 1;
                let packet0 = (if p ! 0 AND 0x80 = 0x80 then p ! 0 XOR (mask ! 0 AND 0x0f)
                               else p ! 0 XOR (mask ! 0 AND 0x1f));
                let pkn_len = unat (packet0 AND 0x03) + 1;
                pkn_bytes \<leftarrow> rd packet_payload (unat pn_offset) pkn_len;
                let pkt_pkn = fold (\<lambda>i pn. pn OR push_bit (8 * (pkn_len - 1 - i))
                                              (ucast (pkn_bytes ! i XOR mask ! (1 + i))))
                                [0..<pkn_len] 0;
                Some (Some (packet0, pkt_pkn))
              }
          else Some None
        })"

section \<open>Packet decryption\<close>

record quic_decrypt_result =
  data :: "bytes ptr"
  data_len :: uint32_t

definition memdup :: "(nat \<Rightarrow> bool) \<Rightarrow> bytes \<Rightarrow> nat \<Rightarrow> nat \<Rightarrow> heap \<Rightarrow> (bytes ptr \<times> heap) option" where
  "memdup ok buf i len h =
     (case malloc ok h of (a, h) \<Rightarrow> if a then map_option (\<lambda>b. (Some b, h)) (rd buf i len) else Some (None, h))"

definition quic_header :: "bytes \<Rightarrow> nat \<Rightarrow> uint8_t \<Rightarrow> nat \<Rightarrow> uint64_t \<Rightarrow> bytes" where
  "quic_header header header_length first_byte pkn_len packet_number =
     fold (\<lambda>i hd. hd[header_length - 1 - i := ucast (drop_bit (8 * i) packet_number)])
       [0..<pkn_len] (header[0 := first_byte])"

definition quic_nonce :: "bytes \<Rightarrow> uint64_t \<Rightarrow> bytes" where
  "quic_nonce iv packet_number = take 4 iv @ phton64 (pntoh64 (drop 4 iv) XOR packet_number)"

text \<open>The calls into libgcrypt of one packet: the plaintext, or nothing when one of them fails.\<close>

definition quic_aead_open :: "'h gcrypt \<Rightarrow> 'h \<Rightarrow> bytes \<Rightarrow> bytes \<Rightarrow> bytes \<Rightarrow> bytes \<Rightarrow> bytes option \<times> 'h" where
  "quic_aead_open g pp nonce header buffer atag =
     (case gcry_cipher_setiv g (gcry_cipher_reset g pp) nonce of (err, pp) \<Rightarrow>
      if err \<noteq> 0 then (None, pp)
      else case gcry_cipher_authenticate g pp header of (err, pp) \<Rightarrow>
      if err \<noteq> 0 then (None, pp)
      else case gcry_cipher_decrypt g pp buffer of (err, pp, buffer) \<Rightarrow>
      if err \<noteq> 0 then (None, pp)
      else if gcry_cipher_checktag g pp atag \<noteq> 0 then (None, pp)
      else (Some buffer, pp))"

definition quic_decrypt_message ::
  "'h gcrypt \<Rightarrow> (nat \<Rightarrow> bool) \<Rightarrow> 'h quic_cipher ptr \<Rightarrow> bytes \<Rightarrow> uint32_t \<Rightarrow> uint32_t \<Rightarrow> uint8_t \<Rightarrow> uint32_t
    \<Rightarrow> uint64_t \<Rightarrow> quic_decrypt_result \<Rightarrow> heap \<Rightarrow> (quic_decrypt_result \<times> 'h quic_cipher ptr \<times> heap) option"
where
  "quic_decrypt_message g ok cipher packet_payload packet_payload_len header_length first_byte pkn_len
       packet_number result h =
     (case cipher of
        None \<Rightarrow> Some (result, cipher, h)
      | Some c \<Rightarrow>
          (case pp_cipher c of
             None \<Rightarrow> Some (result, cipher, h)
           | Some pp \<Rightarrow>
               if \<not> pkn_len < header_length \<or> \<not> (1 \<le> pkn_len \<and> pkn_len \<le> 4) then Some (result, cipher, h)
               else do {
                 (header, h) \<leftarrow> memdup ok packet_payload 0 (unat header_length) h;
                 case header of None \<Rightarrow> Some (result, cipher, h) | Some header \<Rightarrow> do {
                   let header = quic_header header (unat header_length) first_byte (unat pkn_len) packet_number;
                   let buffer_length = packet_payload_len - (header_length + 16);
                   if buffer_length = 0 then Some (result, cipher, free_block h)
                   else do {
                     (buffer, h) \<leftarrow> memdup ok packet_payload (unat header_length) (unat buffer_length) h;
                     case buffer of None \<Rightarrow> Some (result, cipher, free_block h) | Some buffer \<Rightarrow> do {
                       atag \<leftarrow> rd packet_payload (unat header_length + unat buffer_length) 16;
                       let nonce = quic_nonce (pp_iv c) packet_number;
                       case quic_aead_open g pp nonce header buffer atag of
                         (None, pp) \<Rightarrow> Some (result, Some (c\<lparr>pp_cipher := Some pp\<rparr>), free_block (free_block h))
                       | (Some buffer, pp) \<Rightarrow>
                           Some (result\<lparr>data := Some buffer, data_len := buffer_length\<rparr>,
                                 Some (c\<lparr>pp_cipher := Some pp\<rparr>), free_block h)
                     }}}}))"

section \<open>Initial secrets\<close>

definition handshake_salt :: "uint32_t \<Rightarrow> bytes" where
  "handshake_salt version =
     (if version = V_Q050 then
        [0x50, 0x45, 0x74, 0xEF, 0xD0, 0x66, 0xFE, 0x2F, 0x9D, 0x94,
         0x5C, 0xFC, 0xDB, 0xD3, 0xA7, 0xF0, 0xD3, 0xB5, 0x6B, 0x45]
      else if version = V_T050 then
        [0x7f, 0xf5, 0x79, 0xe5, 0xac, 0xd0, 0x72, 0x91, 0x55, 0x80,
         0x30, 0x4c, 0x43, 0xa2, 0x36, 0x7c, 0x60, 0x48, 0x83, 0x10]
      else if version = V_T051 then
        [0x7a, 0x4e, 0xde, 0xf4, 0xe7, 0xcc, 0xee, 0x5f, 0xa4, 0x50,
         0x6c, 0x19, 0x12, 0x4f, 0xc8, 0xcc, 0xda, 0x6e, 0x03, 0x3d]
      else if is_quic_ver_less_than version 22 \<or> version = V_MVFST_22 then
        [0x7f, 0xbc, 0xdb, 0x0e, 0x7c, 0x66, 0xbb, 0xe9, 0x19, 0x3a,
         0x96, 0xcd, 0x21, 0x51, 0x9e, 0xbd, 0x7a, 0x02, 0x64, 0x4a]
      else if is_quic_ver_less_than version 28 \<or> version = V_MVFST_27 \<or> version = V_MVFST_EXP then
        [0xc3, 0xee, 0xf7, 0x12, 0xc7, 0x2e, 0xbb, 0x5a, 0x11, 0xa7,
         0xd2, 0x43, 0x2b, 0xb4, 0x63, 0x65, 0xbe, 0xf9, 0xf5, 0x02]
      else
        [0xaf, 0xbf, 0xec, 0x28, 0x99, 0x93, 0xd2, 0x4c, 0x9e, 0x97,
         0x86, 0xf1, 0x9c, 0x61, 0x11, 0xe0, 0x43, 0x90, 0xa8, 0x99])"

text \<open>
  \<open>secret\<close> is a 32-byte array that the extraction fills with the digest; the return value is -1 on
  failure, else 0 with the bytes of the client's secret.
\<close>

definition quic_derive_initial_secrets ::
  "'h gcrypt \<Rightarrow> (nat \<Rightarrow> bool) \<Rightarrow> uint32_t \<Rightarrow> bytes \<Rightarrow> heap \<Rightarrow> ((int + bytes) \<times> heap) option"
where
  "quic_derive_initial_secrets g ok version cid h =
     (case hkdf_extract g (GCRY_MD_SHA256 g) (handshake_salt version) cid of
        Inl err \<Rightarrow> Some (Inl (-1), h)
      | Inr secret \<Rightarrow> do {
          secret \<leftarrow> rd secret 0 HASH_SHA2_256_LENGTH;
          (s, h) \<leftarrow> quic_hkdf_expand_label g ok (GCRY_MD_SHA256 g) secret (label_bytes ''client in'')
                     (word_of_nat HASH_SHA2_256_LENGTH) h;
          Some (case s of None \<Rightarrow> Inl (-1) | Some client_initial_secret \<Rightarrow> Inr client_initial_secret, h)
        })"

end
