(* ===== verification/Quic_Hkdf.thy ===== *)
theory Quic_Hkdf
  imports Quic_Crypt
begin

text \<open>
  The key derivation: the loop of \<open>hkdf_expand\<close> is the expansion of RFC 5869, and what the
  functions that allocate do to the heap.
\<close>

section \<open>HKDF-Expand\<close>

text \<open>RFC 5869, section 2.3: \<open>T(0)\<close> is empty, \<open>T(i)\<close> is the MAC of \<open>T(i-1)\<close>, the info and the byte \<open>i\<close>.\<close>

fun hkdf_T :: "(bytes \<Rightarrow> bytes) \<Rightarrow> bytes \<Rightarrow> nat \<Rightarrow> bytes" where
  "hkdf_T mac info 0 = []"
| "hkdf_T mac info (Suc i) = mac (hkdf_T mac info i @ info @ [word_of_nat (Suc i)])"

definition hkdf_okm :: "(bytes \<Rightarrow> bytes) \<Rightarrow> bytes \<Rightarrow> nat \<Rightarrow> bytes" where
  "hkdf_okm mac info L = take L (concat (map (hkdf_T mac info) [1..<256]))"

lemma hkdf_expand_loop_T:
  assumes "\<And>m. length (mac m) = hl" "0 < hl" "L \<le> N * hl" "i \<le> N"
    "0 < i \<Longrightarrow> lastoutput = hkdf_T mac info i"
  shows "hkdf_expand_loop mac hl info L (i * hl) lastoutput out =
    out @ take (L - i * hl) (concat (map (hkdf_T mac info) [Suc i..<Suc N]))"
  using assms(4,5)
proof (induction "N - i" arbitrary: i lastoutput out)
  case 0
  then have "i = N" by simp
  then show ?case using assms(3) by (simp add: hkdf_expand_loop.simps)
next
  case (Suc k)
  show ?case
  proof (cases "i * hl < L")
    case True
    let ?T = "hkdf_T mac info (Suc i)"
    have last: "(if 0 < i * hl then lastoutput else []) = hkdf_T mac info i"
      using Suc.prems(2) assms(2) by simp
    have "hkdf_expand_loop mac hl info L (i * hl) lastoutput out =
        hkdf_expand_loop mac hl info L (Suc i * hl) ?T (out @ take (L - i * hl) ?T)"
      using True assms(1,2) unfolding hkdf_expand_loop.simps [of mac hl info L "i * hl"] last
      by (simp add: Let_def min_def add.commute)
    also have "\<dots> = (out @ take (L - i * hl) ?T) @
        take (L - Suc i * hl) (concat (map (hkdf_T mac info) [Suc (Suc i)..<Suc N]))"
      using Suc.hyps(2) by (intro Suc.hyps(1)) simp_all
    also have "[Suc i..<Suc N] = Suc i # [Suc (Suc i)..<Suc N]"
      using Suc.hyps(2) by (subst upt_conv_Cons) simp_all
    then have "(out @ take (L - i * hl) ?T) @
        take (L - Suc i * hl) (concat (map (hkdf_T mac info) [Suc (Suc i)..<Suc N])) =
        out @ take (L - i * hl) (concat (map (hkdf_T mac info) [Suc i..<Suc N]))"
      using assms(1) by (simp del: upt_Suc add: diff_diff_add add.commute)
    finally show ?thesis .
  next
    case False
    then show ?thesis by (simp add: hkdf_expand_loop.simps)
  qed
qed

lemma hkdf_expand_okm:
  assumes "\<And>m. length (gcry_hmac g a prk m) = gcry_md_get_algo_dlen g a" "0 < gcry_md_get_algo_dlen g a"
    "gcry_md_get_algo_dlen g a \<le> 48" "0 < L" "L \<le> 255 * gcry_md_get_algo_dlen g a" "gcry_md_open g a = 0"
  shows "hkdf_expand g a prk info L = Inr (hkdf_okm (gcry_hmac g a prk) info L)"
proof -
  let ?n = "gcry_md_get_algo_dlen g a"
  have "255 * ?n < 2 ^ 32" using assms(3) by simp
  then have "\<not> (\<not> (0 < L \<and> L \<le> 255 * ?n mod 2 ^ 32) \<or> \<not> (0 < ?n \<and> ?n \<le> 48))"
    using assms(2-5) by simp
  moreover have "hkdf_expand_loop (gcry_hmac g a prk) ?n info L 0 [] [] = hkdf_okm (gcry_hmac g a prk) info L"
    using hkdf_expand_loop_T [of "gcry_hmac g a prk" ?n L 255 0 "[]" info "[]"] assms(1,2,5)
    by (simp add: hkdf_okm_def del: upt_Suc)
  ultimately show ?thesis using assms(5,6) by (simp add: hkdf_expand_def Let_def)
qed

lemma length_hkdf_okm:
  assumes "\<And>m. length (mac m) = hl" "L \<le> 255 * hl"
  shows "length (hkdf_okm mac info L) = L"
proof -
  have "length (hkdf_T mac info i) = hl" if "i \<in> set [1..<256]" for i
  proof -
    have "0 < i" using that by simp
    then obtain j where "i = Suc j" by (cases i) simp_all
    then show ?thesis using assms(1) by simp
  qed
  then have "sum_list (map (length \<circ> hkdf_T mac info) [1..<256]) = 255 * hl"
    using map_cong [of "[1..<256]" "[1..<256]" "length \<circ> hkdf_T mac info" "\<lambda>_. hl"]
    by (simp add: sum_list_replicate map_replicate_const)
  then show ?thesis using assms(2) by (simp add: hkdf_okm_def length_concat comp_def)
qed

section \<open>The heap\<close>

lemma malloc_simps:
  "malloc ok h = (a, h') \<Longrightarrow> mallocs h' = Suc (mallocs h) \<and> a = ok (mallocs h) \<and>
     live h' = (if a then Suc (live h) else live h)"
  by (auto simp: malloc_def)

lemma free_block_simps [simp]:
  "mallocs (free_block h) = mallocs h" "live (free_block h) = live h - 1"
  by (simp_all add: free_block_def)

lemma tls13_label_ok:
  assumes "0 < length label" "length prefix + length label \<le> 255" "ok (mallocs h)" "ok (Suc (mallocs h))"
    "hkdf_expand g md secret (tls13_info prefix label context L) (unat L) = Inr out"
  shows "\<exists>h'. tls13_hkdf_expand_label_context g ok md secret prefix label context L h = (Some out, h') \<and>
    live h' = Suc (live h) \<and> mallocs h' = mallocs h + 2"
  using assms by (simp add: tls13_hkdf_expand_label_context_def malloc_def)

lemma quic_label_ok:
  assumes "0 < length label" "6 + length label \<le> 255" "ok (mallocs h)" "ok (Suc (mallocs h))" "unat L < 2 ^ 16"
    "hkdf_expand g md secret (tls13_info (label_bytes ''tls13 '') label [] (ucast L)) (unat L) = Inr out"
    "length out = unat L"
  shows "\<exists>h'. quic_hkdf_expand_label g ok md secret label L h = Some (Some out, h') \<and>
    live h' = live h \<and> mallocs h' = mallocs h + 2"
proof -
  have "unat (ucast L :: uint16_t) = unat L" using assms(5) by (simp add: unsigned_ucast_eq take_bit_eq_mod)
  then obtain h' where "tls13_hkdf_expand_label_context g ok md secret (label_bytes ''tls13 '') label [] (ucast L) h =
      (Some out, h')" "live h' = Suc (live h)" "mallocs h' = mallocs h + 2"
    using tls13_label_ok [of label "label_bytes ''tls13 ''" ok h g md secret "[]" "ucast L" out] assms
    by (auto simp: label_bytes_def)
  then show ?thesis using assms(7)
    by (simp add: quic_hkdf_expand_label_def tls13_hkdf_expand_label_def rd_def)
qed

end
