(* ===== verification/Quic_Correct.thy ===== *)
theory Quic_Correct
  imports Quic_Len Quic_Hkdf
begin

text \<open>
  Header protection, the nonce and the decryption of a packet, and the properties of the QUIC code.
\<close>

section \<open>Nonce and associated data\<close>

lemma length_phton64 [simp]: "length (phton64 v) = 8"
  by (simp add: phton64_def)

lemma phton64_pntoh64: "length p = 8 \<Longrightarrow> phton64 (pntoh64 p) = p"
  using be_nat_word(3) [of p] by (simp add: pntoh64_eq be_nat_phton64 flip: be_nat_inject)

lemma phton64_be_bytes: "phton64 v = be_bytes 8 (unat v)"
  by (metis be_bytes_be_nat be_nat_phton64 length_phton64)

lemma phton64_xor: "phton64 (a XOR b) = map2 (XOR) (phton64 a) (phton64 b)"
proof -
  have "(ucast (drop_bit n (a XOR b)) :: uint8_t) = ucast (drop_bit n a) XOR ucast (drop_bit n b)" for n
    by (rule bit_word_eqI) (simp add: bit_ucast_iff bit_drop_bit_eq bit_xor_iff)
  then show ?thesis unfolding phton64_def by (simp only: list.map zip_Cons_Cons zip_Nil prod.case)
qed

lemma quic_nonce_eq:
  assumes "length iv = 12"
  shows "quic_nonce iv pn = map2 (XOR) iv (replicate 4 0 @ be_bytes 8 (unat pn))"
proof -
  have "map2 (XOR) (take 4 iv @ drop 4 iv) (replicate 4 0 @ be_bytes 8 (unat pn)) =
      map2 (XOR) (take 4 iv) (replicate 4 0) @ map2 (XOR) (drop 4 iv) (be_bytes 8 (unat pn))"
    using assms by (subst zip_append) simp_all
  moreover have "map2 (XOR) (take 4 iv) (replicate 4 0) = take 4 iv"
    using assms by (intro nth_equalityI) simp_all
  moreover have "phton64 (pntoh64 (drop 4 iv) XOR pn) = map2 (XOR) (drop 4 iv) (be_bytes 8 (unat pn))"
    using assms by (simp add: phton64_xor phton64_pntoh64 flip: phton64_be_bytes)
  ultimately show ?thesis by (simp add: quic_nonce_def)
qed

lemma be_bytes_nth:
  "i < k \<Longrightarrow> be_bytes k v ! (k - 1 - i) = word_of_nat (v div 256 ^ i)"
proof (induction k arbitrary: v i)
  case (Suc k)
  show ?case
  proof (cases i)
    case 0
    then show ?thesis by (simp add: nth_append)
  next
    case (Suc j)
    then have "k - Suc j < k" using Suc.prems by simp
    then show ?thesis using Suc.IH [of j "v div 256"] Suc Suc.prems
      by (simp add: nth_append div_mult2_eq)
  qed
qed simp

lemma quic_header_eq:
  assumes "length hb = hl" "k < hl"
  shows "quic_header hb hl fb k pn = fb # take (hl - 1 - k) (drop 1 hb) @ be_bytes k (unat pn)"
proof -
  have byte: "(ucast (drop_bit (8 * i) pn) :: uint8_t) = word_of_nat (unat pn div 256 ^ i)" for i
  proof -
    have "unat (drop_bit (8 * i) pn) = unat pn div 256 ^ i"
      unfolding unat_drop_bit_eq by (simp add: drop_bit_eq_div power_mult)
    moreover have "ucast v = (word_of_nat (unat v) :: uint8_t)" for v :: uint64_t by simp
    ultimately show ?thesis by (simp only:)
  qed
  have "length (fold (\<lambda>i hb. hb[hl - 1 - i := ucast (drop_bit (8 * i) pn)]) [0..<m] (hb[0 := fb])) = hl \<and>
      (\<forall>j < hl. fold (\<lambda>i hb. hb[hl - 1 - i := ucast (drop_bit (8 * i) pn)]) [0..<m] (hb[0 := fb]) ! j =
        (if hl - 1 - j < m then word_of_nat (unat pn div 256 ^ (hl - 1 - j)) else (hb[0 := fb]) ! j))" if "m \<le> k" for m
    using that
  proof (induction m)
    case (Suc m)
    have "hl - 1 - j = m \<longleftrightarrow> j = hl - 1 - m" if "j < hl" for j using that Suc.prems assms(2) by auto
    then show ?case using Suc assms by (auto simp: nth_list_update byte less_Suc_eq)
  qed (use assms in simp)
  then have q: "length (quic_header hb hl fb k pn) = hl"
    "\<And>j. j < hl \<Longrightarrow> quic_header hb hl fb k pn ! j =
        (if hl - 1 - j < k then word_of_nat (unat pn div 256 ^ (hl - 1 - j)) else (hb[0 := fb]) ! j)"
    unfolding quic_header_def by blast+
  show ?thesis
  proof (rule nth_equalityI)
    show "length (quic_header hb hl fb k pn) = length (fb # take (hl - 1 - k) (drop 1 hb) @ be_bytes k (unat pn))"
      using q(1) assms by simp
    fix j assume "j < length (quic_header hb hl fb k pn)"
    then have j: "j < hl" using q(1) by simp
    show "quic_header hb hl fb k pn ! j = (fb # take (hl - 1 - k) (drop 1 hb) @ be_bytes k (unat pn)) ! j"
    proof (cases "hl - 1 - j < k")
      case True
      then have "j - Suc (hl - 1 - k) = k - 1 - (hl - 1 - j)" "hl - k \<le> j" "0 < j" using assms(2) j by auto
      then show ?thesis using q(2) [OF j] True assms be_bytes_nth [OF True, of "unat pn"] j
        by (auto simp: nth_append nth_Cons')
    next
      case False
      then show ?thesis using q(2) [OF j] assms j by (auto simp: nth_append nth_Cons')
    qed
  qed
qed

section \<open>Header protection\<close>

text \<open>
  RFC 9001, section 5.4.1: the sender masks the low bits of the first byte (four with a long
  header, five with a short one) and the packet number.
\<close>

definition protect :: "bytes \<Rightarrow> nat \<Rightarrow> bytes \<Rightarrow> bytes" where
  "protect P off m =
     map (\<lambda>j. if j = 0 then P ! 0 XOR (m ! 0 AND (if P ! 0 AND 0x80 = 0x80 then 0x0f else 0x1f))
             else if off \<le> j \<and> j < off + (unat (P ! 0 AND 0x03) + 1) then P ! j XOR m ! (1 + j - off)
             else P ! j) [0..<length P]"

lemma first_byte_unmask:
  fixes p m :: uint8_t
  defines "p' \<equiv> p XOR (m AND (if p AND 0x80 = 0x80 then 0x0f else 0x1f))"
  shows "(if p' AND 0x80 = 0x80 then p' XOR (m AND 0x0f) else p' XOR (m AND 0x1f)) = p"
proof -
  have "(p XOR (m AND c)) AND 0x80 = p AND 0x80" if "c AND 0x80 = 0" for c :: uint8_t
    using that by (simp add: bit.conj_xor_distrib2 and.assoc)
  then show ?thesis unfolding p'_def by (auto simp: xor.assoc)
qed

lemma bit_fold_or:
  "bit (fold (\<lambda>i x. x OR g i) [0..<m] 0) n = (\<exists>i < m. bit (g i :: 'a::len word) n)"
  by (induction m) (auto simp: bit_or_iff less_Suc_eq)

lemma pn_fold:
  assumes "k \<le> 4" "length bs = k"
  shows "fold (\<lambda>i pn. pn OR push_bit (8 * (k - 1 - i)) (ucast (bs ! i))) [0..<k] 0 = (word_of_nat (be_nat bs) :: uint32_t)"
proof (rule bit_word_eqI)
  fix n assume "n < LENGTH(32)"
  then have n: "n < 32" by simp
  have f: "bit (fold (\<lambda>i pn. pn OR push_bit (8 * (k - 1 - i)) (ucast (bs ! i))) [0..<m] (0 :: uint32_t)) n =
      (\<exists>i < m. 8 * (k - 1 - i) \<le> n \<and> bit (bs ! i) (n - 8 * (k - 1 - i)))" for m
  proof -
    have "bit (push_bit s (ucast b) :: uint32_t) n = (s \<le> n \<and> bit b (n - s))" for s and b :: uint8_t
      using n by (auto simp: bit_push_bit_iff bit_ucast_iff)
    then show ?thesis by (simp only: bit_fold_or)
  qed
  have small: "b < 8" if "bit (w :: uint8_t) b" for w b using bit_imp_le_length [OF that] by simp
  have "(\<exists>i < k. 8 * (k - 1 - i) \<le> n \<and> bit (bs ! i) (n - 8 * (k - 1 - i))) \<longleftrightarrow>
      n < 8 * k \<and> bit (bs ! (k - 1 - n div 8)) (n mod 8)"
  proof (intro iffI; elim exE conjE)
    fix i assume i: "i < k" "8 * (k - 1 - i) \<le> n" "bit (bs ! i) (n - 8 * (k - 1 - i))"
    define r where "r = n - 8 * (k - 1 - i)"
    have r: "n = 8 * (k - 1 - i) + r" "r < 8" using i(2) small [OF i(3)] by (simp_all add: r_def)
    have "n div 8 = k - 1 - i" "n mod 8 = r" unfolding r(1) using r(2) by simp_all
    then show "n < 8 * k \<and> bit (bs ! (k - 1 - n div 8)) (n mod 8)" using i r by auto
  next
    assume a: "n < 8 * k" "bit (bs ! (k - 1 - n div 8)) (n mod 8)"
    then have "n div 8 < k" by (simp add: less_mult_imp_div_less mult.commute)
    then show "\<exists>i < k. 8 * (k - 1 - i) \<le> n \<and> bit (bs ! i) (n - 8 * (k - 1 - i))"
      using a by (intro exI [of _ "k - 1 - n div 8"]) (auto simp: minus_mult_div_eq_mod)
  qed
  then show "bit (fold (\<lambda>i pn. pn OR push_bit (8 * (k - 1 - i)) (ucast (bs ! i))) [0..<k] (0 :: uint32_t)) n =
      bit (word_of_nat (be_nat bs) :: uint32_t) n"
    unfolding f using n assms by (simp add: bit_of_nat_iff bit_be_nat)
qed

lemma pkn_len_bound: "unat (p AND 0x03 :: uint8_t) + 1 \<le> 4"
proof -
  have "p AND 0x03 = p AND mask 2" by (simp add: mask_eq_exp_minus_1)
  moreover have "unat (p AND mask 2) < 4" by (simp add: unat_and_mask)
  ultimately show ?thesis by simp
qed

lemma decrypt_header_protect:
  assumes "1 \<le> unat off" "unat off + 20 \<le> length P"
    "gcry_cipher_encrypt g h (take 16 (drop (unat off + 4) P)) = (0, h', sample)" "5 \<le> length sample"
    "algo = GCRY_CIPHER_AES128 g \<or> algo = GCRY_CIPHER_AES256 g"
  shows "quic_decrypt_header g (protect P (unat off) (take 5 sample)) off (Some h) algo =
    Some (Some (P ! 0, word_of_nat (be_nat (take (unat (P ! 0 AND 0x03) + 1) (drop (unat off) P)))))"
proof -
  define k where "k = unat (P ! 0 AND 0x03) + 1"
  have k: "k \<le> 4" "0 < k" using pkn_len_bound [of "P ! 0"] by (simp_all add: k_def)
  define m where "m = take 5 sample"
  define Q where "Q = protect P (unat off) m"
  have Q: "length Q = length P" "Q ! 0 = P ! 0 XOR (m ! 0 AND (if P ! 0 AND 0x80 = 0x80 then 0x0f else 0x1f))"
    using assms(2) by (cases P; simp add: Q_def protect_def upt_conv_Cons del: upt_Suc)+
  have sample: "take 16 (drop (unat off + 4) Q) = take 16 (drop (unat off + 4) P)"
    using assms(1,2) k(1) by (intro nth_equalityI) (auto simp: Q_def protect_def k_def)
  have pn: "Q ! (unat off + i) XOR m ! (1 + i) = P ! (unat off + i)" if "i < k" for i
    using that assms(1,2) k(1) by (simp add: Q_def protect_def xor.assoc k_def)
  have p0: "(if Q ! 0 AND 0x80 = 0x80 then Q ! 0 XOR (m ! 0 AND 0x0f) else Q ! 0 XOR (m ! 0 AND 0x1f)) = P ! 0"
    unfolding Q(2) by (rule first_byte_unmask)
  have bytes: "fold (\<lambda>i pn. pn OR push_bit (8 * (k - 1 - i)) (ucast (take k (drop (unat off) Q) ! i XOR m ! (1 + i))))
      [0..<k] 0 = (word_of_nat (be_nat (take k (drop (unat off) P))) :: uint32_t)"
    using assms(2) Q(1) k(1) pn
    by (subst pn_fold [symmetric, of k]) (auto intro!: fold_cong)
  have rds: "rd Q (unat off + 4) 16 = Some (take 16 (drop (unat off + 4) P))" "rd sample 0 5 = Some m"
    "rd Q 0 1 = Some [Q ! 0]" "rd Q (unat off) k = Some (take k (drop (unat off) Q))"
    using assms(2,4) Q(1) k sample by (cases Q; auto simp: rd_def m_def)+
  have "quic_decrypt_header g Q off (Some h) algo =
      Some (Some (P ! 0, word_of_nat (be_nat (take k (drop (unat off) P)))))"
    unfolding quic_decrypt_header_def option.case rds assms(3) bind.bind_lunit prod.case Let_def nth_Cons_0 p0
      k_def [symmetric] bytes using assms(5) by auto
  then show ?thesis by (simp only: Q_def m_def k_def)
qed

section \<open>Decrypting a packet\<close>

lemma message_sizes:
  fixes plen hlen :: uint32_t
  assumes "unat hlen + 16 < unat plen"
  shows "unat (plen - (hlen + 16)) = unat plen - unat hlen - 16" "plen - (hlen + 16) \<noteq> 0"
proof -
  have "unat plen < 2 ^ LENGTH(32)" by (rule unsigned_less)
  then have "unat hlen + 16 < 2 ^ 32" using assms by simp
  then have h: "unat (hlen + 16) = unat hlen + 16" by (simp add: unat_add_lem [THEN iffD1])
  then have "hlen + 16 \<le> plen" using assms by (simp add: word_le_nat_alt)
  then show u: "unat (plen - (hlen + 16)) = unat plen - unat hlen - 16" by (simp add: unat_sub h)
  show "plen - (hlen + 16) \<noteq> 0"
  proof
    assume "plen - (hlen + 16) = 0"
    then show False using u assms by simp
  qed
qed

lemma decrypt_message_eq:
  assumes "pp_cipher c = Some pp" "pkn_len < hlen" "1 \<le> pkn_len" "pkn_len \<le> 4"
    "unat hlen + 16 < unat plen" "length P = unat plen" "ok (mallocs h)" "ok (Suc (mallocs h))"
  shows "quic_decrypt_message g ok (Some c) P plen hlen fb pkn_len pn res h =
    (let aad = fb # take (unat hlen - 1 - unat pkn_len) (drop 1 P) @ be_bytes (unat pkn_len) (unat pn);
         ct = take (unat plen - unat hlen - 16) (drop (unat hlen) P);
         tag = drop (unat plen - 16) P;
         h2 = h\<lparr>mallocs := mallocs h + 2, live := live h + 2\<rparr>
     in case quic_aead_open g pp (quic_nonce (pp_iv c) pn) aad ct tag of
          (None, pp') \<Rightarrow> Some (res, Some (c\<lparr>pp_cipher := Some pp'\<rparr>), free_block (free_block h2))
        | (Some b, pp') \<Rightarrow> Some (res\<lparr>data := Some b, data_len := plen - (hlen + 16)\<rparr>,
                             Some (c\<lparr>pp_cipher := Some pp'\<rparr>), free_block h2))"
proof -
  note sz = message_sizes [OF assms(5)]
  have hl: "unat pkn_len < unat hlen" using assms(2) by (simp add: word_less_nat_alt)
  have hd: "quic_header (take (unat hlen) P) (unat hlen) fb (unat pkn_len) pn =
      fb # take (unat hlen - 1 - unat pkn_len) (drop 1 P) @ be_bytes (unat pkn_len) (unat pn)"
    using assms(5,6) hl quic_header_eq [of "take (unat hlen) P" "unat hlen" "unat pkn_len" fb pn]
    by (simp add: drop_take min_def)
  define h1 where "h1 = h\<lparr>mallocs := Suc (mallocs h), live := Suc (live h)\<rparr>"
  define h2 where "h2 = h\<lparr>mallocs := mallocs h + 2, live := live h + 2\<rparr>"
  have m1: "memdup ok P 0 (unat hlen) h = Some (Some (take (unat hlen) P), h1)"
    using assms(5-7) by (simp add: memdup_def malloc_def rd_def h1_def)
  have m2: "memdup ok P (unat hlen) (unat plen - unat hlen - 16) h1 =
      Some (Some (take (unat plen - unat hlen - 16) (drop (unat hlen) P)), h2)"
    using assms(5,6,8) by (simp add: memdup_def malloc_def rd_def h1_def h2_def)
  have tag: "rd P (unat hlen + (unat plen - unat hlen - 16)) 16 = Some (drop (unat plen - 16) P)"
    using assms(5,6) by (simp add: rd_def)
  show ?thesis
    unfolding quic_decrypt_message_def option.case assms(1) m1 bind.bind_lunit prod.case sz(1) m2 tag Let_def
      hd h2_def [symmetric] using assms(2-4) sz(2) by simp
qed

section \<open>Properties\<close>

text \<open>C14: On a little-endian host \<open>quic_len\<close> decodes exactly the variable-length integers of RFC 9000: of an
  encoding in \<open>2 ^ c\<close> bytes it returns the length and the value, \<open>quic_len_buffer_still_required\<close> tells
  from the first byte how many more bytes the encoding has, and whatever \<open>quic_len\<close> returns for a
  buffer is the value that its first bytes encode.\<close>

theorem quic_len_roundtrip:
  assumes "c < 4" "v < 2 ^ (8 * 2 ^ c - 2)"
  shows "quic_len False (varint c v @ rest) = Some (2 ^ c, word_of_nat v) \<and>
    quic_len_buffer_still_required (hd (varint c v)) = 2 ^ c - 1 \<and>
    (\<forall>buf n w. quic_len False buf = Some (n, w) \<longrightarrow>
      (\<exists>d < 4. n = 2 ^ d \<and> unat w < 2 ^ (8 * n - 2) \<and> take n buf = varint d (unat w)))"
proof -
  let ?b = "hd (varint c v)"
  note d = drop6_iff(2) [of 0 ?b, simplified] drop6_iff(2) [of 1 ?b, simplified]
    drop6_iff(2) [of 2 ?b, simplified] drop6_iff(2) [of 3 ?b, simplified]
  have "c \<in> {0, 1, 2, 3}" using assms(1) by auto
  then have "quic_len_buffer_still_required ?b = 2 ^ c - 1"
    using quic_len_varint(2) [OF assms] d by (auto simp: quic_len_buffer_still_required_def Let_def)
  then show ?thesis using quic_len_varint(1) [OF assms] quic_len_decodes by blast
qed

theorem quic_len_roundtrip_witness:
  "quic_len False (varint 1 15293 @ [7]) = Some (2, 15293) \<and>
   quic_len_buffer_still_required (hd (varint 1 15293)) = 1"
  using quic_len_roundtrip [of 1 15293 "[7]"] by simp

text \<open>On a big-endian host \<open>ntohll\<close> still exchanges the two halves of the word, so \<open>quic_len\<close>
  misreads every eight-byte encoding of a value below \<open>2 ^ 30\<close>.\<close>

theorem quic_len_big_endian:
  assumes "v < 2 ^ 30"
  shows "quic_len True (varint 3 v) = Some (8, word_of_nat (v * 2 ^ 32 + 3 * 2 ^ 30)) \<and>
    (word_of_nat (v * 2 ^ 32 + 3 * 2 ^ 30) :: uint64_t) \<noteq> word_of_nat v"
proof -
  have v: "v < 2 ^ (8 * 2 ^ 3 - 2)" using assms by simp
  define w where "w = (load True (varint 3 v) :: uint64_t)"
  have l: "length (varint 3 v) = 8" "varint 3 v \<noteq> []" by (simp_all add: varint_def flip: length_greater_0_conv)
  have w: "unat w = 3 * 2 ^ 62 + v"
    using unat_load [where 'a = 64 and bs = "varint 3 v" and be = True] quic_len_varint(3) [OF _ v] l by (simp add: w_def)
  have "(v + 3 * 2 ^ 30 * 2 ^ 32) mod 2 ^ 32 = v mod (2 ^ 32 :: nat)" by (rule mod_mult_self1)
  then have "(3 * 2 ^ 62 + v) mod 2 ^ 32 = v" using assms by (simp add: add.commute)
  then have "unat (ucast w :: uint32_t) = v" "unat (ucast (drop_bit 32 w) :: uint32_t) = 3 * 2 ^ 30"
    unfolding unsigned_ucast_eq unat_drop_bit_eq w using assms by (simp_all add: take_bit_eq_mod drop_bit_eq_div)
  moreover have "x = word_of_nat (unat x)" for x :: uint32_t by simp
  ultimately have h: "(ucast w :: uint32_t) = word_of_nat v" "(ucast (drop_bit 32 w) :: uint32_t) = word_of_nat (3 * 2 ^ 30)"
    by metis+
  have "(ucast (word_of_nat k :: uint32_t) :: uint64_t) = word_of_nat k" if "k < 2 ^ 32" for k
    using that by (simp add: word_unat_eq_iff unsigned_ucast_eq unat_of_nat take_bit_eq_mod)
  then have "ntohll True w = word_of_nat (v * 2 ^ 32 + 3 * 2 ^ 30)"
    using assms by (simp add: ntohll_def ntohl_def h push_bit_eq_mult)
  moreover define x where "x = v * 2 ^ 32 + 3 * 2 ^ 30"
  ultimately have n: "ntohll True w = word_of_nat x" by simp
  have x: "x < 2 ^ 62" using assms by (simp add: x_def)
  then have "unat (word_of_nat x :: uint64_t) = x" by (simp add: unat_of_nat)
  then have "ntohll True w AND mask 62 = word_of_nat x"
    using mask_number [of "ntohll True w" 62] x by (simp add: n)
  moreover have "unat (hd (varint 3 v)) div 64 = 3" using quic_len_varint(2) [OF _ v] by simp
  moreover have "varint 3 v ! 0 = hd (varint 3 v)" using l(2) by (simp add: hd_conv_nth)
  ultimately have "quic_len True (varint 3 v) = Some (8, word_of_nat x)"
    using l drop6_iff(1) [of 0 "hd (varint 3 v)", simplified] drop6_iff(1) [of 1 "hd (varint 3 v)", simplified]
      drop6_iff(1) [of 2 "hd (varint 3 v)", simplified] drop6_iff(1) [of 3 "hd (varint 3 v)", simplified]
    by (simp add: quic_len_def rd_def masks Let_def flip: w_def)
  moreover have "(word_of_nat x :: uint64_t) \<noteq> word_of_nat v"
  proof
    assume "(word_of_nat x :: uint64_t) = word_of_nat v"
    then have "x = v" using assms x by (simp add: word_unat_eq_iff unat_of_nat)
    then show False by (simp add: x_def)
  qed
  ultimately show ?thesis unfolding x_def by blast
qed

theorem quic_len_big_endian_witness:
  "quic_len True (varint 3 1) = Some (8, 0x1C0000000) \<and> quic_len False (varint 3 1 @ []) = Some (8, 1)"
  using quic_len_big_endian [of 1] quic_len_varint(1) [of 3 1 "[]"] by simp

text \<open>C16: The nonce of a packet is the initialisation vector combined by exclusive or with the packet
  number, left-padded with zeros to 12 bytes (RFC 9001, section 5.3), and different packet numbers
  have different nonces.\<close>

theorem quic_nonce_unique:
  assumes "length iv = 12"
  shows "quic_nonce iv pn = map2 (XOR) iv (replicate 4 0 @ be_bytes 8 (unat pn)) \<and>
    (quic_nonce iv pn = quic_nonce iv pn' \<longleftrightarrow> pn = pn')"
proof -
  have "pn = pn'" if "quic_nonce iv pn = quic_nonce iv pn'"
  proof -
    have "phton64 (pntoh64 (drop 4 iv) XOR pn) = phton64 (pntoh64 (drop 4 iv) XOR pn')"
      using that by (simp add: quic_nonce_def)
    then have "pntoh64 (drop 4 iv) XOR pn = pntoh64 (drop 4 iv) XOR pn'"
      by (metis be_nat_phton64 word_unat_eq_iff)
    then show ?thesis by (metis bit.xor_left_self)
  qed
  then show ?thesis using quic_nonce_eq [OF assms] by blast
qed

theorem quic_nonce_unique_witness:
  "quic_nonce (replicate 12 1) 5 \<noteq> quic_nonce (replicate 12 1) 6"
  using conjunct2 [OF quic_nonce_unique [of "replicate 12 1" 5 6]] by simp

text \<open>C17: \<open>quic_decrypt_header\<close> inverts the header protection of RFC 9001: given a packet that was
  protected with the mask computed from its own sample, it returns the original first byte and the
  packet number, for long and short headers and every packet number length, and reads nothing
  outside the packet.\<close>

theorem quic_decrypt_header_inverts:
  assumes "1 \<le> unat off" "unat off + 20 \<le> length P"
    "gcry_cipher_encrypt g h (take 16 (drop (unat off + 4) P)) = (0, h', sample)" "length sample = 16"
    "algo = GCRY_CIPHER_AES128 g \<or> algo = GCRY_CIPHER_AES256 g"
  shows "quic_decrypt_header g (protect P (unat off) (take 5 sample)) off (Some h) algo =
    Some (Some (P ! 0, word_of_nat (be_nat (take (unat (P ! 0 AND 0x03) + 1) (drop (unat off) P)))))"
  using decrypt_header_protect [OF assms(1-3) _ assms(5)] assms(4) by simp

text \<open>A concrete library to evaluate the functions with: its block cipher inverts every bit, its MAC
  has 32 bytes, and it accepts every tag.\<close>

definition demo_gcrypt :: "unit gcrypt" where
  "demo_gcrypt = \<lparr>GPG_ERR_INV_ARG = 45, GCRY_MD_SHA256 = 8, GCRY_CIPHER_AES128 = 7, GCRY_CIPHER_AES256 = 9,
     GCRY_CIPHER_MODE_ECB = 1, gcry_md_get_algo_dlen = (\<lambda>_. 32), gcry_md_open = (\<lambda>_. 0),
     gcry_md_setkey = (\<lambda>_ _. 0), gcry_hmac = (\<lambda>_ _ m. replicate 32 (sum_list m)),
     gcry_cipher_get_algo_keylen = (\<lambda>_. 16), gcry_cipher_open = (\<lambda>_ _. Some ()),
     gcry_cipher_setkey = (\<lambda>h _. (0, h)), gcry_cipher_encrypt = (\<lambda>h b. (0, h, map NOT b)),
     gcry_cipher_reset = id, gcry_cipher_setiv = (\<lambda>h _. (0, h)), gcry_cipher_authenticate = (\<lambda>h _. (0, h)),
     gcry_cipher_decrypt = (\<lambda>h b. (0, h, map NOT b)), gcry_cipher_checktag = (\<lambda>_ _. 0)\<rparr>"

definition demo_packet :: bytes where
  "demo_packet = [0xc1, 0xff, 0x12, 0x34] @ replicate 18 9"

theorem quic_decrypt_header_inverts_witness:
  "quic_decrypt_header demo_gcrypt (protect demo_packet 2 (replicate 5 0xf6)) 2 (Some ()) 7 =
     Some (Some (0xc1, 0x1234))"
proof -
  have u: "unat (2 :: uint32_t) = 2" by simp
  have e: "gcry_cipher_encrypt demo_gcrypt () (take 16 (drop (unat (2 :: uint32_t) + 4) demo_packet)) =
      (0, (), replicate 16 0xf6)" unfolding u by code_simp
  have "length demo_packet = 22" "GCRY_CIPHER_AES128 demo_gcrypt = 7"
    by (simp_all add: demo_packet_def demo_gcrypt_def)
  moreover have "demo_packet ! 0 = 0xc1"
    "(word_of_nat (be_nat (take (unat (demo_packet ! 0 AND 0x03) + 1) (drop 2 demo_packet))) :: uint32_t) = 0x1234"
    "take 5 (replicate 16 (0xf6 :: uint8_t)) = replicate 5 0xf6" by code_simp+
  ultimately show ?thesis
    using quic_decrypt_header_inverts [OF _ _ e, of 7] unfolding u by simp
qed

text \<open>C18: With enough memory, \<open>quic_hkdf_expand_label\<close> is HKDF-Expand-Label of RFC 8446: it writes the
  first \<open>L\<close> bytes of the HKDF output for the encoded label, and frees what it allocated. The
  hypotheses on the library say that a MAC has the length of its digest.\<close>

theorem quic_hkdf_expand_label_correct:
  fixes g :: "'h gcrypt" and L :: uint32_t
  assumes "\<And>m. length (gcry_hmac g md secret m) = gcry_md_get_algo_dlen g md" "gcry_md_open g md = 0"
    "0 < gcry_md_get_algo_dlen g md" "gcry_md_get_algo_dlen g md \<le> 48"
    "0 < unat L" "unat L \<le> 255 * gcry_md_get_algo_dlen g md" "0 < length label" "6 + length label \<le> 255"
    "ok (mallocs h)" "ok (Suc (mallocs h))"
  shows "\<exists>h'. quic_hkdf_expand_label g ok md secret label L h =
      Some (Some (hkdf_okm (gcry_hmac g md secret)
        (be_bytes 2 (unat L) @ [word_of_nat (6 + length label)] @ label_bytes ''tls13 '' @ label @ [0]) (unat L)), h') \<and>
    live h' = live h"
proof -
  have L: "unat L < 2 ^ 16" using assms(4,6) by simp
  then have u: "unat (ucast L :: uint16_t) = unat L" by (simp add: unsigned_ucast_eq take_bit_eq_mod)
  let ?info = "be_bytes 2 (unat L) @ [word_of_nat (6 + length label)] @ label_bytes ''tls13 '' @ label @ [0]"
  have i: "tls13_info (label_bytes ''tls13 '') label [] (ucast L) = ?info"
    by (simp add: tls13_info_def u label_bytes_def)
  note e = hkdf_expand_okm [OF assms(1,3,4,5,6,2), of ?info]
  show ?thesis
    using quic_label_ok [OF assms(7-10) L e [folded i] length_hkdf_okm [OF assms(1,6)]] unfolding i by blast
qed

theorem quic_hkdf_expand_label_correct_witness:
  "\<exists>h'. quic_hkdf_expand_label demo_gcrypt (\<lambda>_. True) 8 (replicate 32 1) (label_bytes ''quic iv'') 12
      \<lparr>mallocs = 0, live = 0\<rparr> =
    Some (Some (hkdf_okm (gcry_hmac demo_gcrypt 8 (replicate 32 1))
      (be_bytes 2 12 @ [13] @ label_bytes ''tls13 '' @ label_bytes ''quic iv'' @ [0]) 12), h') \<and> live h' = 0"
  using quic_hkdf_expand_label_correct [of demo_gcrypt 8 "replicate 32 1" 12 "label_bytes ''quic iv''"
      "\<lambda>_. True" "\<lparr>mallocs = 0, live = 0\<rparr>"]
  by (simp add: demo_gcrypt_def label_bytes_def)

text \<open>Opening a packet by the library, call by call: each has to succeed, and the tag has to be accepted.\<close>

definition aead_accepts :: "'h gcrypt \<Rightarrow> 'h \<Rightarrow> bytes \<Rightarrow> bytes \<Rightarrow> bytes \<Rightarrow> bytes \<Rightarrow> bytes \<Rightarrow> 'h \<Rightarrow> bool" where
  "aead_accepts g pp nonce aad ct tag plain pp' \<longleftrightarrow>
     (\<exists>pp1 pp2. gcry_cipher_setiv g (gcry_cipher_reset g pp) nonce = (0, pp1) \<and> gcry_cipher_authenticate g pp1 aad = (0, pp2) \<and>
        gcry_cipher_decrypt g pp2 ct = (0, pp', plain) \<and> gcry_cipher_checktag g pp' tag = 0)"

lemma quic_aead_open_accepts:
  "quic_aead_open g pp nonce aad ct tag = (Some b, pp') \<longleftrightarrow> aead_accepts g pp nonce aad ct tag b pp'"
  by (auto simp: quic_aead_open_def aead_accepts_def split: prod.splits if_splits)

text \<open>The conditions under which a packet is given to the library.\<close>

definition packet_ready :: "(nat \<Rightarrow> bool) \<Rightarrow> 'h quic_cipher ptr \<Rightarrow> uint32_t \<Rightarrow> uint32_t \<Rightarrow> uint32_t \<Rightarrow> heap \<Rightarrow> 'h quic_cipher \<Rightarrow> 'h \<Rightarrow> bool" where
  "packet_ready ok cipher plen hlen pkn_len h c pp \<longleftrightarrow> cipher = Some c \<and> pp_cipher c = Some pp \<and>
     pkn_len < hlen \<and> 1 \<le> pkn_len \<and> pkn_len \<le> 4 \<and> unat hlen + 16 < unat plen \<and> ok (mallocs h) \<and> ok (Suc (mallocs h))"

text \<open>The packet is opened as RFC 9001 says: nonce, associated data, ciphertext and tag.\<close>

definition packet_opens :: "'h gcrypt \<Rightarrow> 'h quic_cipher \<Rightarrow> 'h \<Rightarrow> bytes \<Rightarrow> nat \<Rightarrow> uint8_t \<Rightarrow> nat \<Rightarrow> uint64_t \<Rightarrow> bytes \<Rightarrow> 'h \<Rightarrow> bool" where
  "packet_opens g c pp P hlen fb pkn_len pn plain pp' \<longleftrightarrow>
     aead_accepts g pp (map2 (XOR) (pp_iv c) (replicate 4 0 @ be_bytes 8 (unat pn)))
       (fb # take (hlen - 1 - pkn_len) (drop 1 P) @ be_bytes pkn_len (unat pn))
       (take (length P - hlen - 16) (drop hlen P)) (drop (length P - 16) P) plain pp'"

lemma short_by_tag: "unat hlen + 16 = unat plen \<Longrightarrow> plen - (hlen + 16) = (0 :: uint32_t)"
proof -
  assume "unat hlen + 16 = unat plen"
  then have "word_of_nat (unat hlen + 16) = (word_of_nat (unat plen) :: uint32_t)" by simp
  then show ?thesis by simp
qed

lemma decrypt_message_gives_up:
  assumes "length P = unat plen" "unat hlen + 16 \<le> unat plen" "\<nexists>c pp. packet_ready ok cipher plen hlen pkn_len h c pp"
  shows "\<exists>h'. quic_decrypt_message g ok cipher P plen hlen fb pkn_len pn res h = Some (res, cipher, h') \<and> live h' = live h"
proof (cases "\<exists>c pp. cipher = Some c \<and> pp_cipher c = Some pp \<and> pkn_len < hlen \<and> 1 \<le> pkn_len \<and> pkn_len \<le> 4")
  case False
  then show ?thesis by (auto simp: quic_decrypt_message_def split: option.splits)
next
  case True
  then obtain c pp where c: "cipher = Some c" "pp_cipher c = Some pp" "pkn_len < hlen" "1 \<le> pkn_len" "pkn_len \<le> 4" by blast
  then have "\<not> ok (mallocs h) \<or> unat hlen + 16 = unat plen \<or> unat hlen + 16 < unat plen \<and> \<not> ok (Suc (mallocs h))"
    using assms(2,3) by (auto simp: packet_ready_def)
  moreover have "unat hlen \<le> length P" using assms(1,2) by simp
  ultimately show ?thesis using c message_sizes(2) [of hlen plen] short_by_tag [of hlen plen]
    by (auto simp: quic_decrypt_message_def memdup_def malloc_def rd_def free_block_def Let_def)
qed

lemma decrypt_message_ready:
  assumes "length P = unat plen" "length (pp_iv c) = 12" "packet_ready ok cipher plen hlen pkn_len h c pp"
  shows "\<exists>res' pp' h'. quic_decrypt_message g ok cipher P plen hlen fb pkn_len pn res h = Some (res', Some (c\<lparr>pp_cipher := Some pp'\<rparr>), h') \<and>
    ((\<exists>b. packet_opens g c pp P (unat hlen) fb (unat pkn_len) pn b pp' \<and> data res' = Some b \<and>
       unat (data_len res') = unat plen - unat hlen - 16 \<and> live h' = Suc (live h)) \<or>
     (\<nexists>b pp'. packet_opens g c pp P (unat hlen) fb (unat pkn_len) pn b pp') \<and> res' = res \<and> live h' = live h)"
proof -
  note r = assms(3) [unfolded packet_ready_def]
  let ?open = "quic_aead_open g pp (map2 (XOR) (pp_iv c) (replicate 4 0 @ be_bytes 8 (unat pn)))
    (fb # take (unat hlen - 1 - unat pkn_len) (drop 1 P) @ be_bytes (unat pkn_len) (unat pn))
    (take (unat plen - unat hlen - 16) (drop (unat hlen) P)) (drop (unat plen - 16) P)"
  have iff: "packet_opens g c pp P (unat hlen) fb (unat pkn_len) pn b pp' \<longleftrightarrow> ?open = (Some b, pp')" for b pp'
    by (simp add: packet_opens_def quic_aead_open_accepts assms(1))
  have eq: "quic_decrypt_message g ok cipher P plen hlen fb pkn_len pn res h =
    (let h2 = h\<lparr>mallocs := mallocs h + 2, live := live h + 2\<rparr> in case ?open of
        (None, pp') \<Rightarrow> Some (res, Some (c\<lparr>pp_cipher := Some pp'\<rparr>), free_block (free_block h2))
      | (Some b, pp') \<Rightarrow> Some (res\<lparr>data := Some b, data_len := plen - (hlen + 16)\<rparr>, Some (c\<lparr>pp_cipher := Some pp'\<rparr>), free_block h2))"
    using decrypt_message_eq [of c pp pkn_len hlen plen P ok h g fb pn res] r assms(1) by (simp add: Let_def quic_nonce_eq [OF assms(2)])
  obtain o' pp' where o: "?open = (o', pp')" by fastforce
  show ?thesis
  proof (cases o')
    case None
    then show ?thesis unfolding iff using eq o by (auto simp: Let_def free_block_def)
  next
    case (Some b)
    then show ?thesis unfolding iff using eq o message_sizes(1) [of hlen plen] r by (simp add: Let_def free_block_def)
  qed
qed

text \<open>C19: Every path of \<open>quic_decrypt_message\<close> for a packet that is not shorter than its header and tag (shorter ones are C20) and
  an IV of 12 bytes. The packet is opened as RFC 9001 says: with the nonce of its number, the header with plain first byte and
  packet number as associated data, the bytes between header and tag as ciphertext and the last 16 as tag. The plaintext is
  handed out, in one block of memory, exactly when the checks of the arguments and the two allocations succeed, the ciphertext
  is not empty, and all four calls of the library succeed, that of the tag included; otherwise the result is untouched and no memory is lost.
  The handle is only used when the library is reached.\<close>

theorem quic_decrypt_message_opens:
  assumes "length P = unat plen" "unat hlen + 16 \<le> unat plen" "\<forall>c. cipher = Some c \<longrightarrow> length (pp_iv c) = 12"
  shows "\<exists>res' cipher' h'. quic_decrypt_message g ok cipher P plen hlen fb pkn_len pn res h = Some (res', cipher', h') \<and>
    (\<forall>c pp b pp'. packet_ready ok cipher plen hlen pkn_len h c pp \<and> packet_opens g c pp P (unat hlen) fb (unat pkn_len) pn b pp' \<longrightarrow>
       data res' = Some b \<and> unat (data_len res') = unat plen - unat hlen - 16 \<and> cipher' = Some (c\<lparr>pp_cipher := Some pp'\<rparr>) \<and> live h' = Suc (live h)) \<and>
    ((\<nexists>c pp b pp'. packet_ready ok cipher plen hlen pkn_len h c pp \<and> packet_opens g c pp P (unat hlen) fb (unat pkn_len) pn b pp') \<longrightarrow>
       res' = res \<and> live h' = live h) \<and>
    (\<forall>c pp. packet_ready ok cipher plen hlen pkn_len h c pp \<longrightarrow> (\<exists>pp'. cipher' = Some (c\<lparr>pp_cipher := Some pp'\<rparr>))) \<and>
    ((\<nexists>c pp. packet_ready ok cipher plen hlen pkn_len h c pp) \<longrightarrow> cipher' = cipher)"
proof (cases "\<exists>c pp. packet_ready ok cipher plen hlen pkn_len h c pp")
  case False
  then obtain h' where "quic_decrypt_message g ok cipher P plen hlen fb pkn_len pn res h = Some (res, cipher, h')" "live h' = live h"
    using decrypt_message_gives_up [OF assms(1,2)] by blast
  then show ?thesis using False by blast
next
  case True
  then obtain c pp where r: "packet_ready ok cipher plen hlen pkn_len h c pp" by blast
  have u: "packet_ready ok cipher plen hlen pkn_len h c' pp' \<longleftrightarrow> c' = c \<and> pp' = pp" for c' pp'
    using r by (auto simp: packet_ready_def)
  have "length (pp_iv c) = 12" using r assms(3) by (simp add: packet_ready_def)
  then obtain res' pp' h' where m: "quic_decrypt_message g ok cipher P plen hlen fb pkn_len pn res h = Some (res', Some (c\<lparr>pp_cipher := Some pp'\<rparr>), h')"
    "(\<exists>b. packet_opens g c pp P (unat hlen) fb (unat pkn_len) pn b pp' \<and> data res' = Some b \<and>
       unat (data_len res') = unat plen - unat hlen - 16 \<and> live h' = Suc (live h)) \<or>
     (\<nexists>b pp'. packet_opens g c pp P (unat hlen) fb (unat pkn_len) pn b pp') \<and> res' = res \<and> live h' = live h"
    using decrypt_message_ready [OF assms(1) _ r, of g fb pn res] by blast
  have f: "b' = b \<and> pp'' = pp'" if "packet_opens g c pp P (unat hlen) fb (unat pkn_len) pn b pp'"
    "packet_opens g c pp P (unat hlen) fb (unat pkn_len) pn b' pp''" for b b' pp' pp''
    using that by (auto simp: packet_opens_def aead_accepts_def)
  show ?thesis unfolding u by (intro exI conjI, rule m(1)) (use m(2) f in blast)+
qed

definition demo_cipher :: "unit quic_cipher" where
  "demo_cipher = \<lparr>hp_cipher = Some (), pp_cipher = Some (), pp_iv = replicate 12 3, closed = False\<rparr>"

lemma demo_opens:
  "packet_ready (\<lambda>_. True) (Some demo_cipher) 22 4 2 \<lparr>mallocs = 0, live = 0\<rparr> demo_cipher ()"
  "packet_opens demo_gcrypt demo_cipher () demo_packet 4 0xc1 2 0x1234 [0xf6, 0xf6] ()"
proof -
  have "map NOT (take (22 - 4 - 16) (drop 4 demo_packet)) = [0xf6, 0xf6]" by code_simp
  moreover have "length demo_packet = 22" by (simp add: demo_packet_def)
  ultimately show "packet_opens demo_gcrypt demo_cipher () demo_packet 4 0xc1 2 0x1234 [0xf6, 0xf6] ()"
    by (simp add: packet_opens_def aead_accepts_def demo_gcrypt_def)
qed (simp add: packet_ready_def demo_cipher_def)

theorem quic_decrypt_message_opens_witness:
  "\<exists>res' cipher' h'. quic_decrypt_message demo_gcrypt (\<lambda>_. True) (Some demo_cipher) demo_packet 22 4 0xc1 2 0x1234
      \<lparr>data = None, data_len = 0\<rparr> \<lparr>mallocs = 0, live = 0\<rparr> = Some (res', cipher', h') \<and>
    data res' = Some [0xf6, 0xf6] \<and> unat (data_len res') = 2 \<and> live h' = 1"
proof -
  have "length demo_packet = unat (22 :: uint32_t)" "length (pp_iv demo_cipher) = 12" by (simp_all add: demo_packet_def demo_cipher_def)
  then obtain res' cipher' h' where m: "quic_decrypt_message demo_gcrypt (\<lambda>_. True) (Some demo_cipher) demo_packet 22 4 0xc1 2 0x1234
      \<lparr>data = None, data_len = 0\<rparr> \<lparr>mallocs = 0, live = 0\<rparr> = Some (res', cipher', h')"
    "\<forall>c pp b pp'. packet_ready (\<lambda>_. True) (Some demo_cipher) 22 4 2 \<lparr>mallocs = 0, live = 0\<rparr> c pp \<and>
        packet_opens demo_gcrypt c pp demo_packet 4 0xc1 2 0x1234 b pp' \<longrightarrow>
       data res' = Some b \<and> unat (data_len res') = 2 \<and> cipher' = Some (c\<lparr>pp_cipher := Some pp'\<rparr>) \<and> live h' = 1"
    using quic_decrypt_message_opens [of demo_packet 22 4 "Some demo_cipher" demo_gcrypt "\<lambda>_. True" "0xc1" 2 "0x1234"
        "\<lparr>data = None, data_len = 0\<rparr>" "\<lparr>mallocs = 0, live = 0\<rparr>"] by auto
  then show ?thesis using demo_opens by blast
qed

text \<open>C20: A packet shorter than header and tag makes the unsigned length of the ciphertext wrap around:
  unless the allocation fails, \<open>quic_decrypt_message\<close> reads beyond the end of the packet.\<close>

theorem quic_decrypt_message_underflow:
  assumes "pp_cipher c = Some pp" "pkn_len < hlen" "1 \<le> pkn_len" "pkn_len \<le> 4"
    "unat hlen \<le> unat plen" "unat plen < unat hlen + 16" "unat hlen + 16 < 2 ^ 32" "length P = unat plen"
    "ok (mallocs h)" "ok (Suc (mallocs h))"
  shows "quic_decrypt_message g ok (Some c) P plen hlen fb pkn_len pn res h = None"
proof -
  have h16: "unat (hlen + 16) = unat hlen + 16" using assms(7) by (simp add: unat_add_lem [THEN iffD1])
  have wrap: "unat (plen - (hlen + 16)) = 2 ^ 32 - (unat hlen + 16 - unat plen)"
    using assms(6) unfolding unat_sub_if' h16 by simp
  then have big: "unat plen < unat hlen + unat (plen - (hlen + 16))" using assms(5-7) by simp
  have nz: "plen - (hlen + 16) \<noteq> 0"
  proof
    assume "plen - (hlen + 16) = 0"
    then show False using wrap assms(5,6) by simp
  qed
  show ?thesis
    using assms(1-5,8-10) big nz
    by (simp add: quic_decrypt_message_def memdup_def malloc_def rd_def Let_def)
qed

theorem quic_decrypt_message_underflow_witness:
  "quic_decrypt_message demo_gcrypt (\<lambda>_. True) (Some demo_cipher) (replicate 10 0) 10 4 0xc1 2 0x1234
      \<lparr>data = None, data_len = 0\<rparr> \<lparr>mallocs = 0, live = 0\<rparr> = None"
  by (rule quic_decrypt_message_underflow [of _ "()"]) (simp_all add: demo_cipher_def)

text \<open>When the derivation of the first key fails for lack of memory, \<open>quic_cipher_prepare\<close> reports
  success all the same, with two open ciphers on which no key has been set.\<close>

lemma quic_cipher_prepare_without_key:
  assumes "algo = GCRY_CIPHER_AES128 g \<or> algo = GCRY_CIPHER_AES256 g"
    "gcry_cipher_open g algo (GCRY_CIPHER_MODE_ECB g) = Some hp" "gcry_cipher_open g algo mode = Some pp"
    "gcry_cipher_get_algo_keylen g algo \<le> 32" "gcry_md_get_algo_dlen g md \<le> length secret" "\<not> ok (mallocs h)"
  shows "\<exists>h'. quic_cipher_prepare g ok c md algo mode (Some secret) h =
    Some (1, c\<lparr>hp_cipher := Some hp, pp_cipher := Some pp, closed := False\<rparr>, h')"
proof -
  have "\<not> (32 :: uint8_t) < word_of_nat (gcry_cipher_get_algo_keylen g algo)"
    using assms(4) by (simp add: word_less_nat_alt unat_of_nat)
  then show ?thesis
    using assms(1-3,5,6)
    by (simp add: quic_cipher_prepare_def quic_get_pn_cipher_algo_def quic_cipher_init_def rd_def Let_def malloc_def
        quic_hkdf_expand_label_def tls13_hkdf_expand_label_def tls13_hkdf_expand_label_context_def label_bytes_def)
qed

lemma quic_cipher_prepare_without_key_example:
  "\<exists>h'. quic_cipher_prepare demo_gcrypt (\<lambda>_. False) demo_cipher 8 7 9 (Some (replicate 32 0)) \<lparr>mallocs = 0, live = 0\<rparr> =
     Some (1, demo_cipher, h')"
  using quic_cipher_prepare_without_key [of 7 demo_gcrypt "()" 9 "()" 8 "replicate 32 0" "\<lambda>_. False"
      "\<lparr>mallocs = 0, live = 0\<rparr>" demo_cipher]
  by (simp add: demo_gcrypt_def demo_cipher_def)

text \<open>What \<open>tls13_hkdf_expand_label_context\<close> leaves on the heap: the output on success, nothing on a
  failure, except that the label it built is lost when the allocation of the output fails.\<close>

theorem tls13_label_heap:
  assumes "tls13_hkdf_expand_label_context g ok md secret prefix label context L h = (out, h')"
  shows "live h' = live h +
    (if out \<noteq> None then 1
     else if 0 < length label \<and> length prefix + length label \<le> 255 \<and> ok (mallocs h) \<and> \<not> ok (Suc (mallocs h)) then 1
     else 0)"
  using assms
  by (auto simp: tls13_hkdf_expand_label_context_def malloc_def split: if_splits sum.splits)

theorem tls13_label_heap_witness:
  "live (snd (tls13_hkdf_expand_label_context demo_gcrypt (\<lambda>n. n = 0) 8 [1] [2] [3] [] 12 \<lparr>mallocs = 0, live = 0\<rparr>)) = 1"
  using tls13_label_heap [of demo_gcrypt "\<lambda>n. n = 0" 8 "[1]" "[2]" "[3]" "[]" 12 "\<lparr>mallocs = 0, live = 0\<rparr>"
      None "\<lparr>mallocs = 2, live = 1\<rparr>"]
  by (simp add: tls13_hkdf_expand_label_context_def malloc_def)

end
