(* ===== verification/Regex.thy ===== *)
theory Regex
  imports Prelude "HOL-Library.Monad_Syntax"
begin

text \<open>
  The regular expression matcher of \<open>c-study/dfa-about/dfa.c\<close>: from infix to postfix, from postfix
  to an automaton in the heap, and its simulation with cached state lists. A \<open>None\<close> that is not a
  NULL result stands for undefined behaviour: an access outside an array or through a pointer of
  the wrong kind.
\<close>

section \<open>Infix to postfix\<close>

text \<open>The characters with a meaning, in ASCII: \<open>( ) | * + ? .\<close>\<close>

abbreviation (input) LPAREN :: uint8_t where "LPAREN \<equiv> 0x28"
abbreviation (input) RPAREN :: uint8_t where "RPAREN \<equiv> 0x29"
abbreviation (input) BAR :: uint8_t where "BAR \<equiv> 0x7c"
abbreviation (input) STAR :: uint8_t where "STAR \<equiv> 0x2a"
abbreviation (input) PLUS :: uint8_t where "PLUS \<equiv> 0x2b"
abbreviation (input) QUEST :: uint8_t where "QUEST \<equiv> 0x3f"
abbreviation (input) DOT :: uint8_t where "DOT \<equiv> 0x2e"

text \<open>The local variables of \<open>re2post\<close>; \<open>paren\<close> lists the saved pairs, the innermost first.\<close>

record re2post_vars =
  nalt :: int
  natom :: int
  paren :: "(int \<times> int) list"
  dst :: "uint8_t list"

text \<open>\<open>*dst++ = c\<close>: \<open>dst\<close> lists what has been written to the buffer, and \<open>None\<close> is a write behind its end.\<close>

definition BUF_SIZE :: nat where "BUF_SIZE = 8000"

definition put :: "uint8_t \<Rightarrow> re2post_vars \<Rightarrow> re2post_vars option" where
  "put c v = (if length (dst v) < BUF_SIZE then Some (v\<lparr>dst := dst v @ [c]\<rparr>) else None)"

fun put_many :: "nat \<Rightarrow> uint8_t \<Rightarrow> re2post_vars \<Rightarrow> re2post_vars option" where
  "put_many 0 c v = Some v"
| "put_many (Suc n) c v = do { v \<leftarrow> put c v; put_many n c v }"

text \<open>\<open>while(--natom > 0) *dst++ = '.'\<close> and \<open>for(; nalt > 0; nalt--) *dst++ = '|'\<close>\<close>

definition emit_dots :: "re2post_vars \<Rightarrow> re2post_vars option" where
  "emit_dots v = do { v \<leftarrow> put_many (nat (natom v - 1)) DOT v; Some (v\<lparr>natom := min (natom v - 1) 0\<rparr>) }"

definition emit_bars :: "re2post_vars \<Rightarrow> re2post_vars option" where
  "emit_bars v = do { v \<leftarrow> put_many (nat (nalt v)) BAR v; Some (v\<lparr>nalt := min (nalt v) 0\<rparr>) }"

definition emit_dot :: "re2post_vars \<Rightarrow> re2post_vars option" where
  "emit_dot v = (if 1 < natom v then put DOT (v\<lparr>natom := natom v - 1\<rparr>) else Some v)"

text \<open>The body of the loop: the variables after it, or \<open>Some None\<close> for \<open>return NULL\<close>.\<close>

definition re2post_char :: "uint8_t \<Rightarrow> re2post_vars \<Rightarrow> re2post_vars ptr option" where
  "re2post_char c v =
     (if c = LPAREN then do {
        v \<leftarrow> emit_dot v;
        if 100 \<le> length (paren v) then Some None
        else Some (Some (v\<lparr>paren := (nalt v, natom v) # paren v, nalt := 0, natom := 0\<rparr>))
      }
      else if c = BAR then
        if natom v = 0 then Some None
        else do { v \<leftarrow> emit_dots v; Some (Some (v\<lparr>nalt := nalt v + 1\<rparr>)) }
      else if c = RPAREN then
        (case paren v of
           [] \<Rightarrow> Some None
         | (nalt', natom') # ps \<Rightarrow>
             if natom v = 0 then Some None
             else do {
               v \<leftarrow> emit_dots v;
               v \<leftarrow> emit_bars v;
               Some (Some (v\<lparr>paren := ps, nalt := nalt', natom := natom' + 1\<rparr>))
             })
      else if c = STAR \<or> c = PLUS \<or> c = QUEST then
        if natom v = 0 then Some None else do { v \<leftarrow> put c v; Some (Some v) }
      else do {
        v \<leftarrow> emit_dot v;
        v \<leftarrow> put c v;
        Some (Some (v\<lparr>natom := natom v + 1\<rparr>))
      })"

fun re2post_loop :: "uint8_t list \<Rightarrow> re2post_vars \<Rightarrow> re2post_vars ptr option" where
  "re2post_loop [] v = Some (Some v)"
| "re2post_loop (c # re) v = do {
     r \<leftarrow> re2post_char c v;
     case r of None \<Rightarrow> Some None | Some v \<Rightarrow> re2post_loop re v
   }"

definition re2post_init :: re2post_vars where
  "re2post_init = \<lparr>nalt = 0, natom = 0, paren = [], dst = []\<rparr>"

text \<open>The result is the contents of the static buffer before its NUL, or NULL; or \<open>None\<close> for a write outside the buffer.\<close>

definition re2post :: "uint8_t list \<Rightarrow> uint8_t list ptr option" where
  "re2post re =
     (if BUF_SIZE div 2 \<le> length re then Some None
      else do {
        r \<leftarrow> re2post_loop re re2post_init;
        case r of
          None \<Rightarrow> Some None
        | Some v \<Rightarrow>
            if paren v \<noteq> [] then Some None
            else do {
              v \<leftarrow> emit_dots v;
              v \<leftarrow> emit_bars v;
              put 0 v;
              Some (Some (dst v))
            }
      })"

section \<open>Postfix to automaton\<close>

definition Match :: int where "Match = 256"
definition Split :: int where "Split = 257"

text \<open>
  A state is the global \<open>matchstate\<close> or one that was allocated, by its number. While an automaton is
  being built, the unset \<open>out\<close> fields of a fragment hold the list of these fields itself (the union
  \<open>Ptrlist\<close>): the value of a field is NULL, a pointer to a state, or the address of another field
  (\<open>False\<close> for \<open>out\<close>, \<open>True\<close> for \<open>out1\<close>).
\<close>

datatype sref = Match_State | State_At nat

datatype outval = NULL | To sref | Slot nat bool

record state =
  state_c :: int
  state_out :: outval
  state_out1 :: outval
  state_lastlist :: int

record frag =
  frag_start :: sref
  frag_out :: outval

definition new_state :: "int \<Rightarrow> outval \<Rightarrow> outval \<Rightarrow> state list \<Rightarrow> nat \<times> state list" where
  "new_state ch o0 o1 h = (length h, h @ [\<lparr>state_c = ch, state_out = o0, state_out1 = o1, state_lastlist = 0\<rparr>])"

definition read_slot :: "state list \<Rightarrow> nat \<Rightarrow> bool \<Rightarrow> outval" where
  "read_slot h i b = (if b then state_out1 (h ! i) else state_out (h ! i))"

definition write_slot :: "state list \<Rightarrow> nat \<Rightarrow> bool \<Rightarrow> outval \<Rightarrow> state list" where
  "write_slot h i b v = h[i := if b then (h ! i)\<lparr>state_out1 := v\<rparr> else (h ! i)\<lparr>state_out := v\<rparr>]"

definition list1 :: "state list \<Rightarrow> nat \<Rightarrow> bool \<Rightarrow> outval \<times> state list" where
  "list1 h i b = (Slot i b, write_slot h i b NULL)"

partial_function (option) patch :: "state list \<Rightarrow> outval \<Rightarrow> outval \<Rightarrow> state list option" where
  "patch h l s =
     (case l of
        NULL \<Rightarrow> Some h
      | Slot i b \<Rightarrow> if i < length h then patch (write_slot h i b s) (read_slot h i b) s else None
      | To _ \<Rightarrow> None)"

partial_function (option) append_walk :: "state list \<Rightarrow> outval \<Rightarrow> outval \<Rightarrow> state list option" where
  "append_walk h l1 l2 =
     (case l1 of
        Slot i b \<Rightarrow>
          if i < length h
          then if read_slot h i b = NULL then Some (write_slot h i b l2)
               else append_walk h (read_slot h i b) l2
          else None
      | _ \<Rightarrow> None)"

definition append_list :: "state list \<Rightarrow> outval \<Rightarrow> outval \<Rightarrow> (outval \<times> state list) option" where
  "append_list h l1 l2 = map_option (\<lambda>h. (l1, h)) (append_walk h l1 l2)"

definition STACK_SIZE :: nat where "STACK_SIZE = 1000"

definition push :: "frag \<Rightarrow> frag list \<Rightarrow> frag list option" where
  "push f stk = (if length stk < STACK_SIZE then Some (f # stk) else None)"

fun pop :: "frag list \<Rightarrow> (frag \<times> frag list) option" where
  "pop [] = None"
| "pop (f # stk) = Some (f, stk)"

text \<open>A character of the postfix string is a signed \<open>char\<close>, widened to \<open>int\<close> in the state.\<close>

definition post2nfa_char :: "uint8_t \<Rightarrow> state list \<times> frag list \<Rightarrow> (state list \<times> frag list) option" where
  "post2nfa_char p = (\<lambda>(h, stk).
     if p = DOT then do {
       (e2, stk) \<leftarrow> pop stk;
       (e1, stk) \<leftarrow> pop stk;
       h \<leftarrow> patch h (frag_out e1) (To (frag_start e2));
       stk \<leftarrow> push \<lparr>frag_start = frag_start e1, frag_out = frag_out e2\<rparr> stk;
       Some (h, stk)
     } else if p = BAR then do {
       (e2, stk) \<leftarrow> pop stk;
       (e1, stk) \<leftarrow> pop stk;
       let (s, h) = new_state Split (To (frag_start e1)) (To (frag_start e2)) h;
       (l, h) \<leftarrow> append_list h (frag_out e1) (frag_out e2);
       stk \<leftarrow> push \<lparr>frag_start = State_At s, frag_out = l\<rparr> stk;
       Some (h, stk)
     } else if p = QUEST then do {
       (e, stk) \<leftarrow> pop stk;
       let (s, h) = new_state Split (To (frag_start e)) NULL h;
       let (l, h) = list1 h s True;
       (l, h) \<leftarrow> append_list h (frag_out e) l;
       stk \<leftarrow> push \<lparr>frag_start = State_At s, frag_out = l\<rparr> stk;
       Some (h, stk)
     } else if p = STAR then do {
       (e, stk) \<leftarrow> pop stk;
       let (s, h) = new_state Split (To (frag_start e)) NULL h;
       h \<leftarrow> patch h (frag_out e) (To (State_At s));
       let (l, h) = list1 h s True;
       stk \<leftarrow> push \<lparr>frag_start = State_At s, frag_out = l\<rparr> stk;
       Some (h, stk)
     } else if p = PLUS then do {
       (e, stk) \<leftarrow> pop stk;
       let (s, h) = new_state Split (To (frag_start e)) NULL h;
       h \<leftarrow> patch h (frag_out e) (To (State_At s));
       let (l, h) = list1 h s True;
       stk \<leftarrow> push \<lparr>frag_start = frag_start e, frag_out = l\<rparr> stk;
       Some (h, stk)
     } else do {
       let (s, h) = new_state (sint p) NULL NULL h;
       let (l, h) = list1 h s False;
       stk \<leftarrow> push \<lparr>frag_start = State_At s, frag_out = l\<rparr> stk;
       Some (h, stk)
     })"

fun post2nfa_loop :: "uint8_t list \<Rightarrow> state list \<times> frag list \<Rightarrow> (state list \<times> frag list) option" where
  "post2nfa_loop [] s = Some s"
| "post2nfa_loop (p # ps) s = do { s \<leftarrow> post2nfa_char p s; post2nfa_loop ps s }"

text \<open>The start state (or NULL) and the heap.\<close>

definition post2nfa :: "uint8_t list ptr \<Rightarrow> (sref ptr \<times> state list) option" where
  "post2nfa postfix =
     (case postfix of
        None \<Rightarrow> Some (None, [])
      | Some ps \<Rightarrow> do {
          (h, stk) \<leftarrow> post2nfa_loop ps ([], []);
          (e, stk) \<leftarrow> pop stk;
          if stk \<noteq> [] then Some (None, h)
          else do {
            h \<leftarrow> patch h (frag_out e) (To Match_State);
            Some (Some (frag_start e), h)
          }
        })"

end
