(* ===== verification/Regex_Heap.thy ===== *)
theory Regex_Heap
  imports Regex
begin

text \<open>
  The heap of a partly built automaton: lists threaded through unset fields, and what \<open>patch\<close> and
  \<open>append\<close> do to them.
\<close>

type_synonym slot = "nat \<times> bool"

abbreviation slot_val :: "state list \<Rightarrow> slot \<Rightarrow> outval" where
  "slot_val h x \<equiv> read_slot h (fst x) (snd x)"

section \<open>Fields\<close>

lemma length_write_slot [simp]: "length (write_slot h i b v) = length h"
  by (simp add: write_slot_def)

lemma read_write_slot:
  "i < length h \<Longrightarrow> read_slot (write_slot h i b v) j b' = (if (j, b') = (i, b) then v else read_slot h j b')"
  by (auto simp: read_slot_def write_slot_def nth_list_update)

lemma state_write_slot [simp]:
  "state_c (write_slot h i b v ! j) = state_c (h ! j)"
  "state_lastlist (write_slot h i b v ! j) = state_lastlist (h ! j)"
  by (cases "i < length h"; auto simp: write_slot_def nth_list_update list_update_beyond)+

lemma write_slot_other: "j \<noteq> i \<Longrightarrow> write_slot h i b v ! j = h ! j"
  by (simp add: write_slot_def)

section \<open>Lists of fields\<close>

fun chain :: "state list \<Rightarrow> outval \<Rightarrow> slot list \<Rightarrow> bool" where
  "chain h l [] \<longleftrightarrow> l = NULL"
| "chain h l (x # xs) \<longleftrightarrow> l = Slot (fst x) (snd x) \<and> fst x < length h \<and> chain h (slot_val h x) xs"

lemma chain_cong:
  "chain h l xs \<Longrightarrow> length h \<le> length h' \<Longrightarrow> (\<And>x. x \<in> set xs \<Longrightarrow> slot_val h' x = slot_val h x) \<Longrightarrow> chain h' l xs"
  by (induction xs arbitrary: l) auto

lemma chain_bound: "chain h l xs \<Longrightarrow> x \<in> set xs \<Longrightarrow> fst x < length h"
  by (induction xs arbitrary: l) auto

lemma chain_write:
  "chain h l xs \<Longrightarrow> (i, b) \<notin> set xs \<Longrightarrow> i < length h \<Longrightarrow> chain (write_slot h i b v) l xs"
  by (erule chain_cong) (auto simp: read_write_slot)

text \<open>\<open>patch\<close> sets exactly the fields of the list.\<close>

definition same_but :: "slot set \<Rightarrow> state list \<Rightarrow> state list \<Rightarrow> bool" where
  "same_but X h h' \<longleftrightarrow> length h' = length h \<and> 
     (\<forall>i. state_c (h' ! i) = state_c (h ! i) \<and> state_lastlist (h' ! i) = state_lastlist (h ! i)) \<and>
     (\<forall>x. x \<notin> X \<longrightarrow> slot_val h' x = slot_val h x)"

lemma patch_chain:
  "chain h l xs \<Longrightarrow> distinct xs \<Longrightarrow>
     \<exists>h'. patch h l v = Some h' \<and> same_but (set xs) h h' \<and> (\<forall>x\<in>set xs. slot_val h' x = v)"
proof (induction xs arbitrary: h l)
  case Nil
  then show ?case by (simp add: patch.simps same_but_def)
next
  case (Cons x xs)
  obtain i b where x: "x = (i, b)" by (cases x)
  let ?h = "write_slot h i b v"
  have i: "i < length h" "l = Slot i b" "chain h (read_slot h i b) xs" using Cons.prems(1) by (auto simp: x)
  then have "chain ?h (read_slot h i b) xs" using Cons.prems(2) by (intro chain_write) (auto simp: x)
  then obtain h' where h': "patch ?h (read_slot h i b) v = Some h'" "same_but (set xs) ?h h'"
    "\<forall>x\<in>set xs. slot_val h' x = v"
    using Cons.IH Cons.prems(2) by fastforce
  then have "patch h l v = Some h'" using i by (simp add: patch.simps)
  moreover have "slot_val h' x = v"
    using h'(2) Cons.prems(2) i(1) by (auto simp: x same_but_def read_write_slot)
  moreover have "same_but (set (x # xs)) h h'"
    using h'(2) i(1) by (auto simp: same_but_def read_write_slot x)
  ultimately show ?case using h'(3) by auto
qed

text \<open>\<open>append\<close> links the last field of the first list to the second.\<close>

lemma append_chain:
  "chain h l xs \<Longrightarrow> xs \<noteq> [] \<Longrightarrow> distinct (xs @ ys) \<Longrightarrow> chain h l2 ys \<Longrightarrow>
     \<exists>h'. append_walk h l l2 = Some h' \<and> same_but (set xs) h h' \<and> chain h' l (xs @ ys)"
proof (induction xs arbitrary: l)
  case (Cons x xs)
  obtain i b where x: "x = (i, b)" by (cases x)
  have i: "i < length h" "l = Slot i b" "chain h (read_slot h i b) xs" using Cons.prems(1) by (auto simp: x)
  show ?case
  proof (cases xs)
    case Nil
    then have "append_walk h l l2 = Some (write_slot h i b l2)" using i by (simp add: append_walk.simps)
    moreover have "same_but (set (x # xs)) h (write_slot h i b l2)"
      using i(1) by (auto simp: same_but_def read_write_slot x)
    moreover have "chain (write_slot h i b l2) l ((x # xs) @ ys)"
      using Cons.prems(3,4) i Nil chain_write [OF Cons.prems(4), of i b l2] by (auto simp: read_write_slot x)
    ultimately show ?thesis by blast
  next
    case (Cons y ys')
    then have ne: "read_slot h i b \<noteq> NULL" using i(3) by auto
    obtain h' where h': "append_walk h (read_slot h i b) l2 = Some h'" "same_but (set xs) h h'"
      "chain h' (read_slot h i b) (xs @ ys)"
      using Cons.IH [OF i(3)] Cons.prems Cons by auto
    have "append_walk h l l2 = Some h'" using i ne h'(1) by (simp add: append_walk.simps)
    moreover have "slot_val h' x = read_slot h i b" "length h' = length h"
      using h'(2) Cons.prems(3) by (auto simp: same_but_def x)
    ultimately show ?thesis using h' i by (auto simp: same_but_def x)
  qed
qed simp

end
