(* ===== verification/Regex_Post.thy ===== *)
theory Regex_Post
  imports Regex
begin

text \<open>
  \<open>re2post\<close>: it stays within its buffer, and it translates the regular expressions of a grammar to
  their postfix form.
\<close>

section \<open>Without the buffer\<close>

text \<open>What \<open>re2post\<close> computes if no write fails, as a function on lists; it is compared with the code below.\<close>

definition all_dots :: "re2post_vars \<Rightarrow> re2post_vars" where
  "all_dots v = v\<lparr>dst := dst v @ replicate (nat (natom v - 1)) DOT, natom := min (natom v - 1) 0\<rparr>"

definition all_bars :: "re2post_vars \<Rightarrow> re2post_vars" where
  "all_bars v = v\<lparr>dst := dst v @ replicate (nat (nalt v)) BAR, nalt := min (nalt v) 0\<rparr>"

definition one_dot :: "re2post_vars \<Rightarrow> re2post_vars" where
  "one_dot v = (if 1 < natom v then v\<lparr>natom := natom v - 1, dst := dst v @ [DOT]\<rparr> else v)"

definition post_char :: "uint8_t \<Rightarrow> re2post_vars \<Rightarrow> re2post_vars ptr" where
  "post_char c v =
     (if c = LPAREN then
        let v = one_dot v in
        if 100 \<le> length (paren v) then None
        else Some (v\<lparr>paren := (nalt v, natom v) # paren v, nalt := 0, natom := 0\<rparr>)
      else if c = BAR then
        if natom v = 0 then None
        else let v = all_dots v in Some (v\<lparr>nalt := nalt v + 1\<rparr>)
      else if c = RPAREN then
        (case paren v of
           [] \<Rightarrow> None
         | (nalt', natom') # ps \<Rightarrow>
             if natom v = 0 then None
             else Some ((all_bars (all_dots v))\<lparr>paren := ps, nalt := nalt', natom := natom' + 1\<rparr>))
      else if c = STAR \<or> c = PLUS \<or> c = QUEST then
        if natom v = 0 then None else Some (v\<lparr>dst := dst v @ [c]\<rparr>)
      else
        let v = one_dot v in Some (v\<lparr>dst := dst v @ [c], natom := natom v + 1\<rparr>))"

fun post_loop :: "uint8_t list \<Rightarrow> re2post_vars \<Rightarrow> re2post_vars ptr" where
  "post_loop [] v = Some v"
| "post_loop (c # re) v = do { v \<leftarrow> post_char c v; post_loop re v }"

definition to_post :: "uint8_t list \<Rightarrow> uint8_t list ptr" where
  "to_post re =
     (if BUF_SIZE div 2 \<le> length re then None
      else do {
        v \<leftarrow> post_loop re re2post_init;
        if paren v \<noteq> [] then None else Some (dst (all_bars (all_dots v)))
      })"

section \<open>Expressions\<close>

text \<open>
  An expression is a list of alternatives, each a list of pieces; a piece is a character, an
  expression in parentheses, or a piece under one of \<open>* + ?\<close>.
\<close>

datatype piece = Lit uint8_t | Group "piece list list" | Rep piece uint8_t

fun intersperse_bars :: "uint8_t list list \<Rightarrow> uint8_t list" where
  "intersperse_bars [] = []"
| "intersperse_bars [s] = s"
| "intersperse_bars (s # ss) = s @ [BAR] @ intersperse_bars ss"

text \<open>The text of an expression, and its postfix form.\<close>

fun print_piece :: "piece \<Rightarrow> uint8_t list" where
  "print_piece (Lit ch) = [ch]"
| "print_piece (Group bs) =
     [LPAREN] @ intersperse_bars (map (\<lambda>b. concat (map print_piece b)) bs) @ [RPAREN]"
| "print_piece (Rep p ch) = print_piece p @ [ch]"

definition print_branch :: "piece list \<Rightarrow> uint8_t list" where
  "print_branch b = concat (map print_piece b)"

definition print_re :: "piece list list \<Rightarrow> uint8_t list" where
  "print_re bs = intersperse_bars (map print_branch bs)"

fun cat_posts :: "uint8_t list list \<Rightarrow> uint8_t list" where
  "cat_posts [] = []"
| "cat_posts (p # ps) = p @ concat (map (\<lambda>q. q @ [DOT]) ps)"

fun post_piece :: "piece \<Rightarrow> uint8_t list" where
  "post_piece (Lit ch) = [ch]"
| "post_piece (Group bs) =
     concat (map (\<lambda>b. cat_posts (map post_piece b)) bs) @ replicate (length bs - 1) BAR"
| "post_piece (Rep p ch) = post_piece p @ [ch]"

definition post_branch :: "piece list \<Rightarrow> uint8_t list" where
  "post_branch b = cat_posts (map post_piece b)"

definition post_re :: "piece list list \<Rightarrow> uint8_t list" where
  "post_re bs = concat (map post_branch bs) @ replicate (length bs - 1) BAR"

text \<open>Characters are not operators, repetitions are, there are no empty lists, and parentheses nest at most \<open>d\<close> deep.\<close>

fun piece_ok :: "nat \<Rightarrow> piece \<Rightarrow> bool" where
  "piece_ok d (Lit ch) \<longleftrightarrow> ch \<notin> {LPAREN, RPAREN, BAR, STAR, PLUS, QUEST}"
| "piece_ok d (Group bs) \<longleftrightarrow>
     d \<noteq> 0 \<and> bs \<noteq> [] \<and> list_all (\<lambda>b. b \<noteq> [] \<and> list_all (piece_ok (d - 1)) b) bs"
| "piece_ok d (Rep p ch) \<longleftrightarrow> ch \<in> {STAR, PLUS, QUEST} \<and> piece_ok d p"

definition re_ok :: "nat \<Rightarrow> piece list list \<Rightarrow> bool" where
  "re_ok d bs \<longleftrightarrow> bs \<noteq> [] \<and> list_all (\<lambda>b. b \<noteq> [] \<and> list_all (piece_ok d) b) bs"

section \<open>The buffer is large enough\<close>

text \<open>What is in the buffer and what is still to be emitted grows by at most two per character.\<close>

definition pending :: "re2post_vars \<Rightarrow> int" where
  "pending v = int (length (dst v)) + natom v + nalt v + sum_list (map (\<lambda>(a, n). a + n) (paren v))"

definition counts_ok :: "re2post_vars \<Rightarrow> bool" where
  "counts_ok v \<longleftrightarrow> 0 \<le> natom v \<and> natom v \<le> 2 \<and> 0 \<le> nalt v \<and>
     list_all (\<lambda>(a, n). 0 \<le> a \<and> 0 \<le> n \<and> n \<le> 1) (paren v) \<and> length (paren v) \<le> 100"

lemma re2post_char_counts:
  assumes "counts_ok v" "post_char ch v = Some v'"
  shows "counts_ok v' \<and> pending v' \<le> pending v + 2 \<and> length (dst v) \<le> length (dst v')"
  using assms
  by (auto simp: post_char_def counts_ok_def pending_def one_dot_def all_dots_def all_bars_def Let_def
      split: if_splits list.splits)

lemma re2post_loop_counts:
  "counts_ok v \<Longrightarrow> post_loop re v = Some v' \<Longrightarrow>
     counts_ok v' \<and> pending v' \<le> pending v + 2 * int (length re) \<and> length (dst v) \<le> length (dst v')"
proof (induction re arbitrary: v)
  case (Cons ch re)
  then obtain v1 where v1: "post_char ch v = Some v1" "post_loop re v1 = Some v'"
    by (auto split: bind_splits)
  then show ?case
    using re2post_char_counts [OF Cons.prems(1) v1(1)] Cons.IH [OF _ v1(2)] by fastforce
qed simp

lemma sum_paren_nonneg: "list_all (\<lambda>(a, n). 0 \<le> a \<and> 0 \<le> n \<and> n \<le> 1) ps \<Longrightarrow> 0 \<le> sum_list (map (\<lambda>(a, n). a + n :: int) ps)"
  by (induction ps) auto

lemma emitted_bound:
  assumes "counts_ok v"
  shows "int (length (dst (all_bars (all_dots v)))) \<le> pending v" "int (length (dst v)) \<le> pending v"
  using assms sum_paren_nonneg [of "paren v"]
  by (auto simp: counts_ok_def pending_def all_dots_def all_bars_def)

text \<open>So no write of \<open>re2post\<close> fails, neither before it returns the buffer nor before it returns NULL.\<close>

lemma put_ok: "length (dst v) < BUF_SIZE \<Longrightarrow> put c v = Some (v\<lparr>dst := dst v @ [c]\<rparr>)"
  by (simp add: put_def)

lemma put_many_ok: "length (dst v) + n \<le> BUF_SIZE \<Longrightarrow> put_many n c v = Some (v\<lparr>dst := dst v @ replicate n c\<rparr>)"
  by (induction n arbitrary: v) (simp_all add: put_ok replicate_app_Cons_same)

lemma emit_ok:
  assumes "counts_ok v" "pending v \<le> int BUF_SIZE"
  shows "emit_dot v = Some (one_dot v)" "emit_dots v = Some (all_dots v)" "emit_bars (all_dots v) = Some (all_bars (all_dots v))"
proof -
  have "int (length (dst v)) + natom v + nalt v \<le> int BUF_SIZE" "0 \<le> natom v" "0 \<le> nalt v"
    using assms sum_paren_nonneg [of "paren v"] by (auto simp: counts_ok_def pending_def)
  then show "emit_dot v = Some (one_dot v)" "emit_dots v = Some (all_dots v)" "emit_bars (all_dots v) = Some (all_bars (all_dots v))"
    by (auto simp: emit_dot_def one_dot_def put_ok emit_dots_def all_dots_def emit_bars_def all_bars_def put_many_ok)
qed

lemma re2post_char_ok:
  assumes "counts_ok v" "pending v + 2 \<le> int BUF_SIZE"
  shows "re2post_char c v = Some (post_char c v)"
proof -
  note e = emit_ok [OF assms(1)]
  have "length (dst (one_dot v)) < BUF_SIZE" "length (dst v) < BUF_SIZE"
    using assms emitted_bound(2) [OF assms(1)] by (auto simp: one_dot_def)
  then show ?thesis
    using assms(2) by (auto simp: re2post_char_def post_char_def e put_ok Let_def split: list.splits)
qed

lemma re2post_loop_ok:
  "counts_ok v \<Longrightarrow> pending v + 2 * int (length re) \<le> int BUF_SIZE \<Longrightarrow> re2post_loop re v = Some (post_loop re v)"
proof (induction re arbitrary: v)
  case (Cons c re)
  have 1: "re2post_char c v = Some (post_char c v)" using Cons.prems by (intro re2post_char_ok) auto
  show ?case
  proof (cases "post_char c v")
    case (Some v1)
    have "re2post_loop re v1 = Some (post_loop re v1)"
      using re2post_char_counts [OF Cons.prems(1) Some] Cons.prems(2) by (intro Cons.IH) auto
    then show ?thesis using 1 Some by simp
  qed (use 1 in simp)
qed simp

lemma re2post_init_ok: "counts_ok re2post_init" "pending re2post_init = 0"
  by (simp_all add: counts_ok_def pending_def re2post_init_def)

lemma re2post_eq: "re2post re = Some (to_post re)"
proof (cases "BUF_SIZE div 2 \<le> length re")
  case False
  then have len: "2 * int (length re) + 2 \<le> int BUF_SIZE" by (simp add: BUF_SIZE_def)
  have l: "re2post_loop re re2post_init = Some (post_loop re re2post_init)"
    using len re2post_init_ok by (intro re2post_loop_ok) auto
  show ?thesis
  proof (cases "post_loop re re2post_init")
    case (Some v)
    have v: "counts_ok v" "pending v \<le> 2 * int (length re)"
      using re2post_loop_counts [OF re2post_init_ok(1) Some] re2post_init_ok(2) by simp_all
    have "length (dst (all_bars (all_dots v))) < BUF_SIZE" using emitted_bound(1) [OF v(1)] v(2) len by simp
    then show ?thesis using l Some False emit_ok [OF v(1)] v(2) len by (simp add: re2post_def to_post_def put_ok)
  qed (use l False in \<open>simp add: re2post_def to_post_def\<close>)
qed (simp add: re2post_def to_post_def)

section \<open>Expressions are translated to their postfix form\<close>

lemma re2post_loop_append:
  "post_loop (xs @ ys) v = do { v \<leftarrow> post_loop xs v; post_loop ys v }"
  by (induction xs arbitrary: v) (auto split: bind_splits)

text \<open>The effect of reading a piece: it is emitted after the dot of its predecessors and counted as one atom.\<close>

definition after_piece :: "piece \<Rightarrow> re2post_vars \<Rightarrow> re2post_vars" where
  "after_piece p v = (let v = one_dot v in v\<lparr>dst := dst v @ post_piece p, natom := natom v + 1\<rparr>)"

definition reads_piece :: "piece \<Rightarrow> bool" where
  "reads_piece p \<longleftrightarrow> (\<forall>v :: re2post_vars. 0 \<le> natom v \<longrightarrow> piece_ok (100 - length (paren v)) p \<longrightarrow>
     post_loop (print_piece p) v = Some (after_piece p v))"

lemma emit_dots_iff:
  fixes v w :: re2post_vars
  shows "all_dots w = v\<lparr>dst := D, natom := 0\<rparr> \<longleftrightarrow>
    dst (all_dots w) = D \<and> natom (all_dots w) = 0 \<and> nalt w = nalt v \<and> paren w = paren v"
  by (cases v; cases w) (auto simp: all_dots_def)

lemma post_piece_Group: "post_piece (Group bs) = post_re bs"
  by (simp add: post_re_def post_branch_def [abs_def])

lemma post_branch_snoc: "b \<noteq> [] \<Longrightarrow> post_branch (b @ [p]) = post_branch b @ post_piece p @ [DOT]"
  by (cases b) (simp_all add: post_branch_def)

lemma read_branch:
  assumes "\<forall>p\<in>set b. reads_piece p" "list_all (piece_ok (100 - length (paren v))) b" "b \<noteq> []" "natom v = 0"
  shows "\<exists>v'. post_loop (print_branch b) v = Some v' \<and> 0 < natom v' \<and> natom v' = min 2 (int (length b)) \<and>
    all_dots v' = v\<lparr>dst := dst v @ post_branch b, natom := 0\<rparr>"
  using assms(1-3)
proof (induction b rule: rev_induct)
  case (snoc p b)
  show ?case
  proof (cases "b = []")
    case True
    then show ?thesis using snoc.prems assms(4)
      by (simp add: print_branch_def reads_piece_def after_piece_def one_dot_def all_dots_def post_branch_def Let_def)
  next
    case False
    then obtain v1 where v1: "post_loop (print_branch b) v = Some v1" "0 < natom v1"
      "natom v1 = min 2 (int (length b))" "all_dots v1 = v\<lparr>dst := dst v @ post_branch b, natom := 0\<rparr>"
      using snoc by (auto simp: list_all_append)
    have same: "paren v1 = paren v" "nalt v1 = nalt v"
      using arg_cong [OF v1(4), of paren] arg_cong [OF v1(4), of nalt] by (simp_all add: all_dots_def)
    then have "post_loop (print_branch (b @ [p])) v = Some (after_piece p v1)"
      using snoc.prems v1(1,2) by (simp add: print_branch_def re2post_loop_append reads_piece_def list_all_append)
    moreover have n: "natom (after_piece p v1) = 2"
      using v1(2,3) by (auto simp: after_piece_def one_dot_def Let_def not_less le_Suc_eq)
    moreover have "dst (all_dots v1) = dst (one_dot v1)"
      using v1(2,3) by (auto simp: all_dots_def one_dot_def not_less le_Suc_eq)
    then have "dst (all_dots (after_piece p v1)) = dst v @ post_branch (b @ [p])"
      using n v1(4) all_dots_def [of "after_piece p v1"] unfolding emit_dots_iff
      by (simp add: after_piece_def Let_def post_branch_snoc [OF False] flip: append_assoc)
    then have "all_dots (after_piece p v1) = v\<lparr>dst := dst v @ post_branch (b @ [p]), natom := 0\<rparr>"
      unfolding emit_dots_iff using n same by (simp add: all_dots_def after_piece_def one_dot_def Let_def)
    moreover have "min 2 (int (length (b @ [p]))) = 2" using False by (cases b) simp_all
    ultimately show ?thesis by (intro exI [of _ "after_piece p v1"]) simp
  qed
qed simp

lemma read_alternatives:
  assumes "\<forall>b\<in>set bs. \<forall>p\<in>set b. reads_piece p" "re_ok (100 - length (paren v)) bs" "natom v = 0"
  shows "\<exists>v'. post_loop (print_re bs) v = Some v' \<and> 0 < natom v' \<and>
    all_dots v' = v\<lparr>dst := dst v @ concat (map post_branch bs), nalt := nalt v + int (length bs) - 1, natom := 0\<rparr>"
  using assms
proof (induction bs arbitrary: v)
  case (Cons b bs)
  have "b \<noteq> []" "list_all (piece_ok (100 - length (paren v))) b" using Cons.prems(2) by (simp_all add: re_ok_def)
  then obtain v1 where v1: "post_loop (print_branch b) v = Some v1" "0 < natom v1"
    "all_dots v1 = v\<lparr>dst := dst v @ post_branch b, natom := 0\<rparr>"
    using read_branch [of b v] Cons.prems by auto
  show ?case
  proof (cases bs)
    case Nil
    then show ?thesis using v1 by (intro exI [of _ v1]) (simp add: print_re_def)
  next
    case (Cons b2 bs2)
    define v2 where "v2 = v\<lparr>dst := dst v @ post_branch b, natom := 0, nalt := nalt v + 1\<rparr>"
    have bar: "post_char BAR v1 = Some v2"
      using v1(2,3) by (simp add: post_char_def v2_def)
    have "re_ok (100 - length (paren v2)) bs" using Cons.prems(2) Cons by (simp add: re_ok_def v2_def)
    then obtain v' where v': "post_loop (print_re bs) v2 = Some v'" "0 < natom v'"
      "all_dots v' = v2\<lparr>dst := dst v2 @ concat (map post_branch bs), nalt := nalt v2 + int (length bs) - 1, natom := 0\<rparr>"
      using Cons.IH [of v2] Cons.prems(1) by (auto simp: v2_def)
    have "print_re (b # bs) = print_branch b @ [BAR] @ print_re bs" using Cons by (simp add: print_re_def)
    then have "post_loop (print_re (b # bs)) v = Some v'"
      using v1(1) bar v'(1) by (simp add: re2post_loop_append)
    then show ?thesis using v'(2,3) by (intro exI [of _ v']) (simp add: v2_def)
  qed
qed (simp add: re_ok_def)

lemma reads_all: "reads_piece p"
proof (induction p)
  case (Lit ch)
  then show ?case by (auto simp: reads_piece_def post_char_def after_piece_def Let_def)
next
  case (Rep p ch)
  then show ?case
    by (auto simp: reads_piece_def re2post_loop_append post_char_def after_piece_def one_dot_def Let_def)
next
  case (Group bs)
  have ih: "\<forall>b\<in>set bs. \<forall>p\<in>set b. reads_piece p" using Group by blast
  show ?case unfolding reads_piece_def
  proof (intro allI impI)
    fix v :: re2post_vars assume v: "0 \<le> natom v" "piece_ok (100 - length (paren v)) (Group bs)"
    define u where "u = one_dot v"
    have u: "length (paren u) < 100" "paren u = paren v" using v(2) by (auto simp: u_def one_dot_def)
    define w where "w = u\<lparr>paren := (nalt u, natom u) # paren u, nalt := 0, natom := 0\<rparr>"
    have opn: "post_char LPAREN v = Some w" using u(1) by (simp add: post_char_def u_def w_def Let_def)
    have ok: "re_ok (100 - length (paren w)) bs" "natom w = 0" using v(2) u by (simp_all add: w_def re_ok_def)
    obtain v' where v': "post_loop (print_re bs) w = Some v'" "0 < natom v'"
      "all_dots v' = w\<lparr>dst := dst w @ concat (map post_branch bs), nalt := nalt w + int (length bs) - 1, natom := 0\<rparr>"
      using read_alternatives [OF ih ok] by auto
    have par: "paren v' = (nalt u, natom u) # paren u"
      using arg_cong [OF v'(3), of paren] by (simp add: all_dots_def w_def)
    have "nat (int (length bs) - 1) = length bs - 1" by simp
    then have "post_char RPAREN v' = Some (after_piece (Group bs) v)"
      using v'(2,3) par ok(1)
      by (simp add: post_char_def all_bars_def w_def after_piece_def post_piece_Group post_re_def Let_def del: post_piece.simps flip: u_def)
    moreover have "print_piece (Group bs) = [LPAREN] @ print_re bs @ [RPAREN]"
      by (simp add: print_re_def print_branch_def [abs_def])
    ultimately show "post_loop (print_piece (Group bs)) v = Some (after_piece (Group bs) v)"
      using opn v'(1) by (simp only: re2post_loop_append post_loop.simps bind.bind_lunit)
  qed
qed

lemma re2post_print:
  assumes "re_ok 100 bs" "length (print_re bs) < 4000"
  shows "to_post (print_re bs) = Some (post_re bs)"
proof -
  obtain v' where v': "post_loop (print_re bs) re2post_init = Some v'"
    "all_dots v' = re2post_init\<lparr>dst := concat (map post_branch bs), nalt := int (length bs) - 1, natom := 0\<rparr>"
    using read_alternatives [of bs re2post_init] reads_all assms(1) by (auto simp: re2post_init_def)
  have "paren v' = []" using arg_cong [OF v'(2), of paren] by (simp add: all_dots_def re2post_init_def)
  moreover have "nat (int (length bs) - 1) = length bs - 1" by simp
  ultimately show ?thesis
    using v' assms(2) by (simp add: to_post_def BUF_SIZE_def all_bars_def post_re_def re2post_init_def)
qed

end
