(* ===== verification/Regex_Nfa.thy ===== *)
theory Regex_Nfa
  imports Regex_Heap Regex_Post
begin

text \<open>
  The languages of the expressions, what an automaton in the heap accepts, and how the words that
  lead from one state to another compose.
\<close>

section \<open>Languages\<close>

type_synonym lang = "int list set"

definition conc :: "'a list set \<Rightarrow> 'a list set \<Rightarrow> 'a list set" where
  "conc A B = {u @ v |u v. u \<in> A \<and> v \<in> B}"

definition star :: "'a list set \<Rightarrow> 'a list set" where
  "star A = {concat ws |ws. set ws \<subseteq> A}"

definition rep_lang :: "uint8_t \<Rightarrow> 'a list set \<Rightarrow> 'a list set" where
  "rep_lang ch A = (if ch = STAR then star A else if ch = PLUS then conc A (star A) else insert [] A)"

text \<open>
  What the automaton of an expression accepts, as words of the numbers in its states: a character of the expression is a
  signed \<open>char\<close>, which is widened to \<open>int\<close>. The language of the expression itself, over bytes, is defined in \<open>Regex_Lang\<close>.
\<close>

fun acc_piece :: "piece \<Rightarrow> lang" where
  "acc_piece (Lit ch) = {[sint ch]}"
| "acc_piece (Group bs) = (\<Union>b\<in>set bs. foldr conc (map acc_piece b) {[]})"
| "acc_piece (Rep p ch) = rep_lang ch (acc_piece p)"

definition acc_branch :: "piece list \<Rightarrow> lang" where
  "acc_branch b = foldr conc (map acc_piece b) {[]}"

definition acc_re :: "piece list list \<Rightarrow> lang" where
  "acc_re bs = (\<Union>b\<in>set bs. acc_branch b)"

lemma concI: "u \<in> A \<Longrightarrow> v \<in> B \<Longrightarrow> u @ v \<in> conc A B"
  by (auto simp: conc_def)

lemma concE:
  assumes "w \<in> conc A B"
  obtains u v where "w = u @ v" "u \<in> A" "v \<in> B"
  using assms by (auto simp: conc_def)

lemma conc_assoc: "conc (conc A B) C = conc A (conc B C)"
proof (intro set_eqI iffI)
  fix w assume "w \<in> conc (conc A B) C"
  then show "w \<in> conc A (conc B C)" by (elim concE) (simp add: concI)
next
  fix w assume "w \<in> conc A (conc B C)"
  then show "w \<in> conc (conc A B) C" by (elim concE) (metis append_assoc concI)
qed

lemma conc_eps [simp]: "conc A {[]} = A" "conc {[]} A = A"
  by (auto simp: conc_def)

lemma acc_branch_snoc: "acc_branch (b @ [p]) = conc (acc_branch b) (acc_piece p)"
proof -
  have "foldr conc As B = conc (foldr conc As {[]}) B" for As :: "lang list" and B
    by (induction As) (simp_all add: conc_assoc)
  from this [of "map acc_piece b" "acc_piece p"] show ?thesis by (simp add: acc_branch_def)
qed

lemma star_Nil: "[] \<in> star A"
  by (auto simp: star_def intro: exI [of _ "[]"])

lemma star_step: "u \<in> A \<Longrightarrow> v \<in> star A \<Longrightarrow> u @ v \<in> star A"
  by (auto simp: star_def) (metis concat.simps(2) insert_subset list.simps(15))

lemma star_induct [consumes 1, case_names Nil step]:
  assumes "w \<in> star A" "P []" "\<And>u v. u \<in> A \<Longrightarrow> v \<in> star A \<Longrightarrow> P v \<Longrightarrow> P (u @ v)"
  shows "P w"
proof -
  obtain ws where "w = concat ws" "set ws \<subseteq> A" using assms(1) by (auto simp: star_def)
  then show ?thesis
  proof (induction ws arbitrary: w)
    case (Cons u ws)
    then show ?case using assms(3) [of u "concat ws"] by (auto simp: star_def)
  qed (simp add: assms(2))
qed

section \<open>Acceptance\<close>

text \<open>\<open>accepts h n p w\<close>: from what \<open>p\<close> points to, \<open>w\<close> is accepted along at most \<open>n\<close> arrows.\<close>

fun accepts :: "state list \<Rightarrow> nat \<Rightarrow> outval \<Rightarrow> int list \<Rightarrow> bool" where
  "accepts h n (To Match_State) w \<longleftrightarrow> w = []"
| "accepts h (Suc n) (To (State_At i)) w \<longleftrightarrow>
     (if state_c (h ! i) = Split
      then accepts h n (state_out (h ! i)) w \<or> accepts h n (state_out1 (h ! i)) w
      else (case w of [] \<Rightarrow> False | a # v \<Rightarrow> a = state_c (h ! i) \<and> accepts h n (state_out (h ! i)) v))"
| "accepts h n p w \<longleftrightarrow> False"

definition acc :: "state list \<Rightarrow> outval \<Rightarrow> int list \<Rightarrow> bool" where
  "acc h p w \<longleftrightarrow> (\<exists>n. accepts h n p w)"

lemma accepts_mono: "accepts h n p w \<Longrightarrow> n \<le> m \<Longrightarrow> accepts h m p w"
proof (induction h n p w arbitrary: m rule: accepts.induct)
  case (2 h n i w)
  then obtain m' where "m = Suc m'" by (cases m) auto
  then show ?case using 2 by (auto split: if_splits list.splits)
qed auto

lemma acc_Match [simp]: "acc h (To Match_State) w \<longleftrightarrow> w = []"
  by (simp add: acc_def)

lemma acc_Split:
  "state_c (h ! i) = Split \<Longrightarrow>
     acc h (To (State_At i)) w \<longleftrightarrow> acc h (state_out (h ! i)) w \<or> acc h (state_out1 (h ! i)) w"
proof -
  assume s: "state_c (h ! i) = Split"
  have "\<exists>n. accepts h n (To (State_At i)) w" if "accepts h k (state_out (h ! i)) w \<or> accepts h k (state_out1 (h ! i)) w" for k
    using that s by (intro exI [of _ "Suc k"]) auto
  moreover have "\<exists>k. accepts h k (state_out (h ! i)) w \<or> accepts h k (state_out1 (h ! i)) w"
    if "accepts h n (To (State_At i)) w" for n
    using that s by (cases n) auto
  ultimately show ?thesis unfolding acc_def by blast
qed

lemma acc_char:
  "state_c (h ! i) \<noteq> Split \<Longrightarrow>
     acc h (To (State_At i)) w \<longleftrightarrow> (\<exists>v. w = state_c (h ! i) # v \<and> acc h (state_out (h ! i)) v)"
proof -
  assume s: "state_c (h ! i) \<noteq> Split"
  have "accepts h (Suc k) (To (State_At i)) (state_c (h ! i) # v)" if "accepts h k (state_out (h ! i)) v" for k v
    using that s by auto
  moreover have "\<exists>k v. w = state_c (h ! i) # v \<and> accepts h k (state_out (h ! i)) v"
    if "accepts h n (To (State_At i)) w" for n
    using that s by (cases n; cases w) auto
  ultimately show ?thesis unfolding acc_def by metis
qed

section \<open>Leaving a fragment\<close>

text \<open>
  From \<open>s\<close>, the words that are accepted are those of \<open>L\<close> followed by what is accepted from \<open>t\<close>, and
  each run reaches \<open>t\<close> after at least one arrow.
\<close>

definition exits :: "state list \<Rightarrow> outval \<Rightarrow> outval \<Rightarrow> lang \<Rightarrow> bool" where
  "exits h s t L \<longleftrightarrow>
     (\<forall>n w. accepts h n s w \<longrightarrow> (\<exists>u v m. w = u @ v \<and> u \<in> L \<and> m < n \<and> accepts h m t v)) \<and>
     (\<forall>u v. u \<in> L \<longrightarrow> acc h t v \<longrightarrow> acc h s (u @ v))"

lemma exitsD:
  "exits h s t L \<Longrightarrow> accepts h n s w \<Longrightarrow> \<exists>u v m. w = u @ v \<and> u \<in> L \<and> m < n \<and> accepts h m t v"
  "exits h s t L \<Longrightarrow> u \<in> L \<Longrightarrow> acc h t v \<Longrightarrow> acc h s (u @ v)"
  by (auto simp: exits_def)

lemma exits_conc:
  assumes "exits h s m A" "exits h m t B"
  shows "exits h s t (conc A B)"
  unfolding exits_def
proof (intro conjI allI impI)
  fix n w assume "accepts h n s w"
  then obtain u v k where 1: "w = u @ v" "u \<in> A" "k < n" "accepts h k m v" using exitsD(1) [OF assms(1)] by blast
  then obtain u' v' k' where "v = u' @ v'" "u' \<in> B" "k' < k" "accepts h k' t v'" using exitsD(1) [OF assms(2)] by blast
  then show "\<exists>u v m. w = u @ v \<and> u \<in> conc A B \<and> m < n \<and> accepts h m t v"
    using 1 by (intro exI [of _ "u @ u'"] exI [of _ v'] exI [of _ k']) (auto simp: conc_def)
next
  fix u v assume "u \<in> conc A B" "acc h t v"
  then show "acc h s (u @ v)" using exitsD(2) [OF assms(1)] exitsD(2) [OF assms(2)] by (fastforce simp: conc_def)
qed

lemma exits_split:
  assumes "state_c (h ! i) = Split" "exits h (state_out (h ! i)) t A" "exits h (state_out1 (h ! i)) t B"
  shows "exits h (To (State_At i)) t (A \<union> B)"
  unfolding exits_def
proof (intro conjI allI impI)
  fix n w assume "accepts h n (To (State_At i)) w"
  then obtain k where n: "n = Suc k" "accepts h k (state_out (h ! i)) w \<or> accepts h k (state_out1 (h ! i)) w"
    using assms(1) by (cases n) auto
  then obtain u v m where "w = u @ v" "u \<in> A \<union> B" "m < k" "accepts h m t v"
    using exitsD(1) [OF assms(2)] exitsD(1) [OF assms(3)] by blast
  then show "\<exists>u v m. w = u @ v \<and> u \<in> A \<union> B \<and> m < n \<and> accepts h m t v" using n(1) less_SucI by blast
next
  fix u v assume "u \<in> A \<union> B" "acc h t v"
  then show "acc h (To (State_At i)) (u @ v)"
    using exitsD(2) [OF assms(2)] exitsD(2) [OF assms(3)] acc_Split [OF assms(1)] by blast
qed

text \<open>A split state one of whose arrows leaves at once.\<close>

lemma exits_opt:
  assumes "state_c (h ! i) = Split" "exits h (state_out (h ! i)) t A" "state_out1 (h ! i) = t"
  shows "exits h (To (State_At i)) t (insert [] A)"
  unfolding exits_def
proof (intro conjI allI impI)
  fix n w assume "accepts h n (To (State_At i)) w"
  then obtain k where n: "n = Suc k" "accepts h k (state_out (h ! i)) w \<or> accepts h k t w"
    using assms(1,3) by (cases n) auto
  then show "\<exists>u v m. w = u @ v \<and> u \<in> insert [] A \<and> m < n \<and> accepts h m t v"
    using exitsD(1) [OF assms(2)] by (metis append_Nil insertCI lessI less_SucI)
next
  fix u v assume "u \<in> insert [] A" "acc h t v"
  then show "acc h (To (State_At i)) (u @ v)"
    using exitsD(2) [OF assms(2)] acc_Split [OF assms(1)] assms(3) by auto
qed

text \<open>A split state that goes round a loop.\<close>

lemma exits_star:
  assumes "state_c (h ! i) = Split" "exits h (state_out (h ! i)) (To (State_At i)) A" "state_out1 (h ! i) = t"
  shows "exits h (To (State_At i)) t (star A)"
  unfolding exits_def
proof (intro conjI allI impI)
  fix n w assume "accepts h n (To (State_At i)) w"
  then show "\<exists>u v m. w = u @ v \<and> u \<in> star A \<and> m < n \<and> accepts h m t v"
  proof (induction n arbitrary: w rule: less_induct)
    case (less n)
    then obtain k where n: "n = Suc k" "accepts h k (state_out (h ! i)) w \<or> accepts h k t w"
      using assms(1,3) by (cases n) auto
    show ?case
    proof (cases "accepts h k t w")
      case True
      then show ?thesis using n(1) star_Nil by (intro exI [of _ "[]"] exI [of _ w] exI [of _ k]) simp
    next
      case False
      then obtain u v m where 1: "w = u @ v" "u \<in> A" "m < k" "accepts h m (To (State_At i)) v"
        using n(2) exitsD(1) [OF assms(2)] by blast
      then obtain u' v' m' where "v = u' @ v'" "u' \<in> star A" "m' < m" "accepts h m' t v'"
        using less.IH [of m v] n(1) by auto
      then show ?thesis using 1 n(1) star_step
        by (intro exI [of _ "u @ u'"] exI [of _ v'] exI [of _ m']) auto
    qed
  qed
next
  fix u v assume "u \<in> star A" "acc h t v"
  then show "acc h (To (State_At i)) (u @ v)"
  proof (induction u rule: star_induct)
    case Nil
    then show ?case using acc_Split [OF assms(1)] assms(3) by simp
  next
    case (step a b)
    then have "acc h (state_out (h ! i)) (a @ (b @ v))" using exitsD(2) [OF assms(2)] by blast
    then show ?case using acc_Split [OF assms(1)] by simp
  qed
qed

end
