(* ===== verification/Regex_Build.thy ===== *)
theory Regex_Build
  imports Regex_Nfa
begin

text \<open>
  \<open>post2nfa\<close> builds, for the postfix form of an expression, an automaton that accepts the language
  of the expression.
\<close>

section \<open>Fragments\<close>

text \<open>The fields of \<open>R\<close> other than those of \<open>X\<close>, and the labels of the states, are the same in both heaps.\<close>

definition agrees :: "nat set \<Rightarrow> slot set \<Rightarrow> state list \<Rightarrow> state list \<Rightarrow> bool" where
  "agrees R X h h' \<longleftrightarrow> (\<forall>i\<in>R. state_c (h' ! i) = state_c (h ! i) \<and>
     (\<forall>b. (i, b) \<notin> X \<longrightarrow> read_slot h' i b = read_slot h i b))"

fun sref_ok :: "nat \<Rightarrow> sref \<Rightarrow> bool" where
  "sref_ok n Match_State \<longleftrightarrow> True"
| "sref_ok n (State_At i) \<longleftrightarrow> i < n"

fun out_ok :: "nat \<Rightarrow> outval \<Rightarrow> bool" where
  "out_ok n NULL \<longleftrightarrow> True"
| "out_ok n (To s) \<longleftrightarrow> sref_ok n s"
| "out_ok n (Slot i b) \<longleftrightarrow> False"

text \<open>
  A fragment owns the states \<open>R\<close> and has the unset fields \<open>xs\<close>. Whatever these fields are set to, and
  whatever the rest of the heap is, its start accepts the words of \<open>L\<close> followed by what is accepted
  from there.
\<close>

definition frag_ok :: "state list \<Rightarrow> nat set \<Rightarrow> frag \<Rightarrow> slot list \<Rightarrow> lang \<Rightarrow> bool" where
  "frag_ok h R f xs L \<longleftrightarrow>
     R \<subseteq> {..<length h} \<and> fst ` set xs \<subseteq> R \<and> distinct xs \<and> xs \<noteq> [] \<and> chain h (frag_out f) xs \<and>
     sref_ok (length h) (frag_start f) \<and>
     (\<forall>i\<in>R. \<forall>b. (i, b) \<notin> set xs \<longrightarrow> out_ok (length h) (read_slot h i b)) \<and>
     (\<forall>h' t. agrees R (set xs) h h' \<longrightarrow> (\<forall>x\<in>set xs. slot_val h' x = t) \<longrightarrow> exits h' (To (frag_start f)) t L)"

lemma frag_okD:
  assumes "frag_ok h R f xs L"
  shows "R \<subseteq> {..<length h}" "fst ` set xs \<subseteq> R" "distinct xs" "xs \<noteq> []" "chain h (frag_out f) xs"
    "sref_ok (length h) (frag_start f)"
    "\<And>i b. i \<in> R \<Longrightarrow> (i, b) \<notin> set xs \<Longrightarrow> out_ok (length h) (read_slot h i b)"
    "\<And>h' t. agrees R (set xs) h h' \<Longrightarrow> (\<And>x. x \<in> set xs \<Longrightarrow> slot_val h' x = t) \<Longrightarrow> exits h' (To (frag_start f)) t L"
  using assms by (auto simp: frag_ok_def)

lemma sref_ok_mono: "sref_ok n s \<Longrightarrow> n \<le> m \<Longrightarrow> sref_ok m s"
  by (cases s) auto

lemma out_ok_mono: "out_ok n v \<Longrightarrow> n \<le> m \<Longrightarrow> out_ok m v"
  by (cases v) (auto simp: sref_ok_mono)

text \<open>A fragment does not notice what happens outside its states.\<close>

lemma frag_ok_frame:
  assumes "frag_ok h R f xs L" "agrees R {} h h'" "length h \<le> length h'"
  shows "frag_ok h' R f xs L"
  unfolding frag_ok_def
proof (intro conjI ballI allI impI)
  note f = frag_okD [OF assms(1)]
  show "R \<subseteq> {..<length h'}" using f(1) assms(3) by auto
  show "fst ` set xs \<subseteq> R" "distinct xs" "xs \<noteq> []" by fact+
  have xR: "fst x \<in> R" if "x \<in> set xs" for x using f(2) that by auto
  show "chain h' (frag_out f) xs"
    using f(5) assms(3) by (rule chain_cong) (use xR assms(2) in \<open>auto simp: agrees_def\<close>)
  show "sref_ok (length h') (frag_start f)" using f(6) assms(3) by (rule sref_ok_mono)
next
  fix i b assume "i \<in> R" "(i, b) \<notin> set xs"
  then show "out_ok (length h') (read_slot h' i b)"
    using out_ok_mono [OF frag_okD(7) [OF assms(1)] assms(3)] assms(2) by (simp add: agrees_def)
next
  fix h'' t assume "agrees R (set xs) h' h''" "\<forall>x\<in>set xs. slot_val h'' x = t"
  then show "exits h'' (To (frag_start f)) t L"
    using frag_okD(8) [OF assms(1)] assms(2) by (auto simp: agrees_def)
qed

lemma same_but_agrees: "same_but X h h' \<Longrightarrow> fst ` X \<inter> R = {} \<Longrightarrow> agrees R {} h h'"
  by (auto simp: same_but_def agrees_def) force

lemma same_but_agrees': "same_but X h h' \<Longrightarrow> agrees R X h h'"
  by (auto simp: same_but_def agrees_def)

lemma same_but_out_ok:
  "same_but X h h' \<Longrightarrow> (i, b) \<notin> X \<Longrightarrow> out_ok (length h) (read_slot h i b) \<Longrightarrow> out_ok (length h') (read_slot h' i b)"
  by (auto simp: same_but_def)

lemma same_but_read: "same_but X h h' \<Longrightarrow> fst ` X \<subseteq> R \<Longrightarrow> i \<notin> R \<Longrightarrow> read_slot h' i b = read_slot h i b"
  by (auto simp: same_but_def) force

lemma agrees_append: "R \<subseteq> {..<length h} \<Longrightarrow> agrees R X h (h @ ys)"
  by (auto simp: agrees_def read_slot_def nth_append subset_eq)

lemma agrees_trans: "agrees R X h h' \<Longrightarrow> agrees R X h' h'' \<Longrightarrow> agrees R X h h''"
  by (auto simp: agrees_def)

lemma agrees_mono: "agrees R X h h' \<Longrightarrow> R' \<subseteq> R \<Longrightarrow> X \<subseteq> X' \<Longrightarrow> agrees R' X' h h'"
  by (auto simp: agrees_def)

lemma agrees_sub:
  "agrees R X h h' \<Longrightarrow> (\<And>x. x \<in> X \<Longrightarrow> fst x \<in> R' \<Longrightarrow> x \<in> X') \<Longrightarrow> R' \<subseteq> R \<Longrightarrow> agrees R' X' h h'"
  by (fastforce simp: agrees_def)

text \<open>After \<open>patch\<close>, the fields of a fragment lead where they should, in every later heap that agrees.\<close>

lemma patched_slots:
  assumes "same_but (set xs) h h1" "\<forall>x\<in>set xs. slot_val h1 x = v" "fst ` set xs \<subseteq> R" "R \<subseteq> R'"
    "agrees R' X h1 h2" "set xs \<inter> X = {}"
  shows "x \<in> set xs \<Longrightarrow> slot_val h2 x = v"
proof -
  assume x: "x \<in> set xs"
  then have "fst x \<in> R'" "x \<notin> X" using assms(3,4,6) by auto
  then have "slot_val h2 x = slot_val h1 x" using assms(5) by (cases x) (auto simp: agrees_def)
  then show ?thesis using assms(2) x by simp
qed

section \<open>The operators\<close>

lemma frag_cat:
  assumes e1: "frag_ok h R1 e1 xs1 A" and e2: "frag_ok h R2 e2 xs2 B" and dj: "R1 \<inter> R2 = {}"
  shows "\<exists>h'. patch h (frag_out e1) (To (frag_start e2)) = Some h' \<and> same_but (set xs1) h h' \<and>
    frag_ok h' (R1 \<union> R2) \<lparr>frag_start = frag_start e1, frag_out = frag_out e2\<rparr> xs2 (conc A B)"
proof -
  note f1 = frag_okD [OF e1] and f2 = frag_okD [OF e2]
  obtain h' where h': "patch h (frag_out e1) (To (frag_start e2)) = Some h'" "same_but (set xs1) h h'"
    "\<forall>x\<in>set xs1. slot_val h' x = To (frag_start e2)"
    using patch_chain [OF f1(5,3)] by blast
  have len: "length h' = length h" using h'(2) by (simp add: same_but_def)
  have dis: "fst ` set xs1 \<inter> R2 = {}" "set xs1 \<inter> set xs2 = {}" using f1(2) f2(2) dj by auto
  have f2'': "frag_ok h' R2 e2 xs2 B"
    using frag_ok_frame [OF e2 same_but_agrees [OF h'(2) dis(1)]] len by simp
  note f2' = frag_okD [OF f2'']
  have "frag_ok h' (R1 \<union> R2) \<lparr>frag_start = frag_start e1, frag_out = frag_out e2\<rparr> xs2 (conc A B)"
    unfolding frag_ok_def
  proof (intro conjI ballI allI impI)
    fix i b assume i: "i \<in> R1 \<union> R2" "(i, b) \<notin> set xs2"
    show "out_ok (length h') (read_slot h' i b)"
    proof (cases "(i, b) \<in> set xs1")
      case True
      then show ?thesis using h'(3) f2'(6) by fastforce
    next
      case False
      then have "read_slot h' i b = read_slot h i b" using h'(2) by (auto simp: same_but_def)
      then show ?thesis using i False frag_okD(7) [OF e1] frag_okD(7) [OF e2] by (auto simp: len)
    qed
  next
    fix h2 t assume a: "agrees (R1 \<union> R2) (set xs2) h' h2" "\<forall>x\<in>set xs2. slot_val h2 x = t"
    have "agrees R1 (set xs1) h' h2" using a(1) by (rule agrees_sub) (use f2(2) dj in auto)
    then have "agrees R1 (set xs1) h h2" using same_but_agrees' [OF h'(2)] by (rule agrees_trans [rotated])
    then have "exits h2 (To (frag_start e1)) (To (frag_start e2)) A"
      using frag_okD(8) [OF e1] patched_slots [OF h'(2,3) f1(2) _ a(1) dis(2)] by blast
    moreover have "exits h2 (To (frag_start e2)) t B"
      using frag_okD(8) [OF f2''] a agrees_mono [OF a(1), of R2 "set xs2"] by auto
    ultimately show "exits h2 (To (frag_start \<lparr>frag_start = frag_start e1, frag_out = frag_out e2\<rparr>)) t (conc A B)"
      by (simp add: exits_conc)
  qed (use f1 f2' len in auto)
  then show ?thesis using h' by blast
qed

lemma frag_ok_new: "frag_ok h R f xs L \<Longrightarrow> frag_ok (h @ ys) R f xs L"
  by (rule frag_ok_frame) (auto simp: agrees_append frag_okD(1))

lemma read_slot_new [simp]:
  "read_slot (h @ [s]) (length h) b = (if b then state_out1 s else state_out s)"
  by (simp add: read_slot_def)

lemma frag_lit:
  fixes h :: "state list"
  assumes "ch \<noteq> Split"
  defines "h1 \<equiv> write_slot (h @ [\<lparr>state_c = ch, state_out = NULL, state_out1 = NULL, state_lastlist = 0\<rparr>]) (length h) False NULL"
  shows "frag_ok h1 {length h} \<lparr>frag_start = State_At (length h), frag_out = Slot (length h) False\<rparr> [(length h, False)] {[ch]}"
  unfolding frag_ok_def
proof (intro conjI ballI allI impI)
  let ?n = "length h"
  fix h' t assume a: "agrees {?n} (set [(?n, False)]) h1 h'" "\<forall>x\<in>set [(?n, False)]. slot_val h' x = t"
  have ch: "state_c (h' ! ?n) = ch" "state_out (h' ! ?n) = t"
    using a by (auto simp: agrees_def h1_def read_slot_def)
  have "exits h' (To (State_At ?n)) t {[ch]}"
    unfolding exits_def
  proof (intro conjI allI impI)
    fix n w assume "accepts h' n (To (State_At ?n)) w"
    then obtain m v where "n = Suc m" "w = ch # v" "accepts h' m t v"
      using ch assms(1) by (cases n; cases w) auto
    then show "\<exists>u v m. w = u @ v \<and> u \<in> {[ch]} \<and> m < n \<and> accepts h' m t v"
      by (intro exI [of _ "[ch]"] exI [of _ v] exI [of _ m]) simp
  qed (use ch acc_char [of h' ?n] assms(1) in auto)
  then show "exits h' (To (frag_start \<lparr>frag_start = State_At ?n, frag_out = Slot ?n False\<rparr>)) t {[ch]}" by simp
qed (auto simp: h1_def read_write_slot)

lemma frag_alt:
  assumes e1: "frag_ok h R1 e1 xs1 A" and e2: "frag_ok h R2 e2 xs2 B" and dj: "R1 \<inter> R2 = {}"
  defines "h1 \<equiv> h @ [\<lparr>state_c = Split, state_out = To (frag_start e1), state_out1 = To (frag_start e2), state_lastlist = 0\<rparr>]"
  shows "\<exists>h'. append_walk h1 (frag_out e1) (frag_out e2) = Some h' \<and> same_but (set xs1) h1 h' \<and>
    frag_ok h' (insert (length h) (R1 \<union> R2)) \<lparr>frag_start = State_At (length h), frag_out = frag_out e1\<rparr> (xs1 @ xs2) (A \<union> B)"
proof -
  let ?n = "length h"
  have n: "?n \<notin> R1" "?n \<notin> R2" using frag_okD(1) [OF e1] frag_okD(1) [OF e2] by auto
  have e1': "frag_ok h1 R1 e1 xs1 A" and e2': "frag_ok h1 R2 e2 xs2 B"
    using e1 e2 by (simp_all add: h1_def frag_ok_new)
  note f1 = frag_okD [OF e1'] and f2 = frag_okD [OF e2']
  have xs: "distinct (xs1 @ xs2)" using f1(2,3) f2(2,3) dj by auto
  obtain h' where h': "append_walk h1 (frag_out e1) (frag_out e2) = Some h'" "same_but (set xs1) h1 h'"
    "chain h' (frag_out e1) (xs1 @ xs2)"
    using append_chain [OF f1(5,4) xs f2(5)] by blast
  have len: "length h' = length h1" and new: "state_c (h' ! ?n) = Split"
    using h'(2) by (auto simp: same_but_def h1_def)
  have newb: "read_slot h' ?n b = (if b then To (frag_start e2) else To (frag_start e1))" for b
    using same_but_read [OF h'(2) f1(2) n(1)] by (simp add: h1_def)
  have "frag_ok h' (insert ?n (R1 \<union> R2)) \<lparr>frag_start = State_At ?n, frag_out = frag_out e1\<rparr> (xs1 @ xs2) (A \<union> B)"
    unfolding frag_ok_def
  proof (intro conjI ballI allI impI)
    fix i b assume i: "i \<in> insert ?n (R1 \<union> R2)" "(i, b) \<notin> set (xs1 @ xs2)"
    show "out_ok (length h') (read_slot h' i b)"
    proof (cases "i = ?n")
      case True
      then show ?thesis using newb [of b] f1(6) f2(6) len by (cases b) auto
    next
      case False
      then show ?thesis using i same_but_out_ok [OF h'(2)] f1(7) f2(7) by auto
    qed
  next
    fix h2 t assume a: "agrees (insert ?n (R1 \<union> R2)) (set (xs1 @ xs2)) h' h2" "\<forall>x\<in>set (xs1 @ xs2). slot_val h2 x = t"
    have g: "agrees R1 (set xs1) h' h2" "agrees R2 (set xs2) h' h2"
      by (rule agrees_sub [OF a(1)]; use f1(2) f2(2) dj in force)+
    have "agrees R1 (set xs1) h1 h2" using same_but_agrees' [OF h'(2)] g(1) by (rule agrees_trans)
    then have A: "exits h2 (To (frag_start e1)) t A" using f1(8) a(2) by auto
    have "agrees R2 (set xs2) h1 h'"
      by (rule agrees_mono [OF same_but_agrees [OF h'(2), of R2]]) (use f1(2) dj in auto)
    then have "agrees R2 (set xs2) h1 h2" using g(2) by (rule agrees_trans)
    then have B: "exits h2 (To (frag_start e2)) t B" using f2(8) a(2) by auto
    have "(?n, b) \<notin> set (xs1 @ xs2)" for b using n f1(2) f2(2) by auto
    then have "state_c (h2 ! ?n) = Split" "read_slot h2 ?n b = (if b then To (frag_start e2) else To (frag_start e1))" for b
      using a(1) new newb by (auto simp: agrees_def)
    from this(1) this(2) [of False] this(2) [of True] A B
    show "exits h2 (To (frag_start \<lparr>frag_start = State_At ?n, frag_out = frag_out e1\<rparr>)) t (A \<union> B)"
      using exits_split [of h2 ?n t A B] by (simp add: read_slot_def)
  qed (use f1 f2 xs h'(3) len in \<open>auto simp: h1_def\<close>)
  then show ?thesis using h'(1,2) by blast
qed

text \<open>The state that \<open>?\<close>, \<open>*\<close> and \<open>+\<close> allocate: an arrow into the operand and an unset one.\<close>

definition split_state :: "frag \<Rightarrow> state" where
  "split_state e = \<lparr>state_c = Split, state_out = To (frag_start e), state_out1 = NULL, state_lastlist = 0\<rparr>"

lemma split_state_simps [simp]:
  "state_c (split_state e) = Split" "state_out (split_state e) = To (frag_start e)"
  "state_out1 (split_state e) = NULL" "state_lastlist (split_state e) = 0"
  by (simp_all add: split_state_def)

lemma write_slot_same: "i < length h \<Longrightarrow> read_slot h i b = v \<Longrightarrow> write_slot h i b v = h"
  by (auto simp: write_slot_def read_slot_def)

lemma frag_opt:
  assumes e: "frag_ok h R e xs A"
  defines "n \<equiv> length h" and "h1 \<equiv> h @ [split_state e]"
  shows "\<exists>h'. append_walk h1 (frag_out e) (Slot n True) = Some h' \<and> same_but (set xs) h1 h' \<and>
    frag_ok h' (insert n R) \<lparr>frag_start = State_At n, frag_out = frag_out e\<rparr> (xs @ [(n, True)]) (insert [] A)"
proof -
  have n: "n \<notin> R" using frag_okD(1) [OF e] by (auto simp: n_def)
  have e': "frag_ok h1 R e xs A" using e by (simp add: h1_def frag_ok_new)
  note f = frag_okD [OF e']
  have xs: "distinct (xs @ [(n, True)])" using f(2,3) n by auto
  have "chain h1 (Slot n True) [(n, True)]" by (simp add: h1_def n_def)
  then obtain h' where h': "append_walk h1 (frag_out e) (Slot n True) = Some h'" "same_but (set xs) h1 h'"
    "chain h' (frag_out e) (xs @ [(n, True)])"
    using append_chain [OF f(5,4) xs] by blast
  have len: "length h' = length h1" and new: "state_c (h' ! n) = Split"
    using h'(2) by (auto simp: same_but_def h1_def n_def)
  have newb: "read_slot h' n False = To (frag_start e)"
    using same_but_read [OF h'(2) f(2) n] by (simp add: h1_def n_def)
  have "frag_ok h' (insert n R) \<lparr>frag_start = State_At n, frag_out = frag_out e\<rparr> (xs @ [(n, True)]) (insert [] A)"
    unfolding frag_ok_def
  proof (intro conjI ballI allI impI)
    fix i b assume i: "i \<in> insert n R" "(i, b) \<notin> set (xs @ [(n, True)])"
    show "out_ok (length h') (read_slot h' i b)"
    proof (cases "i = n")
      case True
      then show ?thesis using newb f(6) len i(2) by (cases b) auto
    next
      case False
      then show ?thesis using i same_but_out_ok [OF h'(2)] f(7) by auto
    qed
  next
    fix h2 t
    assume a: "agrees (insert n R) (set (xs @ [(n, True)])) h' h2" "\<forall>x\<in>set (xs @ [(n, True)]). slot_val h2 x = t"
    have "agrees R (set xs) h' h2" by (rule agrees_sub [OF a(1)]; use n in force)
    then have "agrees R (set xs) h1 h2" by (rule agrees_trans [OF same_but_agrees' [OF h'(2)]])
    then have A: "exits h2 (To (frag_start e)) t A" using f(8) a(2) by auto
    have "(n, False) \<notin> set (xs @ [(n, True)])" using n f(2) by auto
    then have "state_c (h2 ! n) = Split" "read_slot h2 n False = To (frag_start e)" "read_slot h2 n True = t"
      using a new newb by (auto simp: agrees_def)
    then show "exits h2 (To (frag_start \<lparr>frag_start = State_At n, frag_out = frag_out e\<rparr>)) t (insert [] A)"
      using exits_opt [of h2 n t A] A by (simp add: read_slot_def)
  qed (use f xs h'(3) len in \<open>auto simp: h1_def n_def\<close>)
  then show ?thesis using h'(1,2) by blast
qed

text \<open>The loop of \<open>*\<close> and \<open>+\<close>: the operand leads back to the new state; the two differ in where they start.\<close>

lemma frag_loop:
  assumes e: "frag_ok h R e xs A"
  defines "n \<equiv> length h" and "h1 \<equiv> h @ [split_state e]"
  shows "\<exists>h'. patch h1 (frag_out e) (To (State_At n)) = Some h' \<and> same_but (set xs) h1 h' \<and> write_slot h' n True NULL = h' \<and>
    frag_ok h' (insert n R) \<lparr>frag_start = State_At n, frag_out = Slot n True\<rparr> [(n, True)] (star A) \<and>
    frag_ok h' (insert n R) \<lparr>frag_start = frag_start e, frag_out = Slot n True\<rparr> [(n, True)] (conc A (star A))"
proof -
  have n: "n \<notin> R" using frag_okD(1) [OF e] by (auto simp: n_def)
  have e': "frag_ok h1 R e xs A" using e by (simp add: h1_def frag_ok_new)
  note f = frag_okD [OF e']
  obtain h' where h': "patch h1 (frag_out e) (To (State_At n)) = Some h'" "same_but (set xs) h1 h'"
    "\<forall>x\<in>set xs. slot_val h' x = To (State_At n)"
    using patch_chain [OF f(5,3)] by blast
  have len: "length h' = length h1" "n < length h'" and new: "state_c (h' ! n) = Split"
    using h'(2) by (auto simp: same_but_def h1_def n_def)
  have newb: "read_slot h' n False = To (frag_start e)" "read_slot h' n True = NULL"
    using same_but_read [OF h'(2) f(2) n] by (simp_all add: h1_def n_def)
  have out: "out_ok (length h') (read_slot h' i b)" if "i \<in> insert n R" "(i, b) \<notin> set [(n, True)]" for i b
  proof (cases "(i, b) \<in> set xs")
    case True
    then show ?thesis using h'(3) len(2) by fastforce
  next
    case False
    show ?thesis
    proof (cases "i = n")
      case True
      then show ?thesis using newb f(6) len(1) that(2) by (cases b) auto
    next
      case False
      then show ?thesis using that \<open>(i, b) \<notin> set xs\<close> same_but_out_ok [OF h'(2)] f(7) by auto
    qed
  qed
  have ex: "exits h2 (To (State_At n)) t (star A) \<and> exits h2 (To (frag_start e)) t (conc A (star A))"
    if a: "agrees (insert n R) (set [(n, True)]) h' h2" "\<forall>x\<in>set [(n, True)]. slot_val h2 x = t" for h2 t
  proof -
    have "agrees R (set xs) h' h2" by (rule agrees_sub [OF a(1)]; use n in force)
    then have "agrees R (set xs) h1 h2" by (rule agrees_trans [OF same_but_agrees' [OF h'(2)]])
    moreover have "set xs \<inter> set [(n, True)] = {}" using n f(2) by auto
    ultimately have A: "exits h2 (To (frag_start e)) (To (State_At n)) A"
      using f(8) patched_slots [OF h'(2,3) f(2) _ a(1)] by blast
    have "state_c (h2 ! n) = Split" "read_slot h2 n False = To (frag_start e)" "read_slot h2 n True = t"
      using a new newb by (auto simp: agrees_def)
    then have "exits h2 (To (State_At n)) t (star A)" using exits_star [of h2 n A t] A by (simp add: read_slot_def)
    then show ?thesis using A exits_conc by blast
  qed
  have "frag_ok h' (insert n R) \<lparr>frag_start = State_At n, frag_out = Slot n True\<rparr> [(n, True)] (star A)"
    unfolding frag_ok_def using ex out f(1) len newb by (auto simp: h1_def n_def)
  moreover have "frag_ok h' (insert n R) \<lparr>frag_start = frag_start e, frag_out = Slot n True\<rparr> [(n, True)] (conc A (star A))"
    unfolding frag_ok_def using ex out f(1,6) len newb by (auto simp: h1_def n_def)
  moreover have "write_slot h' n True NULL = h'" using write_slot_same newb(2) len(2) by blast
  ultimately show ?thesis using h'(1,2) by blast
qed

end
