(* ===== verification/Regex_Post2nfa.thy ===== *)
theory Regex_Post2nfa
  imports Regex_Build
begin

text \<open>
  The loop of \<open>post2nfa\<close>: the fragments on its stack own disjoint parts of the heap, and a postfix
  string pushes the fragment of its expression.
\<close>

section \<open>The stack of fragments\<close>

definition regions :: "(nat set \<times> lang) list \<Rightarrow> nat set" where
  "regions ts = \<Union> (fst ` set ts)"

lemma regions_simps [simp]: "regions [] = {}" "regions ((R, L) # ts) = R \<union> regions ts"
  by (simp_all add: regions_def)

fun stack_ok :: "state list \<Rightarrow> frag list \<Rightarrow> (nat set \<times> lang) list \<Rightarrow> bool" where
  "stack_ok h [] [] \<longleftrightarrow> True"
| "stack_ok h (f # fs) ((R, L) # ts) \<longleftrightarrow> (\<exists>xs. frag_ok h R f xs L) \<and> R \<inter> regions ts = {} \<and> stack_ok h fs ts"
| "stack_ok h _ _ \<longleftrightarrow> False"

lemma stack_ok_length: "stack_ok h fs ts \<Longrightarrow> length fs = length ts"
  by (induction h fs ts rule: stack_ok.induct) auto

lemma stack_ok_frame:
  "stack_ok h fs ts \<Longrightarrow> agrees (regions ts) {} h h' \<Longrightarrow> length h \<le> length h' \<Longrightarrow> stack_ok h' fs ts"
proof (induction h fs ts rule: stack_ok.induct)
  case (2 h f fs R L ts)
  then have "agrees R {} h h'" "agrees (regions ts) {} h h'" by (auto simp: agrees_def)
  then show ?case using 2 frag_ok_frame [of h R f _ L h'] by auto
qed auto

text \<open>The languages of the fragments on the stack, the innermost last; no state has been visited yet.\<close>

definition nfa_ok :: "state list \<times> frag list \<Rightarrow> lang list \<Rightarrow> bool" where
  "nfa_ok = (\<lambda>(h, stk) Ls. length stk \<le> STACK_SIZE \<and> (\<forall>i<length h. state_lastlist (h ! i) = 0) \<and>
     (\<exists>ts. stack_ok h stk ts \<and> regions ts = {..<length h} \<and> map snd ts = Ls))"

lemma nfa_okE:
  assumes "nfa_ok s Ls"
  obtains h stk ts where "s = (h, stk)" "length stk \<le> STACK_SIZE" "\<forall>i<length h. state_lastlist (h ! i) = 0"
    "stack_ok h stk ts" "regions ts = {..<length h}" "map snd ts = Ls"
  using assms by (auto simp: nfa_ok_def)

lemma nfa_ok_length: "nfa_ok s Ls \<Longrightarrow> length Ls \<le> STACK_SIZE"
  by (erule nfa_okE) (auto dest: stack_ok_length)

text \<open>Pushing a fragment that was made from states that no other fragment owns.\<close>

lemma nfa_ok_push:
  assumes "stack_ok h stk ts" "length stk < STACK_SIZE" "frag_ok h' R f xs L" "same_but X h1 h'"
    "h1 = h @ new" "\<forall>s\<in>set new. state_lastlist s = 0" "\<forall>i<length h. state_lastlist (h ! i) = 0"
    "fst ` X \<inter> regions ts = {}" "R \<inter> regions ts = {}" "R \<union> regions ts = {..<length h1}" "regions ts \<subseteq> {..<length h}"
  shows "nfa_ok (h', f # stk) (L # map snd ts)"
proof -
  have len: "length h' = length h1" using assms(4) by (simp add: same_but_def)
  have "\<forall>i<length h1. state_lastlist (h1 ! i) = 0" using assms(6,7) by (auto simp: assms(5) nth_append)
  then have last: "\<forall>i<length h'. state_lastlist (h' ! i) = 0" using assms(4) len by (auto simp: same_but_def)
  have "agrees (regions ts) {} h h'"
    using agrees_append [OF assms(11)] same_but_agrees [OF assms(4,8)] agrees_trans assms(5) by blast
  then have "stack_ok h' stk ts" using stack_ok_frame [OF assms(1)] len assms(5) by simp
  then have "stack_ok h' (f # stk) ((R, L) # ts)" using assms(3,9) by auto
  moreover have "regions ((R, L) # ts) = {..<length h'}" using assms(10) len by simp
  ultimately show ?thesis using last assms(2)
    unfolding nfa_ok_def case_prod_conv by (intro conjI exI [of _ "(R, L) # ts"]) simp_all
qed

section \<open>The operators\<close>

text \<open>\<open>runs ps Ls Ls'\<close>: on a stack of fragments for \<open>Ls\<close>, the characters \<open>ps\<close> give one for \<open>Ls'\<close>.\<close>

definition runs :: "uint8_t list \<Rightarrow> lang list \<Rightarrow> lang list \<Rightarrow> bool" where
  "runs ps Ls Ls' \<longleftrightarrow> (\<forall>s. nfa_ok s Ls \<longrightarrow> (\<exists>s'. post2nfa_loop ps s = Some s' \<and> nfa_ok s' Ls'))"

lemma post2nfa_loop_append:
  "post2nfa_loop (ps @ qs) s = do { s \<leftarrow> post2nfa_loop ps s; post2nfa_loop qs s }"
  by (induction ps arbitrary: s) (auto split: bind_splits)

lemma runs_append: "runs ps Ls Ms \<Longrightarrow> runs qs Ms Ns \<Longrightarrow> runs (ps @ qs) Ls Ns"
  unfolding runs_def post2nfa_loop_append by fastforce

lemma runs_Nil: "runs [] Ls Ls"
  by (simp add: runs_def)

lemma runs_lit:
  assumes "ch \<notin> {DOT, BAR, STAR, PLUS, QUEST}" "length Ls < STACK_SIZE"
  shows "runs [ch] Ls ({[sint ch]} # Ls)"
  unfolding runs_def
proof (intro allI impI)
  fix s assume "nfa_ok s Ls"
  then obtain h stk ts where s: "s = (h, stk)" "\<forall>i<length h. state_lastlist (h ! i) = 0"
    "stack_ok h stk ts" "regions ts = {..<length h}" "map snd ts = Ls" by (elim nfa_okE)
  have stk: "length stk < STACK_SIZE" using stack_ok_length [OF s(3)] s(5) assms(2) by auto
  have "sint ch \<noteq> Split" using sint_less [of ch] by (simp add: Split_def)
  let ?new = "\<lparr>state_c = sint ch, state_out = NULL, state_out1 = NULL, state_lastlist = 0\<rparr>"
  let ?h1 = "h @ [?new]" and ?f = "\<lparr>frag_start = State_At (length h), frag_out = Slot (length h) False\<rparr>"
  have w: "write_slot ?h1 (length h) False NULL = ?h1" by (simp add: write_slot_same)
  have "post2nfa_loop [ch] s = Some (?h1, ?f # stk)"
    using assms(1) stk by (simp add: s(1) post2nfa_char_def new_state_def list1_def push_def w)
  moreover have "nfa_ok (?h1, ?f # stk) ({[sint ch]} # map snd ts)"
    using frag_lit [OF \<open>sint ch \<noteq> Split\<close>, of h] unfolding w
    by (intro nfa_ok_push [OF s(3) stk, where X = "{}" and new = "[?new]"]) (use s(2,4) in \<open>auto simp: same_but_def\<close>)
  ultimately show "\<exists>s'. post2nfa_loop [ch] s = Some s' \<and> nfa_ok s' ({[sint ch]} # Ls)" using s(5) by blast
qed

lemma stack_ok_cons:
  assumes "stack_ok h stk ts" "map snd ts = L # Ls"
  obtains f fs R xs us where "stk = f # fs" "ts = (R, L) # us" "map snd us = Ls" "frag_ok h R f xs L"
    "R \<inter> regions us = {}" "stack_ok h fs us" "fst ` set xs \<subseteq> R"
proof -
  from assms obtain f fs R us xs where *: "stk = f # fs" "ts = (R, L) # us" "map snd us = Ls" "frag_ok h R f xs L"
    "R \<inter> regions us = {}" "stack_ok h fs us"
    by (cases stk; cases ts) auto
  show thesis by (rule that [OF * frag_okD(2) [OF *(4)]])
qed

lemma runs_cat: "runs [DOT] (B # A # Ls) (conc A B # Ls)"
  unfolding runs_def
proof (intro allI impI)
  fix s assume "nfa_ok s (B # A # Ls)"
  then obtain h stk ts where s: "s = (h, stk)" "length stk \<le> STACK_SIZE" "\<forall>i<length h. state_lastlist (h ! i) = 0"
    "stack_ok h stk ts" "regions ts = {..<length h}" "map snd ts = B # A # Ls" by (elim nfa_okE)
  from s(4,6) obtain e2 fs R2 xs2 us where 2: "stk = e2 # fs" "ts = (R2, B) # us" "map snd us = A # Ls"
    "frag_ok h R2 e2 xs2 B" "R2 \<inter> regions us = {}" "stack_ok h fs us" "fst ` set xs2 \<subseteq> R2" by (rule stack_ok_cons)
  from 2(6,3) obtain e1 stk' R1 xs1 ts' where 1: "fs = e1 # stk'" "us = (R1, A) # ts'" "map snd ts' = Ls"
    "frag_ok h R1 e1 xs1 A" "R1 \<inter> regions ts' = {}" "stack_ok h stk' ts'" "fst ` set xs1 \<subseteq> R1" by (rule stack_ok_cons)
  have stk: "length stk' < STACK_SIZE" using s(2) 1(1) 2(1) by simp
  obtain h' where h': "patch h (frag_out e1) (To (frag_start e2)) = Some h'" "same_but (set xs1) h h'"
    "frag_ok h' (R1 \<union> R2) \<lparr>frag_start = frag_start e1, frag_out = frag_out e2\<rparr> xs2 (conc A B)"
    using frag_cat [OF 1(4) 2(4)] 1(2) 2(5) by auto
  have "post2nfa_loop [DOT] s = Some (h', \<lparr>frag_start = frag_start e1, frag_out = frag_out e2\<rparr> # stk')"
    using h'(1) stk by (simp add: s(1) 1(1) 2(1) post2nfa_char_def push_def)
  moreover have "nfa_ok (h', \<lparr>frag_start = frag_start e1, frag_out = frag_out e2\<rparr> # stk') (conc A B # map snd ts')"
    by (rule nfa_ok_push [OF 1(6) stk h'(3,2), where new = "[]"]) (use 1 2 s(3,5) in auto)
  ultimately show "\<exists>s'. post2nfa_loop [DOT] s = Some s' \<and> nfa_ok s' (conc A B # Ls)" using 1(3) by blast
qed

lemma runs_alt: "runs [BAR] (B # A # Ls) ((A \<union> B) # Ls)"
  unfolding runs_def
proof (intro allI impI)
  fix s assume "nfa_ok s (B # A # Ls)"
  then obtain h stk ts where s: "s = (h, stk)" "length stk \<le> STACK_SIZE" "\<forall>i<length h. state_lastlist (h ! i) = 0"
    "stack_ok h stk ts" "regions ts = {..<length h}" "map snd ts = B # A # Ls" by (elim nfa_okE)
  from s(4,6) obtain e2 fs R2 xs2 us where 2: "stk = e2 # fs" "ts = (R2, B) # us" "map snd us = A # Ls"
    "frag_ok h R2 e2 xs2 B" "R2 \<inter> regions us = {}" "stack_ok h fs us" "fst ` set xs2 \<subseteq> R2" by (rule stack_ok_cons)
  from 2(6,3) obtain e1 stk' R1 xs1 ts' where 1: "fs = e1 # stk'" "us = (R1, A) # ts'" "map snd ts' = Ls"
    "frag_ok h R1 e1 xs1 A" "R1 \<inter> regions ts' = {}" "stack_ok h stk' ts'" "fst ` set xs1 \<subseteq> R1" by (rule stack_ok_cons)
  let ?new = "\<lparr>state_c = Split, state_out = To (frag_start e1), state_out1 = To (frag_start e2), state_lastlist = 0\<rparr>"
  let ?f = "\<lparr>frag_start = State_At (length h), frag_out = frag_out e1\<rparr>"
  have stk: "length stk' < STACK_SIZE" using s(2) 1(1) 2(1) by simp
  obtain h' where h': "append_walk (h @ [?new]) (frag_out e1) (frag_out e2) = Some h'" "same_but (set xs1) (h @ [?new]) h'"
    "frag_ok h' (insert (length h) (R1 \<union> R2)) ?f (xs1 @ xs2) (A \<union> B)"
    using frag_alt [OF 1(4) 2(4)] 1(2) 2(5) by auto
  have "post2nfa_loop [BAR] s = Some (h', ?f # stk')"
    using h'(1) stk by (simp add: s(1) 1(1) 2(1) post2nfa_char_def new_state_def append_list_def push_def)
  moreover have "insert (length h) (R1 \<union> R2) \<union> regions ts' = {..<length (h @ [?new])}"
    using s(5) by (auto simp: 1(2) 2(2) lessThan_Suc simp flip: s(5))
  then have "nfa_ok (h', ?f # stk') ((A \<union> B) # map snd ts')"
    by (intro nfa_ok_push [OF 1(6) stk h'(3,2), where new = "[?new]"]) (use 1 2 s(3,5) in auto)
  ultimately show "\<exists>s'. post2nfa_loop [BAR] s = Some s' \<and> nfa_ok s' ((A \<union> B) # Ls)" using 1(3) by blast
qed

text \<open>The three unary operators allocate the same state and differ in how they link it.\<close>

lemma runs_unary:
  assumes "\<And>h stk R e xs. frag_ok h R e xs A \<Longrightarrow> length stk < STACK_SIZE \<Longrightarrow>
     \<exists>h' f ys. post2nfa_char ch (h, e # stk) = Some (h', f # stk) \<and> same_but (set xs) (h @ [split_state e]) h' \<and>
       frag_ok h' (insert (length h) R) f ys L"
  shows "runs [ch] (A # Ls) (L # Ls)"
  unfolding runs_def
proof (intro allI impI)
  fix s assume "nfa_ok s (A # Ls)"
  then obtain h stk ts where s: "s = (h, stk)" "length stk \<le> STACK_SIZE" "\<forall>i<length h. state_lastlist (h ! i) = 0"
    "stack_ok h stk ts" "regions ts = {..<length h}" "map snd ts = A # Ls" by (elim nfa_okE)
  from s(4,6) obtain e stk' R xs ts' where e: "stk = e # stk'" "ts = (R, A) # ts'" "map snd ts' = Ls"
    "frag_ok h R e xs A" "R \<inter> regions ts' = {}" "stack_ok h stk' ts'" "fst ` set xs \<subseteq> R" by (rule stack_ok_cons)
  have stk: "length stk' < STACK_SIZE" using s(2) e(1) by simp
  obtain h' f ys where h': "post2nfa_char ch (h, e # stk') = Some (h', f # stk')"
    "same_but (set xs) (h @ [split_state e]) h'" "frag_ok h' (insert (length h) R) f ys L"
    using assms [OF e(4) stk] by blast
  have "post2nfa_loop [ch] s = Some (h', f # stk')" using h'(1) by (simp add: s(1) e(1))
  moreover have "nfa_ok (h', f # stk') (L # map snd ts')"
    by (rule nfa_ok_push [OF e(6) stk h'(3,2), where new = "[split_state e]"]) (use e s(3,5) in auto)
  ultimately show "\<exists>s'. post2nfa_loop [ch] s = Some s' \<and> nfa_ok s' (L # Ls)" using e(3) by blast
qed

lemma runs_rep:
  assumes "ch \<in> {STAR, PLUS, QUEST}"
  shows "runs [ch] (A # Ls) (rep_lang ch A # Ls)"
proof (rule runs_unary)
  fix h R e xs and stk :: "frag list" assume e: "frag_ok h R e xs A" and stk: "length stk < STACK_SIZE"
  have w: "write_slot (h @ [split_state e]) (length h) True NULL = h @ [split_state e]" by (simp add: write_slot_same)
  note sim = post2nfa_char_def new_state_def list1_def append_list_def push_def stk rep_lang_def w [unfolded split_state_def]
  consider "ch = QUEST" | "ch = STAR" | "ch = PLUS" using assms by auto
  then show "\<exists>h' f ys. post2nfa_char ch (h, e # stk) = Some (h', f # stk) \<and> same_but (set xs) (h @ [split_state e]) h' \<and>
       frag_ok h' (insert (length h) R) f ys (rep_lang ch A)"
  proof cases
    case 1
    then show ?thesis using frag_opt [OF e] by (auto simp: sim split_state_def)
  next
    case 2
    then show ?thesis using frag_loop [OF e] by (auto simp: sim split_state_def)
  next
    case 3
    then show ?thesis using frag_loop [OF e] by (auto simp: sim split_state_def)
  qed
qed

section \<open>Expressions\<close>

text \<open>The room on the stack that an expression needs.\<close>

fun need_piece :: "piece \<Rightarrow> nat" where
  "need_piece (Lit ch) = 1"
| "need_piece (Group bs) = length bs + foldr max (map (\<lambda>b. foldr max (map need_piece b) 0) bs) 0"
| "need_piece (Rep p ch) = need_piece p"

definition need_re :: "piece list list \<Rightarrow> nat" where
  "need_re bs = length bs + foldr max (map (\<lambda>b. foldr max (map need_piece b) 0) bs) 0"

text \<open>No literal is a dot, which \<open>post2nfa\<close> takes for the concatenation operator.\<close>

fun no_dot :: "piece \<Rightarrow> bool" where
  "no_dot (Lit ch) \<longleftrightarrow> ch \<noteq> DOT"
| "no_dot (Group bs) \<longleftrightarrow> list_all (list_all no_dot) bs"
| "no_dot (Rep p ch) \<longleftrightarrow> no_dot p"

lemma foldr_max_le: "foldr max ns 0 \<le> k \<longleftrightarrow> (\<forall>n\<in>set ns. n \<le> (k::nat))"
  by (induction ns) auto

definition builds :: "piece \<Rightarrow> bool" where
  "builds p \<longleftrightarrow> (\<forall>d Ls. piece_ok d p \<longrightarrow> no_dot p \<longrightarrow> length Ls + need_piece p \<le> STACK_SIZE \<longrightarrow>
     runs (post_piece p) Ls (acc_piece p # Ls))"

lemma runs_branch:
  assumes "\<forall>p\<in>set b. builds p" "list_all (piece_ok d) b" "list_all no_dot b" "b \<noteq> []"
    "\<forall>p\<in>set b. Suc (length Ls + need_piece p) \<le> STACK_SIZE"
  shows "runs (post_branch b) Ls (acc_branch b # Ls)"
  using assms
proof (induction b rule: rev_induct)
  case (snoc p b)
  have p: "runs (post_piece p) Ms (acc_piece p # Ms)" if "length Ms \<le> Suc (length Ls)" for Ms
    using snoc.prems that by (auto simp: builds_def)
  show ?case
  proof (cases "b = []")
    case True
    then show ?thesis using p [of Ls] by (simp add: post_branch_def acc_branch_def)
  next
    case False
    have "runs (post_branch b) Ls (acc_branch b # Ls)" using snoc False by auto
    moreover have "runs (post_piece p) (acc_branch b # Ls) (acc_piece p # acc_branch b # Ls)" by (rule p) simp
    ultimately show ?thesis
      unfolding post_branch_snoc [OF False] acc_branch_snoc by (blast intro: runs_append runs_cat)
  qed
qed simp

lemma runs_branches:
  assumes "\<forall>b\<in>set bs. b \<noteq> [] \<and> list_all (piece_ok d) b \<and> list_all no_dot b \<and> (\<forall>p\<in>set b. builds p)"
    "\<forall>b\<in>set bs. \<forall>p\<in>set b. length Ls + length bs + need_piece p \<le> STACK_SIZE"
  shows "runs (concat (map post_branch bs)) Ls (rev (map acc_branch bs) @ Ls)"
  using assms
proof (induction bs arbitrary: Ls)
  case (Cons b bs)
  have "runs (post_branch b) Ls (acc_branch b # Ls)" by (rule runs_branch) (use Cons.prems in auto)
  moreover have "runs (concat (map post_branch bs)) (acc_branch b # Ls) (rev (map acc_branch bs) @ acc_branch b # Ls)"
    by (rule Cons.IH) (use Cons.prems in auto)
  ultimately show ?case by (auto intro: runs_append)
qed (simp add: runs_Nil)

lemma runs_bars: "runs (replicate (length Bs) BAR) (Bs @ A # Ls) ((A \<union> \<Union> (set Bs)) # Ls)"
proof (induction "length Bs" arbitrary: Bs)
  case (Suc n)
  then obtain B Cs where Bs: "Bs = B # Cs" by (cases Bs) auto
  show ?case
  proof (cases Cs)
    case Nil
    then show ?thesis using runs_alt [of B A Ls] by (simp add: Bs)
  next
    case (Cons C Ds)
    have "runs [BAR] (B # C # Ds @ A # Ls) ((C \<union> B) # Ds @ A # Ls)" by (rule runs_alt)
    moreover have "runs (replicate n BAR) (((C \<union> B) # Ds) @ A # Ls) ((A \<union> \<Union> (set ((C \<union> B) # Ds))) # Ls)"
      using Suc(1) [of "(C \<union> B) # Ds"] Suc(2) by (simp add: Bs Cons)
    then have "runs (replicate n BAR) ((C \<union> B) # Ds @ A # Ls) ((A \<union> \<Union> (set ((C \<union> B) # Ds))) # Ls)" by simp
    ultimately have "runs ([BAR] @ replicate n BAR) (B # C # Ds @ A # Ls) ((A \<union> \<Union> (set ((C \<union> B) # Ds))) # Ls)"
      by (rule runs_append)
    moreover have "A \<union> \<Union> (set ((C \<union> B) # Ds)) = A \<union> \<Union> (set Bs)" by (auto simp: Bs Cons)
    ultimately show ?thesis using Suc(2) by (simp add: Bs Cons)
  qed
qed (simp add: runs_Nil)

lemma runs_re:
  assumes "re_ok d bs" "list_all (list_all no_dot) bs" "\<forall>b\<in>set bs. \<forall>p\<in>set b. builds p"
    "length Ls + need_re bs \<le> STACK_SIZE"
  shows "runs (post_re bs) Ls (acc_re bs # Ls)"
proof -
  obtain b cs where bs: "bs = b # cs" using assms(1) by (cases bs) (auto simp: re_ok_def)
  have "foldr max (map (\<lambda>b. foldr max (map need_piece b) 0) bs) 0 \<le> STACK_SIZE - length Ls - length bs"
    using assms(4) by (simp add: need_re_def)
  then have "\<forall>b\<in>set bs. \<forall>p\<in>set b. length Ls + length bs + need_piece p \<le> STACK_SIZE"
    using assms(4) by (fastforce simp: foldr_max_le need_re_def)
  then have "runs (concat (map post_branch bs)) Ls (rev (map acc_branch bs) @ Ls)"
    using assms(1-3) by (intro runs_branches [of _ d]) (auto simp: re_ok_def list_all_iff)
  moreover have "runs (replicate (length bs - 1) BAR) (rev (map acc_branch bs) @ Ls) (acc_re bs # Ls)"
    using runs_bars [of "rev (map acc_branch cs)" "acc_branch b" Ls] by (simp add: bs acc_re_def)
  ultimately show ?thesis unfolding post_re_def by (rule runs_append)
qed

lemma acc_piece_Group: "acc_piece (Group bs) = acc_re bs"
  by (simp add: acc_re_def acc_branch_def)

lemma builds_all: "builds p"
proof (induction p)
  case (Lit ch)
  then show ?case by (auto simp: builds_def intro: runs_lit)
next
  case (Group bs)
  show ?case
    unfolding builds_def post_piece_Group acc_piece_Group
  proof (intro allI impI)
    fix d and Ls :: "lang list"
    assume "piece_ok d (Group bs)" "no_dot (Group bs)" "length Ls + need_piece (Group bs) \<le> STACK_SIZE"
    then show "runs (post_re bs) Ls (acc_re bs # Ls)"
      using Group by (intro runs_re [of "d - 1"]) (auto simp: re_ok_def need_re_def)
  qed
next
  case (Rep p ch)
  then show ?case by (auto simp: builds_def intro: runs_append runs_rep)
qed

section \<open>The result\<close>

text \<open>Every arrow of a finished automaton leads to a state or is NULL, and no state has been visited.\<close>

definition nfa_heap :: "state list \<Rightarrow> bool" where
  "nfa_heap h \<longleftrightarrow> (\<forall>i<length h. (\<forall>b. out_ok (length h) (read_slot h i b)) \<and> state_lastlist (h ! i) = 0)"

lemma post2nfa_correct:
  assumes "re_ok d bs" "list_all (list_all no_dot) bs" "need_re bs \<le> STACK_SIZE"
  shows "\<exists>start h. post2nfa (Some (post_re bs)) = Some (Some start, h) \<and> h \<noteq> [] \<and> sref_ok (length h) start \<and> nfa_heap h \<and>
    (\<forall>w. acc h (To start) w \<longleftrightarrow> w \<in> acc_re bs)"
proof -
  have "nfa_ok ([], []) []" by (auto simp: nfa_ok_def intro: exI [of _ "[]"])
  then obtain s where s: "post2nfa_loop (post_re bs) ([], []) = Some s" "nfa_ok s [acc_re bs]"
    using runs_re [OF assms(1,2), of "[]"] builds_all assms(3) unfolding runs_def by fastforce
  from s(2) obtain h stk ts where h: "s = (h, stk)" "\<forall>i<length h. state_lastlist (h ! i) = 0"
    "stack_ok h stk ts" "regions ts = {..<length h}" "map snd ts = [acc_re bs]" by (elim nfa_okE)
  from h(3,5) obtain e stk' R xs ts' where e: "stk = e # stk'" "ts = (R, acc_re bs) # ts'" "map snd ts' = []"
    "frag_ok h R e xs (acc_re bs)" "stack_ok h stk' ts'" by (rule stack_ok_cons)
  have R: "R = {..<length h}" "stk' = []" using h(4) e(2,3) stack_ok_length [OF e(5)] by auto
  note f = frag_okD [OF e(4)]
  obtain h' where h': "patch h (frag_out e) (To Match_State) = Some h'" "same_but (set xs) h h'"
    "\<forall>x\<in>set xs. slot_val h' x = To Match_State"
    using patch_chain [OF f(5,3)] by blast
  have ex: "exits h' (To (frag_start e)) (To Match_State) (acc_re bs)"
    using f(8) [OF same_but_agrees' [OF h'(2)]] h'(3) by auto
  have len: "length h' = length h" using h'(2) by (simp add: same_but_def)
  have "acc h' (To (frag_start e)) w \<longleftrightarrow> w \<in> acc_re bs" for w
    using exitsD(1) [OF ex, of _ w] exitsD(2) [OF ex, of w "[]"] by (fastforce simp: acc_def)
  moreover have "nfa_heap h'"
    unfolding nfa_heap_def
  proof (intro allI impI conjI)
    fix i b assume i: "i < length h'"
    show "out_ok (length h') (read_slot h' i b)"
    proof (cases "(i, b) \<in> set xs")
      case True
      then show ?thesis using h'(3) by fastforce
    next
      case False
      then show ?thesis using same_but_out_ok [OF h'(2)] f(7) R(1) i len by auto
    qed
  qed (use h(2) h'(2) in \<open>auto simp: same_but_def\<close>)
  moreover have "post2nfa (Some (post_re bs)) = Some (Some (frag_start e), h')"
    using s(1) h'(1) by (simp add: post2nfa_def h(1) e(1) R(2))
  moreover have "h' \<noteq> []" using f(1,2,4) len by (cases xs) auto
  ultimately show ?thesis using f(6) len by auto
qed

end
