(* ===== verification/Regex_Sim.thy ===== *)
theory Regex_Sim
  imports Regex_Post2nfa
begin

text \<open>
  The simulation of an automaton: \<open>startlist\<close>, \<open>addstate\<close>, \<open>step\<close>, \<open>ismatch\<close> and \<open>match\<close> of
  \<open>c-study/dfa-about/nfa.c\<close>. The states carry the number of the last list they were added to; the
  lists are arrays of \<open>nstate\<close> pointers, and \<open>None\<close> is a write past their end, an overflow of
  \<open>listid\<close>, or a pointer that is not one to a state.
\<close>

section \<open>The operations\<close>

record nfa_mem =
  heap :: "state list"
  match_lastlist :: int
  listid :: int

text \<open>The fields of a state; \<open>matchstate\<close> is initialised to \<open>{ Match }\<close>.\<close>

fun st_c :: "state list \<Rightarrow> sref \<Rightarrow> int" where
  "st_c h Match_State = Match"
| "st_c h (State_At i) = state_c (h ! i)"

fun st_out :: "state list \<Rightarrow> sref \<Rightarrow> outval" where
  "st_out h Match_State = NULL"
| "st_out h (State_At i) = state_out (h ! i)"

fun st_out1 :: "state list \<Rightarrow> sref \<Rightarrow> outval" where
  "st_out1 h Match_State = NULL"
| "st_out1 h (State_At i) = state_out1 (h ! i)"

fun st_lastlist :: "nfa_mem \<Rightarrow> sref \<Rightarrow> int" where
  "st_lastlist m Match_State = match_lastlist m"
| "st_lastlist m (State_At i) = state_lastlist (heap m ! i)"

fun set_lastlist :: "nfa_mem \<Rightarrow> sref \<Rightarrow> int \<Rightarrow> nfa_mem" where
  "set_lastlist m Match_State v = m\<lparr>match_lastlist := v\<rparr>"
| "set_lastlist m (State_At i) v = m\<lparr>heap := (heap m)[i := (heap m ! i)\<lparr>state_lastlist := v\<rparr>]\<rparr>"

partial_function (option) addstate :: "nfa_mem \<Rightarrow> sref list \<Rightarrow> outval \<Rightarrow> (nfa_mem \<times> sref list) option" where
  "addstate m l p =
     (case p of
        NULL \<Rightarrow> Some (m, l)
      | Slot _ _ \<Rightarrow> None
      | To s \<Rightarrow>
          if st_lastlist m s = listid m then Some (m, l)
          else
            let m = set_lastlist m s (listid m) in
            if st_c (heap m) s = Split
            then do {
              (m, l) \<leftarrow> addstate m l (st_out (heap m) s);
              addstate m l (st_out1 (heap m) s)
            }
            else if length l < length (heap m) then Some (m, l @ [s]) else None)"

text \<open>\<open>listid++\<close> on a 32-bit \<open>int\<close>\<close>

definition next_listid :: "nfa_mem \<Rightarrow> nfa_mem option" where
  "next_listid m = (if listid m < INT_MAX then Some (m\<lparr>listid := listid m + 1\<rparr>) else None)"

definition startlist :: "nfa_mem \<Rightarrow> sref \<Rightarrow> (nfa_mem \<times> sref list) option" where
  "startlist m start = do { m \<leftarrow> next_listid m; addstate m [] (To start) }"

definition ismatch :: "sref list \<Rightarrow> bool" where
  "ismatch l \<longleftrightarrow> list_ex (\<lambda>s. s = Match_State) l"

fun step_loop :: "nfa_mem \<Rightarrow> sref list \<Rightarrow> int \<Rightarrow> sref list \<Rightarrow> (nfa_mem \<times> sref list) option" where
  "step_loop m [] ch nlist = Some (m, nlist)"
| "step_loop m (s # clist) ch nlist =
     (if st_c (heap m) s = ch
      then do { (m, nlist) \<leftarrow> addstate m nlist (st_out (heap m) s); step_loop m clist ch nlist }
      else step_loop m clist ch nlist)"

definition step :: "nfa_mem \<Rightarrow> sref list \<Rightarrow> int \<Rightarrow> (nfa_mem \<times> sref list) option" where
  "step m clist ch = do { m \<leftarrow> next_listid m; step_loop m clist ch [] }"

text \<open>The character is \<open>*s & 0xFF\<close>.\<close>

fun nfa_match_loop :: "nfa_mem \<Rightarrow> sref list \<Rightarrow> uint8_t list \<Rightarrow> (nfa_mem \<times> sref list) option" where
  "nfa_match_loop m clist [] = Some (m, clist)"
| "nfa_match_loop m clist (a # s) = do { (m, nlist) \<leftarrow> step m clist (uint a); nfa_match_loop m nlist s }"

definition nfa_match :: "nfa_mem \<Rightarrow> sref \<Rightarrow> uint8_t list \<Rightarrow> (nfa_mem \<times> bool) option" where
  "nfa_match m start s = do {
     (m, clist) \<leftarrow> startlist m start;
     (m, clist) \<leftarrow> nfa_match_loop m clist s;
     Some (m, ismatch clist)
   }"

section \<open>Marking states\<close>

text \<open>Two heaps that differ only in the marks of the states.\<close>

definition same_shape :: "state list \<Rightarrow> state list \<Rightarrow> bool" where
  "same_shape h h' \<longleftrightarrow> length h' = length h \<and> st_c h' = st_c h \<and> st_out h' = st_out h \<and> st_out1 h' = st_out1 h"

lemma same_shape_refl [simp]: "same_shape h h"
  by (simp add: same_shape_def)

lemma same_shape_trans: "same_shape h h' \<Longrightarrow> same_shape h' h'' \<Longrightarrow> same_shape h h''"
  by (simp add: same_shape_def)

lemma set_lastlist_shape [simp]: "same_shape (heap m) (heap (set_lastlist m s v))"
proof (cases s)
  case (State_At i)
  have "st_c (heap (set_lastlist m s v)) t = st_c (heap m) t" "st_out (heap (set_lastlist m s v)) t = st_out (heap m) t"
    "st_out1 (heap (set_lastlist m s v)) t = st_out1 (heap m) t" for t
    by (cases t; cases "i < length (heap m)"; auto simp: State_At nth_list_update list_update_beyond)+
  then show ?thesis by (auto simp: same_shape_def State_At)
qed simp

lemma set_lastlist_simps [simp]: "listid (set_lastlist m s v) = listid m" "length (heap (set_lastlist m s v)) = length (heap m)"
  by (cases s; simp)+

lemma st_lastlist_set: "sref_ok (length (heap m)) s \<Longrightarrow> st_lastlist (set_lastlist m s v) t = (if t = s then v else st_lastlist m t)"
  by (cases s; cases t) auto

text \<open>The states that are marked with the current list, among those that there are.\<close>

definition srefs :: "nat \<Rightarrow> sref set" where
  "srefs n = insert Match_State (State_At ` {..<n})"

lemma srefs_iff [simp]: "s \<in> srefs n \<longleftrightarrow> sref_ok n s"
  by (cases s) (auto simp: srefs_def)

lemma finite_srefs [simp]: "finite (srefs n)"
  by (simp add: srefs_def)

definition marked :: "nfa_mem \<Rightarrow> sref set" where
  "marked m = {s \<in> srefs (length (heap m)). st_lastlist m s = listid m}"

lemma marked_set: "sref_ok (length (heap m)) s \<Longrightarrow> marked (set_lastlist m s (listid m)) = insert s (marked m)"
  by (auto simp: marked_def st_lastlist_set)

text \<open>Arrows that need no character.\<close>

inductive eps :: "state list \<Rightarrow> outval \<Rightarrow> sref \<Rightarrow> bool" for h where
  eps_here: "eps h (To s) s"
| eps_out: "st_c h s = Split \<Longrightarrow> eps h (st_out h s) t \<Longrightarrow> eps h (To s) t"
| eps_out1: "st_c h s = Split \<Longrightarrow> eps h (st_out1 h s) t \<Longrightarrow> eps h (To s) t"

definition arrows_ok :: "state list \<Rightarrow> bool" where
  "arrows_ok h \<longleftrightarrow> (\<forall>i<length h. out_ok (length h) (state_out (h ! i)) \<and> out_ok (length h) (state_out1 (h ! i)))"

text \<open>
  What \<open>addstate\<close> does: it marks the states it reaches, every one of them leads to marked states only,
  and those that are not \<open>Split\<close> are appended to the list.
\<close>

definition closed_in :: "state list \<Rightarrow> sref set \<Rightarrow> outval \<Rightarrow> bool" where
  "closed_in h M p \<longleftrightarrow> p = NULL \<or> (\<exists>s\<in>M. p = To s)"

definition labelled :: "state list \<Rightarrow> sref set" where
  "labelled h = {s \<in> srefs (length h). st_c h s \<noteq> Split}"

definition added :: "state list \<Rightarrow> nfa_mem \<Rightarrow> sref list \<Rightarrow> outval set \<Rightarrow> nfa_mem \<Rightarrow> sref list \<Rightarrow> bool" where
  "added h m l P m' l' \<longleftrightarrow>
     same_shape h (heap m') \<and> listid m' = listid m \<and> marked m \<subseteq> marked m' \<and> (\<forall>p\<in>P. closed_in h (marked m') p) \<and>
     (\<forall>s \<in> srefs (length h) - marked m'. st_lastlist m' s = st_lastlist m s) \<and>
     (\<forall>s \<in> marked m' - marked m. st_c h s = Split \<longrightarrow>
        closed_in h (marked m') (st_out h s) \<and> closed_in h (marked m') (st_out1 h s)) \<and>
     (\<forall>s \<in> marked m' - marked m. \<exists>p\<in>P. eps h p s) \<and>
     (\<exists>new. l' = l @ new \<and> distinct new \<and> set new = (marked m' - marked m) \<inter> labelled h)"

lemma closed_in_mono: "closed_in h M p \<Longrightarrow> M \<subseteq> M' \<Longrightarrow> closed_in h M' p"
  by (auto simp: closed_in_def)

lemma addedD:
  assumes "added h m l P m' l'"
  shows "same_shape h (heap m')" "listid m' = listid m" "marked m \<subseteq> marked m'"
    "\<And>p. p \<in> P \<Longrightarrow> closed_in h (marked m') p"
    "\<And>s. sref_ok (length h) s \<Longrightarrow> s \<notin> marked m' \<Longrightarrow> st_lastlist m' s = st_lastlist m s"
    "\<And>s. s \<in> marked m' \<Longrightarrow> s \<notin> marked m \<Longrightarrow> st_c h s = Split \<Longrightarrow>
       closed_in h (marked m') (st_out h s) \<and> closed_in h (marked m') (st_out1 h s)"
    "\<And>s. s \<in> marked m' \<Longrightarrow> s \<notin> marked m \<Longrightarrow> \<exists>p\<in>P. eps h p s"
    "\<exists>new. l' = l @ new \<and> distinct new \<and> set new = (marked m' - marked m) \<inter> labelled h"
  using assms by (auto simp: added_def)

lemma added_refl:
  "same_shape h (heap m) \<Longrightarrow> (\<And>p. p \<in> P \<Longrightarrow> closed_in h (marked m) p) \<Longrightarrow> added h m l P m l"
  by (auto simp: added_def)

lemma added_trans:
  assumes a: "added h m l P m1 l1" and b: "added h m1 l1 Q m2 l2"
  shows "added h m l (P \<union> Q) m2 l2"
  unfolding added_def
proof (intro conjI ballI impI)
  note a = addedD [OF a] and b = addedD [OF b]
  show "same_shape h (heap m2)" "listid m2 = listid m" "marked m \<subseteq> marked m2" using a b by auto
  show "closed_in h (marked m2) p" if "p \<in> P \<union> Q" for p using that a(4) b(3,4) closed_in_mono by blast
  show "st_lastlist m2 s = st_lastlist m s" if "s \<in> srefs (length h) - marked m2" for s
    using that a(5) b(3,5) by fastforce
  show "\<exists>p\<in>P \<union> Q. eps h p s" if "s \<in> marked m2 - marked m" for s using that a(7) b(7) by (cases "s \<in> marked m1") auto
  fix s assume s: "s \<in> marked m2 - marked m" "st_c h s = Split"
  have "closed_in h (marked m2) (st_out h s) \<and> closed_in h (marked m2) (st_out1 h s)"
  proof (cases "s \<in> marked m1")
    case True
    then show ?thesis using s a(6) closed_in_mono [OF _ b(3)] by blast
  qed (use s b(6) in blast)
  then show "closed_in h (marked m2) (st_out h s)" "closed_in h (marked m2) (st_out1 h s)" by auto
next
  note a = addedD [OF a] and b = addedD [OF b]
  obtain n1 n2 where n: "l1 = l @ n1" "distinct n1" "set n1 = (marked m1 - marked m) \<inter> labelled h"
    "l2 = l1 @ n2" "distinct n2" "set n2 = (marked m2 - marked m1) \<inter> labelled h"
    using a(8) b(8) by auto
  then have "set (n1 @ n2) = (marked m2 - marked m) \<inter> labelled h" using a(3) b(3) by auto
  moreover have "distinct (n1 @ n2)" using n by auto
  ultimately show "\<exists>new. l2 = l @ new \<and> distinct new \<and> set new = (marked m2 - marked m) \<inter> labelled h"
    using n(1,4) by (intro exI [of _ "n1 @ n2"]) simp
qed

lemma finite_labelled [simp]: "finite (labelled h)"
  by (rule finite_subset [OF _ finite_srefs [of "length h"]]) (auto simp: labelled_def)

text \<open>The number of states that may still be appended.\<close>

definition room :: "state list \<Rightarrow> nfa_mem \<Rightarrow> nat" where
  "room h m = card (labelled h - marked m)"

lemma added_room:
  assumes "added h m l P m' l'"
  shows "length l' + room h m' = length l + room h m"
proof -
  note a = addedD [OF assms]
  obtain new where n: "l' = l @ new" "distinct new" "set new = (marked m' - marked m) \<inter> labelled h" using a(8) by auto
  have "labelled h - marked m = set new \<union> (labelled h - marked m')" using n(3) a(3) by auto
  moreover have "set new \<inter> (labelled h - marked m') = {}" using n(3) by auto
  ultimately have "card (labelled h - marked m) = card (set new) + card (labelled h - marked m')"
    by (simp add: card_Un_disjoint)
  then show ?thesis using n(1,2) by (simp add: room_def distinct_card)
qed

lemma same_shapeD:
  assumes "same_shape h h'"
  shows "length h' = length h" "st_c h' s = st_c h s" "st_out h' s = st_out h s" "st_out1 h' s = st_out1 h s"
  using assms by (auto simp: same_shape_def)

lemma arrows_okD:
  "arrows_ok h \<Longrightarrow> sref_ok (length h) s \<Longrightarrow> out_ok (length h) (st_out h s) \<and> out_ok (length h) (st_out1 h s)"
  by (cases s) (auto simp: arrows_ok_def)

lemma added_mark:
  assumes "same_shape h (heap m)" "sref_ok (length h) s" "s \<notin> marked m" "st_c h s \<noteq> Split"
  shows "added h m l {To s} (set_lastlist m s (listid m)) (l @ [s])"
proof -
  have ok: "sref_ok (length (heap m)) s" using assms(1,2) by (simp add: same_shapeD)
  show ?thesis
    using assms same_shape_trans [OF assms(1) set_lastlist_shape]
    by (auto simp: added_def marked_set [OF ok] st_lastlist_set [OF ok] closed_in_def labelled_def intro: eps_here)
qed

lemma added_split:
  assumes "same_shape h (heap m)" "sref_ok (length h) s" "s \<notin> marked m" "st_c h s = Split"
    and a: "added h (set_lastlist m s (listid m)) l {st_out h s, st_out1 h s} m' l'"
  shows "added h m l {To s} m' l'"
proof -
  have ok: "sref_ok (length (heap m)) s" using assms(1,2) by (simp add: same_shapeD)
  note mk = marked_set [OF ok]
  note a = addedD [OF a]
  have "\<exists>p\<in>{To s}. eps h p t" if "t \<in> marked m'" "t \<notin> marked m" for t
  proof (cases "t = s")
    case False
    then show ?thesis using a(7) [of t] that assms(4) by (auto simp: mk intro: eps_out eps_out1)
  qed (auto intro: eps_here)
  moreover have "closed_in h (marked m') (st_out h t) \<and> closed_in h (marked m') (st_out1 h t)"
    if "t \<in> marked m'" "t \<notin> marked m" "st_c h t = Split" for t
  proof (cases "t = s")
    case True
    then show ?thesis using a(4) by simp
  next
    case False
    then show ?thesis using a(6) [of t] that by (simp add: mk)
  qed
  moreover have "\<exists>new. l' = l @ new \<and> distinct new \<and> set new = (marked m' - marked m) \<inter> labelled h"
  proof -
    have "(marked m' - marked (set_lastlist m s (listid m))) \<inter> labelled h = (marked m' - marked m) \<inter> labelled h"
      using assms(4) by (auto simp: mk labelled_def)
    then show ?thesis using a(8) by simp
  qed
  moreover have "st_lastlist m' t = st_lastlist m t" if "sref_ok (length h) t" "t \<notin> marked m'" for t
    using a(3,5) that by (auto simp: mk st_lastlist_set [OF ok])
  moreover have "closed_in h (marked m') (To s)" using a(3) by (auto simp: closed_in_def mk)
  ultimately show ?thesis using a(1-3) unfolding added_def by (auto simp: mk)
qed

lemma addstate_added:
  assumes "arrows_ok h"
  shows "same_shape h (heap m) \<Longrightarrow> out_ok (length h) p \<Longrightarrow>
     length l + room h m \<le> length h \<or> (l = [] \<and> h \<noteq> [] \<and> labelled h = srefs (length h)) \<Longrightarrow>
     \<exists>m' l'. addstate m l p = Some (m', l') \<and> added h m l {p} m' l'"
proof (induction "card (srefs (length h) - marked m)" arbitrary: m l p rule: less_induct)
  case less
  note sh = same_shapeD [OF less.prems(1)]
  show ?case
  proof (cases p)
    case NULL
    then show ?thesis using added_refl [OF less.prems(1), of "{p}" l] by (auto simp: addstate.simps closed_in_def)
  next
    case (Slot i b)
    then show ?thesis using less.prems(2) by simp
  next
    case (To s)
    have ok: "sref_ok (length h) s" "sref_ok (length (heap m)) s" using less.prems(2) by (simp_all add: To sh)
    let ?m = "set_lastlist m s (listid m)"
    have sh': "same_shape h (heap ?m)" using same_shape_trans [OF less.prems(1) set_lastlist_shape] .
    show ?thesis
    proof (cases "s \<in> marked m")
      case True
      then show ?thesis using added_refl [OF less.prems(1), of "{p}" l]
        by (auto simp: addstate.simps To marked_def closed_in_def)
    next
      case nm: False
      then have last: "st_lastlist m s \<noteq> listid m" using ok by (simp add: marked_def)
      show ?thesis
      proof (cases "st_c h s = Split")
        case False
        then have "s \<in> labelled h - marked m" using ok nm by (simp add: labelled_def)
        then have "0 < room h m" by (auto simp: room_def card_gt_0_iff)
        then have "length l < length h" using less.prems(3) by auto
        then show ?thesis using added_mark [OF less.prems(1) ok(1) nm False] last False
          by (auto simp: addstate.simps To Let_def same_shapeD [OF sh'] sh)
      next
        case True
        have mk: "marked ?m = insert s (marked m)" by (rule marked_set [OF ok(2)])
        have "s \<notin> labelled h" "s \<in> srefs (length h)" using True ok(1) by (simp_all add: labelled_def)
        then have split: "labelled h \<noteq> srefs (length h)" by metis
        have "labelled h - marked ?m = labelled h - marked m" using True by (auto simp: mk labelled_def)
        then have cap: "length l + room h ?m \<le> length h" using less.prems(3) split by (simp add: room_def)
        have "srefs (length h) - marked ?m \<subset> srefs (length h) - marked m"
          unfolding mk using \<open>s \<in> srefs (length h)\<close> nm by blast
        then have dec: "card (srefs (length h) - marked ?m) < card (srefs (length h) - marked m)"
          by (intro psubset_card_mono) simp_all
        have out: "out_ok (length h) (st_out h s)" "out_ok (length h) (st_out1 h s)"
          using arrows_okD [OF assms ok(1)] by auto
        obtain m1 l1 where 1: "addstate ?m l (st_out h s) = Some (m1, l1)" "added h ?m l {st_out h s} m1 l1"
          using less.hyps [OF dec sh' out(1) disjI1 [OF cap]] by blast
        have "card (srefs (length h) - marked m1) \<le> card (srefs (length h) - marked ?m)"
          using addedD(3) [OF 1(2)] by (intro card_mono Diff_mono) simp_all
        then have dec1: "card (srefs (length h) - marked m1) < card (srefs (length h) - marked m)" using dec by simp
        have cap1: "length l1 + room h m1 \<le> length h" using added_room [OF 1(2)] cap by simp
        have sh1: "same_shape h (heap m1)" by (rule addedD(1) [OF 1(2)])
        obtain m2 l2 where 2: "addstate m1 l1 (st_out1 h s) = Some (m2, l2)" "added h m1 l1 {st_out1 h s} m2 l2"
          using less.hyps [OF dec1 sh1 out(2) disjI1 [OF cap1]] by blast
        have "added h ?m l {st_out h s, st_out1 h s} m2 l2" using added_trans [OF 1(2) 2(2)] by (simp add: insert_commute)
        then have "added h m l {To s} m2 l2" by (rule added_split [OF less.prems(1) ok(1) nm True])
        moreover have "addstate m l p = Some (m2, l2)"
          using last True 1(1) 2(1) by (subst addstate.simps) (simp add: To Let_def same_shapeD [OF sh'] same_shapeD [OF sh1])
        ultimately show ?thesis by (auto simp: To)
      qed
    qed
  qed
qed

section \<open>What the lists accept\<close>

lemma st_c_Match [simp]: "st_c h Match_State = Match" "Match \<noteq> Split"
  by (simp_all add: Match_def Split_def)

lemma acc_To:
  "st_c h s = Split \<Longrightarrow> acc h (To s) w \<longleftrightarrow> acc h (st_out h s) w \<or> acc h (st_out1 h s) w"
  "s \<noteq> Match_State \<Longrightarrow> st_c h s \<noteq> Split \<Longrightarrow> acc h (To s) w \<longleftrightarrow> (\<exists>v. w = st_c h s # v \<and> acc h (st_out h s) v)"
  by (cases s; auto simp: acc_Split acc_char)+

lemma acc_eps: "eps h p s \<Longrightarrow> acc h (To s) w \<Longrightarrow> acc h p w"
  by (induction rule: eps.induct) (auto simp: acc_To)

lemma accepts_closed:
  assumes "\<And>s. s \<in> M \<Longrightarrow> st_c h s = Split \<Longrightarrow> closed_in h M (st_out h s) \<and> closed_in h M (st_out1 h s)"
  shows "accepts h n p w \<Longrightarrow> closed_in h M p \<Longrightarrow> \<exists>s\<in>M. st_c h s \<noteq> Split \<and> acc h (To s) w"
proof (induction n arbitrary: p)
  case 0
  then obtain s where s: "s \<in> M" "p = To s" by (cases p) (auto simp: closed_in_def)
  then have "s = Match_State" "w = []" using 0 by (cases s; auto)+
  then show ?case using s by (intro bexI [of _ s]) simp_all
next
  case (Suc n)
  then obtain s where s: "s \<in> M" "p = To s" by (cases p) (auto simp: closed_in_def)
  show ?case
  proof (cases "st_c h s = Split")
    case False
    then show ?thesis using s Suc.prems(1) by (auto simp: acc_def)
  next
    case True
    then obtain i where i: "s = State_At i" by (cases s) (use st_c_Match(2) in auto)
    then have "accepts h n (st_out h s) w \<or> accepts h n (st_out1 h s) w" using Suc.prems(1) s(2) True by simp
    then show ?thesis using Suc.IH assms [OF s(1) True] by blast
  qed
qed

text \<open>A list that was filled from the arrows \<open>P\<close> accepts what these accept.\<close>

lemma added_fresh:
  assumes a: "added h m [] P m' l'" and "marked m = {}" "same_shape h (heap m)"
  shows "distinct l'" "set l' \<subseteq> labelled h"
    "(\<exists>s\<in>set l'. acc h (To s) w) \<longleftrightarrow> (\<exists>p\<in>P. acc h p w)"
    "labelled h = srefs (length h) \<Longrightarrow> s \<in> set l' \<Longrightarrow> To s \<in> P"
proof -
  note a = addedD [OF a]
  have l': "distinct l'" "set l' = marked m' \<inter> labelled h" using a(8) assms(2) by auto
  then show "distinct l'" "set l' \<subseteq> labelled h" by auto
  have mk: "s \<in> srefs (length h)" if "s \<in> marked m'" for s
    using that same_shapeD(1) [OF a(1)] by (simp add: marked_def)
  show "(\<exists>s\<in>set l'. acc h (To s) w) \<longleftrightarrow> (\<exists>p\<in>P. acc h p w)"
  proof
    assume "\<exists>s\<in>set l'. acc h (To s) w"
    then show "\<exists>p\<in>P. acc h p w" using a(7) acc_eps assms(2) l'(2) by blast
  next
    assume "\<exists>p\<in>P. acc h p w"
    then obtain p n where p: "p \<in> P" "accepts h n p w" by (auto simp: acc_def)
    have "\<exists>s\<in>marked m'. st_c h s \<noteq> Split \<and> acc h (To s) w"
      by (rule accepts_closed [OF _ p(2) a(4) [OF p(1)]]) (use a(6) assms(2) in auto)
    then show "\<exists>s\<in>set l'. acc h (To s) w" using l'(2) mk by (fastforce simp: labelled_def)
  qed
  assume *: "labelled h = srefs (length h)" "s \<in> set l'"
  have P: "out_ok (length h) p" if "p \<in> P" for p
    using a(4) [OF that] mk by (auto simp: closed_in_def)
  obtain p where p: "p \<in> P" "eps h p s" using * a(7) assms(2) l'(2) by blast
  from p(2) have "p = To s"
  proof cases
    case (eps_out s')
    then have "s' \<in> labelled h" using P [OF p(1)] *(1) by simp
    then show ?thesis using eps_out by (simp add: labelled_def)
  next
    case (eps_out1 s')
    then have "s' \<in> labelled h" using P [OF p(1)] *(1) by simp
    then show ?thesis using eps_out1 by (simp add: labelled_def)
  qed
  then show "To s \<in> P" using p(1) by simp
qed

section \<open>The invariant of the simulation\<close>

text \<open>No state is marked with a list that is yet to come.\<close>

definition sim_ok :: "state list \<Rightarrow> nfa_mem \<Rightarrow> bool" where
  "sim_ok h m \<longleftrightarrow> h \<noteq> [] \<and> arrows_ok h \<and> same_shape h (heap m) \<and>
     (\<forall>s. sref_ok (length h) s \<longrightarrow> st_lastlist m s \<le> listid m)"

text \<open>A list holds different states with labels, and at most one when there is no \<open>Split\<close>.\<close>

definition list_ok :: "state list \<Rightarrow> sref list \<Rightarrow> bool" where
  "list_ok h l \<longleftrightarrow> distinct l \<and> set l \<subseteq> labelled h \<and> (labelled h = srefs (length h) \<longrightarrow> length l \<le> 1)"

lemma card_srefs: "card (srefs n) = Suc n"
proof -
  have "inj_on State_At {..<n}" by (auto simp: inj_on_def)
  moreover have "Match_State \<notin> State_At ` {..<n}" by auto
  ultimately show ?thesis by (simp add: srefs_def card_image)
qed

lemma labelled_card: "labelled h \<noteq> srefs (length h) \<Longrightarrow> card (labelled h) \<le> length h"
proof -
  assume "labelled h \<noteq> srefs (length h)"
  moreover have "labelled h \<subseteq> srefs (length h)" by (auto simp: labelled_def)
  ultimately have "card (labelled h) < card (srefs (length h))" by (intro psubset_card_mono) (auto simp del: srefs_iff)
  then show ?thesis by (simp add: card_srefs)
qed

lemma list_ok_length: "h \<noteq> [] \<Longrightarrow> list_ok h l \<Longrightarrow> length l \<le> length h"
proof -
  assume h: "h \<noteq> []" "list_ok h l"
  show ?thesis
  proof (cases "labelled h = srefs (length h)")
    case True
    then show ?thesis using h Suc_leI [of 0 "length h"] by (auto simp: list_ok_def)
  next
    case False
    have "length l \<le> card (labelled h)"
      using h(2) by (metis list_ok_def card_mono distinct_card finite_labelled)
    then show ?thesis using labelled_card [OF False] by simp
  qed
qed

lemma next_listid_fresh:
  assumes "sim_ok h m" "listid m < INT_MAX"
  obtains m1 where "next_listid m = Some m1" "marked m1 = {}" "same_shape h (heap m1)" "listid m1 = listid m + 1"
    "\<And>s. sref_ok (length h) s \<Longrightarrow> st_lastlist m1 s \<le> listid m1"
proof -
  let ?m = "m\<lparr>listid := listid m + 1\<rparr>"
  have st: "st_lastlist ?m s = st_lastlist m s" for s by (cases s) auto
  have "marked ?m = {}" using assms(1) same_shapeD(1) [of h "heap m"]
    by (fastforce simp: marked_def sim_ok_def st)
  then show thesis using that [of ?m] assms by (fastforce simp: next_listid_def sim_ok_def st)
qed

lemma added_sim_ok:
  assumes "added h m l P m' l'" "sim_ok h m0" "\<And>s. sref_ok (length h) s \<Longrightarrow> st_lastlist m s \<le> listid m"
  shows "sim_ok h m'"
proof -
  note a = addedD [OF assms(1)]
  have "st_lastlist m' s \<le> listid m'" if "sref_ok (length h) s" for s
    using that a(2) a(5) [of s] assms(3) [of s] by (cases "s \<in> marked m'") (auto simp: marked_def)
  then show ?thesis using assms(2) a(1) by (simp add: sim_ok_def)
qed

text \<open>\<open>startlist\<close> and \<open>step\<close> fill a list from arrows.\<close>

definition fills :: "state list \<Rightarrow> nfa_mem \<Rightarrow> outval set \<Rightarrow> nfa_mem \<Rightarrow> sref list \<Rightarrow> bool" where
  "fills h m P m' l \<longleftrightarrow> sim_ok h m' \<and> listid m' = listid m + 1 \<and> list_ok h l \<and>
     (\<forall>w. (\<exists>s\<in>set l. acc h (To s) w) \<longleftrightarrow> (\<exists>p\<in>P. acc h p w))"

lemma added_fills:
  assumes "sim_ok h m" "added h m1 [] P m' l" "marked m1 = {}" "same_shape h (heap m1)" "listid m1 = listid m + 1"
    "\<And>s. sref_ok (length h) s \<Longrightarrow> st_lastlist m1 s \<le> listid m1"
    and P: "\<And>p q. p \<in> P \<Longrightarrow> q \<in> P \<Longrightarrow> labelled h = srefs (length h) \<Longrightarrow> p = q"
  shows "fills h m P m' l"
proof -
  note f = added_fresh [OF assms(2-4)]
  have "length l \<le> 1" if "labelled h = srefs (length h)"
  proof (cases l)
    case (Cons s l1)
    then show ?thesis
    proof (cases l1)
      case (Cons t l2)
      then have "To s \<in> P" "To t \<in> P" using f(4) [OF that] \<open>l = s # l1\<close> by auto
      then show ?thesis using P [OF _ _ that, of "To s" "To t"] f(1) Cons \<open>l = s # l1\<close> by simp
    qed simp
  qed simp
  then show ?thesis using f(1-3) added_sim_ok [OF assms(2,1,6)] addedD(2) [OF assms(2)] assms(5)
    by (auto simp: fills_def list_ok_def)
qed

lemma room_fresh: "marked m = {} \<Longrightarrow> h \<noteq> [] \<Longrightarrow>
    length [] + room h m \<le> length h \<or> ([] = [] \<and> h \<noteq> [] \<and> labelled h = srefs (length h))"
  using labelled_card [of h] by (auto simp: room_def)

lemma startlist_fills:
  assumes "sim_ok h m" "listid m < INT_MAX" "sref_ok (length h) start"
  shows "\<exists>m' l. startlist m start = Some (m', l) \<and> fills h m {To start} m' l"
proof -
  obtain m1 where m1: "next_listid m = Some m1" "marked m1 = {}" "same_shape h (heap m1)" "listid m1 = listid m + 1"
    "\<And>s. sref_ok (length h) s \<Longrightarrow> st_lastlist m1 s \<le> listid m1"
    using assms(1,2) by (rule next_listid_fresh) blast
  have h: "h \<noteq> []" "arrows_ok h" using assms(1) by (auto simp: sim_ok_def)
  obtain m' l where a: "addstate m1 [] (To start) = Some (m', l)" "added h m1 [] {To start} m' l"
    using addstate_added [OF h(2) m1(3) _ room_fresh [OF m1(2) h(1)], of "To start"] assms(3) by auto
  then show ?thesis using m1(1) added_fills [OF assms(1) a(2) m1(2-5)] by (auto simp: startlist_def)
qed

lemma step_loop_added:
  assumes "arrows_ok h"
  shows "same_shape h (heap m) \<Longrightarrow> (\<forall>s\<in>set clist. sref_ok (length h) s) \<Longrightarrow>
     length l + room h m \<le> length h \<or> (l = [] \<and> h \<noteq> [] \<and> labelled h = srefs (length h) \<and> length clist \<le> 1) \<Longrightarrow>
     \<exists>m' l'. step_loop m clist ch l = Some (m', l') \<and> added h m l (st_out h ` {s \<in> set clist. st_c h s = ch}) m' l'"
proof (induction clist arbitrary: m l)
  case Nil
  then show ?case by (auto intro: added_refl)
next
  case (Cons s clist)
  note sh = same_shapeD [OF Cons.prems(1)]
  show ?case
  proof (cases "st_c h s = ch")
    case False
    then have "{t \<in> set (s # clist). st_c h t = ch} = {t \<in> set clist. st_c h t = ch}" by auto
    moreover have "\<exists>m' l'. step_loop m clist ch l = Some (m', l') \<and> added h m l (st_out h ` {s \<in> set clist. st_c h s = ch}) m' l'"
      using Cons.prems by (intro Cons.IH) auto
    ultimately show ?thesis using False by (simp add: sh)
  next
    case True
    have "out_ok (length h) (st_out h s)" using arrows_okD [OF assms, of s] Cons.prems(2) by simp
    then obtain m1 l1 where 1: "addstate m l (st_out h s) = Some (m1, l1)" "added h m l {st_out h s} m1 l1"
      using addstate_added [OF assms Cons.prems(1), of "st_out h s" l] Cons.prems(3) by blast
    have "length l1 + room h m1 \<le> length h \<or> clist = []" using added_room [OF 1(2)] Cons.prems(3) by auto
    then have "\<exists>m' l'. step_loop m1 clist ch l1 = Some (m', l') \<and> added h m1 l1 (st_out h ` {s \<in> set clist. st_c h s = ch}) m' l'"
    proof
      assume "clist = []"
      then show ?thesis using addedD(1) [OF 1(2)] by (auto intro: added_refl)
    qed (use Cons.IH addedD(1) [OF 1(2)] Cons.prems(2) in auto)
    then obtain m2 l2 where 2: "step_loop m1 clist ch l1 = Some (m2, l2)"
      "added h m1 l1 (st_out h ` {s \<in> set clist. st_c h s = ch}) m2 l2" by blast
    have "{st_out h s} \<union> st_out h ` {s \<in> set clist. st_c h s = ch} = st_out h ` {t \<in> set (s # clist). st_c h t = ch}"
      using True by auto
    then have "added h m l (st_out h ` {t \<in> set (s # clist). st_c h t = ch}) m2 l2"
      using added_trans [OF 1(2) 2(2)] by simp
    then show ?thesis using True 1(1) 2(1) by (simp add: sh)
  qed
qed

lemma step_fills:
  assumes "sim_ok h m" "listid m < INT_MAX" "list_ok h clist" "ch \<noteq> Match"
  shows "\<exists>m' l. step m clist ch = Some (m', l) \<and> sim_ok h m' \<and> listid m' = listid m + 1 \<and> list_ok h l \<and>
    (\<forall>w. (\<exists>s\<in>set l. acc h (To s) w) \<longleftrightarrow> (\<exists>s\<in>set clist. acc h (To s) (ch # w)))"
proof -
  obtain m1 where m1: "next_listid m = Some m1" "marked m1 = {}" "same_shape h (heap m1)" "listid m1 = listid m + 1"
    "\<And>s. sref_ok (length h) s \<Longrightarrow> st_lastlist m1 s \<le> listid m1"
    using assms(1,2) by (rule next_listid_fresh) blast
  have h: "h \<noteq> []" "arrows_ok h" using assms(1) by (auto simp: sim_ok_def)
  have ok: "\<forall>s\<in>set clist. sref_ok (length h) s" using assms(3) by (auto simp: list_ok_def labelled_def)
  let ?P = "st_out h ` {s \<in> set clist. st_c h s = ch}"
  have "length [] + room h m1 \<le> length h \<or> ([] = [] \<and> h \<noteq> [] \<and> labelled h = srefs (length h) \<and> length clist \<le> 1)"
    using room_fresh [OF m1(2) h(1)] assms(3) by (auto simp: list_ok_def)
  then obtain m' l where a: "step_loop m1 clist ch [] = Some (m', l)" "added h m1 [] ?P m' l"
    using step_loop_added [OF h(2) m1(3) ok] by blast
  have "p = q" if "p \<in> ?P" "q \<in> ?P" "labelled h = srefs (length h)" for p q
    using that assms(3) by (cases clist rule: remdups_adj.cases) (auto simp: list_ok_def)
  then have f: "fills h m ?P m' l" using added_fills [OF assms(1) a(2) m1(2-5)] by blast
  have "acc h (To s) (ch # w) \<longleftrightarrow> st_c h s = ch \<and> acc h (st_out h s) w" if "s \<in> set clist" for s w
    using that assms(3,4) acc_To(2) [of s h "ch # w"]
    by (cases "s = Match_State") (auto simp: list_ok_def labelled_def subset_eq)
  then have "(\<exists>p\<in>?P. acc h p w) \<longleftrightarrow> (\<exists>s\<in>set clist. acc h (To s) (ch # w))" for w by auto
  then show ?thesis using f m1(1) a(1) by (simp add: step_def fills_def)
qed

lemma ismatch_acc: "list_ok h l \<Longrightarrow> ismatch l \<longleftrightarrow> (\<exists>s\<in>set l. acc h (To s) [])"
proof -
  assume l: "list_ok h l"
  have "acc h (To s) [] \<longleftrightarrow> s = Match_State" if "s \<in> set l" for s
    using that l acc_To(2) [of s h "[]"] by (cases "s = Match_State") (auto simp: list_ok_def labelled_def subset_eq)
  then show ?thesis by (auto simp: ismatch_def list_ex_iff)
qed

lemma nfa_match_loop_correct:
  "sim_ok h m \<Longrightarrow> list_ok h l \<Longrightarrow> listid m + int (length s) \<le> INT_MAX \<Longrightarrow>
     \<exists>m' l'. nfa_match_loop m l s = Some (m', l') \<and> sim_ok h m' \<and> listid m' = listid m + int (length s) \<and>
       (ismatch l' \<longleftrightarrow> (\<exists>t\<in>set l. acc h (To t) (map uint s)))"
proof (induction s arbitrary: m l)
  case Nil
  then show ?case by (simp add: ismatch_acc)
next
  case (Cons a s)
  have "uint a \<noteq> Match" using uint_lt2p [of a] by (simp add: Match_def)
  then obtain m1 l1 where 1: "step m l (uint a) = Some (m1, l1)" "sim_ok h m1" "listid m1 = listid m + 1" "list_ok h l1"
    "\<And>w. (\<exists>s\<in>set l1. acc h (To s) w) \<longleftrightarrow> (\<exists>s\<in>set l. acc h (To s) (uint a # w))"
    using step_fills [OF Cons.prems(1) _ Cons.prems(2), of "uint a"] Cons.prems(3) by fastforce
  then show ?case using Cons.IH [OF 1(2,4)] Cons.prems(3) by auto
qed

lemma nfa_match_correct:
  assumes "sim_ok h m" "sref_ok (length h) start" "listid m + int (length s) < INT_MAX"
  shows "\<exists>m'. nfa_match m start s = Some (m', acc h (To start) (map uint s)) \<and> sim_ok h m' \<and>
    listid m' = listid m + int (length s) + 1"
proof -
  obtain m1 l where 1: "startlist m start = Some (m1, l)" "fills h m {To start} m1 l"
    using startlist_fills [OF assms(1) _ assms(2)] assms(3) by auto
  then show ?thesis using nfa_match_loop_correct [of h m1 l s] assms(3)
    by (auto simp: nfa_match_def fills_def)
qed

lemma sim_ok_initial:
  "nfa_heap h \<Longrightarrow> h \<noteq> [] \<Longrightarrow> sim_ok h \<lparr>heap = h, match_lastlist = 0, listid = 0\<rparr>"
  unfolding sim_ok_def nfa_heap_def arrows_ok_def read_slot_def
proof (intro conjI allI impI)
  assume h: "\<forall>i<length h. (\<forall>b. out_ok (length h) (if b then state_out1 (h ! i) else state_out (h ! i))) \<and> state_lastlist (h ! i) = 0"
  show "out_ok (length h) (state_out (h ! i))" "out_ok (length h) (state_out1 (h ! i))" if "i < length h" for i
    using h [rule_format, OF that, THEN conjunct1, rule_format, of False] h [rule_format, OF that, THEN conjunct1, rule_format, of True] by simp_all
  show "st_lastlist \<lparr>heap = h, match_lastlist = 0, listid = 0\<rparr> s \<le> listid \<lparr>heap = h, match_lastlist = 0, listid = 0\<rparr>"
    if "sref_ok (length h) s" for s using that h by (cases s) auto
qed simp_all

end
