(* ===== verification/Regex_Dfa.thy ===== *)
theory Regex_Dfa
  imports Regex_Sim "HOL-Library.Multiset"
begin

text \<open>
  The cache of state lists of \<open>c-study/dfa-about/dfa.c\<close>: a search tree of \<open>DState\<close>s, each with a list
  of states and the \<open>DState\<close>s that were reached from it. The states are numbered in the order they
  are allocated. \<open>addr\<close> is the address of a state, and \<open>qsort\<close> that of the C library, of which only
  what it does to the array matters: it permutes it.
\<close>

section \<open>The operations\<close>

record dstate =
  dl :: "sref list"
  dnext :: "nat ptr list"
  dleft :: "nat ptr"
  dright :: "nat ptr"

record dfa_mem =
  nfa :: nfa_mem
  dstates :: "dstate list"
  alldstates :: "nat ptr"

text \<open>\<open>listcmp\<close>: first by length, then by members.\<close>

fun membercmp :: "(sref \<Rightarrow> nat) \<Rightarrow> sref list \<Rightarrow> sref list \<Rightarrow> int" where
  "membercmp addr (s # l1) (t # l2) =
     (if addr s < addr t then -1 else if addr s > addr t then 1 else membercmp addr l1 l2)"
| "membercmp addr _ _ = 0"

definition listcmp :: "(sref \<Rightarrow> nat) \<Rightarrow> sref list \<Rightarrow> sref list \<Rightarrow> int" where
  "listcmp addr l1 l2 =
     (if length l1 < length l2 then -1 else if length l1 > length l2 then 1 else membercmp addr l1 l2)"

text \<open>What \<open>dp\<close> points to: the root, or one of the links of a \<open>DState\<close>.\<close>

datatype link = Root | Left_Of nat | Right_Of nat

fun read_link :: "dfa_mem \<Rightarrow> link \<Rightarrow> nat ptr" where
  "read_link m Root = alldstates m"
| "read_link m (Left_Of d) = dleft (dstates m ! d)"
| "read_link m (Right_Of d) = dright (dstates m ! d)"

fun write_link :: "dfa_mem \<Rightarrow> link \<Rightarrow> nat ptr \<Rightarrow> dfa_mem" where
  "write_link m Root v = m\<lparr>alldstates := v\<rparr>"
| "write_link m (Left_Of d) v = m\<lparr>dstates := (dstates m)[d := (dstates m ! d)\<lparr>dleft := v\<rparr>]\<rparr>"
| "write_link m (Right_Of d) v = m\<lparr>dstates := (dstates m)[d := (dstates m ! d)\<lparr>dright := v\<rparr>]\<rparr>"

partial_function (option) find_dstate :: "(sref \<Rightarrow> nat) \<Rightarrow> dfa_mem \<Rightarrow> sref list \<Rightarrow> link \<Rightarrow> (nat + link) option" where
  "find_dstate addr m l dp =
     (case read_link m dp of
        None \<Rightarrow> Some (Inr dp)
      | Some d \<Rightarrow>
          let i = listcmp addr l (dl (dstates m ! d)) in
          if i < 0 then find_dstate addr m l (Left_Of d)
          else if i > 0 then find_dstate addr m l (Right_Of d)
          else Some (Inl d))"

definition dstate_of :: "(sref \<Rightarrow> nat) \<Rightarrow> (sref list \<Rightarrow> sref list) \<Rightarrow> dfa_mem \<Rightarrow> sref list \<Rightarrow> (dfa_mem \<times> nat) option" where
  "dstate_of addr qsort m l =
     (let l = qsort l in do {
        r \<leftarrow> find_dstate addr m l Root;
        case r of
          Inl d \<Rightarrow> Some (m, d)
        | Inr dp \<Rightarrow>
            let d = length (dstates m);
                m = m\<lparr>dstates := dstates m @ [\<lparr>dl = l, dnext = replicate 256 None, dleft = None, dright = None\<rparr>]\<rparr>
            in Some (write_link m dp (Some d), d)
      })"

text \<open>Matching with the cache, on lists; \<open>Regex_Dump\<close> has the functions of the program, which also print.\<close>

definition cached_start :: "(sref \<Rightarrow> nat) \<Rightarrow> (sref list \<Rightarrow> sref list) \<Rightarrow> dfa_mem \<Rightarrow> sref \<Rightarrow> (dfa_mem \<times> nat) option" where
  "cached_start addr qsort m start = do {
     (n, l) \<leftarrow> startlist (nfa m) start;
     dstate_of addr qsort (m\<lparr>nfa := n\<rparr>) l
   }"

definition set_next :: "dfa_mem \<Rightarrow> nat \<Rightarrow> nat \<Rightarrow> nat \<Rightarrow> dfa_mem" where
  "set_next m d ch d' = m\<lparr>dstates := (dstates m)[d := (dstates m ! d)\<lparr>dnext := (dnext (dstates m ! d))[ch := Some d']\<rparr>]\<rparr>"

definition cached_next :: "(sref \<Rightarrow> nat) \<Rightarrow> (sref list \<Rightarrow> sref list) \<Rightarrow> dfa_mem \<Rightarrow> nat \<Rightarrow> uint8_t \<Rightarrow> (dfa_mem \<times> nat) option" where
  "cached_next addr qsort m d ch = do {
     (n, l) \<leftarrow> step (nfa m) (dl (dstates m ! d)) (uint ch);
     (m, d') \<leftarrow> dstate_of addr qsort (m\<lparr>nfa := n\<rparr>) l;
     Some (set_next m d (unat ch) d', d')
   }"

fun cached_loop :: "(sref \<Rightarrow> nat) \<Rightarrow> (sref list \<Rightarrow> sref list) \<Rightarrow> dfa_mem \<Rightarrow> nat \<Rightarrow> uint8_t list \<Rightarrow> (dfa_mem \<times> nat) option" where
  "cached_loop addr qsort m d [] = Some (m, d)"
| "cached_loop addr qsort m d (ch # s) =
     (case dnext (dstates m ! d) ! unat ch of
        Some d' \<Rightarrow> cached_loop addr qsort m d' s
      | None \<Rightarrow> do { (m, d') \<leftarrow> cached_next addr qsort m d ch; cached_loop addr qsort m d' s })"

definition cached_match :: "(sref \<Rightarrow> nat) \<Rightarrow> (sref list \<Rightarrow> sref list) \<Rightarrow> dfa_mem \<Rightarrow> nat \<Rightarrow> uint8_t list \<Rightarrow> (dfa_mem \<times> bool) option" where
  "cached_match addr qsort m start s = do {
     (m, d) \<leftarrow> cached_loop addr qsort m start s;
     Some (m, ismatch (dl (dstates m ! d)))
   }"

section \<open>The invariant of the cache\<close>

text \<open>What the states of a list accept.\<close>

definition list_acc :: "state list \<Rightarrow> sref list \<Rightarrow> int list \<Rightarrow> bool" where
  "list_acc h l w \<longleftrightarrow> (\<exists>s\<in>set l. acc h (To s) w)"

text \<open>
  A \<open>DState\<close> has a list of labelled states, links to later ones only, and its entry for a character
  leads to one that accepts the words that follow it.
\<close>

definition next_ok :: "state list \<Rightarrow> dstate list \<Rightarrow> nat \<Rightarrow> nat \<Rightarrow> nat \<Rightarrow> bool" where
  "next_ok h ds d ch d' \<longleftrightarrow> d' < length ds \<and>
     (\<forall>w. list_acc h (dl (ds ! d')) w \<longleftrightarrow> list_acc h (dl (ds ! d)) (int ch # w))"

definition dstate_ok :: "state list \<Rightarrow> dstate list \<Rightarrow> nat \<Rightarrow> bool" where
  "dstate_ok h ds d \<longleftrightarrow> list_ok h (dl (ds ! d)) \<and> length (dnext (ds ! d)) = 256 \<and>
     (\<forall>e. dleft (ds ! d) = Some e \<longrightarrow> d < e \<and> e < length ds) \<and>
     (\<forall>e. dright (ds ! d) = Some e \<longrightarrow> d < e \<and> e < length ds) \<and>
     (\<forall>ch<256. \<forall>e. dnext (ds ! d) ! ch = Some e \<longrightarrow> next_ok h ds d ch e)"

definition dfa_ok :: "state list \<Rightarrow> dfa_mem \<Rightarrow> bool" where
  "dfa_ok h m \<longleftrightarrow> sim_ok h (nfa m) \<and> (\<forall>d<length (dstates m). dstate_ok h (dstates m) d) \<and>
     (\<forall>e. alldstates m = Some e \<longrightarrow> e < length (dstates m))"

lemma dstate_okD:
  assumes "dstate_ok h ds d"
  shows "list_ok h (dl (ds ! d))" "length (dnext (ds ! d)) = 256"
    "\<And>e. dleft (ds ! d) = Some e \<Longrightarrow> d < e \<and> e < length ds" "\<And>e. dright (ds ! d) = Some e \<Longrightarrow> d < e \<and> e < length ds"
    "\<And>ch e. ch < 256 \<Longrightarrow> dnext (ds ! d) ! ch = Some e \<Longrightarrow> next_ok h ds d ch e"
  using assms unfolding dstate_ok_def by blast+

lemma dstate_okI:
  assumes "list_ok h (dl (ds ! d))" "length (dnext (ds ! d)) = 256"
    "\<And>e. dleft (ds ! d) = Some e \<Longrightarrow> d < e \<and> e < length ds" "\<And>e. dright (ds ! d) = Some e \<Longrightarrow> d < e \<and> e < length ds"
    "\<And>ch e. ch < 256 \<Longrightarrow> dnext (ds ! d) ! ch = Some e \<Longrightarrow> next_ok h ds d ch e"
  shows "dstate_ok h ds d"
  using assms unfolding dstate_ok_def by blast

lemma dfa_okD:
  assumes "dfa_ok h m"
  shows "sim_ok h (nfa m)" "\<And>d. d < length (dstates m) \<Longrightarrow> dstate_ok h (dstates m) d"
    "\<And>e. alldstates m = Some e \<Longrightarrow> e < length (dstates m)"
  using assms by (auto simp: dfa_ok_def)

lemma membercmp_eq: "inj addr \<Longrightarrow> length l1 = length l2 \<Longrightarrow> membercmp addr l1 l2 = 0 \<Longrightarrow> l1 = l2"
proof (induction addr l1 l2 rule: membercmp.induct)
  case (1 addr s l1 t l2)
  then show ?case by (auto split: if_splits dest: injD)
qed auto

lemma listcmp_eq: "inj addr \<Longrightarrow> listcmp addr l1 l2 = 0 \<Longrightarrow> l1 = l2"
  by (auto simp: listcmp_def split: if_splits intro: membercmp_eq)

lemma list_acc_cong: "set l = set l' \<Longrightarrow> list_acc h l = list_acc h l'"
  by (auto simp: list_acc_def fun_eq_iff)

lemma qsort_set: "mset (qsort l) = mset l \<Longrightarrow> set (qsort l) = set l \<and> length (qsort l) = length l \<and> distinct (qsort l) = distinct l"
  by (metis mset_eq_imp_distinct_iff mset_eq_length mset_eq_setD)

lemma qsort_ok: "mset (qsort l) = mset l \<Longrightarrow> list_ok h (qsort l) = list_ok h l \<and> list_acc h (qsort l) = list_acc h l"
  using qsort_set [of qsort l] list_acc_cong [of "qsort l" l h] by (simp add: list_ok_def)

section \<open>Finding a state\<close>

fun link_ok :: "dfa_mem \<Rightarrow> link \<Rightarrow> bool" where
  "link_ok m Root \<longleftrightarrow> True"
| "link_ok m (Left_Of d) \<longleftrightarrow> d < length (dstates m)"
| "link_ok m (Right_Of d) \<longleftrightarrow> d < length (dstates m)"

fun link_size :: "dfa_mem \<Rightarrow> link \<Rightarrow> nat" where
  "link_size m Root = Suc (length (dstates m))"
| "link_size m (Left_Of d) = length (dstates m) - d"
| "link_size m (Right_Of d) = length (dstates m) - d"

lemma read_link_later:
  assumes "dfa_ok h m" "link_ok m dp" "read_link m dp = Some d"
  shows "d < length (dstates m)" "link_size m (Left_Of d) < link_size m dp" "link_size m (Right_Of d) < link_size m dp"
proof -
  have "d < length (dstates m) \<and> link_size m (Left_Of d) < link_size m dp"
  proof (cases dp)
    case Root
    then show ?thesis using assms(3) dfa_okD(3) [OF assms(1)] by simp
  next
    case (Left_Of e)
    then show ?thesis using assms(2,3) dstate_okD(3) [OF dfa_okD(2) [OF assms(1)], of e d] by auto
  next
    case (Right_Of e)
    then show ?thesis using assms(2,3) dstate_okD(4) [OF dfa_okD(2) [OF assms(1)], of e d] by auto
  qed
  then show "d < length (dstates m)" "link_size m (Left_Of d) < link_size m dp" "link_size m (Right_Of d) < link_size m dp"
    by auto
qed

lemma find_dstate_total:
  assumes "dfa_ok h m" "inj addr"
  shows "link_ok m dp \<Longrightarrow> \<exists>r. find_dstate addr m l dp = Some r \<and>
    (case r of Inl d \<Rightarrow> d < length (dstates m) \<and> dl (dstates m ! d) = l | Inr dp' \<Rightarrow> link_ok m dp')"
proof (induction "link_size m dp" arbitrary: dp rule: less_induct)
  case less
  show ?case
  proof (cases "read_link m dp")
    case None
    then show ?thesis using less.prems by (simp add: find_dstate.simps)
  next
    case (Some d)
    note later = read_link_later [OF assms(1) less.prems Some]
    let ?i = "listcmp addr l (dl (dstates m ! d))"
    consider "?i < 0" | "?i > 0" | "?i = 0" by linarith
    then show ?thesis
    proof cases
      case 1
      then show ?thesis using less.hyps [OF later(2)] later(1) by (subst find_dstate.simps) (simp add: Some Let_def)
    next
      case 2
      then show ?thesis using less.hyps [OF later(3)] later(1) by (subst find_dstate.simps) (simp add: Some Let_def)
    next
      case 3
      then show ?thesis using listcmp_eq [OF assms(2) 3] later(1) by (subst find_dstate.simps) (simp add: Some Let_def)
    qed
  qed
qed

section \<open>Adding a state\<close>

lemma next_ok_append: "next_ok h ds d ch e \<Longrightarrow> d < length ds \<Longrightarrow> next_ok h (ds @ xs) d ch e"
  by (simp add: next_ok_def nth_append)

lemma next_ok_cong: "length ds' = length ds \<Longrightarrow> (\<And>i. dl (ds' ! i) = dl (ds ! i)) \<Longrightarrow> next_ok h ds' d ch e = next_ok h ds d ch e"
  by (simp add: next_ok_def)

lemma dstate_ok_append:
  assumes "dstate_ok h ds d" "d < length ds"
  shows "dstate_ok h (ds @ xs) d"
proof (rule dstate_okI)
  note d = dstate_okD [OF assms(1)]
  have [simp]: "(ds @ xs) ! d = ds ! d" using assms(2) by (simp add: nth_append)
  show "list_ok h (dl ((ds @ xs) ! d))" "length (dnext ((ds @ xs) ! d)) = 256" using d(1,2) by simp_all
  show "d < e \<and> e < length (ds @ xs)" if "dleft ((ds @ xs) ! d) = Some e" for e using d(3) [of e] that by simp
  show "d < e \<and> e < length (ds @ xs)" if "dright ((ds @ xs) ! d) = Some e" for e using d(4) [of e] that by simp
  show "next_ok h (ds @ xs) d ch e" if "ch < 256" "dnext ((ds @ xs) ! d) ! ch = Some e" for ch e
    using d(5) [OF that(1), of e] that(2) assms(2) by (simp add: next_ok_append)
qed

lemma dstate_ok_new:
  assumes "list_ok h l"
  shows "dstate_ok h (ds @ [\<lparr>dl = l, dnext = replicate 256 None, dleft = None, dright = None\<rparr>]) (length ds)"
  by (rule dstate_okI) (simp_all only: nth_append_length dstate.simps length_replicate nth_replicate option.distinct assms)

lemma write_link_simps [simp]:
  "nfa (write_link m dp v) = nfa m" "length (dstates (write_link m dp v)) = length (dstates m)"
  "dl (dstates (write_link m dp v) ! i) = dl (dstates m ! i)"
  "dnext (dstates (write_link m dp v) ! i) = dnext (dstates m ! i)"
  by (cases dp; simp add: nth_update_field [of dl] nth_update_field [of dnext])+

lemma dfa_ok_write_link:
  assumes "dfa_ok h m" "e < length (dstates m)" "\<And>d. dp = Left_Of d \<or> dp = Right_Of d \<Longrightarrow> d < e"
  shows "dfa_ok h (write_link m dp (Some e))"
proof -
  have "dstate_ok h (dstates (write_link m dp (Some e))) d" if "d < length (dstates m)" for d
  proof -
    have d: "dstate_ok h (dstates m) d" using assms(1) that by (simp add: dfa_ok_def)
    have "next_ok h (dstates (write_link m dp (Some e))) d ch e' = next_ok h (dstates m) d ch e'" for ch e'
      by (rule next_ok_cong) simp_all
    moreover have "dleft (dstates (write_link m dp (Some e)) ! d) = (if dp = Left_Of d then Some e else dleft (dstates m ! d))"
      using that by (cases "dp = Left_Of d"; cases dp) (simp_all add: nth_update_field [of dleft])
    moreover have "dright (dstates (write_link m dp (Some e)) ! d) = (if dp = Right_Of d then Some e else dright (dstates m ! d))"
      using that by (cases "dp = Right_Of d"; cases dp) (simp_all add: nth_update_field [of dright])
    ultimately show ?thesis
      using dstate_okD [OF d] assms(2,3) by (intro dstate_okI) (simp_all split: if_splits)
  qed
  moreover have "e' < length (dstates m)" if "alldstates (write_link m dp (Some e)) = Some e'" for e'
    using that assms(1,2) by (cases dp) (auto simp: dfa_ok_def)
  ultimately show ?thesis using assms(1) by (auto simp: dfa_ok_def)
qed

lemma dstate_of_ok:
  assumes "dfa_ok h m" "inj addr" "list_ok h l" "\<And>l. mset (qsort l) = mset l"
  shows "\<exists>m' d. dstate_of addr qsort m l = Some (m', d) \<and> dfa_ok h m' \<and> nfa m' = nfa m \<and> d < length (dstates m') \<and>
    list_acc h (dl (dstates m' ! d)) = list_acc h l \<and>
    length (dstates m) \<le> length (dstates m') \<and> (\<forall>e<length (dstates m). dl (dstates m' ! e) = dl (dstates m ! e))"
proof -
  note q = qsort_ok [of qsort l h, OF assms(4)]
  obtain r where r: "find_dstate addr m (qsort l) Root = Some r"
    "case r of Inl d \<Rightarrow> d < length (dstates m) \<and> dl (dstates m ! d) = qsort l | Inr dp' \<Rightarrow> link_ok m dp'"
    using find_dstate_total [OF assms(1,2), of Root] by fastforce
  show ?thesis
  proof (cases r)
    case (Inl d)
    then show ?thesis using r assms(1) q by (simp add: dstate_of_def)
  next
    case (Inr dp)
    let ?m = "m\<lparr>dstates := dstates m @ [\<lparr>dl = qsort l, dnext = replicate 256 None, dleft = None, dright = None\<rparr>]\<rparr>"
    have m: "dfa_ok h ?m"
      unfolding dfa_ok_def
    proof (intro conjI allI impI)
      show "sim_ok h (nfa ?m)" using assms(1) by (simp add: dfa_ok_def)
      fix d assume "d < length (dstates ?m)"
      then show "dstate_ok h (dstates ?m) d"
        using assms(1,3) dstate_ok_append [of h "dstates m" d] dstate_ok_new [of h "qsort l" "dstates m"] q
        by (cases "d = length (dstates m)") (auto simp: dfa_ok_def)
    next
      fix e assume "alldstates ?m = Some e"
      then show "e < length (dstates ?m)" using assms(1) by (simp add: dfa_ok_def less_SucI)
    qed
    have dp: "link_ok m dp" using r(2) Inr by simp
    then have "dfa_ok h (write_link ?m dp (Some (length (dstates m))))"
      by (intro dfa_ok_write_link [OF m]) auto
    moreover have "dstate_of addr qsort m l = Some (write_link ?m dp (Some (length (dstates m))), length (dstates m))"
      using r(1) Inr by (simp add: dstate_of_def Let_def)
    ultimately show ?thesis using q by (simp add: nth_append)
  qed
qed

section \<open>Matching\<close>

lemma set_next_ok:
  assumes "dfa_ok h m" "d < length (dstates m)" "next_ok h (dstates m) d ch e"
  shows "dfa_ok h (set_next m d ch e)"
proof -
  let ?ds = "dstates (set_next m d ch e)"
  have len: "length ?ds = length (dstates m)" by (simp add: set_next_def)
  have dl: "dl (?ds ! i) = dl (dstates m ! i)" for i
    by (simp add: set_next_def nth_update_field [of dl])
  have links: "dleft (?ds ! i) = dleft (dstates m ! i)" "dright (?ds ! i) = dright (dstates m ! i)"
    "dnext (?ds ! i) = (if i = d then (dnext (dstates m ! d))[ch := Some e] else dnext (dstates m ! i))"
    if "i < length (dstates m)" for i
    using that by (simp_all add: set_next_def nth_update_field [of dleft] nth_update_field [of dright] nth_list_update)
  have "dstate_ok h ?ds i" if i: "i < length (dstates m)" for i
  proof -
    note ok = dstate_okD [OF dfa_okD(2) [OF assms(1) i]]
    have "next_ok h (dstates m) i c' e'" if "c' < 256" "dnext (?ds ! i) ! c' = Some e'" for c' e'
      using that ok(2,5) assms(3) by (cases "i = d"; cases "c' = ch") (auto simp: links assms(2) i)
    moreover have "length (dnext (?ds ! i)) = 256" using ok(2) by (cases "i = d") (simp_all add: links i assms(2))
    ultimately show ?thesis
      using ok(1,3,4) by (intro dstate_okI) (simp_all add: dl links(1,2) [OF i] len next_ok_cong [OF len dl])
  qed
  then show ?thesis using assms(1) by (simp add: dfa_ok_def len) (simp add: set_next_def)
qed

lemma cached_next_ok:
  assumes "dfa_ok h m" "d < length (dstates m)" "inj addr" "\<And>l. mset (qsort l) = mset l" "listid (nfa m) < INT_MAX"
  shows "\<exists>m' d'. cached_next addr qsort m d ch = Some (m', d') \<and> dfa_ok h m' \<and> listid (nfa m') = listid (nfa m) + 1 \<and>
    next_ok h (dstates m') d (unat ch) d' \<and> (\<forall>e<length (dstates m). dl (dstates m' ! e) = dl (dstates m ! e))"
proof -
  have "uint ch \<noteq> Match" using uint_lt2p [of ch] by (simp add: Match_def)
  moreover have "list_ok h (dl (dstates m ! d))" "sim_ok h (nfa m)" using dfa_okD [OF assms(1)] dstate_okD(1) assms(2) by blast+
  ultimately obtain n l where n: "step (nfa m) (dl (dstates m ! d)) (uint ch) = Some (n, l)" "sim_ok h n"
    "listid n = listid (nfa m) + 1" "list_ok h l" "\<And>w. list_acc h l w \<longleftrightarrow> list_acc h (dl (dstates m ! d)) (uint ch # w)"
    using step_fills [of h "nfa m"] assms(5) unfolding list_acc_def by blast
  have "dfa_ok h (m\<lparr>nfa := n\<rparr>)" using assms(1) n(2) by (simp add: dfa_ok_def)
  then obtain m1 d' where m1: "dstate_of addr qsort (m\<lparr>nfa := n\<rparr>) l = Some (m1, d')" "dfa_ok h m1" "nfa m1 = n"
    "d' < length (dstates m1)" "list_acc h (dl (dstates m1 ! d')) = list_acc h l"
    "length (dstates m) \<le> length (dstates m1)" "\<forall>e<length (dstates m). dl (dstates m1 ! e) = dl (dstates m ! e)"
    using dstate_of_ok [OF _ assms(3) n(4) assms(4)] by fastforce
  have nx: "next_ok h (dstates m1) d (unat ch) d'"
    using m1(4,5,7) n(5) assms(2) by (simp add: next_ok_def)
  have d: "d < length (dstates m1)" using assms(2) m1(6) by simp
  have dl: "dl (dstates (set_next m1 d (unat ch) d') ! e) = dl (dstates m1 ! e)" for e
    by (simp add: set_next_def nth_update_field [of dl])
  have "next_ok h (dstates (set_next m1 d (unat ch) d')) d (unat ch) d'"
    using nx by (subst next_ok_cong [OF _ dl]) (simp_all add: set_next_def)
  moreover have "dfa_ok h (set_next m1 d (unat ch) d')" by (rule set_next_ok [OF m1(2) d nx])
  moreover have "cached_next addr qsort m d ch = Some (set_next m1 d (unat ch) d', d')"
    using n(1) m1(1) by (simp add: cached_next_def)
  moreover have "nfa (set_next m1 d (unat ch) d') = n" using m1(3) by (simp add: set_next_def)
  ultimately show ?thesis using n(3) m1(7) dl by auto
qed

lemma cached_loop_ok:
  assumes "inj addr" "\<And>l. mset (qsort l) = mset l"
  shows "dfa_ok h m \<Longrightarrow> d < length (dstates m) \<Longrightarrow> listid (nfa m) + int (length s) \<le> INT_MAX \<Longrightarrow>
    \<exists>m' d'. cached_loop addr qsort m d s = Some (m', d') \<and> dfa_ok h m' \<and> d' < length (dstates m') \<and>
      listid (nfa m') \<le> listid (nfa m) + int (length s) \<and>
      (list_acc h (dl (dstates m' ! d')) [] \<longleftrightarrow> list_acc h (dl (dstates m ! d)) (map uint s))"
proof (induction s arbitrary: m d)
  case (Cons ch s)
  show ?case
  proof (cases "dnext (dstates m ! d) ! unat ch")
    case (Some e)
    then have "next_ok h (dstates m) d (unat ch) e"
      using dstate_okD(5) [OF dfa_okD(2) [OF Cons.prems(1,2)] unat8_less] by blast
    then have e: "e < length (dstates m)" "\<And>w. list_acc h (dl (dstates m ! e)) w \<longleftrightarrow> list_acc h (dl (dstates m ! d)) (uint ch # w)"
      by (auto simp: next_ok_def)
    then show ?thesis using Cons.IH [OF Cons.prems(1) e(1)] Cons.prems(3) Some by fastforce
  next
    case None
    have "listid (nfa m) < INT_MAX" using Cons.prems(3) by simp
    then obtain m1 e where e: "cached_next addr qsort m d ch = Some (m1, e)" "dfa_ok h m1" "listid (nfa m1) = listid (nfa m) + 1"
      "next_ok h (dstates m1) d (unat ch) e" "\<forall>e<length (dstates m). dl (dstates m1 ! e) = dl (dstates m ! e)"
      using cached_next_ok [OF Cons.prems(1,2) assms] by blast
    then have "e < length (dstates m1)" "\<And>w. list_acc h (dl (dstates m1 ! e)) w \<longleftrightarrow> list_acc h (dl (dstates m ! d)) (uint ch # w)"
      using Cons.prems(2) by (auto simp: next_ok_def)
    then show ?thesis using Cons.IH [OF e(2), of e] Cons.prems(3) None e(1,3) by fastforce
  qed
qed simp

lemma cached_start_ok:
  assumes "inj addr" "\<And>l. mset (qsort l) = mset l" "dfa_ok h m" "sref_ok (length h) start" "listid (nfa m) < INT_MAX"
  shows "\<exists>m1 d. cached_start addr qsort m start = Some (m1, d) \<and> dfa_ok h m1 \<and> d < length (dstates m1) \<and>
    listid (nfa m1) = listid (nfa m) + 1 \<and> (\<forall>w. list_acc h (dl (dstates m1 ! d)) w \<longleftrightarrow> acc h (To start) w)"
proof -
  have "sim_ok h (nfa m)" using assms(3) by (simp add: dfa_ok_def)
  then obtain n l where n: "startlist (nfa m) start = Some (n, l)" "fills h (nfa m) {To start} n l"
    using startlist_fills [OF _ assms(5,4)] by blast
  then have l: "sim_ok h n" "listid n = listid (nfa m) + 1" "list_ok h l" "\<And>w. list_acc h l w \<longleftrightarrow> acc h (To start) w"
    by (auto simp: fills_def list_acc_def)
  have "dfa_ok h (m\<lparr>nfa := n\<rparr>)" using assms(3) l(1) by (simp add: dfa_ok_def)
  then obtain m1 d where "dstate_of addr qsort (m\<lparr>nfa := n\<rparr>) l = Some (m1, d)" "dfa_ok h m1" "nfa m1 = n"
    "d < length (dstates m1)" "list_acc h (dl (dstates m1 ! d)) = list_acc h l"
    using dstate_of_ok [OF _ assms(1) l(3) assms(2)] by fastforce
  then show ?thesis using n(1) l(2,4) by (auto simp: cached_start_def)
qed

lemma cached_match_correct:
  assumes "inj addr" "\<And>l. mset (qsort l) = mset l" "dfa_ok h m" "sref_ok (length h) start"
    "listid (nfa m) + int (length s) < INT_MAX"
  shows "\<exists>m1 d m2. cached_start addr qsort m start = Some (m1, d) \<and>
    cached_match addr qsort m1 d s = Some (m2, acc h (To start) (map uint s)) \<and> dfa_ok h m2 \<and>
    listid (nfa m2) \<le> listid (nfa m) + int (length s) + 1"
proof -
  obtain m1 d where m1: "cached_start addr qsort m start = Some (m1, d)" "dfa_ok h m1" "d < length (dstates m1)"
    "listid (nfa m1) = listid (nfa m) + 1" "\<And>w. list_acc h (dl (dstates m1 ! d)) w \<longleftrightarrow> acc h (To start) w"
    using cached_start_ok [OF assms(1-4)] assms(5) by fastforce
  have "listid (nfa m1) + int (length s) \<le> INT_MAX" using assms(5) m1(4) by simp
  then obtain m2 d2 where m2: "cached_loop addr qsort m1 d s = Some (m2, d2)" "dfa_ok h m2" "d2 < length (dstates m2)"
    "listid (nfa m2) \<le> listid (nfa m1) + int (length s)"
    "list_acc h (dl (dstates m2 ! d2)) [] \<longleftrightarrow> list_acc h (dl (dstates m1 ! d)) (map uint s)"
    using cached_loop_ok [OF assms(1,2) m1(2,3)] by blast
  have "ismatch (dl (dstates m2 ! d2)) \<longleftrightarrow> acc h (To start) (map uint s)"
    using ismatch_acc [OF dstate_okD(1) [OF dfa_okD(2) [OF m2(2,3)]]] m2(5) m1(5)
    by (simp add: list_acc_def)
  then show ?thesis using m1(1,4) m2 by (simp add: cached_match_def)
qed

end
