(* ===== verification/Regex_Dump.thy ===== *)
theory Regex_Dump
  imports Regex_Dfa "HOL-Library.Sublist"
begin

text \<open>
  The program \<open>c-study/dfa-about/dfa.c\<close> with what it prints. Its \<open>addstate\<close> prints all the elements of the arrays \<open>l1.s\<close> and
  \<open>l2.s\<close> that are not NULL, also those that were never written: what fresh memory holds is an argument of the program.
\<close>

section \<open>The operations\<close>

text \<open>An element of an array: NULL, a pointer to a state, or another value, which must not be followed.\<close>

datatype entry = Null_Entry | State_Entry sref | Wild_Entry

text \<open>The output: the postfix string; the number of an element of \<open>l1\<close> (\<open>False\<close>) or \<open>l2\<close> (\<open>True\<close>); the fields of a state; a
  string that matches.\<close>

datatype dfa_out = Post_Line "uint8_t list" | Entry_Line bool nat | State_Lines int outval outval int | String_Line "uint8_t list"

record dfa_prog =
  tab :: dfa_mem
  l1_s :: "entry list"
  l1_n :: nat
  l2_s :: "entry list"
  dfa_stdout :: "dfa_out list"

definition set_nfa :: "dfa_prog \<Rightarrow> nfa_mem \<Rightarrow> dfa_prog" where
  "set_nfa M m = M\<lparr>tab := (tab M)\<lparr>nfa := m\<rparr>\<rparr>"

fun print_one_state :: "nfa_mem \<Rightarrow> entry \<Rightarrow> dfa_out list option" where
  "print_one_state m (State_Entry s) =
     (if \<not> sref_ok (length (heap m)) s then None
      else if st_c (heap m) s = 0 then Some []
      else Some [State_Lines (st_c (heap m) s) (st_out (heap m) s) (st_out1 (heap m) s) (st_lastlist m s)])"
| "print_one_state m _ = None"

definition print_entry :: "nfa_mem \<Rightarrow> bool \<Rightarrow> nat \<Rightarrow> entry \<Rightarrow> dfa_out list option" where
  "print_entry m b j e = (if e \<noteq> Null_Entry then do { ls \<leftarrow> print_one_state m e; Some (Entry_Line b j # ls) } else Some [])"

fun print_lists :: "nfa_mem \<Rightarrow> entry list \<Rightarrow> entry list \<Rightarrow> nat list \<Rightarrow> dfa_out list option" where
  "print_lists m es1 es2 [] = Some []"
| "print_lists m es1 es2 (j # js) =
     (if j < length es1 \<and> j < length es2
      then do {
        a \<leftarrow> print_entry m False j (es1 ! j);
        b \<leftarrow> print_entry m True j (es2 ! j);
        rest \<leftarrow> print_lists m es1 es2 js;
        Some (a @ b @ rest)
      }
      else None)"

text \<open>The end of \<open>addstate\<close>: a state is stored in \<open>l1\<close>, and the arrays are printed. All calls have \<open>l1\<close> as the list.\<close>

definition push_state :: "dfa_prog \<Rightarrow> sref \<Rightarrow> dfa_prog option" where
  "push_state M s =
     (if l1_n M < length (l1_s M)
      then let M = M\<lparr>l1_s := (l1_s M)[l1_n M := State_Entry s], l1_n := l1_n M + 1\<rparr>; m = nfa (tab M) in do {
        ls \<leftarrow> print_lists m (l1_s M) (l2_s M) [0..<length (heap m)];
        Some (M\<lparr>dfa_stdout := dfa_stdout M @ ls\<rparr>)
      }
      else None)"

partial_function (option) dfa_addstate :: "dfa_prog \<Rightarrow> outval \<Rightarrow> dfa_prog option" where
  "dfa_addstate M p =
     (case p of
        NULL \<Rightarrow> Some M
      | Slot _ _ \<Rightarrow> None
      | To s \<Rightarrow>
          let m = nfa (tab M) in
          if st_lastlist m s = listid m then Some M
          else
            let m = set_lastlist m s (listid m); M = set_nfa M m in
            if st_c (heap m) s = Split
            then do {
              M \<leftarrow> dfa_addstate M (st_out (heap m) s);
              dfa_addstate M (st_out1 (heap (nfa (tab M))) s)
            }
            else push_state M s)"

definition dfa_startlist :: "dfa_prog \<Rightarrow> sref \<Rightarrow> dfa_prog option" where
  "dfa_startlist M start = do {
     m \<leftarrow> next_listid (nfa (tab M));
     dfa_addstate ((set_nfa M m)\<lparr>l1_n := 0\<rparr>) (To start)
   }"

fun dfa_step_loop :: "dfa_prog \<Rightarrow> sref list \<Rightarrow> int \<Rightarrow> dfa_prog option" where
  "dfa_step_loop M [] ch = Some M"
| "dfa_step_loop M (s # clist) ch =
     (if st_c (heap (nfa (tab M))) s = ch
      then do { M \<leftarrow> dfa_addstate M (st_out (heap (nfa (tab M))) s); dfa_step_loop M clist ch }
      else dfa_step_loop M clist ch)"

definition dfa_step :: "dfa_prog \<Rightarrow> sref list \<Rightarrow> int \<Rightarrow> dfa_prog option" where
  "dfa_step M clist ch = do {
     m \<leftarrow> next_listid (nfa (tab M));
     dfa_step_loop ((set_nfa M m)\<lparr>l1_n := 0\<rparr>) clist ch
   }"

text \<open>\<open>dstate(&l1)\<close>: \<open>qsort\<close> permutes the elements in their array.\<close>

fun entry_states :: "entry list \<Rightarrow> sref list option" where
  "entry_states [] = Some []"
| "entry_states (State_Entry s # es) = map_option (Cons s) (entry_states es)"
| "entry_states (_ # es) = None"

definition dfa_dstate :: "(sref \<Rightarrow> nat) \<Rightarrow> (sref list \<Rightarrow> sref list) \<Rightarrow> dfa_prog \<Rightarrow> (dfa_prog \<times> nat) option" where
  "dfa_dstate addr qsort M = do {
     l \<leftarrow> entry_states (take (l1_n M) (l1_s M));
     (t, d) \<leftarrow> dstate_of addr qsort (tab M) l;
     Some (M\<lparr>tab := t, l1_s := map State_Entry (qsort l) @ drop (l1_n M) (l1_s M)\<rparr>, d)
   }"

definition startdstate :: "(sref \<Rightarrow> nat) \<Rightarrow> (sref list \<Rightarrow> sref list) \<Rightarrow> dfa_prog \<Rightarrow> sref \<Rightarrow> (dfa_prog \<times> nat) option" where
  "startdstate addr qsort M start = do { M \<leftarrow> dfa_startlist M start; dfa_dstate addr qsort M }"

definition nextstate :: "(sref \<Rightarrow> nat) \<Rightarrow> (sref list \<Rightarrow> sref list) \<Rightarrow> dfa_prog \<Rightarrow> nat \<Rightarrow> uint8_t \<Rightarrow> (dfa_prog \<times> nat) option" where
  "nextstate addr qsort M d ch = do {
     M \<leftarrow> dfa_step M (dl (dstates (tab M) ! d)) (uint ch);
     (M, d') \<leftarrow> dfa_dstate addr qsort M;
     Some (M\<lparr>tab := set_next (tab M) d (unat ch) d'\<rparr>, d')
   }"

fun dfa_match_loop :: "(sref \<Rightarrow> nat) \<Rightarrow> (sref list \<Rightarrow> sref list) \<Rightarrow> dfa_prog \<Rightarrow> nat \<Rightarrow> uint8_t list \<Rightarrow> (dfa_prog \<times> nat) option" where
  "dfa_match_loop addr qsort M d [] = Some (M, d)"
| "dfa_match_loop addr qsort M d (ch # s) =
     (case dnext (dstates (tab M) ! d) ! unat ch of
        Some d' \<Rightarrow> dfa_match_loop addr qsort M d' s
      | None \<Rightarrow> do { (M, d') \<leftarrow> nextstate addr qsort M d ch; dfa_match_loop addr qsort M d' s })"

definition dfa_match :: "(sref \<Rightarrow> nat) \<Rightarrow> (sref list \<Rightarrow> sref list) \<Rightarrow> dfa_prog \<Rightarrow> nat \<Rightarrow> uint8_t list \<Rightarrow> (dfa_prog \<times> bool) option" where
  "dfa_match addr qsort M start s = do {
     (M, d) \<leftarrow> dfa_match_loop addr qsort M start s;
     Some (M, ismatch (dl (dstates (tab M) ! d)))
   }"

fun dfa_main_loop :: "(sref \<Rightarrow> nat) \<Rightarrow> (sref list \<Rightarrow> sref list) \<Rightarrow> dfa_prog \<Rightarrow> sref \<Rightarrow> uint8_t list list \<Rightarrow> dfa_prog option" where
  "dfa_main_loop addr qsort M start [] = Some M"
| "dfa_main_loop addr qsort M start (s # ss) = do {
     (M, d) \<leftarrow> startdstate addr qsort M start;
     (M, b) \<leftarrow> dfa_match addr qsort M d s;
     dfa_main_loop addr qsort (if b then M\<lparr>dfa_stdout := dfa_stdout M @ [String_Line s]\<rparr> else M) start ss
   }"

text \<open>
  The exit status and the output. \<open>junk1\<close> and \<open>junk2\<close> are what the new arrays hold; passing NULL for \<open>%s\<close>, which happens when
  \<open>re2post\<close> fails, is undefined.
\<close>

definition dfa_main ::
    "(sref \<Rightarrow> nat) \<Rightarrow> (sref list \<Rightarrow> sref list) \<Rightarrow> (nat \<Rightarrow> entry) \<Rightarrow> (nat \<Rightarrow> entry) \<Rightarrow> uint8_t list list \<Rightarrow> (int \<times> dfa_out list) option" where
  "dfa_main addr qsort junk1 junk2 args =
     (if length args < 2 then Some (1, [])
      else do {
        post \<leftarrow> re2post (args ! 0);
        case post of
          None \<Rightarrow> None
        | Some post \<Rightarrow> do {
            (start, h) \<leftarrow> post2nfa (Some post);
            case start of
              None \<Rightarrow> Some (1, [Post_Line post])
            | Some start \<Rightarrow> do {
                M \<leftarrow> dfa_main_loop addr qsort
                  \<lparr>tab = \<lparr>nfa = \<lparr>heap = h, match_lastlist = 0, listid = 0\<rparr>, dstates = [], alldstates = None\<rparr>,
                    l1_s = map junk1 [0..<length h], l1_n = 0, l2_s = map junk2 [0..<length h], dfa_stdout = [Post_Line post]\<rparr>
                  start (drop 1 args);
                Some (0, dfa_stdout M)
              }
          }
      })"

section \<open>What the elements of the arrays may be\<close>

fun entry_ok :: "nat \<Rightarrow> entry \<Rightarrow> bool" where
  "entry_ok k Null_Entry \<longleftrightarrow> True"
| "entry_ok k (State_Entry s) \<longleftrightarrow> sref_ok k s"
| "entry_ok k Wild_Entry \<longleftrightarrow> False"

text \<open>The array \<open>l1.s\<close> begins with the states of the list, and nothing in the arrays is wild.\<close>

definition lists_at :: "nat \<Rightarrow> dfa_prog \<Rightarrow> sref list \<Rightarrow> bool" where
  "lists_at k M l \<longleftrightarrow> l1_n M = length l \<and> length (l1_s M) = k \<and> length (l2_s M) = k \<and> length l \<le> k \<and> take (length l) (l1_s M) = map State_Entry l \<and>
     (\<forall>e\<in>set (l1_s M) \<union> set (l2_s M). entry_ok k e)"

text \<open>The output without the contents of the arrays.\<close>

fun is_dump :: "dfa_out \<Rightarrow> bool" where
  "is_dump (Entry_Line b j) \<longleftrightarrow> True"
| "is_dump (State_Lines ch a b n) \<longleftrightarrow> True"
| "is_dump _ \<longleftrightarrow> False"

definition shown :: "dfa_prog \<Rightarrow> dfa_out list" where
  "shown M = filter (\<lambda>x. \<not> is_dump x) (dfa_stdout M)"

lemma print_entry_ok: "entry_ok (length (heap m)) e \<Longrightarrow> \<exists>ls. print_entry m b j e = Some ls \<and> filter (\<lambda>x. \<not> is_dump x) ls = []"
  by (cases e) (auto simp: print_entry_def)

lemma print_lists_ok:
  assumes "\<forall>e\<in>set es1 \<union> set es2. entry_ok (length (heap m)) e"
  shows "\<forall>j\<in>set js. j < length es1 \<and> j < length es2 \<Longrightarrow> \<exists>ls. print_lists m es1 es2 js = Some ls \<and> filter (\<lambda>x. \<not> is_dump x) ls = []"
proof (induction js)
  case (Cons j js)
  have "es1 ! j \<in> set es1" "es2 ! j \<in> set es2" using Cons.prems by simp_all
  then obtain a b where "print_entry m False j (es1 ! j) = Some a" "filter (\<lambda>x. \<not> is_dump x) a = []"
    "print_entry m True j (es2 ! j) = Some b" "filter (\<lambda>x. \<not> is_dump x) b = []"
    using print_entry_ok [of m "es1 ! j" False j] print_entry_ok [of m "es2 ! j" True j] assms by blast
  then show ?case using Cons by auto
qed simp

lemma push_state_ok:
  assumes "lists_at k M l" "length l < k" "sref_ok k s" "length (heap (nfa (tab M))) = k"
  shows "\<exists>M'. push_state M s = Some M' \<and> tab M' = tab M \<and> lists_at k M' (l @ [s]) \<and> shown M' = shown M"
proof -
  let ?es = "(l1_s M)[l1_n M := State_Entry s]"
  note L = assms(1) [unfolded lists_at_def]
  have ok: "\<forall>e\<in>set ?es \<union> set (l2_s M). entry_ok k e"
    using L assms(3) set_update_subset_insert [of "l1_s M" "l1_n M" "State_Entry s"] by auto
  obtain ls where ls: "print_lists (nfa (tab M)) ?es (l2_s M) [0..<k] = Some ls" "filter (\<lambda>x. \<not> is_dump x) ls = []"
    using print_lists_ok [of ?es "l2_s M" "nfa (tab M)" "[0..<k]"] ok L assms(4) by auto
  have "take (length (l @ [s])) ?es = map State_Entry (l @ [s])"
    using L assms(2) by (simp add: take_Suc_conv_app_nth)
  then show ?thesis using ls ok L assms(2,4) by (auto simp: push_state_def Let_def lists_at_def shown_def)
qed

lemma tab_set_nfa [simp]:
  "tab (set_nfa M m) = (tab M)\<lparr>nfa := m\<rparr>" "shown (set_nfa M m) = shown M" "lists_at k (set_nfa M m) l = lists_at k M l"
  "l2_s (set_nfa M m) = l2_s M" "dfa_stdout (set_nfa M m) = dfa_stdout M"
  by (simp_all add: set_nfa_def shown_def lists_at_def)

section \<open>The lists are those of the simulation\<close>

text \<open>How a run of the program follows one of the simulation on lists.\<close>

definition follows :: "state list \<Rightarrow> dfa_prog \<Rightarrow> nfa_mem \<Rightarrow> sref list \<Rightarrow> dfa_prog \<Rightarrow> bool" where
  "follows h M m l M' \<longleftrightarrow> tab M' = (tab M)\<lparr>nfa := m\<rparr> \<and> lists_at (length h) M' l \<and> shown M' = shown M \<and> same_shape h (heap m)"

lemma follows_trans: "follows h M m l M' \<Longrightarrow> follows h M' m' l' M'' \<Longrightarrow> follows h M m' l' M''"
  by (simp add: follows_def)

lemma dfa_addstate_follows:
  assumes h: "arrows_ok h" and r: "addstate m l p = Some r"
  shows "\<forall>M. same_shape h (heap m) \<and> out_ok (length h) p \<and> nfa (tab M) = m \<and> lists_at (length h) M l \<longrightarrow>
    (\<exists>M'. dfa_addstate M p = Some M' \<and> follows h M (fst r) (snd r) M')"
proof (rule addstate.raw_induct [where P = "\<lambda>m l p r. \<forall>M. same_shape h (heap m) \<and> out_ok (length h) p \<and> nfa (tab M) = m \<and> lists_at (length h) M l \<longrightarrow>
    (\<exists>M'. dfa_addstate M p = Some M' \<and> follows h M (fst r) (snd r) M')", OF _ r], intro allI impI)
  fix f m l p r M
  assume IH: "\<And>m l p r. f m l p = Some r \<Longrightarrow> \<forall>M. same_shape h (heap m) \<and> out_ok (length h) p \<and> nfa (tab M) = m \<and> lists_at (length h) M l \<longrightarrow>
      (\<exists>M'. dfa_addstate M p = Some M' \<and> follows h M (fst r) (snd r) M')"
    and body: "(case p of NULL \<Rightarrow> Some (m, l) | To s \<Rightarrow>
          if st_lastlist m s = listid m then Some (m, l)
          else let m = set_lastlist m s (listid m) in
            if st_c (heap m) s = Split
            then f m l (st_out (heap m) s) \<bind> (\<lambda>(m, l). f m l (st_out1 (heap m) s))
            else if length l < length (heap m) then Some (m, l @ [s]) else None
        | Slot x xa \<Rightarrow> None) = Some r"
    and M: "same_shape h (heap m) \<and> out_ok (length h) p \<and> nfa (tab M) = m \<and> lists_at (length h) M l"
  show "\<exists>M'. dfa_addstate M p = Some M' \<and> follows h M (fst r) (snd r) M'"
  proof (cases p)
    case NULL
    then show ?thesis using body M by (auto simp: dfa_addstate.simps follows_def)
  next
    case (Slot i b)
    then show ?thesis using body by simp
  next
    case (To s)
    let ?m = "set_lastlist m s (listid m)"
    have sh: "same_shape h (heap ?m)" using M same_shape_trans set_lastlist_shape by blast
    note shD = same_shapeD [OF sh]
    have s: "sref_ok (length h) s" using M To by simp
    note out = arrows_okD [OF h s]
    consider "st_lastlist m s = listid m" | "st_lastlist m s \<noteq> listid m" "st_c (heap ?m) s \<noteq> Split"
      | "st_lastlist m s \<noteq> listid m" "st_c (heap ?m) s = Split" by blast
    then show ?thesis
    proof cases
      case 1
      then show ?thesis using body M To by (auto simp: dfa_addstate.simps follows_def)
    next
      case 2
      then have r: "r = (?m, l @ [s])" "length l < length h" using body To shD(1) by (auto split: if_splits)
      have "lists_at (length h) (set_nfa M ?m) l" using M by simp
      then obtain M' where "push_state (set_nfa M ?m) s = Some M'" "tab M' = (tab M)\<lparr>nfa := ?m\<rparr>" "lists_at (length h) M' (l @ [s])" "shown M' = shown M"
        using push_state_ok [of "length h" "set_nfa M ?m" l s] r(2) s shD(1) by auto
      then show ?thesis using 2 M To sh r(1) by (subst dfa_addstate.simps) (auto simp: Let_def follows_def)
    next
      case 3
      then obtain m1 l1 where 1: "f ?m l (st_out (heap ?m) s) = Some (m1, l1)" "f m1 l1 (st_out1 (heap m1) s) = Some r"
        using body To by (auto simp: Let_def split: bind_splits)
      have o1: "out_ok (length h) (st_out (heap ?m) s)" using out by (simp add: shD)
      obtain M1 where M1: "dfa_addstate (set_nfa M ?m) (st_out (heap ?m) s) = Some M1" "follows h (set_nfa M ?m) m1 l1 M1"
        using IH [OF 1(1), THEN spec, of "set_nfa M ?m"] sh M o1 by auto
      have "same_shape h (heap m1)" "nfa (tab M1) = m1" "lists_at (length h) M1 l1" using M1(2) by (auto simp: follows_def)
      moreover from this(1) have "out_ok (length h) (st_out1 (heap m1) s)" using out by (simp add: same_shapeD)
      ultimately obtain M2 where M2: "dfa_addstate M1 (st_out1 (heap m1) s) = Some M2" "follows h M1 (fst r) (snd r) M2"
        using IH [OF 1(2)] by blast
      have "follows h M (fst r) (snd r) M2" using follows_trans [OF M1(2) M2(2)] by (simp add: follows_def)
      then show ?thesis using 3 M To M1(1) M2(1) \<open>nfa (tab M1) = m1\<close> by (subst dfa_addstate.simps) (simp add: Let_def)
    qed
  qed
qed

lemma dfa_step_loop_follows:
  assumes h: "arrows_ok h"
  shows "step_loop m clist ch l = Some r \<Longrightarrow> same_shape h (heap m) \<Longrightarrow> nfa (tab M) = m \<Longrightarrow> lists_at (length h) M l \<Longrightarrow>
    \<forall>s\<in>set clist. sref_ok (length h) s \<Longrightarrow> \<exists>M'. dfa_step_loop M clist ch = Some M' \<and> follows h M (fst r) (snd r) M'"
proof (induction clist arbitrary: m l M)
  case Nil
  then show ?case by (auto simp: follows_def)
next
  case (Cons s clist)
  show ?case
  proof (cases "st_c (heap m) s = ch")
    case True
    then obtain m1 l1 where 1: "addstate m l (st_out (heap m) s) = Some (m1, l1)" "step_loop m1 clist ch l1 = Some r"
      using Cons.prems(1) by (auto split: bind_splits)
    have "out_ok (length h) (st_out (heap m) s)" using arrows_okD [OF h] Cons.prems(2,5) by (simp add: same_shapeD)
    then obtain M1 where M1: "dfa_addstate M (st_out (heap m) s) = Some M1" "follows h M m1 l1 M1"
      using dfa_addstate_follows [OF h 1(1)] Cons.prems by auto
    then obtain M2 where "dfa_step_loop M1 clist ch = Some M2" "follows h M1 (fst r) (snd r) M2"
      using Cons.IH [OF 1(2), of M1] Cons.prems(5) by (auto simp: follows_def)
    then show ?thesis using True M1 follows_trans Cons.prems(3) by auto
  next
    case False
    then show ?thesis using Cons by simp
  qed
qed

lemma lists_at_reset: "lists_at k M l \<Longrightarrow> lists_at k (M\<lparr>l1_n := 0\<rparr>) []"
  by (simp add: lists_at_def)

lemma next_listid_shape: "next_listid m = Some m1 \<Longrightarrow> heap m1 = heap m"
  by (auto simp: next_listid_def split: if_splits)

lemma reset_follows:
  assumes "sim_ok h (nfa (tab M))" "lists_at (length h) M l0" "next_listid (nfa (tab M)) = Some m1" "M1 = (set_nfa M m1)\<lparr>l1_n := 0\<rparr>"
  shows "follows h M m1 [] M1" "nfa (tab M1) = m1"
  using assms lists_at_reset [of "length h" "set_nfa M m1" l0] next_listid_shape [OF assms(3)] by (auto simp: follows_def shown_def sim_ok_def)

lemma followsD: "follows h M m l M' \<Longrightarrow> same_shape h (heap m) \<and> nfa (tab M') = m \<and> lists_at (length h) M' l"
  by (simp add: follows_def)

lemma dfa_startlist_follows:
  assumes "sim_ok h (nfa (tab M))" "sref_ok (length h) start" "lists_at (length h) M l0" "startlist (nfa (tab M)) start = Some (m, l)"
  shows "\<exists>M'. dfa_startlist M start = Some M' \<and> follows h M m l M'"
proof -
  obtain m1 where m1: "next_listid (nfa (tab M)) = Some m1" "addstate m1 [] (To start) = Some (m, l)"
    using assms(4) by (auto simp: startlist_def split: bind_splits)
  define M1 where "M1 = (set_nfa M m1)\<lparr>l1_n := 0\<rparr>"
  note r = reset_follows [OF assms(1,3) m1(1) M1_def]
  note f = followsD [OF r(1)]
  have a: "arrows_ok h" using assms(1) by (simp add: sim_ok_def)
  obtain M' where "dfa_addstate M1 (To start) = Some M'" "follows h M1 m l M'"
    using dfa_addstate_follows [OF a m1(2), THEN spec, of M1] f assms(2) by auto
  then show ?thesis using m1(1) follows_trans [OF r(1)] by (auto simp: dfa_startlist_def M1_def)
qed

lemma dfa_step_follows:
  assumes "sim_ok h (nfa (tab M))" "\<forall>s\<in>set clist. sref_ok (length h) s" "lists_at (length h) M l0" "step (nfa (tab M)) clist ch = Some (m, l)"
  shows "\<exists>M'. dfa_step M clist ch = Some M' \<and> follows h M m l M'"
proof -
  obtain m1 where m1: "next_listid (nfa (tab M)) = Some m1" "step_loop m1 clist ch [] = Some (m, l)"
    using assms(4) by (auto simp: step_def split: bind_splits)
  define M1 where "M1 = (set_nfa M m1)\<lparr>l1_n := 0\<rparr>"
  note r = reset_follows [OF assms(1,3) m1(1) M1_def]
  note f = followsD [OF r(1)]
  have a: "arrows_ok h" using assms(1) by (simp add: sim_ok_def)
  obtain M' where "dfa_step_loop M1 clist ch = Some M'" "follows h M1 m l M'"
    using dfa_step_loop_follows [OF a m1(2), of M1] f assms(2) by auto
  then show ?thesis using m1(1) follows_trans [OF r(1)] by (auto simp: dfa_step_def M1_def)
qed

section \<open>The cache is that of the simulation\<close>

lemma entry_states_map [simp]: "entry_states (map State_Entry l) = Some l"
  by (induction l) simp_all

lemma dfa_dstate_follows:
  assumes "lists_at k M l" "dstate_of addr qsort (tab M) l = Some (t, d)" "mset (qsort l) = mset l"
  shows "\<exists>M'. dfa_dstate addr qsort M = Some (M', d) \<and> tab M' = t \<and> lists_at k M' (qsort l) \<and> shown M' = shown M"
proof -
  note L = assms(1) [unfolded lists_at_def]
  note q = qsort_set [of qsort l, OF assms(3)]
  have "State_Entry s \<in> set (take (length l) (l1_s M))" if "s \<in> set l" for s
    using that L by simp
  then have "State_Entry s \<in> set (l1_s M)" if "s \<in> set l" for s
    using that in_set_takeD by metis
  then have "sref_ok k s" if "s \<in> set l" for s using L that entry_ok.simps(2) by blast
  then have "\<forall>e\<in>set (map State_Entry (qsort l) @ drop (l1_n M) (l1_s M)) \<union> set (l2_s M). entry_ok k e" using L q by (auto dest: in_set_dropD)
  then have "lists_at k (M\<lparr>tab := t, l1_s := map State_Entry (qsort l) @ drop (l1_n M) (l1_s M)\<rparr>) (qsort l)"
    using L q by (simp add: lists_at_def)
  then show ?thesis using assms(2) L by (simp add: dfa_dstate_def shown_def)
qed

lemma startdstate_follows:
  assumes "sim_ok h (nfa (tab M))" "sref_ok (length h) start" "lists_at (length h) M l0" "\<And>l. mset (qsort l) = mset l"
    "cached_start addr qsort (tab M) start = Some (t, d)"
  shows "\<exists>M' l. startdstate addr qsort M start = Some (M', d) \<and> tab M' = t \<and> lists_at (length h) M' l \<and> shown M' = shown M"
proof -
  obtain m l where 1: "startlist (nfa (tab M)) start = Some (m, l)" "dstate_of addr qsort ((tab M)\<lparr>nfa := m\<rparr>) l = Some (t, d)"
    using assms(5) by (auto simp: cached_start_def split: bind_splits)
  obtain M1 where M1: "dfa_startlist M start = Some M1" "follows h M m l M1" using dfa_startlist_follows [OF assms(1-3) 1(1)] by blast
  then show ?thesis using dfa_dstate_follows [of "length h" M1 l addr qsort t d] 1(2) assms(4) by (auto simp: startdstate_def follows_def)
qed

lemma nextstate_follows:
  assumes "dfa_ok h (tab M)" "d < length (dstates (tab M))" "lists_at (length h) M l0" "\<And>l. mset (qsort l) = mset l"
    "cached_next addr qsort (tab M) d ch = Some (t, d')"
  shows "\<exists>M' l. nextstate addr qsort M d ch = Some (M', d') \<and> tab M' = t \<and> lists_at (length h) M' l \<and> shown M' = shown M"
proof -
  obtain m l t1 where 1: "step (nfa (tab M)) (dl (dstates (tab M) ! d)) (uint ch) = Some (m, l)"
    "dstate_of addr qsort ((tab M)\<lparr>nfa := m\<rparr>) l = Some (t1, d')" "t = set_next t1 d (unat ch) d'"
    using assms(5) by (auto simp: cached_next_def split: bind_splits)
  have "list_ok h (dl (dstates (tab M) ! d))" using dfa_okD(2) [OF assms(1,2)] dstate_okD(1) by blast
  then have "\<forall>s\<in>set (dl (dstates (tab M) ! d)). sref_ok (length h) s" by (auto simp: list_ok_def labelled_def)
  then obtain M1 where M1: "dfa_step M (dl (dstates (tab M) ! d)) (uint ch) = Some M1" "follows h M m l M1"
    using dfa_step_follows [OF dfa_okD(1) [OF assms(1)] _ assms(3) 1(1)] by blast
  obtain M2 where M2: "dfa_dstate addr qsort M1 = Some (M2, d')" "tab M2 = t1" "lists_at (length h) M2 (qsort l)" "shown M2 = shown M1"
    using dfa_dstate_follows [of "length h" M1 l addr qsort t1 d'] M1(2) 1(2) assms(4) by (auto simp: follows_def)
  have "nextstate addr qsort M d ch = Some (M2\<lparr>tab := t\<rparr>, d')" using M1(1) M2(1,2) 1(3) by (simp add: nextstate_def)
  moreover have "lists_at (length h) (M2\<lparr>tab := t\<rparr>) (qsort l)" "shown (M2\<lparr>tab := t\<rparr>) = shown M"
    using M2(3,4) M1(2) by (simp_all add: lists_at_def shown_def follows_def)
  ultimately show ?thesis by (intro exI [of _ "M2\<lparr>tab := t\<rparr>"] exI [of _ "qsort l"]) simp
qed

lemma dfa_match_loop_follows:
  assumes "inj addr" "\<And>l. mset (qsort l) = mset l"
  shows "dfa_ok h (tab M) \<Longrightarrow> d < length (dstates (tab M)) \<Longrightarrow> listid (nfa (tab M)) + int (length s) \<le> INT_MAX \<Longrightarrow> lists_at (length h) M l \<Longrightarrow>
    \<exists>M' d' l'. dfa_match_loop addr qsort M d s = Some (M', d') \<and> cached_loop addr qsort (tab M) d s = Some (tab M', d') \<and>
      lists_at (length h) M' l' \<and> shown M' = shown M"
proof (induction s arbitrary: M d l)
  case Nil
  then show ?case by auto
next
  case (Cons ch s)
  show ?case
  proof (cases "dnext (dstates (tab M) ! d) ! unat ch")
    case (Some e)
    then have "e < length (dstates (tab M))"
      using dstate_okD(5) [OF dfa_okD(2) [OF Cons.prems(1,2)] unat8_less] by (auto simp: next_ok_def)
    then show ?thesis using Cons.IH [OF Cons.prems(1) _ _ Cons.prems(4)] Cons.prems(3) Some by auto
  next
    case None
    have "listid (nfa (tab M)) < INT_MAX" using Cons.prems(3) by simp
    then obtain t e where e: "cached_next addr qsort (tab M) d ch = Some (t, e)" "dfa_ok h t" "listid (nfa t) = listid (nfa (tab M)) + 1"
      "next_ok h (dstates t) d (unat ch) e"
      using cached_next_ok [OF Cons.prems(1,2) assms] by blast
    obtain M1 l1 where M1: "nextstate addr qsort M d ch = Some (M1, e)" "tab M1 = t" "lists_at (length h) M1 l1" "shown M1 = shown M"
      using nextstate_follows [OF Cons.prems(1,2,4) assms(2) e(1)] by blast
    have "e < length (dstates t)" using e(4) by (simp add: next_ok_def)
    then show ?thesis using Cons.IH [of M1 e l1] M1 e Cons.prems(3) None by auto
  qed
qed

text \<open>One argument of the program: what is shown, apart from the arrays, and that the invariants stay.\<close>

lemma dfa_match_shown:
  assumes "inj addr" "\<And>l. mset (qsort l) = mset l" "dfa_ok h (tab M)" "sref_ok (length h) start" "lists_at (length h) M l0"
    "listid (nfa (tab M)) + int (length s) < INT_MAX"
  shows "\<exists>M1 d M2 l. startdstate addr qsort M start = Some (M1, d) \<and>
    dfa_match addr qsort M1 d s = Some (M2, acc h (To start) (map uint s)) \<and> dfa_ok h (tab M2) \<and>
    listid (nfa (tab M2)) \<le> listid (nfa (tab M)) + int (length s) + 1 \<and> lists_at (length h) M2 l \<and> shown M2 = shown M"
proof -
  have sim: "sim_ok h (nfa (tab M))" using assms(3) by (simp add: dfa_ok_def)
  obtain t1 d t2 where t: "cached_start addr qsort (tab M) start = Some (t1, d)" "cached_match addr qsort t1 d s = Some (t2, acc h (To start) (map uint s))"
    "dfa_ok h t2" "listid (nfa t2) \<le> listid (nfa (tab M)) + int (length s) + 1"
    using cached_match_correct [OF assms(1-4,6)] by blast
  obtain t1' d1 where t1: "cached_start addr qsort (tab M) start = Some (t1', d1)" "dfa_ok h t1'" "d1 < length (dstates t1')" "listid (nfa t1') = listid (nfa (tab M)) + 1"
    using cached_start_ok [OF assms(1-4)] assms(6) by fastforce
  then have eq: "t1' = t1" "d1 = d" using t(1) by auto
  obtain M1 l1 where M1: "startdstate addr qsort M start = Some (M1, d)" "tab M1 = t1" "lists_at (length h) M1 l1" "shown M1 = shown M"
    using startdstate_follows [OF sim assms(4,5,2) t(1)] by blast
  obtain M2 d2 l2 where M2: "dfa_match_loop addr qsort M1 d s = Some (M2, d2)" "cached_loop addr qsort (tab M1) d s = Some (tab M2, d2)"
    "lists_at (length h) M2 l2" "shown M2 = shown M1"
    using dfa_match_loop_follows [OF assms(1,2), of h M1 d s l1] M1 t1(2-4) eq assms(6) by auto
  have "tab M2 = t2" "ismatch (dl (dstates t2 ! d2)) = acc h (To start) (map uint s)"
    using M2(2) t(2) M1(2) by (auto simp: cached_match_def)
  then show ?thesis using M1 M2 t(3,4) by (auto simp: dfa_match_def)
qed

text \<open>The number of lists that the strings take.\<close>

definition steps :: "uint8_t list list \<Rightarrow> int" where
  "steps ss = sum_list (map (\<lambda>s. int (length s) + 1) ss)"

lemma steps_nonneg: "0 \<le> steps ss"
  by (induction ss) (auto simp: steps_def)

lemma dfa_main_loop_shown:
  assumes "inj addr" "\<And>l. mset (qsort l) = mset l"
  shows "dfa_ok h (tab M) \<Longrightarrow> sref_ok (length h) start \<Longrightarrow> lists_at (length h) M l \<Longrightarrow> listid (nfa (tab M)) + steps ss \<le> INT_MAX \<Longrightarrow>
    \<exists>M'. dfa_main_loop addr qsort M start ss = Some M' \<and> shown M' = shown M @ map String_Line (filter (\<lambda>s. acc h (To start) (map uint s)) ss)"
proof (induction ss arbitrary: M l)
  case (Cons s ss)
  have "listid (nfa (tab M)) + int (length s) < INT_MAX" using Cons.prems(4) steps_nonneg [of ss] by (simp add: steps_def)
  then obtain M1 d M2 l2 where M: "startdstate addr qsort M start = Some (M1, d)"
    "dfa_match addr qsort M1 d s = Some (M2, acc h (To start) (map uint s))" "dfa_ok h (tab M2)"
    "listid (nfa (tab M2)) \<le> listid (nfa (tab M)) + int (length s) + 1" "lists_at (length h) M2 l2" "shown M2 = shown M"
    using dfa_match_shown [OF assms Cons.prems(1-3)] by blast
  define M3 where "M3 = (if acc h (To start) (map uint s) then M2\<lparr>dfa_stdout := dfa_stdout M2 @ [String_Line s]\<rparr> else M2)"
  have M3: "tab M3 = tab M2" "lists_at (length h) M3 l2"
    "shown M3 = shown M @ (if acc h (To start) (map uint s) then [String_Line s] else [])"
    using M(5,6) by (simp_all add: M3_def lists_at_def shown_def)
  have "listid (nfa (tab M3)) + steps ss \<le> INT_MAX" using Cons.prems(4) M(4) M3(1) by (simp add: steps_def)
  then obtain M4 where "dfa_main_loop addr qsort M3 start ss = Some M4"
    "shown M4 = shown M3 @ map String_Line (filter (\<lambda>s. acc h (To start) (map uint s)) ss)"
    using Cons.IH [of M3 l2] M(3) M3(1,2) Cons.prems(2) by auto
  then show ?case using M(1,2) M3(3) by (simp flip: M3_def)
qed simp

section \<open>The fault on arrays that were not initialised\<close>

lemma push_state_wild:
  assumes "heap (nfa (tab M)) \<noteq> []" "l2_s M = Wild_Entry # es"
  shows "push_state M s = None"
proof -
  have "[0..<length (heap (nfa (tab M)))] = 0 # [1..<length (heap (nfa (tab M)))]" using assms(1) by (simp add: upt_conv_Cons)
  then have "print_lists (nfa (tab M)) es1 (Wild_Entry # es) [0..<length (heap (nfa (tab M)))] = None" for es1
    by (cases "print_entry (nfa (tab M)) False 0 (es1 ! 0)") (simp_all add: print_entry_def)
  then show ?thesis using assms(2) by (simp add: push_state_def Let_def)
qed

text \<open>As soon as \<open>addstate\<close> adds a state, it faults.\<close>

definition wild_after :: "dfa_prog \<Rightarrow> outval \<Rightarrow> sref list \<Rightarrow> nfa_mem \<Rightarrow> sref list \<Rightarrow> bool" where
  "wild_after M p l m' l' \<longleftrightarrow> (if l' = l then \<exists>M'. dfa_addstate M p = Some M' \<and> nfa (tab M') = m' \<and> l2_s M' = l2_s M else dfa_addstate M p = None)"

lemma dfa_addstate_wild:
  assumes "addstate m l p = Some r"
  shows "prefix l (snd r) \<and> length (heap (fst r)) = length (heap m) \<and>
    (\<forall>M. heap m \<noteq> [] \<and> nfa (tab M) = m \<and> l2_s M = Wild_Entry # es \<longrightarrow> wild_after M p l (fst r) (snd r))"
proof (rule addstate.raw_induct [where P = "\<lambda>m l p r. prefix l (snd r) \<and> length (heap (fst r)) = length (heap m) \<and>
    (\<forall>M. heap m \<noteq> [] \<and> nfa (tab M) = m \<and> l2_s M = Wild_Entry # es \<longrightarrow> wild_after M p l (fst r) (snd r))", OF _ assms])
  fix f m l p r
  assume IH: "\<And>m l p r. f m l p = Some r \<Longrightarrow> prefix l (snd r) \<and> length (heap (fst r)) = length (heap m) \<and>
      (\<forall>M. heap m \<noteq> [] \<and> nfa (tab M) = m \<and> l2_s M = Wild_Entry # es \<longrightarrow> wild_after M p l (fst r) (snd r))"
    and body: "(case p of NULL \<Rightarrow> Some (m, l) | To s \<Rightarrow>
          if st_lastlist m s = listid m then Some (m, l)
          else let m = set_lastlist m s (listid m) in
            if st_c (heap m) s = Split
            then f m l (st_out (heap m) s) \<bind> (\<lambda>(m, l). f m l (st_out1 (heap m) s))
            else if length l < length (heap m) then Some (m, l @ [s]) else None
        | Slot x xa \<Rightarrow> None) = Some r"
  show "prefix l (snd r) \<and> length (heap (fst r)) = length (heap m) \<and>
      (\<forall>M. heap m \<noteq> [] \<and> nfa (tab M) = m \<and> l2_s M = Wild_Entry # es \<longrightarrow> wild_after M p l (fst r) (snd r))"
  proof (cases p)
    case NULL
    then show ?thesis using body by (auto simp: wild_after_def dfa_addstate.simps)
  next
    case (Slot i b)
    then show ?thesis using body by simp
  next
    case (To s)
    let ?m = "set_lastlist m s (listid m)"
    have len: "length (heap ?m) = length (heap m)" using same_shapeD(1) set_lastlist_shape by blast
    then have ne: "heap ?m \<noteq> []" if "heap m \<noteq> []" using that by (metis length_0_conv)
    consider "st_lastlist m s = listid m" | "st_lastlist m s \<noteq> listid m" "st_c (heap ?m) s \<noteq> Split"
      | "st_lastlist m s \<noteq> listid m" "st_c (heap ?m) s = Split" by blast
    then show ?thesis
    proof cases
      case 1
      then show ?thesis using body To by (auto simp: wild_after_def dfa_addstate.simps)
    next
      case 2
      then have r: "r = (?m, l @ [s])" using body To by (auto split: if_splits)
      have "push_state (set_nfa M ?m) s = None" if "heap m \<noteq> []" "l2_s M = Wild_Entry # es" for M
        using push_state_wild [of "set_nfa M ?m" es s] that ne by simp
      then show ?thesis using 2 To r len by (auto simp: wild_after_def dfa_addstate.simps Let_def)
    next
      case 3
      then obtain m1 l1 where 1: "f ?m l (st_out (heap ?m) s) = Some (m1, l1)" "f m1 l1 (st_out1 (heap m1) s) = Some r"
        using body To by (auto simp: Let_def split: bind_splits)
      have I1: "prefix l l1" "length (heap m1) = length (heap m)"
        and J1: "\<And>M. heap ?m \<noteq> [] \<Longrightarrow> nfa (tab M) = ?m \<Longrightarrow> l2_s M = Wild_Entry # es \<Longrightarrow> wild_after M (st_out (heap ?m) s) l m1 l1"
        using IH [OF 1(1)] len by auto
      have I2: "prefix l1 (snd r)" "length (heap (fst r)) = length (heap m1)"
        and J2: "\<And>M. heap m1 \<noteq> [] \<Longrightarrow> nfa (tab M) = m1 \<Longrightarrow> l2_s M = Wild_Entry # es \<Longrightarrow> wild_after M (st_out1 (heap m1) s) l1 (fst r) (snd r)"
        using IH [OF 1(2)] by auto
      have "wild_after M p l (fst r) (snd r)" if M: "heap m \<noteq> []" "nfa (tab M) = m" "l2_s M = Wild_Entry # es" for M
      proof -
        have eq: "dfa_addstate M p = dfa_addstate (set_nfa M ?m) (st_out (heap ?m) s) \<bind> (\<lambda>M. dfa_addstate M (st_out1 (heap (nfa (tab M))) s))"
          using 3 To M(2) by (subst dfa_addstate.simps) (simp add: Let_def)
        have ne1: "heap m1 \<noteq> []" using M(1) I1(2) by (metis length_0_conv)
        have w1: "wild_after (set_nfa M ?m) (st_out (heap ?m) s) l m1 l1" using J1 [OF ne] M by simp
        show ?thesis
        proof (cases "l1 = l")
          case True
          then obtain M1 where M1: "dfa_addstate (set_nfa M ?m) (st_out (heap ?m) s) = Some M1" "nfa (tab M1) = m1" "l2_s M1 = Wild_Entry # es"
            using w1 M(3) by (auto simp: wild_after_def)
          then have "wild_after M1 (st_out1 (heap m1) s) l (fst r) (snd r)" using J2 [OF ne1] True by blast
          then show ?thesis using eq M1 M(3) by (auto simp: wild_after_def split: if_splits)
        next
          case False
          then have "snd r \<noteq> l" using I1(1) I2(1) prefix_order.antisym by blast
          then show ?thesis using eq w1 False by (simp add: wild_after_def)
        qed
      qed
      then show ?thesis using I1 I2 prefix_order.trans [OF I1(1) I2(1)] by simp
    qed
  qed
qed

lemma startdstate_wild:
  assumes "sim_ok h (nfa (tab M))" "sref_ok (length h) start" "listid (nfa (tab M)) < INT_MAX" "acc h (To start) w" "l2_s M = Wild_Entry # es"
  shows "startdstate addr qsort M start = None"
proof -
  obtain m l where l: "startlist (nfa (tab M)) start = Some (m, l)" "fills h (nfa (tab M)) {To start} m l"
    using startlist_fills [OF assms(1,3,2)] by blast
  have "l \<noteq> []" using l(2) assms(4) by (auto simp: fills_def list_acc_def)
  obtain m1 where m1: "next_listid (nfa (tab M)) = Some m1" "addstate m1 [] (To start) = Some (m, l)"
    using l(1) by (auto simp: startlist_def split: bind_splits)
  have "heap m1 \<noteq> []" using next_listid_shape [OF m1(1)] assms(1) same_shapeD(1) by (fastforce simp: sim_ok_def)
  then have "wild_after ((set_nfa M m1)\<lparr>l1_n := 0\<rparr>) (To start) [] m l" using dfa_addstate_wild [OF m1(2), of es] assms(5) by simp
  then show ?thesis using \<open>l \<noteq> []\<close> m1(1) by (simp add: wild_after_def startdstate_def dfa_startlist_def)
qed

end
