(* ===== verification/Regex_Lang.thy ===== *)
theory Regex_Lang
  imports Regex_Nfa
begin

text \<open>
  The language of an expression, as words of bytes in which every literal stands for itself, and how it is related to what the
  automaton accepts: the automaton compares signed characters with bytes, so that its literals above \<open>0x7F\<close> match nothing.
\<close>

fun lang_piece :: "piece \<Rightarrow> uint8_t list set" where
  "lang_piece (Lit ch) = {[ch]}"
| "lang_piece (Group bs) = (\<Union>b\<in>set bs. foldr conc (map lang_piece b) {[]})"
| "lang_piece (Rep p ch) = rep_lang ch (lang_piece p)"

definition lang_re :: "piece list list \<Rightarrow> uint8_t list set" where
  "lang_re bs = (\<Union>b\<in>set bs. foldr conc (map lang_piece b) {[]})"

text \<open>All literals are below \<open>0x80\<close>.\<close>

fun ascii_piece :: "piece \<Rightarrow> bool" where
  "ascii_piece (Lit ch) \<longleftrightarrow> ch < 0x80"
| "ascii_piece (Group bs) \<longleftrightarrow> list_all (list_all ascii_piece) bs"
| "ascii_piece (Rep p ch) \<longleftrightarrow> ascii_piece p"

text \<open>The bytes in \<open>A\<close> are in \<open>L\<close>, and those of \<open>L\<close> are in \<open>A\<close>.\<close>

definition sound :: "lang \<Rightarrow> uint8_t list set \<Rightarrow> bool" where
  "sound A L \<longleftrightarrow> (\<forall>s. map uint s \<in> A \<longrightarrow> s \<in> L)"

definition complete :: "lang \<Rightarrow> uint8_t list set \<Rightarrow> bool" where
  "complete A L \<longleftrightarrow> (\<forall>s\<in>L. map uint s \<in> A)"

lemma sound_conc: "sound A L \<Longrightarrow> sound B M \<Longrightarrow> sound (conc A B) (conc L M)"
  by (auto simp: sound_def conc_def map_eq_append_conv)

lemma complete_conc: "complete A L \<Longrightarrow> complete B M \<Longrightarrow> complete (conc A B) (conc L M)"
  by (auto simp: complete_def conc_def) blast

lemma sound_star:
  assumes "sound A L"
  shows "sound (star A) (star L)"
proof -
  have "s \<in> star L" if "map uint s = w" "w \<in> star A" for s w
    using that(2,1)
  proof (induction w arbitrary: s rule: star_induct)
    case Nil
    then show ?case by (simp add: star_Nil)
  next
    case (step u v)
    then obtain s1 s2 where "s = s1 @ s2" "map uint s1 = u" "map uint s2 = v" by (auto simp: map_eq_append_conv)
    then show ?case using step(1,3) assms star_step [of s1 L s2] by (simp add: sound_def)
  qed
  then show ?thesis by (auto simp: sound_def)
qed

lemma complete_star:
  assumes "complete A L"
  shows "complete (star A) (star L)"
proof -
  have "map uint s \<in> star A" if "s \<in> star L" for s
    using that
  proof (induction s rule: star_induct)
    case (step u v)
    then show ?case using assms star_step [of "map uint u" A "map uint v"] by (simp add: complete_def)
  qed (simp add: star_Nil)
  then show ?thesis by (simp add: complete_def)
qed

lemma rep_lang_transfer:
  "sound A L \<Longrightarrow> sound (rep_lang ch A) (rep_lang ch L)" "complete A L \<Longrightarrow> complete (rep_lang ch A) (rep_lang ch L)"
proof -
  have "sound A L \<Longrightarrow> sound (insert [] A) (insert [] L)" "complete A L \<Longrightarrow> complete (insert [] A) (insert [] L)"
    by (auto simp: sound_def complete_def)
  then show "sound A L \<Longrightarrow> sound (rep_lang ch A) (rep_lang ch L)" "complete A L \<Longrightarrow> complete (rep_lang ch A) (rep_lang ch L)"
    by (simp_all add: rep_lang_def sound_conc complete_conc sound_star complete_star)
qed

lemma foldr_transfer:
  "\<forall>p\<in>set b. sound (f p) (g p) \<Longrightarrow> sound (foldr conc (map f b) {[]}) (foldr conc (map g b) {[]})"
  "\<forall>p\<in>set b. complete (f p) (g p) \<Longrightarrow> complete (foldr conc (map f b) {[]}) (foldr conc (map g b) {[]})"
proof -
  have "sound {[]} {[]}" "complete {[]} {[]}" by (auto simp: sound_def complete_def)
  note eps = this
  show "\<forall>p\<in>set b. sound (f p) (g p) \<Longrightarrow> sound (foldr conc (map f b) {[]}) (foldr conc (map g b) {[]})"
    by (induction b) (simp_all add: eps sound_conc)
  show "\<forall>p\<in>set b. complete (f p) (g p) \<Longrightarrow> complete (foldr conc (map f b) {[]}) (foldr conc (map g b) {[]})"
    by (induction b) (simp_all add: eps complete_conc)
qed

lemma Union_transfer:
  "\<forall>b\<in>S. sound (f b) (g b) \<Longrightarrow> sound (\<Union>b\<in>S. f b) (\<Union>b\<in>S. g b)" "\<forall>b\<in>S. complete (f b) (g b) \<Longrightarrow> complete (\<Union>b\<in>S. f b) (\<Union>b\<in>S. g b)"
  by (auto simp: sound_def complete_def)

lemma sint_uint_byte: "sint a = uint b \<Longrightarrow> a = (b :: uint8_t)"
proof -
  assume eq: "sint a = uint b"
  have "a = word_of_int (sint a)" by simp
  then show "a = b" unfolding eq by simp
qed

lemma sint_ascii: "(ch :: uint8_t) < 0x80 \<Longrightarrow> sint ch = uint ch"
  using sint_byte [of "uint ch"] uint_ge_0 [of ch] by (simp add: word_less_def)

lemma sound_piece: "sound (acc_piece p) (lang_piece p)"
proof (induction p)
  case (Lit ch)
  then show ?case by (auto simp: sound_def dest: sint_uint_byte [OF sym])
next
  case (Group bs)
  then show ?case by (auto intro!: Union_transfer(1) foldr_transfer(1))
qed (simp add: rep_lang_transfer)

lemma complete_piece: "ascii_piece p \<Longrightarrow> complete (acc_piece p) (lang_piece p)"
proof (induction p)
  case (Lit ch)
  then show ?case by (simp add: complete_def sint_ascii)
next
  case (Group bs)
  then show ?case by (auto simp: list_all_iff intro!: Union_transfer(2) foldr_transfer(2))
qed (simp add: rep_lang_transfer)

lemma acc_re_lang:
  "map uint s \<in> acc_re bs \<Longrightarrow> s \<in> lang_re bs"
  "list_all (list_all ascii_piece) bs \<Longrightarrow> s \<in> lang_re bs \<Longrightarrow> map uint s \<in> acc_re bs"
proof -
  have "sound (acc_re bs) (lang_re bs)"
    unfolding acc_re_def lang_re_def acc_branch_def by (intro Union_transfer(1) foldr_transfer(1) ballI sound_piece)
  then show "map uint s \<in> acc_re bs \<Longrightarrow> s \<in> lang_re bs" by (simp add: sound_def)
  assume "list_all (list_all ascii_piece) bs" "s \<in> lang_re bs"
  moreover from this(1) have "complete (acc_re bs) (lang_re bs)"
    unfolding acc_re_def lang_re_def acc_branch_def by (intro Union_transfer(2) foldr_transfer(2) ballI complete_piece) (auto simp: list_all_iff)
  ultimately show "map uint s \<in> acc_re bs" by (simp add: complete_def)
qed

section \<open>There is a word\<close>

lemma conc_nonempty: "A \<noteq> {} \<Longrightarrow> B \<noteq> {} \<Longrightarrow> conc A B \<noteq> {}"
  by (auto simp: conc_def)

lemma foldr_conc_nonempty: "\<forall>A\<in>set As. A \<noteq> {} \<Longrightarrow> foldr conc As {[]} \<noteq> {}"
  by (induction As) (simp_all add: conc_nonempty)

lemma acc_piece_nonempty: "piece_ok d p \<Longrightarrow> acc_piece p \<noteq> {}"
proof (induction p arbitrary: d)
  case (Group bs)
  have b: "hd bs \<in> set bs" "\<forall>p\<in>set (hd bs). acc_piece p \<noteq> {}" using Group by (cases bs; auto simp: list_all_iff)+
  then show ?case using foldr_conc_nonempty [of "map acc_piece (hd bs)"] by fastforce
next
  case (Rep p ch)
  then have "acc_piece p \<noteq> {}" by auto
  then show ?case using conc_nonempty [of "acc_piece p" "star (acc_piece p)"] star_Nil [of "acc_piece p"] by (auto simp: rep_lang_def)
qed simp

lemma acc_re_nonempty: "re_ok d bs \<Longrightarrow> acc_re bs \<noteq> {}"
proof -
  assume "re_ok d bs"
  then have "hd bs \<in> set bs" "\<forall>p\<in>set (hd bs). acc_piece p \<noteq> {}" using acc_piece_nonempty by (cases bs; auto simp: re_ok_def list_all_iff)+
  then show ?thesis using foldr_conc_nonempty [of "map acc_piece (hd bs)"] by (fastforce simp: acc_re_def acc_branch_def)
qed

end
