(* ===== verification/Regex_Correct.thy ===== *)
theory Regex_Correct
  imports Regex_Dump Regex_Lang
begin

text \<open>The programs \<open>nfa.c\<close> and \<open>dfa.c\<close> as a whole, and the properties of the matcher.\<close>

section \<open>The programs\<close>

text \<open>
  \<open>main\<close> on its arguments: the exit status and the strings it prints. The messages on \<open>stderr\<close> are
  left out.
\<close>

fun nfa_main_loop :: "nfa_mem \<Rightarrow> sref \<Rightarrow> uint8_t list list \<Rightarrow> uint8_t list list option" where
  "nfa_main_loop m start [] = Some []"
| "nfa_main_loop m start (s # ss) = do {
     (m, b) \<leftarrow> nfa_match m start s;
     out \<leftarrow> nfa_main_loop m start ss;
     Some (if b then s # out else out)
   }"

definition nfa_main :: "uint8_t list list \<Rightarrow> (int \<times> uint8_t list list) option" where
  "nfa_main args =
     (if length args < 2 then Some (1, [])
      else do {
        post \<leftarrow> re2post (args ! 0);
        case post of
          None \<Rightarrow> Some (1, [])
        | Some post \<Rightarrow> do {
            (start, h) \<leftarrow> post2nfa (Some post);
            case start of
              None \<Rightarrow> Some (1, [])
            | Some start \<Rightarrow> do {
                out \<leftarrow> nfa_main_loop \<lparr>heap = h, match_lastlist = 0, listid = 0\<rparr> start (drop 1 args);
                Some (0, out)
              }
          }
      })"

section \<open>Both print the strings of the language\<close>

text \<open>An expression within the limits of the program: parentheses, length, stack, and no literal dot.\<close>

definition re_fits :: "piece list list \<Rightarrow> bool" where
  "re_fits bs \<longleftrightarrow> re_ok 100 bs \<and> list_all (list_all no_dot) bs \<and> need_re bs \<le> STACK_SIZE \<and> length (print_re bs) < 4000"

lemma nfa_main_loop_correct:
  "sim_ok h m \<Longrightarrow> sref_ok (length h) start \<Longrightarrow> listid m + steps ss \<le> INT_MAX \<Longrightarrow>
     nfa_main_loop m start ss = Some (filter (\<lambda>s. acc h (To start) (map uint s)) ss)"
proof (induction ss arbitrary: m)
  case (Cons s ss)
  have "listid m + int (length s) < INT_MAX" using Cons.prems(3) steps_nonneg [of ss] by (simp add: steps_def)
  then obtain m' where m': "nfa_match m start s = Some (m', acc h (To start) (map uint s))" "sim_ok h m'"
    "listid m' = listid m + int (length s) + 1"
    using nfa_match_correct [OF Cons.prems(1,2)] by blast
  have "nfa_main_loop m' start ss = Some (filter (\<lambda>s. acc h (To start) (map uint s)) ss)"
    by (rule Cons.IH [OF m'(2) Cons.prems(2)]) (use Cons.prems(3) m'(3) in \<open>simp add: steps_def\<close>)
  then show ?case using m'(1) by simp
qed simp

lemma compiled:
  assumes "re_fits bs"
  obtains start h where "re2post (print_re bs) = Some (Some (post_re bs))" "post2nfa (Some (post_re bs)) = Some (Some start, h)"
    "sref_ok (length h) start" "sim_ok h \<lparr>heap = h, match_lastlist = 0, listid = 0\<rparr>"
    "\<And>w. acc h (To start) w \<longleftrightarrow> w \<in> acc_re bs"
proof -
  have "to_post (print_re bs) = Some (post_re bs)" by (rule re2post_print) (use assms in \<open>auto simp: re_fits_def\<close>)
  then have "re2post (print_re bs) = Some (Some (post_re bs))" by (simp add: re2post_eq)
  moreover obtain start h where "post2nfa (Some (post_re bs)) = Some (Some start, h)" "h \<noteq> []" "sref_ok (length h) start" "nfa_heap h"
    "\<forall>w. acc h (To start) w \<longleftrightarrow> w \<in> acc_re bs"
    using post2nfa_correct [of 100 bs] assms unfolding re_fits_def by blast
  ultimately show thesis using that sim_ok_initial by blast
qed

lemma a_star: "print_re [[Rep (Lit 0x61) 0x2a]] = [0x61, 0x2a]" "re_fits [[Rep (Lit 0x61) 0x2a]]"
  by (simp_all add: re_fits_def re_ok_def need_re_def print_re_def print_branch_def STACK_SIZE_def)



lemma dfa_main_from_loop:
  assumes "ss \<noteq> []" "re2post re = Some (Some post)" "post2nfa (Some post) = Some (Some start, h)"
    "M = \<lparr>tab = \<lparr>nfa = \<lparr>heap = h, match_lastlist = 0, listid = 0\<rparr>, dstates = [], alldstates = None\<rparr>, l1_s = map junk1 [0..<length h],
      l1_n = 0, l2_s = map junk2 [0..<length h], dfa_stdout = [Post_Line post]\<rparr>"
  shows "dfa_main addr qsort junk1 junk2 (re # ss) = do { M \<leftarrow> dfa_main_loop addr qsort M start ss; Some (0, dfa_stdout M) }"
  using assms by (cases ss) (simp_all add: dfa_main_def)


definition addr_of :: "sref \<Rightarrow> nat" where
  "addr_of s = (case s of Match_State \<Rightarrow> 0 | State_At i \<Rightarrow> Suc i)"


text \<open>\<open>post2nfa\<close> turns the postfix form of an expression into an automaton that accepts exactly
  its language, whose arrows all lead to states of the heap; the fragments it patches together on
  the way never share a field.\<close>

lemma post2nfa_accepts_language:
  assumes "re_ok d bs" "list_all (list_all no_dot) bs" "need_re bs \<le> STACK_SIZE"
  shows "\<exists>start h. post2nfa (Some (post_re bs)) = Some (Some start, h) \<and> nfa_heap h \<and> sref_ok (length h) start \<and>
    (\<forall>w. acc h (To start) w \<longleftrightarrow> w \<in> acc_re bs)"
  using post2nfa_correct [OF assms] by blast

lemma post2nfa_accepts_language_example:
  "\<exists>start h. post2nfa (Some (post_re [[Lit 0x61, Rep (Lit 0x62) 0x2b]])) = Some (Some start, h) \<and> nfa_heap h \<and> sref_ok (length h) start \<and>
    (\<forall>w. acc h (To start) w \<longleftrightarrow> w \<in> acc_re [[Lit 0x61, Rep (Lit 0x62) 0x2b]])"
  by (rule post2nfa_accepts_language [of 0]) (simp_all add: re_ok_def need_re_def STACK_SIZE_def)

text \<open>C26: \<open>re2post\<close> never writes outside its buffer of 8000 characters, on any input, whether it accepts the input or gives up
  half-way; and the string it returns leaves room for the terminating NUL and is at most twice as long as the expression.\<close>

theorem re2post_in_buffer:
  "re2post re \<noteq> None \<and> (\<forall>post. re2post re = Some (Some post) \<longrightarrow> length post < BUF_SIZE \<and> length post \<le> 2 * length re)"
proof -
  have "length post < BUF_SIZE \<and> length post \<le> 2 * length re" if "re2post re = Some (Some post)" for post
  proof -
    have "to_post re = Some post" using that by (simp add: re2post_eq)
    then obtain v where v: "post_loop re re2post_init = Some v" "post = dst (all_bars (all_dots v))" "length re < 4000"
      by (auto simp: to_post_def BUF_SIZE_def split: if_splits bind_splits)
    have "counts_ok re2post_init" "pending re2post_init = 0" by (simp_all add: counts_ok_def pending_def re2post_init_def)
    then have "counts_ok v" "pending v \<le> 2 * int (length re)" using re2post_loop_counts [OF _ v(1)] by simp_all
    then have "int (length post) \<le> 2 * int (length re)" using emitted_bound(1) [of v] v(2) by simp
    then show ?thesis using v(3) by (simp add: BUF_SIZE_def)
  qed
  then show ?thesis by (simp add: re2post_eq)
qed

lemma re2post_a_or_b: "re2post [0x61, 0x7c, 0x62] = Some (Some [0x61, 0x62, 0x7c])"
  by (simp add: re2post_eq to_post_def BUF_SIZE_def re2post_init_def post_char_def one_dot_def all_dots_def all_bars_def Let_def)

theorem re2post_in_buffer_witness:
  "length [0x61, 0x62, 0x7c :: uint8_t] < BUF_SIZE \<and> length [0x61, 0x62, 0x7c :: uint8_t] \<le> 2 * length [0x61, 0x7c, 0x62 :: uint8_t]"
  using re2post_in_buffer [of "[0x61, 0x7c, 0x62]"] re2post_a_or_b by simp

lemma re2post_trailing_bar:
  assumes "re_ok 100 bs" "length (print_re bs) < 3999"
  shows "re2post (print_re bs @ [BAR]) = Some (Some (post_re bs @ [BAR]))"
proof -
  obtain v' where v': "post_loop (print_re bs) re2post_init = Some v'" "0 < natom v'"
    "all_dots v' = re2post_init\<lparr>dst := concat (map post_branch bs), nalt := int (length bs) - 1, natom := 0\<rparr>"
    using read_alternatives [of bs re2post_init] reads_all assms(1) by (auto simp: re2post_init_def)
  have "post_char BAR v' = Some (re2post_init\<lparr>dst := concat (map post_branch bs), nalt := int (length bs), natom := 0\<rparr>)"
    using v'(2,3) by (simp add: post_char_def re2post_init_def)
  moreover have "length bs = Suc (length bs - 1)" using assms(1) by (cases bs) (simp_all add: re_ok_def)
  then have "replicate (length bs) BAR = replicate (length bs - 1) BAR @ [BAR]"
    by (metis replicate_Suc replicate_append_same)
  ultimately show ?thesis using v'(1) assms(2)
    by (simp add: re2post_eq to_post_def BUF_SIZE_def re2post_loop_append all_bars_def all_dots_def re2post_init_def post_re_def)
qed

lemma post2nfa_extra_bar:
  assumes "re_ok d bs" "list_all (list_all no_dot) bs" "need_re bs \<le> STACK_SIZE"
  shows "post2nfa (Some (post_re bs @ [BAR])) = None"
proof -
  have "nfa_ok ([], []) []" by (auto simp: nfa_ok_def intro: exI [of _ "[]"])
  then obtain s where s: "post2nfa_loop (post_re bs) ([], []) = Some s" "nfa_ok s [acc_re bs]"
    using runs_re [OF assms(1,2), of "[]"] builds_all assms(3) unfolding runs_def by fastforce
  obtain h f where hf: "s = (h, [f])"
    using s(2) by (elim nfa_okE) (metis One_nat_def length_0_conv length_Suc_conv length_map list.size(3) list.size(4) stack_ok_length)
  then have "post2nfa_loop (post_re bs @ [BAR]) ([], []) = None"
    using s(1) by (simp add: post2nfa_loop_append post2nfa_char_def)
  then show ?thesis by (simp add: post2nfa_def)
qed

text \<open>C27: an expression that ends in a bar is not rejected by \<open>re2post\<close>, although it has an empty
  alternative: the bar is emitted and \<open>post2nfa\<close> pops from its empty stack.\<close>

theorem nfa_main_trailing_bar:
  assumes "re_fits bs" "length (print_re bs) < 3999" "ss \<noteq> []"
  shows "(\<exists>post. re2post (print_re bs @ [BAR]) = Some (Some post)) \<and> nfa_main ((print_re bs @ [BAR]) # ss) = None"
proof -
  have r: "re2post (print_re bs @ [BAR]) = Some (Some (post_re bs @ [BAR]))"
    using assms(1,2) by (intro re2post_trailing_bar) (auto simp: re_fits_def)
  moreover have "post2nfa (Some (post_re bs @ [BAR])) = None"
    using assms(1) by (intro post2nfa_extra_bar) (auto simp: re_fits_def)
  ultimately show ?thesis using assms(3) by (cases ss) (simp_all add: nfa_main_def)
qed

theorem nfa_main_trailing_bar_witness:
  "(\<exists>post. re2post ([0x61] @ [BAR]) = Some (Some post)) \<and> nfa_main [[0x61] @ [BAR], [0x61]] = None"
  using nfa_main_trailing_bar [of "[[Lit 0x61]]" "[[0x61]]"]
  by (simp add: re_fits_def re_ok_def need_re_def print_re_def print_branch_def STACK_SIZE_def)

end
