(* ===== verification/Brainfuck.thy ===== *)
theory Brainfuck
  imports Prelude "HOL-Library.Monad_Syntax"
begin

text \<open>
  The interpreter of \<open>c-study/brainfuck\<close>: instructions in a heap, linked by \<open>next\<close>, \<open>previous\<close> and
  \<open>loop\<close>, the two parsers, the execution, the operations on the list and its destruction. Memory
  that was allocated and not written has arbitrary contents, the parameter \<open>junk\<close>.
\<close>

section \<open>Data\<close>

text \<open>The tokens \<open>+ - < > . , [ ]\<close>\<close>

abbreviation (input) TOKEN_PLUS :: uint8_t where "TOKEN_PLUS \<equiv> 0x2b"
abbreviation (input) TOKEN_MINUS :: uint8_t where "TOKEN_MINUS \<equiv> 0x2d"
abbreviation (input) TOKEN_PREVIOUS :: uint8_t where "TOKEN_PREVIOUS \<equiv> 0x3c"
abbreviation (input) TOKEN_NEXT :: uint8_t where "TOKEN_NEXT \<equiv> 0x3e"
abbreviation (input) TOKEN_OUTPUT :: uint8_t where "TOKEN_OUTPUT \<equiv> 0x2e"
abbreviation (input) TOKEN_INPUT :: uint8_t where "TOKEN_INPUT \<equiv> 0x2c"
abbreviation (input) TOKEN_LOOP_START :: uint8_t where "TOKEN_LOOP_START \<equiv> 0x5b"
abbreviation (input) TOKEN_LOOP_END :: uint8_t where "TOKEN_LOOP_END \<equiv> 0x5d"

definition BRAINFUCK_TAPE_SIZE :: nat where "BRAINFUCK_TAPE_SIZE = 30000"

record instruction =
  difference :: uint64_t
  itype :: uint8_t
  inext :: "nat ptr"
  iprevious :: "nat ptr"
  iloop :: "nat ptr"

type_synonym bf_heap = "instruction list"

record bf_state =
  root :: "nat ptr"
  head :: "nat ptr"

text \<open>
  \<open>stdin\<close> holds the bytes that the input handler will return, \<open>stdout\<close> the values that were passed to
  the output handler.
\<close>

record exec_context =
  tape :: "uint8_t list"
  tape_index :: int
  tape_size :: uint64_t
  stdin :: "uint8_t list"
  stdout :: "int list"

definition brainfuck_state :: bf_state where
  "brainfuck_state = \<lparr>root = None, head = None\<rparr>"

text \<open>
  The tape is allocated with \<open>sizeof(int)\<close> bytes per cell and not cleared; \<open>junk\<close> gives its contents.
\<close>

definition brainfuck_context :: "(nat \<Rightarrow> uint8_t) \<Rightarrow> uint8_t list \<Rightarrow> int \<Rightarrow> exec_context" where
  "brainfuck_context junk inp sz =
     (let sz = (if sz < 0 then int BRAINFUCK_TAPE_SIZE else sz) in
      \<lparr>tape = map junk [0..<4 * nat sz], tape_index = 0, tape_size = word_of_int sz, stdin = inp, stdout = []\<rparr>)"

definition upd :: "bf_heap \<Rightarrow> nat \<Rightarrow> (instruction \<Rightarrow> instruction) \<Rightarrow> bf_heap" where
  "upd h i f = h[i := f (h ! i)]"

section \<open>Parsing a string\<close>

definition is_run :: "uint8_t \<Rightarrow> bool" where
  "is_run ch \<longleftrightarrow> ch \<in> {TOKEN_PLUS, TOKEN_MINUS, TOKEN_NEXT, TOKEN_PREVIOUS, TOKEN_OUTPUT, TOKEN_INPUT}"

text \<open>The characters that are counted together with \<open>ch\<close>, and what each adds to \<open>difference\<close>.\<close>

definition same_run :: "uint8_t \<Rightarrow> uint8_t \<Rightarrow> bool" where
  "same_run ch t \<longleftrightarrow>
     (if ch = TOKEN_PLUS \<or> ch = TOKEN_MINUS then t = TOKEN_PLUS \<or> t = TOKEN_MINUS
      else if ch = TOKEN_NEXT \<or> ch = TOKEN_PREVIOUS then t = TOKEN_NEXT \<or> t = TOKEN_PREVIOUS
      else t = ch)"

definition count_char :: "uint8_t \<Rightarrow> uint8_t \<Rightarrow> uint64_t \<Rightarrow> uint64_t" where
  "count_char ch t d = (if t = ch then d + 1 else d - 1)"

text \<open>\<open>str[i]\<close> of a string with its terminating NUL.\<close>

definition char_at :: "uint8_t list \<Rightarrow> int \<Rightarrow> uint8_t option" where
  "char_at str i =
     (if 0 \<le> i \<and> i < int (length str) then Some (str ! nat i)
      else if i = int (length str) then Some 0 else None)"

text \<open>The inner loops: they stop at the end, at the NUL, or at another character.\<close>

partial_function (option) scan_run ::
  "uint8_t list \<Rightarrow> int \<Rightarrow> uint8_t \<Rightarrow> int \<Rightarrow> uint64_t \<Rightarrow> (int \<times> uint64_t) option" where
  "scan_run str stop ch i d =
     (if i < stop
      then do {
        t \<leftarrow> char_at str i;
        if t \<noteq> 0 \<and> same_run ch t then scan_run str stop ch (i + 1) (count_char ch t d) else Some (i, d)
      }
      else Some (i, d))"

definition root_instruction :: "instruction \<Rightarrow> bf_heap \<Rightarrow> nat \<times> bf_heap" where
  "root_instruction junk h = (length h, h @ [junk\<lparr>inext := None, iprevious := None, iloop := None\<rparr>])"

definition next_instruction :: "instruction \<Rightarrow> bf_heap \<Rightarrow> nat \<Rightarrow> nat \<times> bf_heap" where
  "next_instruction junk h cur =
     (length h, upd h cur (\<lambda>x. x\<lparr>inext := Some (length h)\<rparr>) @ [junk\<lparr>inext := None, iprevious := Some cur, iloop := None\<rparr>])"

text \<open>
  The loop of \<open>brainfuck_parse_substring_incremental\<close> on the current instruction and the index; a
  nested call allocates its own root.
\<close>

partial_function (option) parse_loop ::
  "instruction \<Rightarrow> uint8_t list \<Rightarrow> int \<Rightarrow> bf_heap \<Rightarrow> nat \<Rightarrow> int \<Rightarrow> (bf_heap \<times> int) option" where
  "parse_loop junk str stop h cur i =
     (if i < stop
      then do {
        ch \<leftarrow> char_at str i;
        if ch = 0 then Some (upd h cur (\<lambda>x. x\<lparr>itype := TOKEN_LOOP_END\<rparr>), i)
        else
          let h = upd h cur (\<lambda>x. x\<lparr>itype := ch, difference := 1\<rparr>) in
          if is_run ch then do {
            (i, d) \<leftarrow> scan_run str stop ch (i + 1) 1;
            let h = upd h cur (\<lambda>x. x\<lparr>difference := d\<rparr>);
            let (n, h) = next_instruction junk h cur;
            parse_loop junk str stop h n i
          }
          else if ch = TOKEN_LOOP_START then do {
            let (r, h) = root_instruction junk h;
            (h, i) \<leftarrow> parse_loop junk str stop h r (i + 1);
            let h = upd h cur (\<lambda>x. x\<lparr>iloop := Some r\<rparr>);
            let (n, h) = next_instruction junk h cur;
            parse_loop junk str stop h n (i + 1)
          }
          else if ch = TOKEN_LOOP_END then Some (h, i)
          else parse_loop junk str stop h cur (i + 1)
      }
      else Some (upd h cur (\<lambda>x. x\<lparr>itype := TOKEN_LOOP_END\<rparr>), i))"

definition brainfuck_parse_substring_incremental ::
  "instruction \<Rightarrow> bf_heap \<Rightarrow> uint8_t list ptr \<Rightarrow> int ptr \<Rightarrow> int \<Rightarrow> (bf_heap \<times> nat ptr \<times> int ptr) option" where
  "brainfuck_parse_substring_incremental junk h str ptr stop =
     (case (str, ptr) of
        (Some str, Some i) \<Rightarrow> do {
          let stop = (if stop < 0 then int (length str) else stop);
          let (r, h) = root_instruction junk h;
          (h, i) \<leftarrow> parse_loop junk str stop h r i;
          Some (h, Some r, Some i)
        }
      | _ \<Rightarrow> Some (h, None, ptr))"

definition brainfuck_parse_substring ::
  "instruction \<Rightarrow> bf_heap \<Rightarrow> uint8_t list ptr \<Rightarrow> int \<Rightarrow> int \<Rightarrow> (bf_heap \<times> nat ptr) option" where
  "brainfuck_parse_substring junk h str start stop =
     map_option (\<lambda>(h, r, _). (h, r)) (brainfuck_parse_substring_incremental junk h str (Some start) stop)"

definition brainfuck_parse_string :: "instruction \<Rightarrow> bf_heap \<Rightarrow> uint8_t list ptr \<Rightarrow> (bf_heap \<times> nat ptr) option" where
  "brainfuck_parse_string junk h str = brainfuck_parse_substring junk h str 0 (-1)"

section \<open>Parsing a stream\<close>

text \<open>
  \<open>fgetc\<close> returns a byte as an \<open>int\<close> or \<open>EOF\<close>, which is \<open>-1\<close>, and the sources keep it in a \<open>char\<close>:
  the byte 255 and the end of the stream become the same value.
\<close>

definition EOF :: int where "EOF = -1"

fun fgetc_char :: "uint8_t list \<Rightarrow> uint8_t \<times> uint8_t list" where
  "fgetc_char [] = (word_of_int EOF, [])"
| "fgetc_char (b # s) = (b, s)"

definition ungetc :: "uint8_t \<Rightarrow> uint8_t list \<Rightarrow> uint8_t list" where
  "ungetc b s = (if sint b = EOF then s else b # s)"

fun scan_stream :: "int \<Rightarrow> uint8_t \<Rightarrow> uint8_t list \<Rightarrow> uint64_t \<Rightarrow> uint8_t list \<times> uint64_t" where
  "scan_stream until ch [] d = (case fgetc_char [] of (t, s) \<Rightarrow> (ungetc t s, d))"
| "scan_stream until ch (t # s) d =
     (if sint t \<noteq> until \<and> same_run ch t then scan_stream until ch s (count_char ch t d) else (ungetc t s, d))"

definition stream_root :: "instruction \<Rightarrow> bf_heap \<Rightarrow> nat \<times> bf_heap" where
  "stream_root junk h = (length h, h @ [junk\<lparr>inext := None, iloop := None\<rparr>])"

definition stream_next :: "instruction \<Rightarrow> bf_heap \<Rightarrow> nat \<Rightarrow> nat \<times> bf_heap" where
  "stream_next junk h cur =
     (length h, upd h cur (\<lambda>x. x\<lparr>inext := Some (length h)\<rparr>) @ [junk\<lparr>inext := None, iloop := None\<rparr>])"

partial_function (option) stream_loop ::
  "instruction \<Rightarrow> int \<Rightarrow> bf_heap \<Rightarrow> nat \<Rightarrow> uint8_t list \<Rightarrow> (bf_heap \<times> uint8_t list) option" where
  "stream_loop junk until h cur s =
     (case fgetc_char s of
        (ch, s) \<Rightarrow>
          if sint ch = until then Some (upd h cur (\<lambda>x. x\<lparr>itype := TOKEN_LOOP_END\<rparr>), s)
          else
            let h = upd h cur (\<lambda>x. x\<lparr>itype := ch, difference := 1\<rparr>) in
            if is_run ch then
              case scan_stream until ch s 1 of (s, d) \<Rightarrow>
              let h = upd h cur (\<lambda>x. x\<lparr>difference := d\<rparr>);
                  (n, h) = stream_next junk h cur
              in stream_loop junk until h n s
            else if ch = TOKEN_LOOP_START then do {
              let (r, h) = stream_root junk h;
              (h, s) \<leftarrow> stream_loop junk until h r s;
              let h = upd h cur (\<lambda>x. x\<lparr>iloop := Some r\<rparr>);
              let (n, h) = stream_next junk h cur;
              stream_loop junk until h n s
            }
            else if ch = TOKEN_LOOP_END then Some (h, s)
            else stream_loop junk until h cur s)"

definition brainfuck_parse_stream_until :: "instruction \<Rightarrow> bf_heap \<Rightarrow> uint8_t list \<Rightarrow> int \<Rightarrow> (bf_heap \<times> nat \<times> uint8_t list) option" where
  "brainfuck_parse_stream_until junk h stream until = do {
     let (r, h) = stream_root junk h;
     (h, s) \<leftarrow> stream_loop junk until h r stream;
     Some (h, r, s)
   }"

definition brainfuck_parse_stream :: "instruction \<Rightarrow> bf_heap \<Rightarrow> uint8_t list \<Rightarrow> (bf_heap \<times> nat \<times> uint8_t list) option" where
  "brainfuck_parse_stream junk h stream = brainfuck_parse_stream_until junk h stream EOF"

definition brainfuck_parse_character :: "instruction \<Rightarrow> bf_heap \<Rightarrow> uint8_t \<Rightarrow> bf_heap \<times> nat ptr" where
  "brainfuck_parse_character junk h ch =
     (let h' = h @ [junk\<lparr>inext := None, iloop := None, difference := 1\<rparr>] in
      if is_run ch \<or> ch = TOKEN_LOOP_START \<or> ch = TOKEN_LOOP_END
      then (upd h' (length h) (\<lambda>x. x\<lparr>itype := ch\<rparr>), Some (length h))
      else (h', None))"

section \<open>Execution\<close>

text \<open>
  The result of an execution: it returns, it exits the program with \<open>EXIT_FAILURE\<close> after some output,
  or it accesses memory outside the tape or the heap.
\<close>

datatype exec_result = Done exec_context | Exit_Failure "int list" | Fault

definition cell :: "exec_context \<Rightarrow> uint8_t option" where
  "cell c = (if 0 \<le> tape_index c \<and> tape_index c < int (length (tape c)) then Some (tape c ! nat (tape_index c)) else None)"

definition set_cell :: "exec_context \<Rightarrow> uint8_t \<Rightarrow> exec_context" where
  "set_cell c b = c\<lparr>tape := (tape c)[nat (tape_index c) := b]\<rparr>"

text \<open>\<open>getchar\<close>, stored in a \<open>char\<close>\<close>

definition input_handler :: "exec_context \<Rightarrow> uint8_t \<times> exec_context" where
  "input_handler c = (case stdin c of [] \<Rightarrow> (word_of_int EOF, c) | b # s \<Rightarrow> (b, c\<lparr>stdin := s\<rparr>))"

fun output_loop :: "nat \<Rightarrow> exec_context \<Rightarrow> exec_result" where
  "output_loop 0 c = Done c"
| "output_loop (Suc n) c = (case cell c of None \<Rightarrow> Fault | Some b \<Rightarrow> output_loop n (c\<lparr>stdout := stdout c @ [sint b]\<rparr>))"

fun input_loop :: "nat \<Rightarrow> exec_context \<Rightarrow> exec_result" where
  "input_loop 0 c = Done c"
| "input_loop (Suc n) c =
     (case cell c of None \<Rightarrow> Fault | Some _ \<Rightarrow> case input_handler c of (b, c) \<Rightarrow> input_loop n (set_cell c b))"

text \<open>
  The index is an \<open>int\<close>, the comparisons are on \<open>unsigned long\<close> (for \<open><\<close>, on \<open>long\<close>), and \<open>INT_MAX\<close>
  minus the size of the tape is unsigned.
\<close>

definition exec_run :: "uint8_t \<Rightarrow> uint64_t \<Rightarrow> exec_context \<Rightarrow> exec_result" where
  "exec_run ch d c =
     (if ch = TOKEN_PLUS then
        (case cell c of None \<Rightarrow> Fault | Some b \<Rightarrow> Done (set_cell c (b + ucast d)))
      else if ch = TOKEN_MINUS then
        (case cell c of None \<Rightarrow> Fault | Some b \<Rightarrow> Done (set_cell c (b - ucast d)))
      else if ch = TOKEN_NEXT then
        if 0x7FFFFFFF - tape_size c \<le> d \<or> tape_size c \<le> word_of_int (tape_index c) + d then Exit_Failure (stdout c)
        else Done (c\<lparr>tape_index := sint (ucast (word_of_int (tape_index c) + d) :: uint32_t)\<rparr>)
      else if ch = TOKEN_PREVIOUS then
        if 0x7FFFFFFF - tape_size c \<le> d \<or> tape_index c - sint d < 0 then Exit_Failure (stdout c)
        else Done (c\<lparr>tape_index := sint (ucast (word_of_int (tape_index c) - d) :: uint32_t)\<rparr>)
      else if ch = TOKEN_OUTPUT then output_loop (unat d) c
      else input_loop (unat d) c)"

text \<open>
  \<open>while (tape[index]) brainfuck_execute(loop)\<close> is a step that comes back to the same instruction.
\<close>

partial_function (option) brainfuck_execute :: "bf_heap \<Rightarrow> nat ptr \<Rightarrow> exec_context \<Rightarrow> exec_result option" where
  "brainfuck_execute h p c =
     (case p of
        None \<Rightarrow> Some (Done c)
      | Some i \<Rightarrow>
          if length h \<le> i then Some Fault
          else if itype (h ! i) = TOKEN_LOOP_END then Some (Done c)
          else if itype (h ! i) = TOKEN_LOOP_START then
            (case cell c of
               None \<Rightarrow> Some Fault
             | Some b \<Rightarrow>
                 if b \<noteq> 0
                 then do {
                   r \<leftarrow> brainfuck_execute h (iloop (h ! i)) c;
                   case r of Done c \<Rightarrow> brainfuck_execute h p c | _ \<Rightarrow> Some r
                 }
                 else brainfuck_execute h (inext (h ! i)) c)
          else if is_run (itype (h ! i)) then
            (case exec_run (itype (h ! i)) (difference (h ! i)) c of
               Done c \<Rightarrow> brainfuck_execute h (inext (h ! i)) c
             | r \<Rightarrow> Some r)
          else Some (Done c))"

section \<open>The list of instructions\<close>

text \<open>The last instruction from \<open>i\<close> on: the loops over \<open>iter\<close>.\<close>

partial_function (option) last_instruction :: "bf_heap \<Rightarrow> nat \<Rightarrow> nat option" where
  "last_instruction h i =
     (if length h \<le> i then None
      else case inext (h ! i) of None \<Rightarrow> Some i | Some j \<Rightarrow> last_instruction h j)"

definition brainfuck_add :: "bf_heap \<Rightarrow> bf_state ptr \<Rightarrow> nat ptr \<Rightarrow> (bf_heap \<times> bf_state ptr \<times> nat ptr) option" where
  "brainfuck_add h state instruction =
     (case (state, instruction) of
        (Some st, Some i) \<Rightarrow> do {
          let h = upd h i (\<lambda>x. x\<lparr>iprevious := head st\<rparr>);
          let h = (case head st of None \<Rightarrow> h | Some j \<Rightarrow> upd h j (\<lambda>x. x\<lparr>inext := Some i\<rparr>));
          l \<leftarrow> last_instruction h i;
          let st = st\<lparr>head := Some l\<rparr>;
          let st = (if root st = None then st\<lparr>root := Some i\<rparr> else st);
          Some (h, Some st, head st)
        }
      | _ \<Rightarrow> Some (h, state, None))"

definition brainfuck_add_front :: "bf_heap \<Rightarrow> bf_state ptr \<Rightarrow> nat ptr \<Rightarrow> (bf_heap \<times> bf_state ptr \<times> nat ptr) option" where
  "brainfuck_add_front h state instruction =
     (case (state, instruction) of
        (Some st, Some i) \<Rightarrow> do {
          let h = upd h i (\<lambda>x. x\<lparr>iprevious := None\<rparr>);
          l \<leftarrow> last_instruction h i;
          let st = st\<lparr>head := Some l\<rparr>;
          let h = upd h l (\<lambda>x. x\<lparr>inext := root st\<rparr>);
          r \<leftarrow> root st;
          let h = upd h r (\<lambda>x. x\<lparr>iprevious := Some l\<rparr>);
          let st = st\<lparr>root := Some i\<rparr>;
          Some (h, Some st, head st)
        }
      | _ \<Rightarrow> Some (h, state, None))"

definition brainfuck_insert_before ::
  "bf_heap \<Rightarrow> bf_state ptr \<Rightarrow> nat ptr \<Rightarrow> nat ptr \<Rightarrow> (bf_heap \<times> bf_state ptr \<times> nat ptr) option" where
  "brainfuck_insert_before h state before instruction =
     (case (state, before, instruction) of
        (Some st, Some b, Some i) \<Rightarrow> do {
          let previous = iprevious (h ! b);
          l \<leftarrow> last_instruction h i;
          let h = upd h b (\<lambda>x. x\<lparr>iprevious := Some l\<rparr>);
          let h = upd h l (\<lambda>x. x\<lparr>inext := Some l\<rparr>);
          let h = (case previous of
                     None \<Rightarrow> h
                   | Some p \<Rightarrow> upd (upd h p (\<lambda>x. x\<lparr>inext := Some i\<rparr>)) i (\<lambda>x. x\<lparr>iprevious := Some p\<rparr>));
          Some (h, Some (if root st = Some b then st\<lparr>root := Some i\<rparr> else st), Some i)
        }
      | _ \<Rightarrow> Some (h, state, None))"

definition brainfuck_insert_after ::
  "bf_heap \<Rightarrow> bf_state ptr \<Rightarrow> nat ptr \<Rightarrow> nat ptr \<Rightarrow> (bf_heap \<times> bf_state ptr \<times> nat ptr) option" where
  "brainfuck_insert_after h state after instruction =
     (case (state, after, instruction) of
        (Some st, Some a, Some i) \<Rightarrow> do {
          let h = upd h a (\<lambda>x. x\<lparr>inext := Some i\<rparr>);
          let h = upd h i (\<lambda>x. x\<lparr>iprevious := Some a\<rparr>);
          let next = inext (h ! a);
          l \<leftarrow> last_instruction h i;
          let h = (case next of
                     None \<Rightarrow> h
                   | Some n \<Rightarrow> upd (upd h n (\<lambda>x. x\<lparr>iprevious := Some l\<rparr>)) l (\<lambda>x. x\<lparr>inext := Some n\<rparr>));
          Some (h, Some (if head st = Some a then st\<lparr>head := Some l\<rparr> else st), Some i)
        }
      | _ \<Rightarrow> Some (h, state, None))"

definition brainfuck_remove :: "bf_heap \<Rightarrow> bf_state ptr \<Rightarrow> nat ptr \<Rightarrow> (bf_heap \<times> bf_state ptr \<times> nat ptr) option" where
  "brainfuck_remove h state instruction =
     (case (state, instruction) of
        (Some st, Some i) \<Rightarrow> do {
          let st = (if head st = Some i then st\<lparr>head := iprevious (h ! i)\<rparr> else st);
          p \<leftarrow> iprevious (h ! i);
          let h = upd h p (\<lambda>x. x\<lparr>inext := inext (h ! i)\<rparr>);
          n \<leftarrow> inext (h ! i);
          let h = upd h n (\<lambda>x. x\<lparr>iprevious := iprevious (h ! i)\<rparr>);
          Some (upd h i (\<lambda>x. x\<lparr>iprevious := None, inext := None\<rparr>), Some st, Some i)
        }
      | _ \<Rightarrow> Some (h, state, None))"

section \<open>Destruction\<close>

text \<open>The addresses that are passed to \<open>free\<close>, in order.\<close>

definition brainfuck_destroy_instruction :: "nat ptr \<Rightarrow> nat list" where
  "brainfuck_destroy_instruction instruction = (case instruction of None \<Rightarrow> [] | Some i \<Rightarrow> [i])"

partial_function (option) brainfuck_destroy_instructions :: "bf_heap \<Rightarrow> nat ptr \<Rightarrow> nat list option" where
  "brainfuck_destroy_instructions h p =
     (case p of
        None \<Rightarrow> Some []
      | Some i \<Rightarrow>
          if length h \<le> i then None
          else do {
            l \<leftarrow> brainfuck_destroy_instructions h (iloop (h ! i));
            rest \<leftarrow> brainfuck_destroy_instructions h (inext (h ! i));
            Some (l @ brainfuck_destroy_instruction (Some i) @ rest)
          })"

definition brainfuck_destroy_state :: "bf_heap \<Rightarrow> bf_state ptr \<Rightarrow> nat list option" where
  "brainfuck_destroy_state h state =
     (case state of None \<Rightarrow> Some [] | Some st \<Rightarrow> brainfuck_destroy_instructions h (root st))"

section \<open>Running a program\<close>

text \<open>What \<open>run_string\<close> and \<open>run_file\<close> do once the program has been parsed.\<close>

definition run_instruction :: "bf_heap \<Rightarrow> nat ptr \<Rightarrow> exec_context \<Rightarrow> (bf_heap \<times> exec_result \<times> nat list) option" where
  "run_instruction h instruction c = do {
     (h, st, _) \<leftarrow> brainfuck_add h (Some brainfuck_state) instruction;
     r \<leftarrow> brainfuck_execute h (Option.bind st root) c;
     case r of
       Done c \<Rightarrow> do { fs \<leftarrow> brainfuck_destroy_state h st; Some (h, r, fs) }
     | _ \<Rightarrow> Some (h, r, [])
   }"

definition brainfuck_run_string ::
  "instruction \<Rightarrow> (nat \<Rightarrow> uint8_t) \<Rightarrow> uint8_t list \<Rightarrow> uint8_t list \<Rightarrow> (bf_heap \<times> exec_result \<times> nat list) option" where
  "brainfuck_run_string junk tape_junk inp code = do {
     let c = brainfuck_context tape_junk inp (int BRAINFUCK_TAPE_SIZE);
     (h, instruction) \<leftarrow> brainfuck_parse_string junk [] (Some code);
     run_instruction h instruction c
   }"

text \<open>The status that \<open>run_file\<close> returns comes first; a file that could not be opened is NULL.\<close>

definition brainfuck_run_file ::
  "instruction \<Rightarrow> (nat \<Rightarrow> uint8_t) \<Rightarrow> uint8_t list \<Rightarrow> uint8_t list ptr \<Rightarrow> (int \<times> bf_heap \<times> exec_result \<times> nat list) option" where
  "brainfuck_run_file junk tape_junk inp file = do {
     let c = brainfuck_context tape_junk inp (int BRAINFUCK_TAPE_SIZE);
     case file of
       None \<Rightarrow> do { fs \<leftarrow> brainfuck_destroy_state [] (Some brainfuck_state); Some (1, [], Done c, fs) }
     | Some stream \<Rightarrow> do {
         (h, instruction, _) \<leftarrow> brainfuck_parse_stream junk [] stream;
         x \<leftarrow> run_instruction h (Some instruction) c;
         Some (0, x)
       }
   }"

end
