(* ===== verification/Brainfuck_Parse.thy ===== *)
theory Brainfuck_Parse
  imports Brainfuck
begin

text \<open>
  Both parsers build, for the text of a program, its instructions with runs counted: what they have
  in common is an interface, of which each is an instance.
\<close>

section \<open>Programs and instructions\<close>

text \<open>A program: commands (or characters of comments) and loops.\<close>

datatype bf = Cmd uint8_t | While "bf list"

fun print_bf :: "bf \<Rightarrow> uint8_t list" where
  "print_bf (Cmd ch) = [ch]"
| "print_bf (While b) = TOKEN_LOOP_START # concat (map print_bf b) @ [TOKEN_LOOP_END]"

definition print_prog :: "bf list \<Rightarrow> uint8_t list" where
  "print_prog p = concat (map print_bf p)"

fun bf_ok :: "bf \<Rightarrow> bool" where
  "bf_ok (Cmd ch) \<longleftrightarrow> ch \<noteq> TOKEN_LOOP_START \<and> ch \<noteq> TOKEN_LOOP_END"
| "bf_ok (While b) \<longleftrightarrow> list_all bf_ok b"

text \<open>The instructions of a program.\<close>

datatype instr = Run uint8_t uint64_t | Loop "instr list"

fun in_run :: "uint8_t \<Rightarrow> bf \<Rightarrow> bool" where
  "in_run ch (Cmd t) \<longleftrightarrow> same_run ch t"
| "in_run ch (While b) \<longleftrightarrow> False"

definition run_count :: "uint8_t \<Rightarrow> uint8_t list \<Rightarrow> uint64_t" where
  "run_count ch ts = fold (count_char ch) ts 1"

lemma size_dropWhile: "size_list size (dropWhile P xs) \<le> size_list size xs"
  by (induction xs) auto

function compress :: "bf list \<Rightarrow> instr list" where
  "compress [] = []"
| "compress (While b # p) = Loop (compress b) # compress p"
| "compress (Cmd ch # p) =
     (if is_run ch
      then Run ch (run_count ch (print_prog (takeWhile (in_run ch) p))) # compress (dropWhile (in_run ch) p)
      else compress p)"
  by pat_completeness auto
termination
  by (relation "measure (size_list size)") (auto simp: le_imp_less_Suc size_dropWhile intro: le_less_trans [OF size_dropWhile])

lemma print_prog_simps [simp]:
  "print_prog [] = []" "print_prog (Cmd ch # p) = ch # print_prog p"
  "print_prog (While b # p) = TOKEN_LOOP_START # print_prog b @ TOKEN_LOOP_END # print_prog p"
  by (simp_all add: print_prog_def)

lemma same_run_loop: "is_run ch \<Longrightarrow> same_run ch t \<Longrightarrow> t \<noteq> TOKEN_LOOP_START \<and> t \<noteq> TOKEN_LOOP_END \<and> t \<noteq> 0 \<and> sint t \<noteq> EOF \<and> is_run t"
  by (auto simp: is_run_def same_run_def EOF_def split: if_splits)

lemma takeWhile_print:
  assumes "is_run ch" "post = [] \<or> List.hd post = TOKEN_LOOP_END"
  shows "takeWhile (same_run ch) (print_prog p @ post) = print_prog (takeWhile (in_run ch) p)"
    "dropWhile (same_run ch) (print_prog p @ post) = print_prog (dropWhile (in_run ch) p) @ post"
proof -
  have *: "\<not> same_run ch TOKEN_LOOP_START" "\<not> same_run ch TOKEN_LOOP_END" using same_run_loop [OF assms(1)] by blast+
  have "takeWhile (same_run ch) (print_prog p @ post) = print_prog (takeWhile (in_run ch) p) \<and>
    dropWhile (same_run ch) (print_prog p @ post) = print_prog (dropWhile (in_run ch) p) @ post"
  proof (induction p)
    case Nil
    then show ?case using assms(2) * by (cases post) auto
  next
    case (Cons x p)
    then show ?case using * by (cases x) auto
  qed
  then show "takeWhile (same_run ch) (print_prog p @ post) = print_prog (takeWhile (in_run ch) p)"
    "dropWhile (same_run ch) (print_prog p @ post) = print_prog (dropWhile (in_run ch) p) @ post" by auto
qed

section \<open>Instructions in the heap\<close>

text \<open>
  \<open>rep h i is ns\<close>: the list from \<open>i\<close> on holds the instructions \<open>is\<close>, and it occupies the nodes \<open>ns\<close>, in
  the order in which they are freed.
\<close>

fun rep :: "bf_heap \<Rightarrow> nat \<Rightarrow> instr list \<Rightarrow> nat list \<Rightarrow> bool" where
  "rep h i [] ns \<longleftrightarrow> i < length h \<and> itype (h ! i) = TOKEN_LOOP_END \<and> inext (h ! i) = None \<and> iloop (h ! i) = None \<and> ns = [i]"
| "rep h i (Run ch d # is) ns \<longleftrightarrow> i < length h \<and> itype (h ! i) = ch \<and> is_run ch \<and> difference (h ! i) = d \<and>
     iloop (h ! i) = None \<and> (\<exists>j ms. inext (h ! i) = Some j \<and> rep h j is ms \<and> ns = i # ms)"
| "rep h i (Loop b # is) ns \<longleftrightarrow> i < length h \<and> itype (h ! i) = TOKEN_LOOP_START \<and>
     (\<exists>r j ls ms. iloop (h ! i) = Some r \<and> inext (h ! i) = Some j \<and> rep h r b ls \<and> rep h j is ms \<and> ns = ls @ i # ms)"

lemma rep_cong: "rep h i is ns \<Longrightarrow> length h \<le> length h' \<Longrightarrow> (\<And>k. k \<in> set ns \<Longrightarrow> h' ! k = h ! k) \<Longrightarrow> rep h' i is ns"
proof (induction h i "is" ns rule: rep.induct)
  case (2 h i ch d "is" ns)
  from "2.prems"(1) obtain j ms where *: "inext (h ! i) = Some j" "rep h j is ms" "ns = i # ms" by auto
  then have "rep h' j is ms" using "2.IH" "2.prems"(2,3) by auto
  then show ?case using "2.prems" * by auto
next
  case (3 h i b "is" ns)
  from "3.prems"(1) obtain r j ls ms where *: "iloop (h ! i) = Some r" "inext (h ! i) = Some j" "rep h r b ls"
    "rep h j is ms" "ns = ls @ i # ms" by auto
  then have "rep h' r b ls" "rep h' j is ms" using "3.IH" "3.prems"(2,3) by auto
  then show ?case using "3.prems" * by auto
qed auto

lemma rep_bound: "rep h i is ns \<Longrightarrow> k \<in> set ns \<Longrightarrow> k < length h"
  by (induction h i "is" ns rule: rep.induct) auto

section \<open>The interface of the parsers\<close>

lemma insert_range: "n < m \<Longrightarrow> insert n {Suc n..<m} = {n..<m}"
  by auto

lemma length_upd [simp]: "length (upd h i f) = length h"
  by (simp add: upd_def)

lemma nth_upd: "i < length h \<Longrightarrow> upd h i f ! j = (if j = i then f (h ! i) else h ! j)"
  by (simp add: upd_def nth_list_update)

definition link_next :: "bf_heap \<Rightarrow> nat \<Rightarrow> instruction \<Rightarrow> bf_heap" where
  "link_next h cur fresh = upd h cur (\<lambda>x. x\<lparr>inext := Some (length h)\<rparr>) @ [fresh]"

text \<open>
  The nodes of the instructions are the current one and those that were allocated, each once; the
  rest of the heap is as before.
\<close>

definition parsed :: "bf_heap \<Rightarrow> nat \<Rightarrow> instr list \<Rightarrow> bf_heap \<Rightarrow> bool" where
  "parsed h cur is h' \<longleftrightarrow> (\<exists>ns. rep h' cur is ns \<and> distinct ns \<and> set ns = insert cur {length h..<length h'}) \<and>
     length h \<le> length h' \<and> (\<forall>k<length h. k \<noteq> cur \<longrightarrow> h' ! k = h ! k)"

text \<open>
  A parser works on the current instruction and a position; \<open>at s t\<close> says that the text \<open>t\<close> is left at
  the position \<open>s\<close>, and \<open>after\<close> is where the caller goes on when a nested call has returned.
\<close>

locale instruction_parser =
  fixes ploop :: "bf_heap \<Rightarrow> nat \<Rightarrow> 's \<Rightarrow> (bf_heap \<times> 's) option"
    and at :: "'s \<Rightarrow> uint8_t list \<Rightarrow> bool"
    and after :: "'s \<Rightarrow> 's"
    and fresh_root :: instruction
    and fresh_next :: "nat \<Rightarrow> instruction"
  assumes at_end: "at s [] \<Longrightarrow>
      \<exists>s'. ploop h cur s = Some (upd h cur (\<lambda>x. x\<lparr>itype := TOKEN_LOOP_END\<rparr>), s') \<and> at (after s') []"
    and at_close: "at s (TOKEN_LOOP_END # t) \<Longrightarrow>
      \<exists>s'. ploop h cur s = Some (upd h cur (\<lambda>x. x\<lparr>itype := TOKEN_LOOP_END, difference := 1\<rparr>), s') \<and> at (after s') t"
    and at_run: "at s (ch # t) \<Longrightarrow> is_run ch \<Longrightarrow> cur < length h \<Longrightarrow>
      \<exists>s'. at s' (dropWhile (same_run ch) t) \<and>
        ploop h cur s =
          ploop (link_next (upd h cur (\<lambda>x. x\<lparr>itype := ch, difference := run_count ch (takeWhile (same_run ch) t)\<rparr>)) cur (fresh_next cur))
            (length h) s'"
    and at_open: "at s (TOKEN_LOOP_START # t) \<Longrightarrow>
      \<exists>s'. at s' t \<and>
        ploop h cur s = do {
          (h', s'') \<leftarrow> ploop (upd h cur (\<lambda>x. x\<lparr>itype := TOKEN_LOOP_START, difference := 1\<rparr>) @ [fresh_root]) (length h) s';
          ploop (link_next (upd h' cur (\<lambda>x. x\<lparr>iloop := Some (length h)\<rparr>)) cur (fresh_next cur)) (length h') (after s'')
        }"
    and at_other: "at s (ch # t) \<Longrightarrow> \<not> is_run ch \<Longrightarrow> ch \<noteq> TOKEN_LOOP_START \<Longrightarrow> ch \<noteq> TOKEN_LOOP_END \<Longrightarrow>
      \<exists>s'. at s' t \<and> ploop h cur s = ploop (upd h cur (\<lambda>x. x\<lparr>itype := ch, difference := 1\<rparr>)) cur s'"
    and fresh: "inext fresh_root = None" "iloop fresh_root = None" "inext (fresh_next i) = None" "iloop (fresh_next i) = None"
begin

lemma parse_run:
  assumes "at s (ch # print_prog p @ post)" "is_run ch" "cur < length h" "iloop (h ! cur) = None"
    "post = [] \<or> List.hd post = TOKEN_LOOP_END"
    and IH: "\<And>h cur s. cur < length h \<Longrightarrow> inext (h ! cur) = None \<Longrightarrow> iloop (h ! cur) = None \<Longrightarrow>
      at s (print_prog (dropWhile (in_run ch) p) @ post) \<Longrightarrow>
      \<exists>h' s'. ploop h cur s = Some (h', s') \<and> at (after s') (drop 1 post) \<and> parsed h cur (compress (dropWhile (in_run ch) p)) h'"
  shows "\<exists>h' s'. ploop h cur s = Some (h', s') \<and> at (after s') (drop 1 post) \<and> parsed h cur (compress (Cmd ch # p)) h'"
proof -
  let ?d = "run_count ch (print_prog (takeWhile (in_run ch) p))"
  let ?h = "link_next (upd h cur (\<lambda>x. x\<lparr>itype := ch, difference := ?d\<rparr>)) cur (fresh_next cur)"
  obtain s1 where s1: "at s1 (print_prog (dropWhile (in_run ch) p) @ post)" "ploop h cur s = ploop ?h (length h) s1"
    using at_run [OF assms(1-3)] unfolding takeWhile_print [OF assms(2,5)] by blast
  have h: "length ?h = Suc (length h)" "?h ! length h = fresh_next cur"
    "?h ! cur = (h ! cur)\<lparr>itype := ch, difference := ?d, inext := Some (length h)\<rparr>"
    "\<And>k. k < length h \<Longrightarrow> k \<noteq> cur \<Longrightarrow> ?h ! k = h ! k"
    using assms(3) by (auto simp: link_next_def nth_append nth_upd)
  obtain h' s' where h': "ploop ?h (length h) s1 = Some (h', s')" "at (after s') (drop 1 post)"
    "parsed ?h (length h) (compress (dropWhile (in_run ch) p)) h'"
    using IH [of "length h" ?h s1] s1(1) h(1,2) fresh by auto
  then obtain ns where ns: "rep h' (length h) (compress (dropWhile (in_run ch) p)) ns" "distinct ns"
    "set ns = {length h..<length h'}" "Suc (length h) \<le> length h'" "\<And>k. k < length h \<Longrightarrow> h' ! k = ?h ! k"
    by (auto simp: parsed_def h(1) insert_range)
  have "rep h' cur (compress (Cmd ch # p)) (cur # ns)"
    using ns(1,4,5) assms(2-4) h(3) by simp
  moreover have "distinct (cur # ns)" "set (cur # ns) = insert cur {length h..<length h'}"
    using ns(2-4) assms(3) by auto
  ultimately have "parsed h cur (compress (Cmd ch # p)) h'" using ns(4,5) h(4) unfolding parsed_def by (metis Suc_leD)
  then show ?thesis using s1(2) h'(1,2) by auto
qed

lemma parse_while:
  assumes "at s (print_prog (While b # p) @ post)" "cur < length h" "inext (h ! cur) = None"
    and IHb: "\<And>h cur s. cur < length h \<Longrightarrow> inext (h ! cur) = None \<Longrightarrow> iloop (h ! cur) = None \<Longrightarrow>
      at s (print_prog b @ TOKEN_LOOP_END # print_prog p @ post) \<Longrightarrow>
      \<exists>h' s'. ploop h cur s = Some (h', s') \<and> at (after s') (print_prog p @ post) \<and> parsed h cur (compress b) h'"
    and IHp: "\<And>h cur s. cur < length h \<Longrightarrow> inext (h ! cur) = None \<Longrightarrow> iloop (h ! cur) = None \<Longrightarrow>
      at s (print_prog p @ post) \<Longrightarrow>
      \<exists>h' s'. ploop h cur s = Some (h', s') \<and> at (after s') (drop 1 post) \<and> parsed h cur (compress p) h'"
  shows "\<exists>h' s'. ploop h cur s = Some (h', s') \<and> at (after s') (drop 1 post) \<and> parsed h cur (compress (While b # p)) h'"
proof -
  let ?n = "length h" and ?h1 = "upd h cur (\<lambda>x. x\<lparr>itype := TOKEN_LOOP_START, difference := 1\<rparr>) @ [fresh_root]"
  have "at s (TOKEN_LOOP_START # print_prog b @ TOKEN_LOOP_END # print_prog p @ post)" using assms(1) by simp
  from at_open [OF this, of h cur] obtain s1 where s1: "at s1 (print_prog b @ TOKEN_LOOP_END # print_prog p @ post)"
    "ploop h cur s = do {
          (h', s'') \<leftarrow> ploop ?h1 ?n s1;
          ploop (link_next (upd h' cur (\<lambda>x. x\<lparr>iloop := Some ?n\<rparr>)) cur (fresh_next cur)) (length h') (after s'')
        }" by blast
  have h1: "?h1 ! ?n = fresh_root" by (simp add: nth_append)
  obtain h2 s2 where h2: "ploop ?h1 ?n s1 = Some (h2, s2)" "at (after s2) (print_prog p @ post)" "parsed ?h1 ?n (compress b) h2"
    using IHb [of ?n ?h1 s1] s1(1) fresh h1 by auto
  then obtain ls where ls: "rep h2 ?n (compress b) ls" "distinct ls" "set ls = {?n..<length h2}" "Suc ?n \<le> length h2"
    "\<And>k. k < ?n \<Longrightarrow> h2 ! k = ?h1 ! k"
    by (auto simp: parsed_def insert_range)
  let ?h3 = "link_next (upd h2 cur (\<lambda>x. x\<lparr>iloop := Some ?n\<rparr>)) cur (fresh_next cur)" and ?m = "length h2"
  have h3: "length ?h3 = Suc ?m" "?h3 ! ?m = fresh_next cur"
    "?h3 ! cur = (h ! cur)\<lparr>itype := TOKEN_LOOP_START, difference := 1, iloop := Some ?n, inext := Some ?m\<rparr>"
    "\<And>k. k < ?m \<Longrightarrow> k \<noteq> cur \<Longrightarrow> ?h3 ! k = h2 ! k"
    using assms(2) ls(4,5) by (auto simp: link_next_def nth_append nth_upd)
  obtain h' s' where h': "ploop ?h3 ?m (after s2) = Some (h', s')" "at (after s') (drop 1 post)" "parsed ?h3 ?m (compress p) h'"
    using IHp [of ?m ?h3 "after s2"] h2(2) h3(1,2) fresh by auto
  then obtain ms where ms: "rep h' ?m (compress p) ms" "distinct ms" "set ms = {?m..<length h'}" "Suc ?m \<le> length h'"
    "\<And>k. k < ?m \<Longrightarrow> h' ! k = ?h3 ! k"
    by (auto simp: parsed_def h3(1) insert_range)
  have "rep h' ?n (compress b) ls"
    using ls(1) by (rule rep_cong) (use ls(3,4) ms(4,5) h3(4) assms(2) in auto)
  then have "rep h' cur (compress (While b # p)) (ls @ cur # ms)"
    using ms(1,4,5) ls(4) h3(3) assms(2) by auto
  moreover have "distinct (ls @ cur # ms)" "set (ls @ cur # ms) = insert cur {?n..<length h'}"
    using ls(2-4) ms(2-4) assms(2) by auto
  moreover have "h' ! k = h ! k" if "k < ?n" "k \<noteq> cur" for k
    using that ms(5) ls(4,5) h3(4) assms(2) by (simp add: nth_append nth_upd)
  ultimately have "parsed h cur (compress (While b # p)) h'" using ls(4) ms(4) unfolding parsed_def by (metis Suc_leD order_trans)
  then show ?thesis using s1(2) h2(1) h'(1,2) by simp
qed

lemma parse_program:
  "cur < length h \<Longrightarrow> inext (h ! cur) = None \<Longrightarrow> iloop (h ! cur) = None \<Longrightarrow> at s (print_prog p @ post) \<Longrightarrow>
   post = [] \<or> List.hd post = TOKEN_LOOP_END \<Longrightarrow> list_all bf_ok p \<Longrightarrow>
   \<exists>h' s'. ploop h cur s = Some (h', s') \<and> at (after s') (drop 1 post) \<and> parsed h cur (compress p) h'"
proof (induction p arbitrary: h cur s post rule: compress.induct)
  case 1
  show ?case
  proof (cases post)
    case Nil
    then show ?thesis using "1.prems" at_end [of s h cur] by (auto simp: parsed_def nth_upd)
  next
    case (Cons x t)
    then show ?thesis using "1.prems" at_close [of s t h cur] by (auto simp: parsed_def nth_upd)
  qed
next
  case (2 b p)
  have "list_all bf_ok b" "list_all bf_ok p" using "2.prems"(6) by simp_all
  then show ?case
    using "2.IH"(1) [where post = "TOKEN_LOOP_END # print_prog p @ post"] "2.IH"(2) [where post = post] "2.prems"(5)
    by (intro parse_while [OF "2.prems"(4,1,2)]) auto
next
  case (3 ch p)
  show ?case
  proof (cases "is_run ch")
    case True
    have "list_all bf_ok (dropWhile (in_run ch) p)" using "3.prems"(6) by (auto simp: list_all_iff dest: set_dropWhileD)
    then show ?thesis using "3.IH"(1) [OF True, where post = post] "3.prems" True
      by (intro parse_run) auto
  next
    case False
    let ?h = "upd h cur (\<lambda>x. x\<lparr>itype := ch, difference := 1\<rparr>)"
    obtain s1 where s1: "at s1 (print_prog p @ post)" "ploop h cur s = ploop ?h cur s1"
      using at_other [of s ch "print_prog p @ post" h cur] "3.prems"(4,6) False by auto
    obtain h' s' where "ploop ?h cur s1 = Some (h', s')" "at (after s') (drop 1 post)" "parsed ?h cur (compress p) h'"
      using "3.IH"(2) [OF False, of cur ?h s1 post] "3.prems" s1(1) by (auto simp: nth_upd)
    then show ?thesis using s1(2) False "3.prems"(1) by (auto simp: parsed_def nth_upd)
  qed
qed

end

section \<open>The parser of strings\<close>

definition at_str :: "uint8_t list \<Rightarrow> int \<Rightarrow> uint8_t list \<Rightarrow> bool" where
  "at_str str i t \<longleftrightarrow> 0 \<le> i \<and> drop (nat i) str = t \<and> 0 \<notin> set t"

lemma at_str_Nil: "at_str str i [] \<Longrightarrow> \<not> i < int (length str) \<and> at_str str (i + 1) []"
  by (auto simp: at_str_def)

lemma at_str_Cons:
  assumes "at_str str i (ch # t)"
  shows "i < int (length str)" "char_at str i = Some ch" "ch \<noteq> 0" "at_str str (i + 1) t"
proof -
  have i: "0 \<le> i" "drop (nat i) str = ch # t" "0 \<notin> set (ch # t)" using assms by (auto simp: at_str_def)
  then have "nat i < length str" by (metis drop_all list.distinct(1) not_le)
  moreover have "str ! nat i = ch" using i(2) by (metis calculation hd_drop_conv_nth list.sel(1))
  moreover have "drop (nat (i + 1)) str = t"
    using arg_cong [OF i(2), of tl] i(1) by (simp add: nat_add_distrib drop_Suc tl_drop)
  ultimately show "i < int (length str)" "char_at str i = Some ch" "ch \<noteq> 0" "at_str str (i + 1) t"
    using i by (auto simp: char_at_def at_str_def)
qed

lemma scan_run_str:
  assumes "is_run ch"
  shows "at_str str i t \<Longrightarrow> \<exists>j. at_str str j (dropWhile (same_run ch) t) \<and>
    scan_run str (int (length str)) ch i d = Some (j, fold (count_char ch) (takeWhile (same_run ch) t) d)"
proof (induction t arbitrary: i d)
  case Nil
  then show ?case using at_str_Nil [OF Nil] by (auto simp: scan_run.simps)
next
  case (Cons x t)
  note c = at_str_Cons [OF Cons.prems]
  show ?case
  proof (cases "same_run ch x")
    case True
    then show ?thesis using Cons.IH [OF c(4), of "count_char ch x d"] c by (subst scan_run.simps) simp
  next
    case False
    then show ?thesis using Cons.prems c by (subst scan_run.simps) auto
  qed
qed

lemma upd_upd: "upd (upd h i f) i g = upd h i (\<lambda>x. g (f x))"
  by (cases "i < length h") (simp_all add: upd_def list_update_beyond)

lemma next_instruction_link:
  "next_instruction junk h cur = (length h, link_next h cur (junk\<lparr>inext := None, iprevious := Some cur, iloop := None\<rparr>))"
  by (simp add: next_instruction_def link_next_def)

interpretation string_parser: instruction_parser
  "parse_loop junk str (int (length str))" "at_str str" "\<lambda>i. i + 1"
  "junk\<lparr>inext := None, iprevious := None, iloop := None\<rparr>"
  "\<lambda>cur. junk\<lparr>inext := None, iprevious := Some cur, iloop := None\<rparr>" for junk str
proof unfold_locales
  fix s h cur assume "at_str str s []"
  then show "\<exists>s'. parse_loop junk str (int (length str)) h cur s = Some (upd h cur (\<lambda>x. x\<lparr>itype := TOKEN_LOOP_END\<rparr>), s') \<and> at_str str (s' + 1) []"
    using at_str_Nil by (subst parse_loop.simps) simp
next
  fix s t h cur assume "at_str str s (TOKEN_LOOP_END # t)"
  from at_str_Cons [OF this]
  show "\<exists>s'. parse_loop junk str (int (length str)) h cur s = Some (upd h cur (\<lambda>x. x\<lparr>itype := TOKEN_LOOP_END, difference := 1\<rparr>), s') \<and> at_str str (s' + 1) t"
    by (subst parse_loop.simps) (simp add: is_run_def)
next
  fix s ch t cur and h :: bf_heap assume a: "at_str str s (ch # t)" "is_run ch" "cur < length h"
  note c = at_str_Cons [OF a(1)]
  obtain j where j: "at_str str j (dropWhile (same_run ch) t)"
    "scan_run str (int (length str)) ch (s + 1) 1 = Some (j, run_count ch (takeWhile (same_run ch) t))"
    using scan_run_str [OF a(2) c(4)] unfolding run_count_def by blast
  then show "\<exists>s'. at_str str s' (dropWhile (same_run ch) t) \<and>
        parse_loop junk str (int (length str)) h cur s =
          parse_loop junk str (int (length str)) (link_next (upd h cur (\<lambda>x. x\<lparr>itype := ch, difference := run_count ch (takeWhile (same_run ch) t)\<rparr>)) cur
              (junk\<lparr>inext := None, iprevious := Some cur, iloop := None\<rparr>)) (length h) s'"
    using c a(2) by (intro exI [of _ j]) (subst parse_loop.simps, simp add: next_instruction_link upd_upd)
next
  fix s t h cur assume "at_str str s (TOKEN_LOOP_START # t)"
  note c = at_str_Cons [OF this]
  show "\<exists>s'. at_str str s' t \<and>
        parse_loop junk str (int (length str)) h cur s = do {
          (h', s'') \<leftarrow> parse_loop junk str (int (length str)) (upd h cur (\<lambda>x. x\<lparr>itype := TOKEN_LOOP_START, difference := 1\<rparr>) @
              [junk\<lparr>inext := None, iprevious := None, iloop := None\<rparr>]) (length h) s';
          parse_loop junk str (int (length str)) (link_next (upd h' cur (\<lambda>x. x\<lparr>iloop := Some (length h)\<rparr>)) cur
              (junk\<lparr>inext := None, iprevious := Some cur, iloop := None\<rparr>)) (length h') (s'' + 1)
        }"
    using c by (intro exI [of _ "s + 1"]) (subst parse_loop.simps, simp add: next_instruction_link root_instruction_def is_run_def)
next
  fix s ch t h cur
  assume a: "at_str str s (ch # t)" "\<not> is_run ch" "ch \<noteq> TOKEN_LOOP_START" "ch \<noteq> TOKEN_LOOP_END"
  note c = at_str_Cons [OF a(1)]
  show "\<exists>s'. at_str str s' t \<and> parse_loop junk str (int (length str)) h cur s =
      parse_loop junk str (int (length str)) (upd h cur (\<lambda>x. x\<lparr>itype := ch, difference := 1\<rparr>)) cur s'"
    using c a by (intro exI [of _ "s + 1"]) (subst parse_loop.simps, simp)
qed simp_all

text \<open>The string parser on the text of a program, into any heap.\<close>

lemma brainfuck_parse_string_ok:
  assumes "list_all bf_ok p" "0 \<notin> set (print_prog p)"
  shows "\<exists>h' ns. brainfuck_parse_string junk h (Some (print_prog p)) = Some (h', Some (length h)) \<and>
    rep h' (length h) (compress p) ns \<and> distinct ns \<and> set ns = {length h..<length h'} \<and> (\<forall>k<length h. h' ! k = h ! k)"
proof -
  let ?h = "h @ [junk\<lparr>inext := None, iprevious := None, iloop := None\<rparr>]"
  have "at_str (print_prog p) 0 (print_prog p @ [])" using assms(2) by (simp add: at_str_def)
  then obtain h' s' where h': "parse_loop junk (print_prog p) (int (length (print_prog p))) ?h (length h) 0 = Some (h', s')"
    "parsed ?h (length h) (compress p) h'"
    using string_parser.parse_program [of "length h" ?h "print_prog p" 0 p "[]" junk] assms(1) by (auto simp: nth_append)
  then show ?thesis
    by (auto simp: brainfuck_parse_string_def brainfuck_parse_substring_def brainfuck_parse_substring_incremental_def
        root_instruction_def parsed_def insert_range nth_append)
qed

section \<open>The parser of streams\<close>

definition at_stream :: "uint8_t list \<Rightarrow> uint8_t list \<Rightarrow> bool" where
  "at_stream s t \<longleftrightarrow> s = t \<and> 0xFF \<notin> set t"

lemma sint_EOF [simp]: "sint (b :: uint8_t) = EOF \<longleftrightarrow> b = 0xFF"
proof -
  have "(b = 0xFF) = (sint b = sint (0xFF :: uint8_t))" by (rule word_eq_iff_signed)
  then show ?thesis by (simp add: EOF_def)
qed

lemma word_of_int_EOF: "word_of_int EOF = (0xFF :: uint8_t)"
  by (simp add: EOF_def)

lemma scan_stream_eq:
  assumes "is_run ch"
  shows "0xFF \<notin> set t \<Longrightarrow> scan_stream EOF ch t d = (dropWhile (same_run ch) t, fold (count_char ch) (takeWhile (same_run ch) t) d)"
  by (induction t arbitrary: d) (auto simp: ungetc_def word_of_int_EOF)

lemma stream_next_link: "stream_next junk h cur = (length h, link_next h cur (junk\<lparr>inext := None, iloop := None\<rparr>))"
  by (simp add: stream_next_def link_next_def)

interpretation stream_parser: instruction_parser
  "stream_loop junk EOF" at_stream "\<lambda>s. s" "junk\<lparr>inext := None, iloop := None\<rparr>" "\<lambda>cur. junk\<lparr>inext := None, iloop := None\<rparr>" for junk
proof unfold_locales
  fix s h cur assume "at_stream s []"
  then show "\<exists>s'. stream_loop junk EOF h cur s = Some (upd h cur (\<lambda>x. x\<lparr>itype := TOKEN_LOOP_END\<rparr>), s') \<and> at_stream s' []"
    by (subst stream_loop.simps) (simp add: at_stream_def EOF_def)
next
  fix s t h cur assume "at_stream s (TOKEN_LOOP_END # t)"
  then show "\<exists>s'. stream_loop junk EOF h cur s = Some (upd h cur (\<lambda>x. x\<lparr>itype := TOKEN_LOOP_END, difference := 1\<rparr>), s') \<and> at_stream s' t"
    by (subst stream_loop.simps) (simp add: at_stream_def is_run_def)
next
  fix s ch t cur and h :: bf_heap assume a: "at_stream s (ch # t)" "is_run ch" "cur < length h"
  have "0xFF \<notin> set (dropWhile (same_run ch) t)" using a(1) by (auto simp: at_stream_def dest: set_dropWhileD)
  then show "\<exists>s'. at_stream s' (dropWhile (same_run ch) t) \<and>
        stream_loop junk EOF h cur s =
          stream_loop junk EOF (link_next (upd h cur (\<lambda>x. x\<lparr>itype := ch, difference := run_count ch (takeWhile (same_run ch) t)\<rparr>)) cur
              (junk\<lparr>inext := None, iloop := None\<rparr>)) (length h) s'"
    using a by (intro exI [of _ "dropWhile (same_run ch) t"])
      (subst stream_loop.simps, simp add: at_stream_def scan_stream_eq stream_next_link upd_upd run_count_def)
next
  fix s t h cur assume "at_stream s (TOKEN_LOOP_START # t)"
  then show "\<exists>s'. at_stream s' t \<and>
        stream_loop junk EOF h cur s = do {
          (h', s'') \<leftarrow> stream_loop junk EOF (upd h cur (\<lambda>x. x\<lparr>itype := TOKEN_LOOP_START, difference := 1\<rparr>) @
              [junk\<lparr>inext := None, iloop := None\<rparr>]) (length h) s';
          stream_loop junk EOF (link_next (upd h' cur (\<lambda>x. x\<lparr>iloop := Some (length h)\<rparr>)) cur
              (junk\<lparr>inext := None, iloop := None\<rparr>)) (length h') s''
        }"
    by (intro exI [of _ t]) (subst stream_loop.simps, simp add: at_stream_def stream_next_link stream_root_def is_run_def)
next
  fix s ch t h cur
  assume "at_stream s (ch # t)" "\<not> is_run ch" "ch \<noteq> TOKEN_LOOP_START" "ch \<noteq> TOKEN_LOOP_END"
  then show "\<exists>s'. at_stream s' t \<and> stream_loop junk EOF h cur s =
      stream_loop junk EOF (upd h cur (\<lambda>x. x\<lparr>itype := ch, difference := 1\<rparr>)) cur s'"
    by (intro exI [of _ t]) (subst stream_loop.simps, simp add: at_stream_def)
qed simp_all

lemma brainfuck_parse_stream_ok:
  assumes "list_all bf_ok p" "0xFF \<notin> set (print_prog p)"
  shows "\<exists>h' ns s. brainfuck_parse_stream junk h (print_prog p) = Some (h', length h, s) \<and>
    rep h' (length h) (compress p) ns \<and> distinct ns \<and> set ns = {length h..<length h'} \<and> (\<forall>k<length h. h' ! k = h ! k)"
proof -
  let ?h = "h @ [junk\<lparr>inext := None, iloop := None\<rparr>]"
  have "at_stream (print_prog p) (print_prog p @ [])" using assms(2) by (simp add: at_stream_def)
  then obtain h' s' where h': "stream_loop junk EOF ?h (length h) (print_prog p) = Some (h', s')"
    "parsed ?h (length h) (compress p) h'"
    using stream_parser.parse_program [of "length h" ?h "print_prog p" p "[]" junk] assms(1) by (auto simp: nth_append)
  then show ?thesis
    by (auto simp: brainfuck_parse_stream_def brainfuck_parse_stream_until_def stream_root_def parsed_def insert_range nth_append)
qed

end
