(* ===== verification/Brainfuck_Exec.thy ===== *)
theory Brainfuck_Exec
  imports Brainfuck_Parse
begin

text \<open>
  The execution of counted runs is the execution of the program command by command, and the
  execution in the heap is that of the instructions it represents.
\<close>

section \<open>The meaning of a program\<close>

text \<open>One command; every other character is a comment.\<close>

definition bf_step :: "uint8_t \<Rightarrow> exec_context \<Rightarrow> exec_result" where
  "bf_step ch c =
     (if ch = TOKEN_PLUS then
        (case cell c of None \<Rightarrow> Fault | Some b \<Rightarrow> Done (set_cell c (b + 1)))
      else if ch = TOKEN_MINUS then
        (case cell c of None \<Rightarrow> Fault | Some b \<Rightarrow> Done (set_cell c (b - 1)))
      else if ch = TOKEN_NEXT then
        if tape_index c + 1 < uint (tape_size c) then Done (c\<lparr>tape_index := tape_index c + 1\<rparr>) else Exit_Failure (stdout c)
      else if ch = TOKEN_PREVIOUS then
        if 0 < tape_index c then Done (c\<lparr>tape_index := tape_index c - 1\<rparr>) else Exit_Failure (stdout c)
      else if ch = TOKEN_OUTPUT then
        (case cell c of None \<Rightarrow> Fault | Some b \<Rightarrow> Done (c\<lparr>stdout := stdout c @ [sint b]\<rparr>))
      else if ch = TOKEN_INPUT then
        (case cell c of None \<Rightarrow> Fault | Some _ \<Rightarrow> case input_handler c of (b, c) \<Rightarrow> Done (set_cell c b))
      else Done c)"

definition and_then :: "exec_result \<Rightarrow> (exec_context \<Rightarrow> exec_result) \<Rightarrow> exec_result" where
  "and_then r f = (case r of Done c \<Rightarrow> f c | _ \<Rightarrow> r)"

text \<open>A program, with a bound on the nesting of iterations: each of them uses one unit.\<close>

function bf_fuel :: "nat \<Rightarrow> bf list \<Rightarrow> exec_context \<Rightarrow> exec_result option" where
  "bf_fuel n [] c = Some (Done c)"
| "bf_fuel n (Cmd ch # p) c = (case bf_step ch c of Done c \<Rightarrow> bf_fuel n p c | r \<Rightarrow> Some r)"
| "bf_fuel n (While b # p) c =
     (case cell c of
        None \<Rightarrow> Some Fault
      | Some v \<Rightarrow>
          if v = 0 then bf_fuel n p c
          else case n of
            0 \<Rightarrow> None
          | Suc m \<Rightarrow>
              (case bf_fuel m b c of Some (Done c) \<Rightarrow> bf_fuel m (While b # p) c | r \<Rightarrow> r))"
  by pat_completeness auto
termination by (relation "measures [\<lambda>(n, p, c). n, \<lambda>(n, p, c). size_list size p]") auto

fun run_fuel :: "nat \<Rightarrow> instr list \<Rightarrow> exec_context \<Rightarrow> exec_result option" where
  "run_fuel n [] c = Some (Done c)"
| "run_fuel n (Run ch d # is) c = (case exec_run ch d c of Done c \<Rightarrow> run_fuel n is c | r \<Rightarrow> Some r)"
| "run_fuel n (Loop b # is) c =
     (case cell c of
        None \<Rightarrow> Some Fault
      | Some v \<Rightarrow>
          if v = 0 then run_fuel n is c
          else case n of
            0 \<Rightarrow> None
          | Suc m \<Rightarrow>
              (case run_fuel m b c of Some (Done c) \<Rightarrow> run_fuel m (Loop b # is) c | r \<Rightarrow> r))"

declare bf_fuel.simps(3) [simp del] run_fuel.simps(3) [simp del]

lemma bf_fuel_While:
  "cell c = None \<Longrightarrow> bf_fuel n (While b # p) c = Some Fault"
  "cell c = Some 0 \<Longrightarrow> bf_fuel n (While b # p) c = bf_fuel n p c"
  "cell c = Some v \<Longrightarrow> v \<noteq> 0 \<Longrightarrow> bf_fuel 0 (While b # p) c = None"
  "cell c = Some v \<Longrightarrow> v \<noteq> 0 \<Longrightarrow> bf_fuel (Suc m) (While b # p) c =
     (case bf_fuel m b c of Some (Done c) \<Rightarrow> bf_fuel m (While b # p) c | r \<Rightarrow> r)"
  by (subst bf_fuel.simps(3), simp)+

lemma run_fuel_Loop:
  "cell c = None \<Longrightarrow> run_fuel n (Loop b # is) c = Some Fault"
  "cell c = Some 0 \<Longrightarrow> run_fuel n (Loop b # is) c = run_fuel n is c"
  "cell c = Some v \<Longrightarrow> v \<noteq> 0 \<Longrightarrow> run_fuel 0 (Loop b # is) c = None"
  "cell c = Some v \<Longrightarrow> v \<noteq> 0 \<Longrightarrow> run_fuel (Suc m) (Loop b # is) c =
     (case run_fuel m b c of Some (Done c) \<Rightarrow> run_fuel m (Loop b # is) c | r \<Rightarrow> r)"
  by (subst run_fuel.simps(3), simp)+

lemma run_fuel_iterate:
  assumes "run_fuel n (Loop b # is) c = Some r" "cell c = Some v" "v \<noteq> 0"
  obtains m r1 where "n = Suc m" "run_fuel m b c = Some r1" "(\<exists>c1. r1 = Done c1 \<and> run_fuel m (Loop b # is) c1 = Some r) \<or> (\<nexists>c1. r1 = Done c1) \<and> r = r1"
proof (cases n)
  case 0
  then show ?thesis using assms run_fuel_Loop(3) [OF assms(2,3)] by simp
next
  case (Suc m)
  then have *: "(case run_fuel m b c of Some (Done c) \<Rightarrow> run_fuel m (Loop b # is) c | r \<Rightarrow> r) = Some r"
    using assms(1) run_fuel_Loop(4) [OF assms(2,3)] by simp
  then show ?thesis using that [of m] Suc by (auto split: option.splits exec_result.splits)
qed

text \<open>Induction on the fuel and, for the same fuel, on the rest of the program.\<close>

lemma fuel_induct [case_names Nil Cons]:
  fixes n :: nat
  assumes "\<And>n. P n []" "\<And>n x xs. P n xs \<Longrightarrow> (\<And>m ys. m < n \<Longrightarrow> P m ys) \<Longrightarrow> P n (x # xs)"
  shows "P n xs"
proof (induction n arbitrary: xs rule: less_induct)
  case (less n)
  show ?case by (induction xs) (use assms less in auto)
qed

lemma cell_cases:
  obtains "cell c = None" | "cell c = Some 0" | v where "cell c = Some v" "v \<noteq> 0"
  by (cases "cell c") auto

lemma run_fuel_mono: "run_fuel n is c = Some r \<Longrightarrow> n \<le> m \<Longrightarrow> run_fuel m is c = Some r"
proof (induction n "is" arbitrary: c m r rule: fuel_induct)
  case (Cons n x xs)
  show ?case
  proof (cases x)
    case (Run ch d)
    then show ?thesis using Cons.IH(1) [OF _ Cons.prems(2)] Cons.prems(1) by (cases "exec_run ch d c") auto
  next
    case (Loop b)
    show ?thesis
    proof (cases c rule: cell_cases)
      case (3 v)
      have "run_fuel n (Loop b # xs) c = Some r" using Cons.prems Loop by simp
      then obtain k r1 where k: "n = Suc k" "run_fuel k b c = Some r1"
        "(\<exists>c1. r1 = Done c1 \<and> run_fuel k (Loop b # xs) c1 = Some r) \<or> (\<nexists>c1. r1 = Done c1) \<and> r = r1"
        using 3 by (rule run_fuel_iterate)
      obtain k' where m: "m = Suc k'" "k \<le> k'" using Cons.prems(2) k(1) by (cases m) auto
      have IH: "run_fuel k' ys c = Some r" if "run_fuel k ys c = Some r" for ys c r
        using Cons.IH(2) [OF _ that m(2)] k(1) by simp
      then show ?thesis using k(2,3) m(1) Loop by (cases r1) (auto simp: run_fuel_Loop(4) [OF 3])
    qed (use Cons.IH(1) [OF _ Cons.prems(2)] Cons.prems(1) Loop in \<open>simp_all add: run_fuel_Loop(1,2)\<close>)
  qed
qed simp

section \<open>Counted runs\<close>

definition ctx_ok :: "exec_context \<Rightarrow> bool" where
  "ctx_ok c \<longleftrightarrow> 0 \<le> tape_index c \<and> tape_index c < uint (tape_size c) \<and> uint (tape_size c) \<le> int (length (tape c)) \<and>
     uint (tape_size c) \<le> 2 ^ 29"

lemma ctx_ok_cell: "ctx_ok c \<Longrightarrow> cell c = Some (tape c ! nat (tape_index c))"
  by (auto simp: ctx_ok_def cell_def)

lemma cell_set_cell: "cell c = Some b \<Longrightarrow> cell (set_cell c x) = Some x \<and> set_cell (set_cell c x) y = set_cell c y"
  by (auto simp: cell_def set_cell_def split: if_splits)

lemma bf_step_ok: "ctx_ok c \<Longrightarrow> bf_step ch c = Done c' \<Longrightarrow> ctx_ok c'"
  by (auto simp: bf_step_def ctx_ok_def set_cell_def input_handler_def split: if_splits option.splits list.splits)

lemma output_loop_add: "output_loop (n + m) c = and_then (output_loop n c) (output_loop m)"
  by (induction n arbitrary: c) (auto simp: and_then_def split: option.splits)

lemma input_loop_add: "input_loop (n + m) c = and_then (input_loop n c) (input_loop m)"
  by (induction n arbitrary: c) (auto simp: and_then_def split: option.splits prod.splits)

text \<open>One more character of a run.\<close>

lemma count_char_simps:
  "count_char ch ch d = d + 1" "t \<noteq> ch \<Longrightarrow> count_char ch t d = d - 1"
  by (simp_all add: count_char_def)

lemma exec_run_cell:
  assumes "ch = TOKEN_PLUS \<or> ch = TOKEN_MINUS" "t = TOKEN_PLUS \<or> t = TOKEN_MINUS"
  shows "exec_run ch (count_char ch t d) c = and_then (exec_run ch d c) (bf_step t)"
proof (cases "cell c")
  case None
  then show ?thesis using assms by (auto simp: exec_run_def and_then_def)
next
  case (Some b)
  note set = cell_set_cell [OF Some, THEN conjunct1] cell_set_cell [OF Some, THEN conjunct2]
  consider "ch = TOKEN_PLUS" "t = TOKEN_PLUS" | "ch = TOKEN_PLUS" "t = TOKEN_MINUS"
    | "ch = TOKEN_MINUS" "t = TOKEN_PLUS" | "ch = TOKEN_MINUS" "t = TOKEN_MINUS" using assms by blast
  then show ?thesis
    by cases (simp_all add: exec_run_def and_then_def bf_step_def count_char_def Some set ucast8_add ucast8_diff algebra_simps)
qed

lemma uint_lower: "n \<le> 0 \<Longrightarrow> n \<le> uint w"
  by (erule order_trans) simp

lemma index_back: "uint w < 2 ^ 31 \<Longrightarrow> sint (ucast (w :: uint64_t) :: uint32_t) = uint w"
proof -
  assume w: "uint w < 2 ^ 31"
  then have "uint (ucast w :: uint32_t) = uint w"
    by (simp add: unsigned_ucast_eq take_bit_int_eq_self)
  moreover have "- (2 ^ 31) \<le> uint w" by (rule uint_lower) simp
  ultimately show ?thesis using w by (simp add: sint_uint signed_take_bit_int_eq_self)
qed

lemma limit_le:
  assumes "ctx_ok c" "0x7FFFFFFF - tape_size c \<le> d"
  shows "uint (tape_size c) \<le> uint d"
proof -
  have c: "uint (tape_size c) \<le> 2 ^ 29" using assms(1) by (auto simp: ctx_ok_def)
  have "uint (0x7FFFFFFF - tape_size c) = 0x7FFFFFFF - uint (tape_size c)"
    using uint_sub_lem [of "tape_size c" "0x7FFFFFFF"] c by simp
  then show ?thesis using assms(2) c by (simp add: word_le_def)
qed

lemma exec_run_next:
  assumes "ctx_ok c"
  shows "exec_run TOKEN_NEXT d c =
    (if tape_index c + uint d < uint (tape_size c) then Done (c\<lparr>tape_index := tape_index c + uint d\<rparr>) else Exit_Failure (stdout c))"
proof (cases "0x7FFFFFFF - tape_size c \<le> d")
  case True
  then show ?thesis using limit_le [OF assms True] assms by (simp add: exec_run_def ctx_ok_def)
next
  case False
  have c: "0 \<le> tape_index c" "tape_index c < uint (tape_size c)" "uint (tape_size c) \<le> 2 ^ 29" using assms by (auto simp: ctx_ok_def)
  have "uint (0x7FFFFFFF - tape_size c) = 0x7FFFFFFF - uint (tape_size c)"
    using uint_sub_lem [of "tape_size c" "0x7FFFFFFF"] c by simp
  then have d: "uint d < 0x7FFFFFFF" using False c by (simp add: word_le_def)
  let ?w = "word_of_int (tape_index c) :: uint64_t"
  have w: "uint ?w = tape_index c" using c by (simp add: uint_word_of_int_eq take_bit_int_eq_self)
  have wd: "uint (?w + d) = tape_index c + uint d" using uint_add_lem [of ?w d] w c d by simp
  have "tape_size c \<le> ?w + d \<longleftrightarrow> uint (tape_size c) \<le> tape_index c + uint d" by (simp add: word_le_def wd)
  moreover have "sint (ucast (?w + d) :: uint32_t) = tape_index c + uint d" if "tape_index c + uint d < uint (tape_size c)"
    using index_back [of "?w + d"] wd that c by simp
  ultimately show ?thesis using False by (auto simp: exec_run_def)
qed

lemma exec_run_previous:
  assumes "ctx_ok c"
  shows "exec_run TOKEN_PREVIOUS d c =
    (if uint d \<le> tape_index c then Done (c\<lparr>tape_index := tape_index c - uint d\<rparr>) else Exit_Failure (stdout c))"
proof (cases "0x7FFFFFFF - tape_size c \<le> d")
  case True
  then show ?thesis using limit_le [OF assms True] assms by (simp add: exec_run_def ctx_ok_def)
next
  case False
  have c: "0 \<le> tape_index c" "tape_index c < uint (tape_size c)" "uint (tape_size c) \<le> 2 ^ 29" using assms by (auto simp: ctx_ok_def)
  have "uint (0x7FFFFFFF - tape_size c) = 0x7FFFFFFF - uint (tape_size c)"
    using uint_sub_lem [of "tape_size c" "0x7FFFFFFF"] c by simp
  then have d: "uint d < 0x7FFFFFFF" using False c by (simp add: word_le_def)
  let ?w = "word_of_int (tape_index c) :: uint64_t"
  have w: "uint ?w = tape_index c" using c by (simp add: uint_word_of_int_eq take_bit_int_eq_self)
  have "sint d = uint d"
    using d signed_take_bit_int_eq_self [of 63 "uint d"] uint_lower [of "- (2 ^ 63)" d] by (simp add: sint_uint)
  moreover have "sint (ucast (?w - d) :: uint32_t) = tape_index c - uint d" if "uint d \<le> tape_index c"
  proof -
    have u: "uint (?w - d) = tape_index c - uint d" using uint_sub_lem [of d ?w] w that by simp
    moreover have "0 \<le> uint d" by (rule uint_lower) simp
    moreover have "(2 :: int) ^ 29 < 2 ^ 31" by simp
    ultimately have "uint (?w - d) < 2 ^ 31" using c by linarith
    then show ?thesis using index_back u by simp
  qed
  ultimately show ?thesis using False by (auto simp: exec_run_def)
qed

lemma uint_Suc: "uint (d :: uint64_t) < 2 ^ 30 \<Longrightarrow> uint (d + 1) = uint d + 1 \<and> unat (d + 1) = Suc (unat d)"
proof -
  assume d: "uint d < 2 ^ 30"
  then have u: "uint (d + 1) = uint d + 1" using uint_add_lem [of d 1] by simp
  then have "int (unat (d + 1)) = int (Suc (unat d))" by simp
  then show ?thesis using u by linarith
qed

lemma exec_run_same:
  assumes "ctx_ok c" "is_run ch" "uint d + 1 < 2 ^ 30" "1 \<le> uint d"
  shows "exec_run ch (d + 1) c = and_then (exec_run ch d c) (bf_step ch)"
proof -
  note d = uint_Suc [of d, THEN conjunct1] uint_Suc [of d, THEN conjunct2]
  consider "ch = TOKEN_PLUS \<or> ch = TOKEN_MINUS" | "ch = TOKEN_NEXT" | "ch = TOKEN_PREVIOUS" | "ch = TOKEN_OUTPUT" | "ch = TOKEN_INPUT"
    using assms(2) by (auto simp: is_run_def)
  then show ?thesis
  proof cases
    case 1
    then show ?thesis using exec_run_cell [OF 1 1] by (simp add: count_char_simps)
  next
    case 2
    then show ?thesis using exec_run_next [OF assms(1)] d assms(3)
      by (auto simp: and_then_def bf_step_def)
  next
    case 3
    then show ?thesis using exec_run_previous [OF assms(1)] d assms(3)
      by (auto simp: and_then_def bf_step_def)
  next
    case 4
    have "output_loop (Suc 0) = bf_step TOKEN_OUTPUT" by (auto simp: bf_step_def split: option.splits)
    then show ?thesis using output_loop_add [of "unat d" "Suc 0" c] d assms(3) 4 by (simp add: exec_run_def)
  next
    case 5
    have "input_loop (Suc 0) = bf_step TOKEN_INPUT" by (auto simp: bf_step_def split: option.splits prod.splits)
    then show ?thesis using input_loop_add [of "unat d" "Suc 0" c] d assms(3) 5 by (simp add: exec_run_def)
  qed
qed

lemma exec_run_one: "ctx_ok c \<Longrightarrow> is_run ch \<Longrightarrow> exec_run ch 1 c = bf_step ch c"
  using exec_run_next [of c 1] exec_run_previous [of c 1]
  by (auto simp: is_run_def exec_run_def bf_step_def split: option.splits prod.splits)

text \<open>The commands of a run one after the other.\<close>

definition bf_steps :: "uint8_t list \<Rightarrow> exec_result \<Rightarrow> exec_result" where
  "bf_steps ts r = fold (\<lambda>t r. and_then r (bf_step t)) ts r"

lemma bf_steps_simps [simp]: "bf_steps [] r = r" "bf_steps (t # ts) r = bf_steps ts (and_then r (bf_step t))"
  by (simp_all add: bf_steps_def)

lemma bf_steps_stop [simp]: "bf_steps ts (Exit_Failure out) = Exit_Failure out" "bf_steps ts Fault = Fault"
  by (induction ts) (simp_all add: and_then_def)

lemma exec_run_fold:
  assumes "ctx_ok c" "is_run ch"
  shows "\<forall>t\<in>set ts. same_run ch t \<Longrightarrow> (ch = TOKEN_NEXT \<or> ch = TOKEN_PREVIOUS \<Longrightarrow> \<forall>t\<in>set ts. t = ch) \<Longrightarrow>
    ch \<noteq> TOKEN_PLUS \<and> ch \<noteq> TOKEN_MINUS \<longrightarrow> 1 \<le> uint d \<and> uint d + int (length ts) < 2 ^ 30 \<Longrightarrow>
    exec_run ch (fold (count_char ch) ts d) c = bf_steps ts (exec_run ch d c)"
proof (induction ts arbitrary: d)
  case (Cons t ts)
  show ?case
  proof (cases "ch = TOKEN_PLUS \<or> ch = TOKEN_MINUS")
    case True
    then have "t = TOKEN_PLUS \<or> t = TOKEN_MINUS" using Cons.prems(1) by (simp add: same_run_def)
    then have "exec_run ch (count_char ch t d) c = and_then (exec_run ch d c) (bf_step t)" by (rule exec_run_cell [OF True])
    moreover have "exec_run ch (fold (count_char ch) ts (count_char ch t d)) c = bf_steps ts (exec_run ch (count_char ch t d) c)"
      using Cons.prems True by (intro Cons.IH) auto
    ultimately show ?thesis by simp
  next
    case False
    then have t: "t = ch" using Cons.prems(1,2) by (auto simp: same_run_def split: if_splits)
    have d: "uint d + 1 < 2 ^ 30" "1 \<le> uint d" using Cons.prems(3) False by auto
    have "exec_run ch (fold (count_char ch) ts (d + 1)) c = bf_steps ts (exec_run ch (d + 1) c)"
      using Cons.prems False uint_Suc [of d] d by (intro Cons.IH) auto
    then show ?thesis using exec_run_same [OF assms d] t by (simp add: count_char_simps)
  qed
qed simp

text \<open>
  Moves in both directions are not counted together correctly (\<open>><<\<close> is a run of \<open>-1\<close> steps to the
  right): the programs in which they never follow each other directly.
\<close>

fun moves_ok :: "bf list \<Rightarrow> bool" where
  "moves_ok [] \<longleftrightarrow> True"
| "moves_ok (While b # p) \<longleftrightarrow> moves_ok b \<and> moves_ok p"
| "moves_ok (Cmd ch # p) \<longleftrightarrow> moves_ok p \<and>
     (case p of
        Cmd t # _ \<Rightarrow> \<not> (ch = TOKEN_NEXT \<and> t = TOKEN_PREVIOUS) \<and> \<not> (ch = TOKEN_PREVIOUS \<and> t = TOKEN_NEXT)
      | _ \<Rightarrow> True)"

lemma moves_ok_run:
  "moves_ok (Cmd ch # p) \<Longrightarrow> ch = TOKEN_NEXT \<or> ch = TOKEN_PREVIOUS \<Longrightarrow> \<forall>t\<in>set (print_prog (takeWhile (in_run ch) p)). t = ch"
proof (induction p)
  case (Cons x p)
  show ?case
  proof (cases x)
    case (Cmd t)
    show ?thesis
    proof (cases "same_run ch t")
      case True
      then have "t = ch" using Cons.prems by (auto simp: Cmd same_run_def)
      then show ?thesis using Cons by (auto simp: Cmd)
    qed (simp add: Cmd)
  qed simp
qed simp

lemma moves_ok_drop: "moves_ok p \<Longrightarrow> moves_ok (dropWhile (in_run ch) p)"
proof (induction p)
  case (Cons x p)
  then show ?case by (cases x) auto
qed simp

lemma length_print_drop: "length (print_prog (dropWhile P p)) \<le> length (print_prog p)"
  by (induction p) (auto simp: print_prog_def)

lemma length_print_take: "length (print_prog (takeWhile P p)) \<le> length (print_prog p)"
  by (induction p) (auto simp: print_prog_def)

lemma bf_fuel_run:
  "bf_fuel n p c = (case bf_steps (print_prog (takeWhile (in_run ch) p)) (Done c) of
     Done c \<Rightarrow> bf_fuel n (dropWhile (in_run ch) p) c | r \<Rightarrow> Some r)"
proof (induction p arbitrary: c)
  case (Cons x p)
  show ?case
  proof (cases x)
    case (Cmd t)
    then show ?thesis using Cons
      by (cases "bf_step t c") (auto simp: and_then_def split: exec_result.splits)
  qed simp
qed simp

lemma same_run_taken: "is_run ch \<Longrightarrow> \<forall>t\<in>set (print_prog (takeWhile (in_run ch) p)). same_run ch t"
proof (induction p)
  case (Cons x p)
  then show ?case by (cases x) auto
qed simp

lemma run_is_steps:
  assumes "ctx_ok c" "is_run ch" "moves_ok (Cmd ch # p)" "length (print_prog p) + 1 < 2 ^ 30"
  defines "ts \<equiv> print_prog (takeWhile (in_run ch) p)"
  shows "exec_run ch (run_count ch ts) c = bf_steps (ch # ts) (Done c)"
proof -
  have "int (length ts) + 1 < 2 ^ 30" using length_print_take [of "in_run ch" p] assms(4) unfolding ts_def by simp
  then have "exec_run ch (fold (count_char ch) ts 1) c = bf_steps ts (exec_run ch 1 c)"
    using same_run_taken [OF assms(2), of p] moves_ok_run [OF assms(3)] unfolding ts_def
    by (intro exec_run_fold [OF assms(1,2)]) auto
  then show ?thesis using exec_run_one [OF assms(1,2)] by (simp add: run_count_def and_then_def)
qed

section \<open>The instructions of a program\<close>

lemma bf_fuel_iterate:
  assumes "cell c = Some v" "v \<noteq> 0" "bf_fuel n (While b # p) c = Some r"
  obtains m r1 where "n = Suc m" "bf_fuel m b c = Some r1"
    "(\<exists>c1. r1 = Done c1 \<and> bf_fuel m (While b # p) c1 = Some r) \<or> (\<nexists>c1. r1 = Done c1) \<and> r = r1"
proof (cases n)
  case 0
  then show ?thesis using assms bf_fuel_While(3) [OF assms(1,2)] by simp
next
  case (Suc m)
  then have *: "(case bf_fuel m b c of Some (Done c) \<Rightarrow> bf_fuel m (While b # p) c | r \<Rightarrow> r) = Some r"
    using assms(3) bf_fuel_While(4) [OF assms(1,2)] by simp
  then show ?thesis using that [of m] Suc by (auto split: option.splits exec_result.splits)
qed

text \<open>Execution stays within the tape.\<close>

definition safe :: "exec_result \<Rightarrow> bool" where
  "safe r \<longleftrightarrow> (case r of Done c \<Rightarrow> ctx_ok c | Exit_Failure _ \<Rightarrow> True | Fault \<Rightarrow> False)"

lemma bf_step_safe: "ctx_ok c \<Longrightarrow> safe (bf_step ch c)"
  using bf_step_ok [of c ch] ctx_ok_cell [of c]
  by (cases "bf_step ch c") (auto simp: safe_def bf_step_def split: if_splits prod.splits)

lemma bf_fuel_safe: "ctx_ok c \<Longrightarrow> bf_fuel n p c = Some r \<Longrightarrow> safe r"
proof (induction n p arbitrary: c r rule: fuel_induct)
  case (Nil n)
  then show ?case by (auto simp: safe_def)
next
  case (Cons n x p)
  show ?case
  proof (cases x)
    case (Cmd ch)
    then show ?thesis using Cons.IH(1) [of _ r] Cons.prems bf_step_safe [OF Cons.prems(1), of ch]
      by (cases "bf_step ch c") (auto simp: safe_def)
  next
    case (While b)
    show ?thesis
    proof (cases c rule: cell_cases)
      case 1
      then show ?thesis using ctx_ok_cell [OF Cons.prems(1)] by simp
    next
      case 2
      then show ?thesis using Cons.IH(1) [OF Cons.prems(1)] Cons.prems(2) While by (simp add: bf_fuel_While(2))
    next
      case (3 v)
      have "bf_fuel n (While b # p) c = Some r" using Cons.prems While by simp
      with 3 obtain m r1 where m: "n = Suc m" "bf_fuel m b c = Some r1"
        "(\<exists>c1. r1 = Done c1 \<and> bf_fuel m (While b # p) c1 = Some r) \<or> (\<nexists>c1. r1 = Done c1) \<and> r = r1"
        by (rule bf_fuel_iterate)
      have "safe r1" using Cons.IH(2) [OF _ Cons.prems(1) m(2)] m(1) by simp
      then show ?thesis using m(1,3) Cons.IH(2) [of m] by (auto simp: safe_def)
    qed
  qed
qed

lemma output_loop_safe: "ctx_ok c \<Longrightarrow> safe (output_loop n c)"
  by (induction n arbitrary: c) (auto simp: safe_def ctx_ok_cell, simp add: ctx_ok_def)

lemma input_loop_safe: "ctx_ok c \<Longrightarrow> safe (input_loop n c)"
proof (induction n arbitrary: c)
  case (Suc n)
  obtain b c' where i: "input_handler c = (b, c')" by (cases "input_handler c")
  then have "ctx_ok (set_cell c' b)"
    using Suc.prems by (auto simp: input_handler_def ctx_ok_def set_cell_def split: list.splits)
  then show ?case using Suc.IH i ctx_ok_cell [OF Suc.prems] by simp
qed (simp add: safe_def)

lemma exec_run_safe: "ctx_ok c \<Longrightarrow> is_run ch \<Longrightarrow> safe (exec_run ch d c)"
proof -
  assume c: "ctx_ok c" and ch: "is_run ch"
  consider "ch = TOKEN_PLUS \<or> ch = TOKEN_MINUS" | "ch = TOKEN_NEXT" | "ch = TOKEN_PREVIOUS" | "ch = TOKEN_OUTPUT" | "ch = TOKEN_INPUT"
    using ch by (auto simp: is_run_def)
  then show ?thesis
  proof cases
    case 1
    then show ?thesis using ctx_ok_cell [OF c] c by (auto simp: exec_run_def safe_def set_cell_def ctx_ok_def)
  next
    case 2
    have "0 \<le> uint d" by (rule uint_lower) simp
    then show ?thesis using exec_run_next [OF c, of d] c 2 by (auto simp: safe_def ctx_ok_def)
  next
    case 3
    have "0 \<le> uint d" by (rule uint_lower) simp
    then have "tape_index c - uint d < uint (tape_size c)" using c unfolding ctx_ok_def by linarith
    then show ?thesis using exec_run_previous [OF c, of d] c 3 by (auto simp: safe_def ctx_ok_def)
  next
    case 4
    then show ?thesis using output_loop_safe [OF c] by (simp add: exec_run_def)
  next
    case 5
    then show ?thesis using input_loop_safe [OF c] by (simp add: exec_run_def)
  qed
qed

lemma bf_steps_safe: "ctx_ok c \<Longrightarrow> safe (bf_steps ts (Done c))"
proof (induction ts arbitrary: c)
  case (Cons t ts)
  then show ?case using bf_step_safe [OF Cons.prems, of t] by (cases "bf_step t c") (auto simp: and_then_def safe_def)
qed (simp add: safe_def)

lemma compress_fuel:
  "ctx_ok c \<Longrightarrow> moves_ok p \<Longrightarrow> length (print_prog p) < 2 ^ 30 \<Longrightarrow> run_fuel n (compress p) c = bf_fuel n p c"
proof (induction n arbitrary: p c rule: less_induct)
  case (less n)
  from less.prems show ?case
  proof (induction p arbitrary: c rule: compress.induct)
    case (2 b p)
    have sub: "moves_ok b" "moves_ok p" "length (print_prog b) < 2 ^ 30" "length (print_prog p) < 2 ^ 30"
      using "2.prems" by simp_all
    show ?case
    proof (cases c rule: cell_cases)
      case 1
      then show ?thesis by (simp add: run_fuel_Loop(1) bf_fuel_While(1))
    next
      case zero: 2
      then show ?thesis using "2.IH"(2) [OF "2.prems"(1) sub(2,4)] by (simp add: run_fuel_Loop(2) bf_fuel_While(2))
    next
      case (3 v)
      show ?thesis
      proof (cases n)
        case 0
        then show ?thesis using 3 by (simp add: run_fuel_Loop(3) bf_fuel_While(3))
      next
        case (Suc m)
        have "run_fuel m (compress b) c = bf_fuel m b c" using less.IH [of m c b] Suc "2.prems"(1) sub by simp
        moreover have "run_fuel m (Loop (compress b) # compress p) c1 = bf_fuel m (While b # p) c1"
          if "bf_fuel m b c = Some (Done c1)" for c1
          using less.IH [of m c1 "While b # p"] Suc bf_fuel_safe [OF "2.prems"(1) that] "2.prems" by (simp add: safe_def)
        ultimately show ?thesis using Suc 3
          by (auto simp: run_fuel_Loop(4) bf_fuel_While(4) split: option.splits exec_result.splits)
      qed
    qed
  next
    case (3 ch p)
    show ?case
    proof (cases "is_run ch")
      case True
      let ?ts = "print_prog (takeWhile (in_run ch) p)" and ?q = "dropWhile (in_run ch) p"
      have run: "exec_run ch (run_count ch ?ts) c = bf_steps ?ts (bf_step ch c)"
        using run_is_steps [OF "3.prems"(1) True "3.prems"(2)] "3.prems"(3) by (simp add: and_then_def)
      have IH: "run_fuel n (compress ?q) c1 = bf_fuel n ?q c1" if "ctx_ok c1" for c1
        using "3.IH"(1) [OF True that] moves_ok_drop [of p ch] length_print_drop [of "in_run ch" p] "3.prems" by simp
      show ?thesis
      proof (cases "bf_step ch c")
        case (Done c1)
        have "ctx_ok c1" using bf_step_ok [OF "3.prems"(1) Done] .
        then show ?thesis using run Done True bf_fuel_run [of n p c1 ch] IH bf_steps_safe [of c1 ?ts]
          by (cases "bf_steps ?ts (Done c1)") (auto simp: safe_def)
      qed (use run True in simp_all)
    next
      case False
      then have "bf_step ch c = Done c" by (simp add: bf_step_def is_run_def)
      then show ?thesis using "3.IH"(2) [OF False "3.prems"(1)] "3.prems" False by simp
    qed
  qed simp
qed

section \<open>Execution in the heap\<close>

lemma execute_run_fuel:
  "run_fuel n is c = Some r \<Longrightarrow> rep h i is ns \<Longrightarrow> brainfuck_execute h (Some i) c = Some r"
proof (induction n "is" arbitrary: c r i ns rule: fuel_induct)
  case (Nil n)
  then show ?case by (subst brainfuck_execute.simps) auto
next
  case (Cons n x xs)
  show ?case
  proof (cases x)
    case (Run ch d)
    with Cons.prems(2) obtain j ms where j: "i < length h" "itype (h ! i) = ch" "is_run ch" "difference (h ! i) = d"
      "inext (h ! i) = Some j" "rep h j xs ms" by auto
    then have ch: "ch \<noteq> TOKEN_LOOP_END" "ch \<noteq> TOKEN_LOOP_START" by (auto simp: is_run_def)
    show ?thesis using Cons.prems(1) Cons.IH(1) [OF _ j(6)] Run j ch
      by (subst brainfuck_execute.simps) (auto split: exec_result.splits)
  next
    case (Loop b)
    with Cons.prems(2) obtain q j ls ms where j: "i < length h" "itype (h ! i) = TOKEN_LOOP_START" "iloop (h ! i) = Some q"
      "inext (h ! i) = Some j" "rep h q b ls" "rep h j xs ms" by auto
    show ?thesis
    proof (cases c rule: cell_cases)
      case 1
      then show ?thesis using Cons.prems(1) Loop j by (subst brainfuck_execute.simps) (simp add: run_fuel_Loop(1))
    next
      case 2
      then show ?thesis using Cons.prems(1) Loop j Cons.IH(1) [OF _ j(6)]
        by (subst brainfuck_execute.simps) (simp add: run_fuel_Loop(2))
    next
      case (3 v)
      have "run_fuel n (Loop b # xs) c = Some r" using Cons.prems(1) Loop by simp
      then obtain m r1 where m: "n = Suc m" "run_fuel m b c = Some r1"
        "(\<exists>c1. r1 = Done c1 \<and> run_fuel m (Loop b # xs) c1 = Some r) \<or> (\<nexists>c1. r1 = Done c1) \<and> r = r1"
        using 3 by (rule run_fuel_iterate)
      have "brainfuck_execute h (Some q) c = Some r1" using Cons.IH(2) [OF _ m(2) j(5)] m(1) by simp
      moreover have "brainfuck_execute h (Some i) c1 = Some r" if "run_fuel m (Loop b # xs) c1 = Some r" for c1
        using Cons.IH(2) [OF _ that, of i ns] m(1) Cons.prems(2) Loop by simp
      ultimately show ?thesis using m(3) 3 j by (subst brainfuck_execute.simps) (auto split: exec_result.splits)
    qed
  qed
qed

lemma execute_terminates:
  assumes "brainfuck_execute h p c = Some r"
  shows "\<forall>i is ns. p = Some i \<longrightarrow> rep h i is ns \<longrightarrow> (\<exists>n. run_fuel n is c = Some r)"
proof (rule brainfuck_execute.raw_induct [OF _ assms], intro allI impI)
  fix exe :: "bf_heap \<Rightarrow> nat ptr \<Rightarrow> exec_context \<Rightarrow> exec_result option" and h p c r i "is" ns
  assume IH: "\<And>h p c r. exe h p c = Some r \<Longrightarrow> \<forall>i is ns. p = Some i \<longrightarrow> rep h i is ns \<longrightarrow> (\<exists>n. run_fuel n is c = Some r)"
  assume 1: "(case p of
        None \<Rightarrow> Some (Done c)
      | Some i \<Rightarrow>
          if length h \<le> i then Some Fault
          else if itype (h ! i) = TOKEN_LOOP_END then Some (Done c)
          else if itype (h ! i) = TOKEN_LOOP_START then
            (case cell c of
               None \<Rightarrow> Some Fault
             | Some b \<Rightarrow>
                 if b \<noteq> 0
                 then do {
                   r \<leftarrow> exe h (iloop (h ! i)) c;
                   case r of Done c \<Rightarrow> exe h p c | _ \<Rightarrow> Some r
                 }
                 else exe h (inext (h ! i)) c)
          else if is_run (itype (h ! i)) then
            (case exec_run (itype (h ! i)) (difference (h ! i)) c of
               Done c \<Rightarrow> exe h (inext (h ! i)) c
             | r \<Rightarrow> Some r)
          else Some (Done c)) = Some r" "p = Some i" "rep h i is ns"
  show "\<exists>n. run_fuel n is c = Some r"
  proof (cases "is")
    case Nil
    then show ?thesis using 1 by auto
  next
    case (Cons x xs)
    show ?thesis
    proof (cases x)
      case (Run ch d)
      with 1(3) Cons obtain j ms where j: "i < length h" "itype (h ! i) = ch" "is_run ch" "difference (h ! i) = d"
        "inext (h ! i) = Some j" "rep h j xs ms" by auto
      then have ch: "ch \<noteq> TOKEN_LOOP_END" "ch \<noteq> TOKEN_LOOP_START" by (auto simp: is_run_def)
      show ?thesis
      proof (cases "exec_run ch d c")
        case (Done c1)
        then have "exe h (Some j) c1 = Some r" using 1(1,2) j ch by simp
        then obtain n where "run_fuel n xs c1 = Some r" using IH [of h "Some j" c1 r] j(6) by blast
        then show ?thesis using Done Cons Run by (intro exI [of _ n]) simp
      next
        case (Exit_Failure out)
        then have "r = Exit_Failure out" using 1(1,2) j ch by simp
        then show ?thesis using Exit_Failure Cons Run by simp
      next
        case Fault
        then show ?thesis using 1(1,2) j ch Cons Run by simp
      qed
    next
      case (Loop b)
      with 1(3) Cons obtain q j ls ms where j: "i < length h" "itype (h ! i) = TOKEN_LOOP_START" "iloop (h ! i) = Some q"
        "inext (h ! i) = Some j" "rep h q b ls" "rep h j xs ms" by auto
      show ?thesis
      proof (cases c rule: cell_cases)
        case c: 1
        then show ?thesis using 1(1,2) j Cons Loop by (auto simp: run_fuel_Loop(1))
      next
        case c: 2
        then have "exe h (Some j) c = Some r" using 1(1,2) j by simp
        then obtain n where "run_fuel n xs c = Some r" using IH [of h "Some j" c r] j(6) by blast
        then show ?thesis using c Cons Loop by (intro exI [of _ n]) (simp add: run_fuel_Loop(2))
      next
        case c: (3 v)
        then obtain r1 where r1: "exe h (Some q) c = Some r1" "(case r1 of Done c \<Rightarrow> exe h (Some i) c | _ \<Rightarrow> Some r1) = Some r"
          using 1(1,2) j by (auto split: bind_splits)
        obtain n where n: "run_fuel n b c = Some r1" using IH [OF r1(1)] j(5) by blast
        show ?thesis
        proof (cases r1)
          case (Done c1)
          then have "exe h (Some i) c1 = Some r" using r1(2) by simp
          then obtain m where m: "run_fuel m is c1 = Some r" using IH [of h "Some i" c1 r] 1(3) by blast
          have "run_fuel (Suc (max n m)) is c = Some r"
            using run_fuel_mono [OF n, of "max n m"] run_fuel_mono [OF m, of "max n m"] Done Cons Loop
            by (simp add: run_fuel_Loop(4) [OF c])
          then show ?thesis by blast
        qed (use r1(2) n Cons Loop in \<open>auto simp: run_fuel_Loop(4) [OF c] intro: exI [of _ "Suc n"]\<close>)
      qed
    qed
  qed
qed

lemma execute_iff: "rep h i is ns \<Longrightarrow> brainfuck_execute h (Some i) c = Some r \<longleftrightarrow> (\<exists>n. run_fuel n is c = Some r)"
  using execute_run_fuel execute_terminates by blast

section \<open>Destruction\<close>

lemma destroy_rep: "rep h i is ns \<Longrightarrow> brainfuck_destroy_instructions h (Some i) = Some ns"
proof (induction h i "is" ns rule: rep.induct)
  case (1 h i ns)
  have "brainfuck_destroy_instructions h None = Some []" by (simp add: brainfuck_destroy_instructions.simps)
  then show ?case using 1 by (subst brainfuck_destroy_instructions.simps) (simp add: brainfuck_destroy_instruction_def)
next
  case (2 h i ch d "is" ns)
  have "brainfuck_destroy_instructions h None = Some []" by (simp add: brainfuck_destroy_instructions.simps)
  then show ?case using 2
    by (subst brainfuck_destroy_instructions.simps) (auto simp: brainfuck_destroy_instruction_def)
next
  case (3 h i b "is" ns)
  then show ?case by (subst brainfuck_destroy_instructions.simps) (auto simp: brainfuck_destroy_instruction_def)
qed

end
