(* ===== verification/Brainfuck_Correct.thy ===== *)
theory Brainfuck_Correct
  imports Brainfuck_Exec
begin

text \<open>The properties of the interpreter: whole runs, memory, and the list of instructions.\<close>

section \<open>A run of a program\<close>

lemma run_fuel_safe: "rep h i is ns \<Longrightarrow> ctx_ok c \<Longrightarrow> run_fuel n is c = Some r \<Longrightarrow> safe r"
proof (induction n "is" arbitrary: c r i ns rule: fuel_induct)
  case (Nil n)
  then show ?case by (auto simp: safe_def)
next
  case (Cons n x xs)
  show ?case
  proof (cases x)
    case (Run ch d)
    with Cons.prems(1) obtain j ms where j: "is_run ch" "rep h j xs ms" by auto
    then show ?thesis using Cons.IH(1) [OF j(2)] Cons.prems(3) exec_run_safe [OF Cons.prems(2) j(1), of d] Run
      by (cases "exec_run ch d c") (auto simp: safe_def)
  next
    case (Loop b)
    with Cons.prems(1) obtain q j ls ms where j: "rep h q b ls" "rep h j xs ms" by auto
    show ?thesis
    proof (cases c rule: cell_cases)
      case 1
      then show ?thesis using ctx_ok_cell [OF Cons.prems(2)] by simp
    next
      case 2
      then show ?thesis using Cons.IH(1) [OF j(2) Cons.prems(2)] Cons.prems(3) Loop by (simp add: run_fuel_Loop(2))
    next
      case (3 v)
      have "run_fuel n (Loop b # xs) c = Some r" using Cons.prems Loop by simp
      then obtain m r1 where m: "n = Suc m" "run_fuel m b c = Some r1"
        "(\<exists>c1. r1 = Done c1 \<and> run_fuel m (Loop b # xs) c1 = Some r) \<or> (\<nexists>c1. r1 = Done c1) \<and> r = r1"
        using 3 by (rule run_fuel_iterate)
      have "safe r1" using Cons.IH(2) [OF _ j(1) Cons.prems(2) m(2)] m(1) by simp
      then show ?thesis using m(1,3) Cons.IH(2) [of m i "Loop b # xs" ns] Cons.prems(1) Loop by (auto simp: safe_def)
    qed
  qed
qed

lemma context_ok: "ctx_ok (brainfuck_context tj inp (int BRAINFUCK_TAPE_SIZE))"
  by (simp add: ctx_ok_def brainfuck_context_def BRAINFUCK_TAPE_SIZE_def)

lemma upd_fields:
  "f (g (h ! k)) = f (h ! k) \<Longrightarrow> f (upd h k g ! i) = f (h ! i)"
  by (simp add: upd_def nth_update_field)

lemmas previous_fields = upd_fields [of itype] upd_fields [of inext] upd_fields [of iloop] upd_fields [of difference]

lemma rep_previous: "rep h i is ns \<Longrightarrow> rep (upd h k (\<lambda>x. x\<lparr>iprevious := v\<rparr>)) i is ns"
proof (induction h i "is" ns rule: rep.induct)
  case (3 h i b "is" ns)
  from "3.prems" obtain r j ls ms where *: "i < length h" "itype (h ! i) = TOKEN_LOOP_START" "iloop (h ! i) = Some r"
    "inext (h ! i) = Some j" "rep h r b ls" "rep h j is ms" "ns = ls @ i # ms" by auto
  then show ?case using "3.IH"(1) [OF *(5)] "3.IH"(2) [OF *(6)] by (auto simp: previous_fields)
qed (auto simp: previous_fields)

lemma last_instruction_rep: "rep h i is ns \<Longrightarrow> \<exists>l. last_instruction h i = Some l"
proof (induction h i "is" ns rule: rep.induct)
  case (1 h i ns)
  then show ?case by (subst last_instruction.simps) simp
next
  case (2 h i ch d "is" ns)
  then show ?case by (subst last_instruction.simps) auto
next
  case (3 h i b "is" ns)
  then show ?case by (subst last_instruction.simps) auto
qed

lemma add_first:
  assumes "rep h i is ns"
  shows "\<exists>h' l. brainfuck_add h (Some brainfuck_state) (Some i) = Some (h', Some \<lparr>root = Some i, head = Some l\<rparr>, Some l) \<and>
    rep h' i is ns \<and> length h' = length h"
proof -
  let ?h = "upd h i (\<lambda>x. x\<lparr>iprevious := None\<rparr>)"
  have r: "rep ?h i is ns" using rep_previous [OF assms] .
  then obtain l where "last_instruction ?h i = Some l" using last_instruction_rep by blast
  then show ?thesis using r by (simp add: brainfuck_add_def brainfuck_state_def)
qed

text \<open>What follows parsing, for either parser.\<close>

lemma run_parsed:
  assumes "rep h 0 (compress p) ns" "distinct ns" "set ns = {0..<length h}" "ctx_ok c0"
  shows "(\<exists>h' fs. run_instruction h (Some 0) c0 = Some (h', r, fs)) \<longleftrightarrow> (\<exists>n. run_fuel n (compress p) c0 = Some r)"
    and "run_instruction h (Some 0) c0 = Some (h', r, fs) \<Longrightarrow>
      safe r \<and> (\<forall>c. r = Done c \<longrightarrow> distinct fs \<and> set fs = {0..<length h'})"
proof -
  obtain h1 l where a: "brainfuck_add h (Some brainfuck_state) (Some 0) = Some (h1, Some \<lparr>root = Some 0, head = Some l\<rparr>, Some l)"
    "rep h1 0 (compress p) ns" "length h1 = length h"
    using add_first [OF assms(1)] by blast
  have run: "run_instruction h (Some 0) c0 = do {
     r \<leftarrow> brainfuck_execute h1 (Some 0) c0;
     case r of Done c \<Rightarrow> Some (h1, r, ns) | _ \<Rightarrow> Some (h1, r, []) }"
    using a(1) destroy_rep [OF a(2)]
    by (auto simp: run_instruction_def brainfuck_destroy_state_def intro!: Option.bind_cong split: exec_result.splits)
  then show "(\<exists>h' fs. run_instruction h (Some 0) c0 = Some (h', r, fs)) \<longleftrightarrow> (\<exists>n. run_fuel n (compress p) c0 = Some r)"
    using execute_iff [OF a(2), of c0]
    by (cases "brainfuck_execute h1 (Some 0) c0") (auto split: exec_result.splits)
  assume "run_instruction h (Some 0) c0 = Some (h', r, fs)"
  then have e: "brainfuck_execute h1 (Some 0) c0 = Some r" "h' = h1" "\<forall>c. r = Done c \<longrightarrow> fs = ns"
    using run by (auto split: bind_splits exec_result.splits)
  then have "safe r" using run_fuel_safe [OF a(2) assms(4)] execute_iff [OF a(2)] by blast
  then show "safe r \<and> (\<forall>c. r = Done c \<longrightarrow> distinct fs \<and> set fs = {0..<length h'})"
    using e assms(2,3) a(3) by auto
qed

lemma run_string_parsed:
  assumes "list_all bf_ok p" "0 \<notin> set (print_prog p)"
  shows "\<exists>h ns. rep h 0 (compress p) ns \<and> distinct ns \<and> set ns = {0..<length h} \<and>
    brainfuck_run_string junk tj inp (print_prog p) =
      run_instruction h (Some 0) (brainfuck_context tj inp (int BRAINFUCK_TAPE_SIZE))"
  using brainfuck_parse_string_ok [OF assms, of junk "[]"] by (fastforce simp: brainfuck_run_string_def Let_def)

lemma map_Pair: "map_option (Pair k) X = Some (k, y) \<longleftrightarrow> X = Some y"
  by (cases X) auto

lemma run_file_parsed:
  assumes "list_all bf_ok p" "0xFF \<notin> set (print_prog p)"
  shows "\<exists>h ns. rep h 0 (compress p) ns \<and> distinct ns \<and> set ns = {0..<length h} \<and>
    brainfuck_run_file junk tj inp (Some (print_prog p)) =
      map_option (Pair 0) (run_instruction h (Some 0) (brainfuck_context tj inp (int BRAINFUCK_TAPE_SIZE)))"
proof -
  obtain h ns t where h: "brainfuck_parse_stream junk [] (print_prog p) = Some (h, 0, t)" "rep h 0 (compress p) ns" "distinct ns"
    "set ns = {0..<length h}"
    using brainfuck_parse_stream_ok [OF assms, of junk "[]"] by auto
  have "brainfuck_run_file junk tj inp (Some (print_prog p)) =
      map_option (Pair 0) (run_instruction h (Some 0) (brainfuck_context tj inp (int BRAINFUCK_TAPE_SIZE)))"
    using h(1) by (simp add: brainfuck_run_file_def Let_def map_conv_bind_option comp_def)
  then show ?thesis using h(2-4) by blast
qed


lemma previous_exits: "bf_fuel 0 [Cmd TOKEN_PREVIOUS] (brainfuck_context tj inp (int BRAINFUCK_TAPE_SIZE)) = Some (Exit_Failure [])"
  by (simp add: bf_step_def brainfuck_context_def BRAINFUCK_TAPE_SIZE_def)

definition no_instruction :: instruction where
  "no_instruction = \<lparr>difference = 0, itype = 0, inext = None, iprevious = None, iloop = None\<rparr>"


text \<open>C29: no program makes the interpreter access memory outside its tape or its instructions, whatever
  the uninitialised memory holds, and after a run that returns every instruction that was
  allocated has been freed exactly once.\<close>

theorem brainfuck_run_memory:
  assumes "list_all bf_ok p" "0 \<notin> set (print_prog p)"
    "brainfuck_run_string junk tj inp (print_prog p) = Some (h, r, fs)"
  shows "r \<noteq> Fault \<and> (\<forall>c. r = Done c \<longrightarrow> distinct fs \<and> set fs = {0..<length h})"
proof -
  obtain h1 ns where "rep h1 0 (compress p) ns" "distinct ns" "set ns = {0..<length h1}"
    "brainfuck_run_string junk tj inp (print_prog p) = run_instruction h1 (Some 0) (brainfuck_context tj inp (int BRAINFUCK_TAPE_SIZE))"
    using run_string_parsed [OF assms(1,2)] by blast
  then have "safe r \<and> (\<forall>c. r = Done c \<longrightarrow> distinct fs \<and> set fs = {0..<length h})"
    using run_parsed(2) [OF _ _ _ context_ok] assms(3) by metis
  then show ?thesis by (auto simp: safe_def)
qed

lemma plus_returns:
  "\<exists>h c fs. brainfuck_run_string no_instruction (\<lambda>_. 0) [] (print_prog [Cmd TOKEN_PLUS]) = Some (h, Done c, fs)"
proof -
  let ?c = "brainfuck_context (\<lambda>_. 0) [] (int BRAINFUCK_TAPE_SIZE)"
  obtain h ns where h: "rep h 0 (compress [Cmd TOKEN_PLUS]) ns" "distinct ns" "set ns = {0..<length h}"
    "brainfuck_run_string no_instruction (\<lambda>_. 0) [] (print_prog [Cmd TOKEN_PLUS]) = run_instruction h (Some 0) ?c"
    using run_string_parsed [of "[Cmd TOKEN_PLUS]" no_instruction "\<lambda>_. 0" "[]"] by auto
  have "bf_fuel 0 [Cmd TOKEN_PLUS] ?c = Some (Done (set_cell ?c (tape ?c ! nat (tape_index ?c) + 1)))"
    using ctx_ok_cell [OF context_ok [of "\<lambda>_. 0" "[]"]] by (simp add: bf_step_def)
  then have "run_fuel 0 (compress [Cmd TOKEN_PLUS]) ?c = Some (Done (set_cell ?c (tape ?c ! nat (tape_index ?c) + 1)))"
    using compress_fuel [OF context_ok, of "[Cmd TOKEN_PLUS]" 0 "\<lambda>_. 0" "[]"] by simp
  then show ?thesis using run_parsed(1) [OF h(1-3) context_ok] h(4) by metis
qed

theorem brainfuck_run_memory_witness:
  "\<exists>h r fs. brainfuck_run_string no_instruction (\<lambda>_. 0) [] [TOKEN_PLUS] = Some (h, r, fs) \<and> r \<noteq> Fault \<and>
     distinct fs \<and> set fs = {0..<length h}"
proof -
  obtain h c fs where r: "brainfuck_run_string no_instruction (\<lambda>_. 0) [] (print_prog [Cmd TOKEN_PLUS]) = Some (h, Done c, fs)"
    using plus_returns by blast
  show ?thesis using brainfuck_run_memory [OF _ _ r] r by auto
qed

lemma moves_instructions:
  "compress [Cmd TOKEN_NEXT, Cmd TOKEN_PLUS, Cmd TOKEN_NEXT, Cmd TOKEN_PREVIOUS, Cmd TOKEN_PREVIOUS] =
    [Run TOKEN_NEXT 1, Run TOKEN_PLUS 1, Run TOKEN_NEXT (- 1)]"
  by (simp add: is_run_def same_run_def run_count_def count_char_def)

text \<open>C30: a run of moves that ends up left of where it started although it starts with \<open>>\<close> is counted
  as a huge move to the right: the program \<open>>+><<\<close> stays on the tape, and the interpreter exits with
  the message that the tape is overrun.\<close>

theorem brainfuck_mixed_moves_exit:
  "(\<exists>h. brainfuck_run_string junk tj inp [TOKEN_NEXT, TOKEN_PLUS, TOKEN_NEXT, TOKEN_PREVIOUS, TOKEN_PREVIOUS] =
      Some (h, Exit_Failure [], [])) \<and>
   (\<exists>c. bf_fuel 0 [Cmd TOKEN_NEXT, Cmd TOKEN_PLUS, Cmd TOKEN_NEXT, Cmd TOKEN_PREVIOUS, Cmd TOKEN_PREVIOUS]
      (brainfuck_context tj inp (int BRAINFUCK_TAPE_SIZE)) = Some (Done c) \<and> tape_index c = 0)"
proof
  let ?c = "brainfuck_context tj inp (int BRAINFUCK_TAPE_SIZE)"
  let ?p = "[Cmd TOKEN_NEXT, Cmd TOKEN_PLUS, Cmd TOKEN_NEXT, Cmd TOKEN_PREVIOUS, Cmd TOKEN_PREVIOUS]"
  have c0: "tape_index ?c = 0" "tape_size ?c = 30000" "stdout ?c = []" by (simp_all add: brainfuck_context_def BRAINFUCK_TAPE_SIZE_def)
  let ?c1 = "?c\<lparr>tape_index := 1\<rparr>"
  have ok: "ctx_ok ?c1" using context_ok [of tj inp] c0 by (simp add: ctx_ok_def)
  let ?c2 = "set_cell ?c1 (tape ?c1 ! nat (tape_index ?c1) + 1)"
  have plus: "bf_step TOKEN_PLUS ?c1 = Done ?c2" using ctx_ok_cell [OF ok] by (simp add: bf_step_def)
  have c2: "tape_index ?c2 = 1" "tape_size ?c2 = 30000" "stdout ?c2 = []" "ctx_ok ?c2"
    using c0 bf_step_ok [OF ok plus] by (simp_all add: set_cell_def)
  have next1: "bf_step TOKEN_NEXT ?c = Done ?c1" using c0 by (simp add: bf_step_def)
  have "exec_run TOKEN_NEXT 1 ?c = Done ?c1" "exec_run TOKEN_PLUS 1 ?c1 = Done ?c2"
    using exec_run_one [OF context_ok, of TOKEN_NEXT tj inp] exec_run_one [OF ok, of TOKEN_PLUS] next1 plus by (simp_all add: is_run_def)
  moreover have "exec_run TOKEN_NEXT (- 1) ?c2 = Exit_Failure []"
  proof -
    have "uint (- 1 :: uint64_t) = 2 ^ 64 - 1" by (simp add: unsigned_minus_1_eq_mask mask_eq_exp_minus_1)
    then show ?thesis using exec_run_next [OF c2(4), of "- 1"] c2 by simp
  qed
  ultimately have run: "run_fuel 0 (compress ?p) ?c = Some (Exit_Failure [])"
    unfolding moves_instructions by simp
  obtain h ns where h: "rep h 0 (compress ?p) ns" "distinct ns" "set ns = {0..<length h}"
    "brainfuck_run_string junk tj inp (print_prog ?p) = run_instruction h (Some 0) ?c"
    using run_string_parsed [of ?p junk tj inp] by auto
  obtain h' fs where r: "run_instruction h (Some 0) ?c = Some (h', Exit_Failure [], fs)"
    using run_parsed(1) [OF h(1-3) context_ok] run by blast
  then have "fs = []" by (auto simp: run_instruction_def split: bind_splits exec_result.splits)
  then show "\<exists>h. brainfuck_run_string junk tj inp [TOKEN_NEXT, TOKEN_PLUS, TOKEN_NEXT, TOKEN_PREVIOUS, TOKEN_PREVIOUS] = Some (h, Exit_Failure [], [])"
    using r h(4) by simp
  show "\<exists>c. bf_fuel 0 ?p ?c = Some (Done c) \<and> tape_index c = 0"
    using next1 plus c2 by (simp add: bf_step_def [of TOKEN_NEXT] bf_step_def [of TOKEN_PREVIOUS])
qed

end
