(* ===== verification/Brainfuck_List.thy ===== *)
theory Brainfuck_List
  imports Brainfuck_Correct
begin

text \<open>
  The operations on the doubly linked list of instructions: adding at the end, removal, and the two
  insertions.
\<close>

section \<open>Segments\<close>

text \<open>
  \<open>dseg h pv s xs e\<close>: from \<open>s\<close> the nodes \<open>xs\<close> are linked in both directions; the first has \<open>pv\<close> as its
  predecessor, and the link of the last leads to \<open>e\<close>.
\<close>

fun dseg :: "bf_heap \<Rightarrow> nat ptr \<Rightarrow> nat ptr \<Rightarrow> nat list \<Rightarrow> nat ptr \<Rightarrow> bool" where
  "dseg h pv s [] e \<longleftrightarrow> s = e"
| "dseg h pv s (x # xs) e \<longleftrightarrow>
     s = Some x \<and> x < length h \<and> iprevious (h ! x) = pv \<and> dseg h (Some x) (inext (h ! x)) xs e"

definition last_ptr :: "nat ptr \<Rightarrow> nat list \<Rightarrow> nat ptr" where
  "last_ptr pv xs = (if xs = [] then pv else Some (last xs))"

lemma dseg_append: "dseg h pv s (xs @ ys) e \<longleftrightarrow> (\<exists>m. dseg h pv s xs m \<and> dseg h (last_ptr pv xs) m ys e)"
  by (induction xs arbitrary: pv s) (auto simp: last_ptr_def)

lemma dseg_cong: "dseg h pv s xs e \<Longrightarrow> length h' = length h \<Longrightarrow> (\<And>x. x \<in> set xs \<Longrightarrow> h' ! x = h ! x) \<Longrightarrow> dseg h' pv s xs e"
  by (induction xs arbitrary: pv s) auto

lemma dseg_upd: "dseg h pv s xs e \<Longrightarrow> k \<notin> set xs \<Longrightarrow> dseg (upd h k f) pv s xs e"
  by (erule dseg_cong) (simp_all add: upd_def, metis nth_list_update_neq)

lemma dseg_bound: "dseg h pv s xs e \<Longrightarrow> x \<in> set xs \<Longrightarrow> x < length h"
  by (induction xs arbitrary: pv s) auto

lemma last_instruction_dseg: "dseg h pv (Some x) (x # xs) None \<Longrightarrow> last_instruction h x = Some (last (x # xs))"
proof (induction xs arbitrary: pv x)
  case Nil
  then show ?case by (subst last_instruction.simps) simp
next
  case (Cons y xs)
  then have "dseg h (Some x) (Some y) (y # xs) None" "x < length h" "inext (h ! x) = Some y" by auto
  then show ?case using Cons.IH [of "Some x" y] by (subst last_instruction.simps) simp
qed

text \<open>A state holds the instructions \<open>xs\<close>.\<close>

definition holds :: "bf_heap \<Rightarrow> bf_state \<Rightarrow> nat list \<Rightarrow> bool" where
  "holds h st xs \<longleftrightarrow> dseg h None (root st) xs None \<and> head st = last_ptr None xs \<and> distinct xs"

section \<open>Adding and removing\<close>

text \<open>C31: \<open>brainfuck_add\<close> appends a list of instructions to the list of the state: afterwards the state
  holds the one followed by the other, linked in both directions, and its head is the last of them.\<close>

theorem brainfuck_add_appends:
  assumes "holds h st xs" "dseg h pv (Some y) (y # ys) None" "distinct (y # ys)" "set xs \<inter> set (y # ys) = {}"
  shows "\<exists>h' st'. brainfuck_add h (Some st) (Some y) = Some (h', Some st', Some (last (y # ys))) \<and>
    holds h' st' (xs @ y # ys) \<and> (\<forall>i. itype (h' ! i) = itype (h ! i) \<and> difference (h' ! i) = difference (h ! i) \<and> iloop (h' ! i) = iloop (h ! i))"
proof -
  let ?h1 = "upd h y (\<lambda>x. x\<lparr>iprevious := head st\<rparr>)"
  have y: "y < length h" "y \<notin> set ys" "y \<notin> set xs" using assms(2-4) by auto
  have xs: "dseg h None (root st) xs None" "head st = last_ptr None xs" "distinct xs" using assms(1) by (auto simp: holds_def)
  have ys1: "dseg ?h1 (head st) (Some y) (y # ys) None"
    using assms(2) y dseg_upd [of h "Some y" "inext (h ! y)" ys None y] by (simp add: nth_upd)
  have xs1: "dseg ?h1 None (root st) xs None" using dseg_upd [OF xs(1) y(3)] .
  show ?thesis
  proof (cases xs rule: rev_cases)
    case Nil
    then have "root st = None" "head st = None" using xs by (simp_all add: last_ptr_def)
    then show ?thesis using Nil ys1 last_instruction_dseg [OF ys1] assms(3)
      by (auto simp: brainfuck_add_def holds_def last_ptr_def previous_fields)
  next
    case (snoc zs j)
    have j: "head st = Some j" "root st \<noteq> None" "j < length h" "j \<notin> set zs" "j \<notin> set (y # ys)"
      using snoc xs assms(4) dseg_bound [OF xs(1)] by (cases zs; auto simp: last_ptr_def)+
    let ?h2 = "upd ?h1 j (\<lambda>x. x\<lparr>inext := Some y\<rparr>)"
    have ys2: "dseg ?h2 (Some j) (Some y) (y # ys) None" using dseg_upd [OF ys1 j(5)] j(1) by simp
    have "dseg ?h2 None (root st) (zs @ [j]) (Some y)"
      using xs1 j(3,4) unfolding snoc dseg_append by (auto simp: nth_upd intro: dseg_upd)
    then have "dseg ?h2 None (root st) (xs @ y # ys) None"
      unfolding dseg_append [of _ _ _ xs] using ys2 snoc by (auto simp: last_ptr_def)
    moreover have "distinct (xs @ y # ys)" using xs(3) assms(3,4) by auto
    ultimately show ?thesis using j(1,2) last_instruction_dseg [OF ys2]
      by (auto simp: brainfuck_add_def holds_def last_ptr_def previous_fields)
  qed
qed

definition one_plus :: instruction where
  "one_plus = no_instruction\<lparr>itype := TOKEN_PLUS, difference := 1\<rparr>"

theorem brainfuck_add_appends_witness:
  "\<exists>h' st'. brainfuck_add [one_plus, one_plus] (Some \<lparr>root = Some 0, head = Some 0\<rparr>) (Some 1) = Some (h', Some st', Some 1) \<and>
     holds h' st' [0, 1]"
  using brainfuck_add_appends [of "[one_plus, one_plus]" "\<lparr>root = Some 0, head = Some 0\<rparr>" "[0]" None 1 "[]"]
  by (auto simp: holds_def last_ptr_def one_plus_def no_instruction_def)

text \<open>\<open>brainfuck_remove\<close> unlinks an instruction that has a neighbour on both sides; for the first or
  the last one it dereferences a null pointer.\<close>

lemma brainfuck_remove_unlinks:
  assumes "holds h st (xs @ x # ys)"
  shows "(if xs \<noteq> [] \<and> ys \<noteq> []
    then \<exists>h'. brainfuck_remove h (Some st) (Some x) = Some (h', Some st, Some x) \<and> holds h' st (xs @ ys)
    else brainfuck_remove h (Some st) (Some x) = None)"
proof -
  have s: "dseg h None (root st) (xs @ x # ys) None" "head st = Some (last (x # ys))" "distinct (xs @ x # ys)"
    using assms by (auto simp: holds_def last_ptr_def)
  then have x: "x < length h" "iprevious (h ! x) = last_ptr None xs" "dseg h None (root st) xs (Some x)" "dseg h (Some x) (inext (h ! x)) ys None"
    by (auto simp: dseg_append)
  show ?thesis
  proof (cases "xs \<noteq> [] \<and> ys \<noteq> []")
    case False
    show ?thesis
    proof (cases "xs = []")
      case True
      then show ?thesis using x by (auto simp: brainfuck_remove_def last_ptr_def)
    next
      case ne: False
      then have "last xs \<noteq> x" "last xs < length h" "inext (h ! x) = None"
        using s(3) x(3,4) dseg_bound [OF x(3)] False by (auto dest: last_in_set)
      then show ?thesis using ne False x(2) by (auto simp: brainfuck_remove_def last_ptr_def Let_def nth_upd)
    qed
  next
    case True
    obtain zs p where xs: "xs = zs @ [p]" using True by (cases xs rule: rev_cases) auto
    obtain n ws where ys: "ys = n # ws" using True by (cases ys) auto
    let ?h1 = "upd h p (\<lambda>y. y\<lparr>inext := Some n\<rparr>)"
    let ?h2 = "upd ?h1 n (\<lambda>y. y\<lparr>iprevious := Some p\<rparr>)"
    let ?h3 = "upd ?h2 x (\<lambda>y. y\<lparr>iprevious := None, inext := None\<rparr>)"
    have d: "p \<notin> set zs" "p \<noteq> x" "p \<noteq> n" "x \<noteq> n" "n \<notin> set ws" "p \<notin> set ws" "x \<notin> set (xs @ ys)" "n \<notin> set zs"
      using s(3) by (auto simp: xs ys)
    have b: "p < length h" "n < length h" using s(1) dseg_bound by (auto simp: xs ys)
    have nx: "inext (h ! x) = Some n" using x(4) ys by simp
    have rm: "brainfuck_remove h (Some st) (Some x) = Some (?h3, Some st, Some x)"
      using s(2,3) x(1,2) nx d b by (auto simp: brainfuck_remove_def xs ys last_ptr_def nth_upd Let_def)
    have "dseg ?h2 None (root st) (zs @ [p]) (Some n)"
      using x(3) d b unfolding xs dseg_append by (auto simp: nth_upd intro!: dseg_upd)
    moreover have "dseg ?h2 (Some p) (Some n) (n # ws) None"
      using x(4) d b unfolding ys by (auto simp: nth_upd intro!: dseg_upd)
    ultimately have "dseg ?h2 None (root st) (xs @ ys) None"
      unfolding dseg_append [of _ _ _ xs] unfolding xs ys last_ptr_def by auto
    then have "dseg ?h3 None (root st) (xs @ ys) None" by (rule dseg_upd [OF _ d(7)])
    then show ?thesis using rm True s(2,3) by (auto simp: holds_def last_ptr_def ys)
  qed
qed

lemma brainfuck_remove_unlinks_example:
  "brainfuck_remove [one_plus] (Some \<lparr>root = Some 0, head = Some 0\<rparr>) (Some 0) = None"
  using brainfuck_remove_unlinks [of "[one_plus]" "\<lparr>root = Some 0, head = Some 0\<rparr>" "[]" 0 "[]"]
  by (simp add: holds_def last_ptr_def one_plus_def no_instruction_def)

section \<open>The insertions make cycles\<close>

lemma self_loop:
  assumes "inext (h ! i) = Some i"
  shows "last_instruction h i = None"
proof -
  have "\<not> (h' = h \<and> i' = i)" if "last_instruction h' i' = Some l" for h' i' l
  proof (rule last_instruction.raw_induct [OF _ that])
    fix f :: "bf_heap \<Rightarrow> nat \<Rightarrow> nat option" and h' i' y
    assume IH: "\<And>h' i' y. f h' i' = Some y \<Longrightarrow> \<not> (h' = h \<and> i' = i)"
      and body: "(if length h' \<le> i' then None else case inext (h' ! i') of None \<Rightarrow> Some i' | Some j \<Rightarrow> f h' j) = Some y"
    show "\<not> (h' = h \<and> i' = i)"
    proof
      assume "h' = h \<and> i' = i"
      then have "f h i = Some y" using body assms by (simp split: if_splits)
      then show False using IH by blast
    qed
  qed
  then show ?thesis by (metis not_Some_eq)
qed

text \<open>Both insertions leave the inserted instruction linked to itself when it is a single one, so that
  the list no longer ends: \<open>brainfuck_insert_before\<close> stores the new last instruction as its own
  successor, and \<open>brainfuck_insert_after\<close> reads \<open>after->next\<close> after it has overwritten it.\<close>

lemma brainfuck_insert_cycle:
  assumes "i < length h" "k < length h" "i \<noteq> k" "inext (h ! i) = None"
  shows "(\<exists>h' st'. brainfuck_insert_after h (Some st) (Some k) (Some i) = Some (h', Some st', Some i) \<and>
      inext (h' ! k) = Some i \<and> inext (h' ! i) = Some i \<and> last_instruction h' k = None) \<and>
    (\<exists>h' st'. brainfuck_insert_before h (Some st) (Some k) (Some i) = Some (h', Some st', Some i) \<and>
      iprevious (h' ! k) = Some i \<and> inext (h' ! i) = Some i \<and> last_instruction h' i = None)"
proof
  let ?h = "upd (upd h k (\<lambda>x. x\<lparr>inext := Some i\<rparr>)) i (\<lambda>x. x\<lparr>iprevious := Some k\<rparr>)"
  let ?h' = "upd (upd ?h i (\<lambda>x. x\<lparr>iprevious := Some i\<rparr>)) i (\<lambda>x. x\<lparr>inext := Some i\<rparr>)"
  have "last_instruction ?h i = Some i" using assms by (subst last_instruction.simps) (simp add: nth_upd)
  then have "\<exists>st'. brainfuck_insert_after h (Some st) (Some k) (Some i) = Some (?h', Some st', Some i)"
    using assms by (simp add: brainfuck_insert_after_def nth_upd)
  moreover have n: "inext (?h' ! k) = Some i" "inext (?h' ! i) = Some i" using assms by (simp_all add: nth_upd)
  moreover have "last_instruction ?h' k = None"
    using n self_loop [of ?h' i] assms by (subst last_instruction.simps) simp
  ultimately show "\<exists>h' st'. brainfuck_insert_after h (Some st) (Some k) (Some i) = Some (h', Some st', Some i) \<and>
      inext (h' ! k) = Some i \<and> inext (h' ! i) = Some i \<and> last_instruction h' k = None" by blast
next
  have l: "last_instruction h i = Some i" using assms by (subst last_instruction.simps) simp
  let ?h = "upd (upd h k (\<lambda>x. x\<lparr>iprevious := Some i\<rparr>)) i (\<lambda>x. x\<lparr>inext := Some i\<rparr>)"
  let ?h' = "case iprevious (h ! k) of None \<Rightarrow> ?h
     | Some p \<Rightarrow> upd (upd ?h p (\<lambda>x. x\<lparr>inext := Some i\<rparr>)) i (\<lambda>x. x\<lparr>iprevious := Some p\<rparr>)"
  have "\<exists>st'. brainfuck_insert_before h (Some st) (Some k) (Some i) = Some (?h', Some st', Some i)"
    using l by (simp add: brainfuck_insert_before_def Let_def)
  moreover have "iprevious (?h' ! k) = Some i" "inext (?h' ! i) = Some i"
    using assms by (auto simp: nth_upd upd_fields [of iprevious] upd_def [of _ _ "\<lambda>x. x\<lparr>inext := Some i\<rparr>"] nth_list_update split: option.splits)
  moreover from this(2) have "last_instruction ?h' i = None" by (rule self_loop)
  ultimately show "\<exists>h' st'. brainfuck_insert_before h (Some st) (Some k) (Some i) = Some (h', Some st', Some i) \<and>
      iprevious (h' ! k) = Some i \<and> inext (h' ! i) = Some i \<and> last_instruction h' i = None" by blast
qed

lemma brainfuck_insert_cycle_example:
  "\<exists>h' st'. brainfuck_insert_after [one_plus, one_plus] (Some \<lparr>root = Some 0, head = Some 0\<rparr>) (Some 0) (Some 1) =
     Some (h', Some st', Some 1) \<and> inext (h' ! 1) = Some 1 \<and> last_instruction h' 0 = None"
proof -
  have "1 < length [one_plus, one_plus]" "0 < length [one_plus, one_plus]" "(1::nat) \<noteq> 0" "inext ([one_plus, one_plus] ! 1) = None"
    by (simp_all add: one_plus_def no_instruction_def)
  from brainfuck_insert_cycle [OF this, of "\<lparr>root = Some 0, head = Some 0\<rparr>"] show ?thesis by blast
qed

end
