(* ===== verification/Heap.thy ===== *)
theory Heap
  imports Prelude "HOL-Library.Monad_Syntax"
begin

text \<open>
  Objects allocated with \<open>malloc\<close>: a heap of one kind of object is the list of all objects ever
  allocated, the address being the index, and \<open>None\<close> an object that has been freed. An operation
  on it returns \<open>None\<close> where the C code has undefined behaviour: an access through a null pointer or to
  a freed object, or a second \<open>free\<close>.
\<close>

type_synonym 'a heap = "'a option list"

fun deref :: "'a heap \<Rightarrow> nat ptr \<Rightarrow> 'a option" where
  "deref h None = None"
| "deref h (Some i) = (if i < length h then h ! i else None)"

lemmas deref_Some = deref.simps(2)

declare deref_Some [simp del]

text \<open>A store through a pointer.\<close>

definition store :: "'a heap \<Rightarrow> nat ptr \<Rightarrow> ('a \<Rightarrow> 'a) \<Rightarrow> 'a heap option" where
  "store h p f = do { x \<leftarrow> deref h p; Some (h[the p := Some (f x)]) }"

text \<open>\<open>free\<close> accepts the null pointer.\<close>

definition release :: "'a heap \<Rightarrow> nat ptr \<Rightarrow> 'a heap option" where
  "release h p = (case p of None \<Rightarrow> Some h | Some i \<Rightarrow> do { deref h p; Some (h[i := None]) })"

text \<open>The objects that are allocated and not freed.\<close>

definition live :: "'a heap \<Rightarrow> nat set" where
  "live h = {i. i < length h \<and> h ! i \<noteq> None}"

lemma in_live_iff: "i \<in> live h \<longleftrightarrow> (\<exists>x. deref h (Some i) = Some x)"
  by (auto simp: live_def deref_Some)

lemma liveI: "deref h (Some i) = Some x \<Longrightarrow> i \<in> live h"
  by (auto simp: in_live_iff)

lemma live_bound: "i \<in> live h \<Longrightarrow> i < length h"
  by (simp add: live_def)

lemma finite_live [simp]: "finite (live h)"
  by (rule finite_subset [of _ "{..<length h}"]) (auto simp: live_def)

lemma deref_bound: "deref h (Some i) = Some x \<Longrightarrow> i < length h"
  by (simp add: deref_Some split: if_splits)

lemma store_some: "deref h (Some i) = Some x \<Longrightarrow> store h (Some i) f = Some (h[i := Some (f x)])"
  by (simp add: store_def)

lemma release_some: "deref h (Some i) = Some x \<Longrightarrow> release h (Some i) = Some (h[i := None])"
  by (simp add: release_def)

lemma deref_update: "deref (h[i := v]) (Some j) = (if j = i \<and> i < length h then v else deref h (Some j))"
  by (simp add: deref_Some)

lemma deref_alloc: "deref (h @ [v]) (Some j) = (if j = length h then v else deref h (Some j))"
  by (auto simp: deref_Some nth_append)

lemma live_update: "live (h[i := v]) = (if i < length h then (if v = None then live h - {i} else insert i (live h)) else live h)"
  by (auto simp: live_def nth_list_update)

lemma live_alloc: "live (h @ [v]) = (if v = None then live h else insert (length h) (live h))"
  by (auto simp: live_def nth_append)

lemma fresh_not_live: "length h \<notin> live h"
  by (simp add: live_def)

lemmas heap_simps = deref_update deref_alloc live_update live_alloc

end
