(* ===== verification/Aho_Queue.thy ===== *)
theory Aho_Queue
  imports Heap
begin

text \<open>
  The queue of \<open>aho_queue.c\<close>: doubly linked nodes with a front, a rear and a counter. Elements are
  added at the rear and taken from the rear too, so the queue is a stack.
\<close>

section \<open>Model\<close>

record aho_queue_node =
  qnext :: "nat ptr"
  qprev :: "nat ptr"
  qdata :: nat

record aho_queue =
  front :: "nat ptr"
  rear :: "nat ptr"
  count :: uint32_t

text \<open>The nodes and the queue itself.\<close>

type_synonym queue_state = "aho_queue_node heap \<times> aho_queue"

definition aho_queue_init :: aho_queue where
  "aho_queue_init = \<lparr>front = None, rear = None, count = 0\<rparr>"

text \<open>\<open>mem\<close> says whether \<open>malloc\<close> finds memory.\<close>

definition aho_queue_enqueue :: "bool \<Rightarrow> queue_state \<Rightarrow> nat \<Rightarrow> (queue_state \<times> bool) option" where
  "aho_queue_enqueue mem s node = (case s of (qh, que) \<Rightarrow>
    if \<not> mem then Some (s, False)
    else let que_node = length qh; qh = qh @ [Some \<lparr>qnext = None, qprev = None, qdata = node\<rparr>] in
      if count que = 0
      then Some ((qh, que\<lparr>rear := Some que_node, front := Some que_node, count := count que + 1\<rparr>), True)
      else do {
        qh \<leftarrow> store qh (Some que_node) (\<lambda>n. n\<lparr>qprev := rear que\<rparr>);
        qh \<leftarrow> store qh (rear que) (\<lambda>n. n\<lparr>qnext := Some que_node\<rparr>);
        Some ((qh, que\<lparr>rear := Some que_node, count := count que + 1\<rparr>), True)
      })"

definition aho_queue_empty :: "aho_queue \<Rightarrow> bool" where
  "aho_queue_empty que \<longleftrightarrow> count que = 0"

definition aho_queue_dequeue :: "queue_state \<Rightarrow> (queue_state \<times> nat ptr) option" where
  "aho_queue_dequeue s = (case s of (qh, que) \<Rightarrow>
    if aho_queue_empty que then Some (s, None)
    else if count que = 1
    then Some ((qh, que\<lparr>front := None, rear := None, count := count que - 1\<rparr>), rear que)
    else do {
      r \<leftarrow> deref qh (rear que);
      qh \<leftarrow> store qh (qprev r) (\<lambda>n. n\<lparr>qnext := None\<rparr>);
      Some ((qh, que\<lparr>rear := qprev r, count := count que - 1\<rparr>), rear que)
    })"

partial_function (option) aho_queue_destroy :: "queue_state \<Rightarrow> queue_state option" where
  [code]: "aho_queue_destroy s = do {
     (s, que_node) \<leftarrow> aho_queue_dequeue s;
     if que_node = None then Some s
     else do {
       qh \<leftarrow> release (fst s) que_node;
       aho_queue_destroy (qh, snd s)
     } }"

text \<open>
  What the three traversals of the trie do at the head of their loop: dequeue, take the data of the
  node and free the node.
\<close>

definition dequeue_data :: "queue_state \<Rightarrow> (queue_state \<times> nat option) option" where
  "dequeue_data s = do {
     (s, que_node) \<leftarrow> aho_queue_dequeue s;
     if que_node = None then Some (s, None)
     else do {
       n \<leftarrow> deref (fst s) que_node;
       qh \<leftarrow> release (fst s) que_node;
       Some ((qh, snd s), Some (qdata n))
     } }"

definition enqueue_data :: "queue_state \<Rightarrow> nat \<Rightarrow> queue_state option" where
  "enqueue_data s node = map_option fst (aho_queue_enqueue True s node)"

section \<open>Representation\<close>

text \<open>
  The nodes at the addresses \<open>qs\<close> hold the elements \<open>xs\<close> from the front to the rear, are linked in both
  directions and are all the nodes that are allocated.
\<close>

definition queue_nodes :: "aho_queue_node heap \<Rightarrow> nat list \<Rightarrow> nat list \<Rightarrow> bool" where
  "queue_nodes qh qs xs \<longleftrightarrow> length qs = length xs \<and> distinct qs \<and> live qh = set qs \<and>
    (\<forall>k < length qs. deref qh (Some (qs ! k)) = Some
      \<lparr>qnext = (if Suc k < length qs then Some (qs ! Suc k) else None),
       qprev = (if k = 0 then None else Some (qs ! (k - 1))), qdata = xs ! k\<rparr>)"

definition queue_rep :: "queue_state \<Rightarrow> nat list \<Rightarrow> bool" where
  "queue_rep s xs \<longleftrightarrow> (case s of (qh, que) \<Rightarrow> \<exists>qs. queue_nodes qh qs xs \<and>
    front que = (if qs = [] then None else Some (hd qs)) \<and>
    rear que = (if qs = [] then None else Some (last qs)) \<and>
    count que = word_of_nat (length xs) \<and> length xs < 2 ^ 32)"

lemma unat32_of_nat: "n < 2 ^ 32 \<Longrightarrow> unat (word_of_nat n :: uint32_t) = n"
  by (simp only: unsigned_of_nat take_bit_nat_eq_self len_num1 len_num0 len_bit0 len_bit1) (simp add: take_bit_nat_eq_self)

lemma word32_of_nat_0: "n < 2 ^ 32 \<Longrightarrow> (word_of_nat n :: uint32_t) = 0 \<longleftrightarrow> n = 0"
  by (simp only: word_unat_eq_iff unat32_of_nat unsigned_0)

lemma word32_of_nat_1: "n < 2 ^ 32 \<Longrightarrow> (word_of_nat n :: uint32_t) = 1 \<longleftrightarrow> n = 1"
  by (simp only: word_unat_eq_iff unat32_of_nat unsigned_1)

lemma queue_nodesD:
  assumes "queue_nodes qh qs xs"
  shows "length qs = length xs" "distinct qs" "live qh = set qs"
    "\<And>k. k < length qs \<Longrightarrow> deref qh (Some (qs ! k)) = Some
      \<lparr>qnext = (if Suc k < length qs then Some (qs ! Suc k) else None),
       qprev = (if k = 0 then None else Some (qs ! (k - 1))), qdata = xs ! k\<rparr>"
  using assms by (auto simp: queue_nodes_def)

lemma queue_nodes_snoc:
  fixes x :: nat
  assumes "queue_nodes qh qs xs"
  defines "new \<equiv> Some \<lparr>qnext = None, qprev = (if qs = [] then None else Some (last qs)), qdata = x\<rparr>"
  shows "qs = [] \<Longrightarrow> queue_nodes (qh @ [new]) [length qh] (xs @ [x])"
    and "qs \<noteq> [] \<Longrightarrow> \<exists>n. deref (qh @ [new]) (Some (last qs)) = Some n \<and>
      queue_nodes ((qh @ [new])[last qs := Some (n\<lparr>qnext := Some (length qh)\<rparr>)]) (qs @ [length qh]) (xs @ [x])"
proof -
  note q = queue_nodesD [OF assms(1)]
  show "qs = [] \<Longrightarrow> queue_nodes (qh @ [new]) [length qh] (xs @ [x])"
    using q(1,3) by (simp add: queue_nodes_def live_alloc deref_alloc new_def)
  assume ne: "qs \<noteq> []"
  let ?m = "length qs - 1"
  let ?h = "qh @ [new]"
  have m: "?m < length qs" "last qs = qs ! ?m" using ne by (simp_all add: last_conv_nth)
  have in_qh: "i \<in> set qs \<Longrightarrow> i < length qh" for i using q(3) live_bound by blast
  then have fresh: "length qh \<notin> set qs" "last qs < length qh" using ne by auto
  let ?n = "\<lparr>qnext = None, qprev = (if ?m = 0 then None else Some (qs ! (?m - 1))), qdata = xs ! ?m\<rparr>"
  have n: "deref ?h (Some (last qs)) = Some ?n" using q(4) [OF m(1)] m fresh by (auto simp: deref_alloc)
  let ?h' = "?h[last qs := Some (?n\<lparr>qnext := Some (length qh)\<rparr>)]"
  have "deref ?h' (Some ((qs @ [length qh]) ! k)) = Some
      \<lparr>qnext = (if Suc k < Suc (length qs) then Some ((qs @ [length qh]) ! Suc k) else None),
       qprev = (if k = 0 then None else Some ((qs @ [length qh]) ! (k - 1))), qdata = (xs @ [x]) ! k\<rparr>"
    if "k < Suc (length qs)" for k
  proof (cases "k < ?m")
    case True
    then have "qs ! k \<noteq> last qs" using m q(2) by (simp add: nth_eq_iff_index_eq)
    moreover have "qs ! k < length qh" using True in_qh by simp
    ultimately show ?thesis using True q(1) q(4) [of k] by (auto simp: deref_update deref_alloc nth_append)
  next
    case False
    then have "k = ?m \<or> k = length qs" using that m(1) by linarith
    then show ?thesis
      using m ne fresh q(1) by (elim disjE) (auto simp: deref_update deref_alloc nth_append new_def less_Suc_eq)
  qed
  moreover have "live ?h' = insert (last qs) (insert (length qh) (set qs))"
    using q(3) fresh(2) by (simp add: live_update live_alloc new_def)
  then have liv: "live ?h' = set (qs @ [length qh])" using ne by auto
  moreover have "distinct (qs @ [length qh])" using q(2) fresh by simp
  ultimately have "queue_nodes ?h' (qs @ [length qh]) (xs @ [x])" using q(1) liv by (simp add: queue_nodes_def)
  then show "\<exists>n. deref ?h (Some (last qs)) = Some n \<and>
      queue_nodes (?h[last qs := Some (n\<lparr>qnext := Some (length qh)\<rparr>)]) (qs @ [length qh]) (xs @ [x])"
    using n by blast
qed

lemma queue_nodes_butlast:
  assumes "queue_nodes qh (qs @ [q]) (xs @ [x])" "qs \<noteq> []"
  shows "\<exists>n m. deref qh (Some q) = Some n \<and> qprev n = Some (last qs) \<and> qdata n = x \<and>
    deref qh (Some (last qs)) = Some m \<and> last qs \<noteq> q \<and>
    queue_nodes (qh[last qs := Some (m\<lparr>qnext := None\<rparr>), q := None]) qs xs"
proof -
  note d = queue_nodesD [OF assms(1)]
  let ?m = "length qs - 1"
  have m: "?m < length qs" "last qs = qs ! ?m" using assms(2) by (simp_all add: last_conv_nth)
  have len: "length xs = length qs" and q: "q \<notin> set qs" "distinct qs" using d(1,2) by simp_all
  have b: "i \<in> set (qs @ [q]) \<Longrightarrow> i < length qh" for i using d(3) live_bound by blast
  have dq: "deref qh (Some q) = Some \<lparr>qnext = None, qprev = Some (last qs), qdata = x\<rparr>"
    using d(4) [of "length qs"] assms(2) len m by (simp add: nth_append)
  have dm: "deref qh (Some (last qs)) = Some \<lparr>qnext = Some q, qprev = (if ?m = 0 then None else Some (qs ! (?m - 1))), qdata = xs ! ?m\<rparr>"
    using d(4) [of ?m] assms(2) len m by (auto simp: nth_append less_Suc_eq)
  let ?h = "qh[last qs := Some (\<lparr>qnext = None, qprev = (if ?m = 0 then None else Some (qs ! (?m - 1))), qdata = xs ! ?m\<rparr>), q := None]"
  have "deref ?h (Some (qs ! k)) = Some \<lparr>qnext = (if Suc k < length qs then Some (qs ! Suc k) else None),
       qprev = (if k = 0 then None else Some (qs ! (k - 1))), qdata = xs ! k\<rparr>" if k: "k < length qs" for k
  proof -
    have nq: "qs ! k \<noteq> q" "qs ! k < length qh" using k q b by (auto simp: in_set_conv_nth)
    show ?thesis
    proof (cases "k = ?m")
      case True
      then show ?thesis using nq m by (auto simp: deref_update)
    next
      case False
      then have "qs ! k \<noteq> last qs" "Suc k < length qs" using m q k by (auto simp: nth_eq_iff_index_eq)
      then show ?thesis using nq d(4) [of k] k len by (auto simp: deref_update nth_append)
    qed
  qed
  moreover have "live ?h = set qs"
  proof -
    have "live ?h = insert (last qs) (set (qs @ [q])) - {q}"
      using d(3) b [of q] b [of "last qs"] assms(2) by (simp add: live_update)
    also have "\<dots> = set qs" using q(1) last_in_set [OF assms(2)] by auto
    finally show ?thesis .
  qed
  ultimately have "queue_nodes ?h qs xs" using len q by (simp add: queue_nodes_def)
  moreover have "last qs \<noteq> q" using q assms(2) by auto
  ultimately show ?thesis using dq dm by simp
qed

lemma queue_rep_init: "queue_rep ([], aho_queue_init) []"
  by (simp add: queue_rep_def queue_nodes_def aho_queue_init_def live_def)

lemma queue_rep_enqueue:
  assumes "queue_rep s xs" "Suc (length xs) < 2 ^ 32"
  shows "\<exists>s'. aho_queue_enqueue True s x = Some (s', True) \<and> queue_rep s' (xs @ [x])"
proof -
  obtain qh que qs where s: "s = (qh, que)" and q: "queue_nodes qh qs xs"
    and r: "front que = (if qs = [] then None else Some (hd qs))" "rear que = (if qs = [] then None else Some (last qs))"
      "count que = word_of_nat (length xs)"
    using assms(1) by (cases s) (auto simp: queue_rep_def)
  have len: "length qs = length xs" using queue_nodesD(1) [OF q] .
  show ?thesis
  proof (cases "qs = []")
    case True
    let ?h = "qh @ [Some \<lparr>qnext = None, qprev = None, qdata = x\<rparr>]"
    have "aho_queue_enqueue True s x =
        Some ((?h, que\<lparr>rear := Some (length qh), front := Some (length qh), count := count que + 1\<rparr>), True)"
      using True r(3) len by (simp add: s aho_queue_enqueue_def Let_def)
    then show ?thesis using queue_nodes_snoc(1) [OF q True, of x] True r(3) len
      by (auto simp: queue_rep_def intro!: exI [of _ "[length qh]"])
  next
    case False
    let ?m = "length qh"
    let ?h = "qh @ [Some \<lparr>qnext = None, qprev = Some (last qs), qdata = x\<rparr>]"
    obtain n where n: "deref ?h (Some (last qs)) = Some n"
      "queue_nodes (?h[last qs := Some (n\<lparr>qnext := Some ?m\<rparr>)]) (qs @ [?m]) (xs @ [x])"
      using queue_nodes_snoc(2) [OF q False, of x] False by auto
    have "count que \<noteq> 0" using word32_of_nat_0 [of "length xs"] assms(2) r(3) False len by auto
    moreover have "store (qh @ [Some \<lparr>qnext = None, qprev = None, qdata = x\<rparr>]) (Some ?m) (\<lambda>n. n\<lparr>qprev := rear que\<rparr>) = Some ?h"
      using r(2) False by (simp add: store_def deref_alloc)
    moreover have "store ?h (rear que) (\<lambda>n. n\<lparr>qnext := Some ?m\<rparr>) = Some (?h[last qs := Some (n\<lparr>qnext := Some ?m\<rparr>)])"
      using r(2) n(1) False by (simp only: if_False store_some)
    ultimately have "aho_queue_enqueue True s x =
        Some ((?h[last qs := Some (n\<lparr>qnext := Some ?m\<rparr>)], que\<lparr>rear := Some ?m, count := count que + 1\<rparr>), True)"
      by (simp add: s aho_queue_enqueue_def Let_def)
    then show ?thesis using n(2) r False assms(2) by (auto simp: queue_rep_def intro!: exI [of _ "qs @ [?m]"])
  qed
qed

lemma queue_rep_dequeue_empty: "queue_rep s [] \<Longrightarrow> aho_queue_dequeue s = Some (s, None)"
  by (auto simp: queue_rep_def aho_queue_dequeue_def aho_queue_empty_def split: prod.splits)

lemma queue_rep_dequeue:
  assumes "queue_rep s (xs @ [x])"
  shows "\<exists>s' q n. aho_queue_dequeue s = Some (s', Some q) \<and> deref (fst s') (Some q) = Some n \<and> qdata n = x \<and>
    queue_rep ((fst s')[q := None], snd s') xs"
proof -
  obtain qh que qs' where s: "s = (qh, que)" and q': "queue_nodes qh qs' (xs @ [x])"
    and r': "front que = (if qs' = [] then None else Some (hd qs'))" "rear que = (if qs' = [] then None else Some (last qs'))"
      "count que = word_of_nat (length (xs @ [x]))" and len: "length (xs @ [x]) < 2 ^ 32"
    using assms(1) by (cases s) (auto simp: queue_rep_def)
  obtain qs q where qs': "qs' = qs @ [q]" using queue_nodesD(1) [OF q'] by (cases qs' rule: rev_cases) auto
  note q = q' [unfolded qs'] and r = r' [unfolded qs']
  have l: "length qs = length xs" using queue_nodesD(1) [OF q] by simp
  have c: "count que \<noteq> 0" "count que = 1 \<longleftrightarrow> xs = []"
    using word32_of_nat_0 [OF len] word32_of_nat_1 [OF len] r(3) by auto
  show ?thesis
  proof (cases "xs = []")
    case True
    then have "deref qh (Some q) = Some \<lparr>qnext = None, qprev = None, qdata = x\<rparr>" "live qh = {q}"
      using q l by (auto simp: queue_nodes_def)
    then show ?thesis using True r c l live_bound [of q qh]
      by (auto simp: s aho_queue_dequeue_def aho_queue_empty_def queue_rep_def queue_nodes_def live_update)
  next
    case False
    then have ne: "qs \<noteq> []" using l by auto
    obtain n m where n: "deref qh (Some q) = Some n" "qprev n = Some (last qs)" "qdata n = x"
      "deref qh (Some (last qs)) = Some m" "last qs \<noteq> q" "queue_nodes (qh[last qs := Some (m\<lparr>qnext := None\<rparr>), q := None]) qs xs"
      using queue_nodes_butlast [OF q ne] by blast
    let ?h = "qh[last qs := Some (m\<lparr>qnext := None\<rparr>)]"
    have "aho_queue_dequeue s = Some ((?h, que\<lparr>rear := Some (last qs), count := count que - 1\<rparr>), Some q)"
      using False c r n(1,2) store_some [OF n(4)] by (simp add: s aho_queue_dequeue_def aho_queue_empty_def)
    moreover have "deref ?h (Some q) = Some n" using n(1,5) by (simp add: deref_update)
    ultimately show ?thesis using n(3,6) r ne len by (auto simp: queue_rep_def intro!: exI [of _ qs])
  qed
qed

lemma queue_rep_dequeue_data:
  "queue_rep s [] \<Longrightarrow> dequeue_data s = Some (s, None)"
  "queue_rep s (xs @ [x]) \<Longrightarrow> \<exists>s'. dequeue_data s = Some (s', Some x) \<and> queue_rep s' xs"
proof -
  show "queue_rep s [] \<Longrightarrow> dequeue_data s = Some (s, None)"
    by (simp add: dequeue_data_def queue_rep_dequeue_empty)
  assume "queue_rep s (xs @ [x])"
  then obtain s' q n where "aho_queue_dequeue s = Some (s', Some q)" "deref (fst s') (Some q) = Some n" "qdata n = x"
    "queue_rep ((fst s')[q := None], snd s') xs" using queue_rep_dequeue by blast
  then show "\<exists>s'. dequeue_data s = Some (s', Some x) \<and> queue_rep s' xs"
    by (auto simp: dequeue_data_def release_some)
qed

lemma queue_rep_enqueue_data:
  "queue_rep s xs \<Longrightarrow> Suc (length xs) < 2 ^ 32 \<Longrightarrow> \<exists>s'. enqueue_data s x = Some s' \<and> queue_rep s' (xs @ [x])"
  using queue_rep_enqueue [of s xs x] by (auto simp: enqueue_data_def)

section \<open>Traversals with a work list\<close>

text \<open>
  What the traversals of the trie need from the queue: a work list of fewer than \<open>cap\<close> elements, from
  which the element that was added last is taken.
\<close>

locale work_list =
  fixes push :: "'s \<Rightarrow> nat \<Rightarrow> 's option"
    and pop :: "'s \<Rightarrow> ('s \<times> nat option) option"
    and rep :: "'s \<Rightarrow> nat list \<Rightarrow> bool"
    and cap :: nat
  assumes push_rep: "rep s xs \<Longrightarrow> Suc (length xs) < cap \<Longrightarrow> \<exists>s'. push s x = Some s' \<and> rep s' (xs @ [x])"
    and pop_empty: "rep s [] \<Longrightarrow> pop s = Some (s, None)"
    and pop_rep: "rep s (xs @ [x]) \<Longrightarrow> \<exists>s'. pop s = Some (s', Some x) \<and> rep s' xs"
begin

text \<open>
  A loop that takes an element, visits it and goes on until the list is empty ends when the elements
  are visited at most once and are all below \<open>N\<close>. \<open>V\<close> is the set of the elements visited so far.
\<close>

lemma traversal:
  fixes visit :: "nat \<Rightarrow> 's \<Rightarrow> 't \<Rightarrow> ('s \<times> 't) option"
  assumes unfold: "\<And>s t. loop s t = do {
      (s, r) \<leftarrow> pop s;
      case r of None \<Rightarrow> Some (s, t) | Some p \<Rightarrow> do { (s, t) \<leftarrow> visit p s t; loop s t } }"
    and visit: "\<And>V xs p s t. I V (xs @ [p]) t \<Longrightarrow> rep s xs \<Longrightarrow>
      \<exists>s' t' ys. visit p s t = Some (s', t') \<and> rep s' (xs @ ys) \<and> I (insert p V) (xs @ ys) t'"
    and bound: "\<And>V xs t. I V xs t \<Longrightarrow> V \<union> set xs \<subseteq> {..<N} \<and> V \<inter> set xs = {}"
  shows "I V xs t \<Longrightarrow> rep s xs \<Longrightarrow> \<exists>s' t' V'. loop s t = Some (s', t') \<and> I V' [] t' \<and> rep s' []"
proof (induction "N - card V" arbitrary: V xs s t rule: less_induct)
  case less
  show ?case
  proof (cases xs rule: rev_cases)
    case Nil
    then show ?thesis using less.prems pop_empty [of s] unfold [of s t] by auto
  next
    case (snoc ys p)
    obtain s1 where s1: "pop s = Some (s1, Some p)" "rep s1 ys" using pop_rep less.prems(2) snoc by blast
    obtain s2 t2 zs where s2: "visit p s1 t = Some (s2, t2)" "rep s2 (ys @ zs)" "I (insert p V) (ys @ zs) t2"
      using visit less.prems(1) s1(2) snoc by blast
    have b: "insert p V \<subseteq> {..<N}" "p \<notin> V" using bound [OF less.prems(1)] snoc by auto
    then have "finite V" "card (insert p V) \<le> N"
      using card_mono [of "{..<N}"] by (auto intro: finite_subset [of V "{..<N}"])
    then have "N - card (insert p V) < N - card V" using b(2) by simp
    then obtain s' t' V' where "loop s2 t2 = Some (s', t')" "I V' [] t'" "rep s' []"
      using less.hyps s2(2,3) by blast
    then show ?thesis using unfold [of s t] s1(1) s2(1) by auto
  qed
qed

end

interpretation aho: work_list enqueue_data dequeue_data queue_rep "2 ^ 32"
  by unfold_locales (fact queue_rep_enqueue_data queue_rep_dequeue_data)+

section \<open>The queue is a stack\<close>

datatype queue_op = Enqueue nat | Dequeue

text \<open>A sequence of operations on the queue, with what each \<open>aho_queue_dequeue\<close> gave, and the same on a stack.\<close>

fun queue_run :: "queue_op list \<Rightarrow> queue_state \<Rightarrow> (queue_state \<times> nat option list) option" where
  "queue_run [] s = Some (s, [])"
| "queue_run (Enqueue x # ops) s = do { s \<leftarrow> enqueue_data s x; queue_run ops s }"
| "queue_run (Dequeue # ops) s = do { (s, r) \<leftarrow> dequeue_data s; (s, rs) \<leftarrow> queue_run ops s; Some (s, r # rs) }"

fun stack_run :: "queue_op list \<Rightarrow> nat list \<Rightarrow> nat option list" where
  "stack_run [] st = []"
| "stack_run (Enqueue x # ops) st = stack_run ops (x # st)"
| "stack_run (Dequeue # ops) [] = None # stack_run ops []"
| "stack_run (Dequeue # ops) (x # st) = Some x # stack_run ops st"

lemma queue_run_stack:
  "queue_rep s (rev st) \<Longrightarrow> length st + length ops < 2 ^ 32 \<Longrightarrow>
    \<exists>s' ys. queue_run ops s = Some (s', stack_run ops st) \<and> queue_rep s' ys"
proof (induction ops st arbitrary: s rule: stack_run.induct)
  case (2 x ops st)
  have "Suc (length (rev st)) < 2 ^ 32" using "2.prems"(2) by simp
  then obtain s1 where "enqueue_data s x = Some s1" "queue_rep s1 (rev (x # st))"
    using queue_rep_enqueue_data "2.prems"(1) by fastforce
  then show ?case using 2 by simp
next
  case (3 ops)
  then show ?case using queue_rep_dequeue_data(1) [of s] by fastforce
next
  case (4 ops x st)
  obtain s1 where "dequeue_data s = Some (s1, Some x)" "queue_rep s1 (rev st)"
    using queue_rep_dequeue_data(2) [of s "rev st" x] "4.prems"(1) by auto
  then show ?case using 4 by fastforce
qed auto

lemma queue_destroy_frees: "queue_rep s xs \<Longrightarrow> \<exists>qh. aho_queue_destroy s = Some (qh, aho_queue_init) \<and> live qh = {}"
proof (induction xs arbitrary: s rule: rev_induct)
  case Nil
  then have "live (fst s) = {}" "snd s = aho_queue_init"
    by (auto simp: queue_rep_def queue_nodes_def aho_queue_init_def split: prod.splits)
  then show ?case using queue_rep_dequeue_empty [OF Nil] by (subst aho_queue_destroy.simps) (cases s, simp)
next
  case (snoc x xs)
  obtain s' q n where "aho_queue_dequeue s = Some (s', Some q)" "deref (fst s') (Some q) = Some n"
    "queue_rep ((fst s')[q := None], snd s') xs" using queue_rep_dequeue [OF snoc.prems] by blast
  then show ?case using snoc.IH by (subst aho_queue_destroy.simps) (simp add: release_some)
qed

text \<open>C34: the queue of the trie traversals is a stack: whatever the sequence of enqueue and dequeue operations
  on a fresh queue, each dequeue gives the element that was enqueued last; no operation makes an invalid
  access, and destroying the queue frees every node that is left.\<close>

theorem aho_queue_is_stack:
  assumes "length ops < 2 ^ 32"
  shows "\<exists>s qh. queue_run ops ([], aho_queue_init) = Some (s, stack_run ops []) \<and>
    aho_queue_destroy s = Some (qh, aho_queue_init) \<and> live qh = {}"
proof -
  obtain s ys where "queue_run ops ([], aho_queue_init) = Some (s, stack_run ops [])" "queue_rep s ys"
    using queue_run_stack [of "([], aho_queue_init)" "[]" ops] queue_rep_init assms by auto
  then show ?thesis using queue_destroy_frees by blast
qed

theorem aho_queue_is_stack_witness:
  "\<exists>s. queue_run [Enqueue 1, Enqueue 2, Dequeue] ([], aho_queue_init) = Some (s, [Some 2])"
  using aho_queue_is_stack [of "[Enqueue 1, Enqueue 2, Dequeue]"] by simp blast

end
