(* ===== verification/Aho_Trie.thy ===== *)
theory Aho_Trie
  imports Aho_Queue
begin

text \<open>
  The trie of \<open>aho_trie.c\<close>, with the texts of \<open>aho_text.h\<close>. The root is the node at address 0; the
  other nodes are allocated behind it. \<open>child_list\<close> holds the entries of the array that are in use, so
  \<open>child_count\<close> is its length.
\<close>

section \<open>Texts and nodes\<close>

record aho_text_t =
  tid :: int
  tbuf :: "uint8_t list"
  tlen :: int
  tprev :: "nat ptr"
  tnext :: "nat ptr"

definition MAX_AHO_CHILD_NODE :: nat where
  "MAX_AHO_CHILD_NODE = 256"

record aho_trie_node =
  node_text :: uint8_t
  ref_count :: uint32_t
  parent :: "nat ptr"
  child_list :: "nat list"
  text_end :: bool
  output_text :: "nat ptr"
  failure_link :: "nat ptr"
  output_link :: "nat ptr"

type_synonym trie = "aho_trie_node heap"

definition zero_node :: aho_trie_node where
  "zero_node = \<lparr>node_text = 0, ref_count = 0, parent = None, child_list = [], text_end = False,
    output_text = None, failure_link = None, output_link = None\<rparr>"

definition aho_trie_node_init :: aho_trie_node where
  "aho_trie_node_init = zero_node\<lparr>text_end := False, ref_count := 1\<rparr>"

definition aho_init_trie :: trie where
  "aho_init_trie = [Some aho_trie_node_init]"

section \<open>Adding a text\<close>

text \<open>The loops over the children of a node that look for one with the given character.\<close>

fun find_child :: "trie \<Rightarrow> nat list \<Rightarrow> uint8_t \<Rightarrow> nat option option" where
  "find_child t [] c = Some None"
| "find_child t (i # is) c = do {
     n \<leftarrow> deref t (Some i);
     if node_text n = c then Some (Some i) else find_child t is c }"

definition new_child :: "trie \<Rightarrow> nat \<Rightarrow> uint8_t \<Rightarrow> trie option" where
  "new_child t p c = store (t @ [Some (aho_trie_node_init\<lparr>node_text := c, parent := Some p\<rparr>)]) (Some p)
     (\<lambda>n. n\<lparr>child_list := child_list n @ [length t]\<rparr>)"

text \<open>
  The loop over the characters of the text from node \<open>p\<close>. The node it gives is the one where the text
  ends; it gives none where the function returns false.
\<close>

fun add_chars :: "trie \<Rightarrow> nat \<Rightarrow> uint8_t list \<Rightarrow> (trie \<times> nat option) option" where
  "add_chars t p [] = Some (t, Some p)"
| "add_chars t p (c # cs) = do {
     n \<leftarrow> deref t (Some p);
     if child_list n = [] then do { t' \<leftarrow> new_child t p c; add_chars t' (length t) cs }
     else if length (child_list n) = MAX_AHO_CHILD_NODE then Some (t, None)
     else do {
       r \<leftarrow> find_child t (child_list n) c;
       case r of
         Some q \<Rightarrow> do { t' \<leftarrow> store t (Some q) (\<lambda>n. n\<lparr>ref_count := ref_count n + 1\<rparr>); add_chars t' q cs }
       | None \<Rightarrow> do { t' \<leftarrow> new_child t p c; add_chars t' (length t) cs }
     } }"

text \<open>The characters that the loop reads: those below \<open>text->len\<close>.\<close>

definition text_chars :: "aho_text_t \<Rightarrow> uint8_t list" where
  "text_chars x = take (nat (tlen x)) (tbuf x)"

definition aho_add_trie_node :: "trie \<Rightarrow> aho_text_t heap \<Rightarrow> nat ptr \<Rightarrow> (trie \<times> bool) option" where
  "aho_add_trie_node t texts x = do {
     tx \<leftarrow> deref texts x;
     (t, r) \<leftarrow> add_chars t 0 (text_chars tx);
     case r of
       None \<Rightarrow> Some (t, False)
     | Some p \<Rightarrow> do {
         t \<leftarrow> store t (Some p) (\<lambda>n. n\<lparr>text_end := True, output_text := x\<rparr>);
         Some (t, True) } }"

section \<open>Connecting the links\<close>

definition aho_connect_link_step :: "trie \<Rightarrow> nat ptr \<Rightarrow> nat ptr \<Rightarrow> (trie \<times> bool) option" where
  "aho_connect_link_step t p q = do {
     pn \<leftarrow> deref t p;
     if failure_link pn = None \<or> parent pn = None
     then do { t \<leftarrow> store t q (\<lambda>n. n\<lparr>failure_link := p\<rparr>); Some (t, True) }
     else do {
       pf \<leftarrow> deref t (failure_link pn);
       qn \<leftarrow> deref t q;
       r \<leftarrow> find_child t (child_list pf) (node_text qn);
       case r of
         None \<Rightarrow> Some (t, False)
       | Some i \<Rightarrow> do {
           c \<leftarrow> deref t (Some i);
           t \<leftarrow> store t q (\<lambda>n. n\<lparr>failure_link := Some i,
             output_link := (if text_end c then Some i else output_link c)\<rparr>);
           Some (t, True) } } }"

text \<open>The inner \<open>while\<close> loop, over the failure links from \<open>pf\<close>.\<close>

partial_function (option) connect_while :: "trie \<Rightarrow> nat ptr \<Rightarrow> nat ptr \<Rightarrow> trie option" where
  [code]: "connect_while t pf q = do {
     (t, b) \<leftarrow> aho_connect_link_step t pf q;
     if b then Some t
     else do { n \<leftarrow> deref t pf; connect_while t (failure_link n) q } }"

fun connect_children :: "nat \<Rightarrow> nat list \<Rightarrow> queue_state \<Rightarrow> trie \<Rightarrow> (queue_state \<times> trie) option" where
  "connect_children p [] s t = Some (s, t)"
| "connect_children p (q # qs) s t = do {
     s \<leftarrow> enqueue_data s q;
     t \<leftarrow> connect_while t (Some p) (Some q);
     connect_children p qs s t }"

definition connect_visit :: "nat \<Rightarrow> queue_state \<Rightarrow> trie \<Rightarrow> (queue_state \<times> trie) option" where
  "connect_visit p s t = do { n \<leftarrow> deref t (Some p); connect_children p (child_list n) s t }"

partial_function (option) connect_loop :: "queue_state \<Rightarrow> trie \<Rightarrow> (queue_state \<times> trie) option" where
  [code]: "connect_loop s t = do {
     (s, r) \<leftarrow> dequeue_data s;
     case r of None \<Rightarrow> Some (s, t) | Some p \<Rightarrow> do { (s, t) \<leftarrow> connect_visit p s t; connect_loop s t } }"

definition aho_connect_link :: "trie \<Rightarrow> trie option" where
  "aho_connect_link t = do {
     s \<leftarrow> enqueue_data ([], aho_queue_init) 0;
     (s, t) \<leftarrow> connect_loop s t;
     s \<leftarrow> aho_queue_destroy s;
     Some t }"

section \<open>Freeing and printing\<close>

fun enqueue_children :: "nat list \<Rightarrow> queue_state \<Rightarrow> queue_state option" where
  "enqueue_children [] s = Some s"
| "enqueue_children (q # qs) s = do { s \<leftarrow> enqueue_data s q; enqueue_children qs s }"

definition clean_visit :: "nat \<Rightarrow> queue_state \<Rightarrow> trie \<Rightarrow> (queue_state \<times> trie) option" where
  "clean_visit p s t = do {
     n \<leftarrow> deref t (Some p);
     s \<leftarrow> enqueue_children (child_list n) s;
     if parent n = None then Some (s, t)
     else do { t \<leftarrow> release t (Some p); Some (s, t) } }"

partial_function (option) clean_loop :: "queue_state \<Rightarrow> trie \<Rightarrow> (queue_state \<times> trie) option" where
  [code]: "clean_loop s t = do {
     (s, r) \<leftarrow> dequeue_data s;
     case r of None \<Rightarrow> Some (s, t) | Some p \<Rightarrow> do { (s, t) \<leftarrow> clean_visit p s t; clean_loop s t } }"

definition aho_clean_trie_node :: "trie \<Rightarrow> trie option" where
  "aho_clean_trie_node t = do {
     s \<leftarrow> enqueue_data ([], aho_queue_init) 0;
     (s, t) \<leftarrow> clean_loop s t;
     Some t }"

definition aho_destroy_trie :: "trie \<Rightarrow> trie option" where
  "aho_destroy_trie t = aho_clean_trie_node t"

text \<open>The lines that are printed: the address of the node and, but for the root, its contents.\<close>

datatype trie_line = Root_line nat | Node_line nat uint8_t bool uint32_t "nat ptr" "nat ptr" "nat ptr"

definition node_line :: "nat \<Rightarrow> aho_trie_node \<Rightarrow> trie_line" where
  "node_line p n = (if parent n = None then Root_line p
     else Node_line p (node_text n) (text_end n) (ref_count n) (parent n) (failure_link n) (output_link n))"

definition print_visit :: "trie \<Rightarrow> nat \<Rightarrow> queue_state \<Rightarrow> trie_line list \<Rightarrow> (queue_state \<times> trie_line list) option" where
  "print_visit t p s out = do {
     n \<leftarrow> deref t (Some p);
     s \<leftarrow> enqueue_children (child_list n) s;
     Some (s, out @ [node_line p n]) }"

partial_function (option) print_loop :: "trie \<Rightarrow> queue_state \<Rightarrow> trie_line list \<Rightarrow> (queue_state \<times> trie_line list) option" where
  [code]: "print_loop t s out = do {
     (s, r) \<leftarrow> dequeue_data s;
     case r of None \<Rightarrow> Some (s, out) | Some p \<Rightarrow> do { (s, out) \<leftarrow> print_visit t p s out; print_loop t s out } }"

definition aho_print_trie :: "trie \<Rightarrow> trie_line list option" where
  "aho_print_trie t = do {
     s \<leftarrow> enqueue_data ([], aho_queue_init) 0;
     (s, out) \<leftarrow> print_loop t s [];
     s \<leftarrow> aho_queue_destroy s;
     Some out }"

section \<open>Following a character\<close>

definition aho_find_trie_step :: "trie \<Rightarrow> nat ptr \<Rightarrow> uint8_t \<Rightarrow> (nat ptr \<times> bool) option" where
  "aho_find_trie_step t start c = (case start of
     None \<Rightarrow> Some (start, False)
   | Some _ \<Rightarrow> do {
       n \<leftarrow> deref t start;
       r \<leftarrow> find_child t (child_list n) c;
       case r of None \<Rightarrow> Some (start, False) | Some i \<Rightarrow> Some (Some i, True) })"

text \<open>What is reported at the node that was found.\<close>

definition found_text :: "trie \<Rightarrow> nat ptr \<Rightarrow> nat ptr option" where
  "found_text t start = do {
     n \<leftarrow> deref t start;
     if text_end n then Some (output_text n)
     else if output_link n = None then Some None
     else do { m \<leftarrow> deref t (output_link n); Some (output_text m) } }"

partial_function (option) aho_find_trie_node :: "trie \<Rightarrow> nat ptr \<Rightarrow> uint8_t \<Rightarrow> (nat ptr \<times> nat ptr) option" where
  [code]: "aho_find_trie_node t start c = do {
     (start, b) \<leftarrow> aho_find_trie_step t start c;
     if b then do { x \<leftarrow> found_text t start; Some (start, x) }
     else if start = None then Some (start, None)
     else do {
       n \<leftarrow> deref t start;
       if parent n = None then Some (start, None)
       else aho_find_trie_node t (failure_link n) c } }"

end
