(* ===== verification/Aho.thy ===== *)
theory Aho
  imports Aho_Trie
begin

text \<open>
  The interface of the matcher, \<open>ahocorasick.c\<close>: the list of the texts to look for, the trie that is
  made from it, and the search. \<open>texts\<close> is the heap of the texts; the buffer of a text is freed together
  with it.
\<close>

record aho_match_t =
  mid :: int
  pos :: uint64_t
  mlen :: int

definition AHO_MAX_TEXT_ID :: int where
  "AHO_MAX_TEXT_ID = INT_MAX"

record ahocorasick =
  accumulate_text_id :: int
  text_list_head :: "nat ptr"
  text_list_tail :: "nat ptr"
  text_list_len :: int
  trie :: trie
  callback_match :: "nat ptr"
  callback_arg :: "nat ptr"
  texts :: "aho_text_t heap"

definition aho_init :: "aho_text_t heap \<Rightarrow> ahocorasick" where
  "aho_init h = \<lparr>accumulate_text_id = 0, text_list_head = None, text_list_tail = None, text_list_len = 0,
     trie = [Some zero_node], callback_match = None, callback_arg = None, texts = h\<rparr>"

section \<open>The list of texts\<close>

text \<open>
  \<open>mem1\<close> and \<open>mem2\<close> say whether the two calls of \<open>malloc\<close> succeed, and \<open>junk\<close> is what the first one finds in
  memory. \<open>memcpy\<close> copies \<open>len + 1\<close> bytes, where the addition is one of unsigned integers.
\<close>

definition aho_add_match_text ::
    "bool \<Rightarrow> bool \<Rightarrow> aho_text_t \<Rightarrow> ahocorasick \<Rightarrow> uint8_t list \<Rightarrow> uint32_t \<Rightarrow> (ahocorasick \<times> int) option" where
  "aho_add_match_text mem1 mem2 junk aho txt len =
    (if accumulate_text_id aho = AHO_MAX_TEXT_ID then Some (aho, -1)
     else if \<not> mem1 then Some (aho, -1)
     else if \<not> mem2 then Some (aho\<lparr>texts := texts aho @ [Some junk]\<rparr>, -1)
     else if length txt < unat (len + 1) then None
     else let a_text = length (texts aho); i = accumulate_text_id aho;
       new = \<lparr>tid = i, tbuf = take (unat (len + 1)) txt, tlen = sint len, tprev = None, tnext = None\<rparr>;
       aho = aho\<lparr>texts := texts aho @ [Some new], accumulate_text_id := i + 1\<rparr> in
     if text_list_head aho = None
     then Some (aho\<lparr>text_list_head := Some a_text, text_list_tail := Some a_text,
         text_list_len := text_list_len aho + 1\<rparr>, i)
     else do {
       h \<leftarrow> store (texts aho) (text_list_tail aho) (\<lambda>x. x\<lparr>tnext := Some a_text\<rparr>);
       h \<leftarrow> store h (Some a_text) (\<lambda>x. x\<lparr>tprev := text_list_tail aho\<rparr>);
       Some (aho\<lparr>texts := h, text_list_tail := Some a_text, text_list_len := text_list_len aho + 1\<rparr>, i)
     })"

text \<open>The three cases in which \<open>aho_del_match_text\<close> unlinks the text that it has found.\<close>

definition unlink_text :: "ahocorasick \<Rightarrow> nat ptr \<Rightarrow> aho_text_t \<Rightarrow> ahocorasick option" where
  "unlink_text aho iter x =
    (if iter = text_list_head aho then Some (aho\<lparr>text_list_head := tnext x\<rparr>)
     else if iter = text_list_tail aho then Some (aho\<lparr>text_list_tail := tprev x\<rparr>)
     else do {
       h \<leftarrow> store (texts aho) (tprev x) (\<lambda>y. y\<lparr>tnext := tnext x\<rparr>);
       x' \<leftarrow> deref h iter;
       h \<leftarrow> store h (tnext x') (\<lambda>y. y\<lparr>tprev := tprev x'\<rparr>);
       Some (aho\<lparr>texts := h\<rparr>)
     })"

partial_function (option) del_loop :: "ahocorasick \<Rightarrow> int \<Rightarrow> nat ptr \<Rightarrow> (ahocorasick \<times> bool) option" where
  [code]: "del_loop aho i iter =
    (if iter = None then Some (aho, False)
     else do {
       x \<leftarrow> deref (texts aho) iter;
       if tid x = i
       then do {
         aho \<leftarrow> unlink_text aho iter x;
         h \<leftarrow> release (texts aho) iter;
         Some (aho\<lparr>texts := h, text_list_len := text_list_len aho - 1\<rparr>, True) }
       else del_loop aho i (tnext x) })"

definition aho_del_match_text :: "ahocorasick \<Rightarrow> int \<Rightarrow> (ahocorasick \<times> bool) option" where
  "aho_del_match_text aho i = del_loop aho i (text_list_head aho)"

fun clear_loop :: "nat list \<Rightarrow> ahocorasick \<Rightarrow> ahocorasick option" where
  "clear_loop [] aho = Some aho"
| "clear_loop (i # is) aho = do { (aho, b) \<leftarrow> aho_del_match_text aho (int i); clear_loop is aho }"

definition aho_clear_match_text :: "ahocorasick \<Rightarrow> ahocorasick option" where
  "aho_clear_match_text aho = do {
     aho \<leftarrow> clear_loop [0 ..< nat (accumulate_text_id aho)] aho;
     Some (aho\<lparr>accumulate_text_id := 0\<rparr>) }"

text \<open>The texts that are printed, from the head on.\<close>

partial_function (option) print_texts :: "aho_text_t heap \<Rightarrow> nat ptr \<Rightarrow> (nat \<times> aho_text_t) list option" where
  [code]: "print_texts h iter =
    (case iter of None \<Rightarrow> Some []
     | Some i \<Rightarrow> do { x \<leftarrow> deref h iter; xs \<leftarrow> print_texts h (tnext x); Some ((i, x) # xs) })"

definition aho_print_match_text :: "ahocorasick \<Rightarrow> (nat \<times> aho_text_t) list option" where
  "aho_print_match_text aho = print_texts (texts aho) (text_list_head aho)"

section \<open>The trie of the texts\<close>

partial_function (option) add_texts :: "aho_text_t heap \<Rightarrow> nat ptr \<Rightarrow> trie \<Rightarrow> trie option" where
  [code]: "add_texts h iter t =
    (if iter = None then Some t
     else do {
       (t, b) \<leftarrow> aho_add_trie_node t h iter;
       x \<leftarrow> deref h iter;
       add_texts h (tnext x) t })"

definition aho_create_trie :: "ahocorasick \<Rightarrow> ahocorasick option" where
  "aho_create_trie aho = do {
     t \<leftarrow> add_texts (texts aho) (text_list_head aho) aho_init_trie;
     t \<leftarrow> aho_connect_link t;
     Some (aho\<lparr>trie := t\<rparr>) }"

definition aho_clear_trie :: "ahocorasick \<Rightarrow> ahocorasick option" where
  "aho_clear_trie aho = do { t \<leftarrow> aho_destroy_trie (trie aho); Some (aho\<lparr>trie := t\<rparr>) }"

definition aho_destroy :: "ahocorasick \<Rightarrow> ahocorasick option" where
  "aho_destroy aho = do { aho \<leftarrow> aho_clear_match_text aho; aho_clear_trie aho }"

definition aho_register_match_callback :: "ahocorasick \<Rightarrow> nat ptr \<Rightarrow> nat ptr \<Rightarrow> ahocorasick" where
  "aho_register_match_callback aho cb arg = aho\<lparr>callback_arg := arg, callback_match := cb\<rparr>"

section \<open>The search\<close>

definition match_of :: "int \<Rightarrow> aho_text_t \<Rightarrow> aho_match_t" where
  "match_of i x = \<lparr>mid = tid x,
     pos = (if tlen x = 1 then word_of_int i else word_of_int (i - tlen x + 1)), mlen = tlen x\<rparr>"

text \<open>
  The loop over the data from index \<open>i\<close>; \<open>out\<close> are the matches passed to the callback so far. The
  counters are \<open>int\<close>s, and incrementing one beyond \<open>INT_MAX\<close> is undefined.
\<close>

fun find_loop :: "ahocorasick \<Rightarrow> nat ptr \<Rightarrow> int \<Rightarrow> int \<Rightarrow> aho_match_t list \<Rightarrow> uint8_t list \<Rightarrow>
    (int \<times> aho_match_t list) option" where
  "find_loop aho node i match_count out [] = Some (match_count, out)"
| "find_loop aho node i match_count out (c # cs) = do {
     (node, r) \<leftarrow> aho_find_trie_node (trie aho) node c;
     if r = None
     then (if i = INT_MAX then None else find_loop aho node (i + 1) match_count out cs)
     else do {
       x \<leftarrow> deref (texts aho) r;
       let out = (if callback_match aho = None then out else out @ [match_of i x]) in
       if match_count = INT_MAX \<or> i = INT_MAX then None
       else find_loop aho node (i + 1) (match_count + 1) out cs } }"

definition aho_findtext :: "ahocorasick \<Rightarrow> uint8_t list \<Rightarrow> uint64_t \<Rightarrow> (uint32_t \<times> aho_match_t list) option" where
  "aho_findtext aho data data_len =
    (if length data < unat data_len then None
     else do {
       (match_count, out) \<leftarrow> find_loop aho (Some 0) 0 0 [] (take (unat data_len) data);
       Some (word_of_int match_count, out) })"

end
