(* ===== verification/Aho_Words.thy ===== *)
theory Aho_Words
  imports Main "HOL-Library.Sublist"
begin

text \<open>
  What the automaton is to compute: the longest suffix of a word that belongs to a set of words, for
  the words of the trie and for the texts.
\<close>

fun lsuf :: "'a list set \<Rightarrow> 'a list \<Rightarrow> 'a list" where
  "lsuf T [] = []"
| "lsuf T (x # xs) = (if x # xs \<in> T then x # xs else lsuf T xs)"

fun lpat :: "'a list set \<Rightarrow> 'a list \<Rightarrow> 'a list option" where
  "lpat P [] = None"
| "lpat P (x # xs) = (if x # xs \<in> P then Some (x # xs) else lpat P xs)"

lemma lsuf_suffix: "suffix (lsuf T u) u"
  by (induction T u rule: lsuf.induct) (auto simp: suffix_Cons)

lemma lsuf_in: "[] \<in> T \<Longrightarrow> lsuf T u \<in> T"
  by (induction T u rule: lsuf.induct) auto

lemma lsuf_self: "u \<in> T \<Longrightarrow> lsuf T u = u"
  by (cases u) auto

lemma length_lsuf: "length (lsuf T u) \<le> length u"
  using lsuf_suffix [of T u] by (rule suffix_length_le)

lemma lsuf_tl: "u \<notin> T \<Longrightarrow> lsuf T u = lsuf T (tl u)"
  by (cases u) auto

definition prefix_closed :: "'a list set \<Rightarrow> bool" where
  "prefix_closed T \<longleftrightarrow> (\<forall>u v. u @ v \<in> T \<longrightarrow> u \<in> T)"

text \<open>One more letter: only the longest suffix of what has been read matters.\<close>

lemma lsuf_snoc:
  assumes "prefix_closed T"
  shows "lsuf T (u @ [c]) = lsuf T (lsuf T u @ [c])"
proof (induction u)
  case (Cons x u)
  have "(x # u) @ [c] \<in> T \<Longrightarrow> x # u \<in> T" using assms unfolding prefix_closed_def by blast
  then show ?case using Cons by (cases "x # u \<in> T") auto
qed simp

text \<open>The two ways on from a word of the trie: its child, or the failure link.\<close>

lemma lsuf_step:
  assumes "prefix_closed T" "u @ [c] \<notin> T" "u \<noteq> []"
  shows "lsuf T (u @ [c]) = lsuf T (lsuf T (tl u) @ [c])"
  using assms lsuf_tl [of "u @ [c]" T] lsuf_snoc [OF assms(1), of "tl u" c] by simp

lemma lpat_in: "lpat P u = Some v \<Longrightarrow> v \<in> P \<and> suffix v u \<and> v \<noteq> []"
  by (induction P u rule: lpat.induct) (auto simp: suffix_Cons split: if_splits)

lemma lpat_None: "lpat P u = None \<longleftrightarrow> (\<forall>v. suffix v u \<and> v \<noteq> [] \<longrightarrow> v \<notin> P)"
  by (induction P u rule: lpat.induct) (auto simp: suffix_Cons)

lemma lpat_longest: "lpat P u = Some v \<Longrightarrow> suffix v' u \<Longrightarrow> v' \<in> P \<Longrightarrow> length v' \<le> length v"
  by (induction P u rule: lpat.induct) (auto simp: suffix_Cons dest: suffix_length_le split: if_splits)

lemma lpat_lsuf: "P \<subseteq> T \<Longrightarrow> lpat P (lsuf T u) = lpat P u"
  by (induction T u rule: lsuf.induct) auto

lemma lpat_unfold: "u \<noteq> [] \<Longrightarrow> lpat P u = (if u \<in> P then Some u else lpat P (tl u))"
  by (cases u) auto

text \<open>
  Every suffix of a word of the trie that is a word of the trie too is a prefix of that word. Then the
  failure links lead to nodes on the way from the root.
\<close>

definition self_contained :: "'a list set \<Rightarrow> bool" where
  "self_contained T \<longleftrightarrow> (\<forall>u \<in> T. \<forall>v \<in> T. suffix v u \<longrightarrow> prefix v u)"

lemma self_containedD: "self_contained T \<Longrightarrow> u \<in> T \<Longrightarrow> v \<in> T \<Longrightarrow> suffix v u \<Longrightarrow> prefix v u"
  by (auto simp: self_contained_def)

text \<open>The words of the trie of a list of texts.\<close>

definition prefixes_of :: "'a list list \<Rightarrow> 'a list list" where
  "prefixes_of ps = [] # concat (map prefixes ps)"

lemma in_prefixes_of: "v \<in> set (prefixes_of ps) \<longleftrightarrow> v = [] \<or> (\<exists>p \<in> set ps. prefix v p)"
  by (auto simp: prefixes_of_def)

lemma self_contained_single: "self_contained (set (prefixes_of [p]))"
  unfolding self_contained_def
  by (auto simp: in_prefixes_of dest!: suffix_length_le intro: prefix_length_prefix)

end
