(* ===== verification/Aho_Rep.thy ===== *)
theory Aho_Rep
  imports Aho Aho_Words
begin

text \<open>
  What the nodes of a trie stand for: each node for the word that leads to it from the root.
\<close>

section \<open>The words of the nodes\<close>

abbreviation nd :: "trie \<Rightarrow> nat \<Rightarrow> aho_trie_node" where
  "nd t i \<equiv> the (t ! i)"

definition trie_rep :: "trie \<Rightarrow> (nat \<Rightarrow> uint8_t list) \<Rightarrow> bool" where
  "trie_rep t w \<longleftrightarrow> 0 < length t \<and> None \<notin> set t \<and> w 0 = [] \<and> parent (nd t 0) = None \<and> inj_on w {..<length t} \<and>
    (\<forall>i<length t. i \<noteq> 0 \<longrightarrow> (\<exists>p<i. parent (nd t i) = Some p \<and> w i = w p @ [node_text (nd t i)] \<and> i \<in> set (child_list (nd t p)))) \<and>
    (\<forall>i<length t. distinct (child_list (nd t i)) \<and>
      (\<forall>c \<in> set (child_list (nd t i)). c \<noteq> 0 \<and> c < length t \<and> parent (nd t c) = Some i))"

definition trie_words :: "trie \<Rightarrow> (nat \<Rightarrow> uint8_t list) \<Rightarrow> uint8_t list set" where
  "trie_words t w = w ` {..<length t}"

lemma trie_wordsI: "i < length t \<Longrightarrow> w i = u \<Longrightarrow> u \<in> trie_words t w"
  by (auto simp: trie_words_def)

lemma trie_repD:
  assumes "trie_rep t w"
  shows "0 < length t" "w 0 = []" "parent (nd t 0) = None" "inj_on w {..<length t}"
    "\<And>i. i < length t \<Longrightarrow> deref t (Some i) = Some (nd t i)"
    "\<And>i. i < length t \<Longrightarrow> i \<noteq> 0 \<Longrightarrow> \<exists>p<i. parent (nd t i) = Some p \<and> w i = w p @ [node_text (nd t i)] \<and> i \<in> set (child_list (nd t p))"
    "\<And>i. i < length t \<Longrightarrow> distinct (child_list (nd t i))"
    "\<And>i c. i < length t \<Longrightarrow> c \<in> set (child_list (nd t i)) \<Longrightarrow> c \<noteq> 0 \<and> c < length t \<and> parent (nd t c) = Some i"
  using assms unfolding trie_rep_def by (auto simp: deref_Some in_set_conv_nth)

lemma trie_rep_child:
  assumes "trie_rep t w" "i < length t" "c \<in> set (child_list (nd t i))"
  shows "c < length t" "i < c" "w c = w i @ [node_text (nd t c)]" "parent (nd t c) = Some i"
  using trie_repD(8) [OF assms] trie_repD(6) [OF assms(1), of c] by auto

lemma trie_rep_root_iff:
  assumes "trie_rep t w" "i < length t"
  shows "parent (nd t i) = None \<longleftrightarrow> i = 0" "w i = [] \<longleftrightarrow> i = 0"
  using trie_repD(2,3) [OF assms(1)] trie_repD(6) [OF assms] by (cases "i = 0"; auto)+

lemma trie_rep_snoc:
  assumes "trie_rep t w" "p < length t" "q < length t" "w q = w p @ [c]"
  shows "q \<in> set (child_list (nd t p))" "node_text (nd t q) = c"
proof -
  have "q \<noteq> 0" using trie_rep_root_iff(2) [OF assms(1,3)] assms(4) by simp
  then obtain r where r: "r < q" "w q = w r @ [node_text (nd t q)]" "q \<in> set (child_list (nd t r))"
    using trie_repD(6) [OF assms(1,3)] by blast
  then have "w r = w p" "node_text (nd t q) = c" using assms(4) by auto
  moreover have "r = p" using trie_repD(4) [OF assms(1)] calculation(1) r(1) assms(2,3) by (auto simp: inj_on_def)
  ultimately show "q \<in> set (child_list (nd t p))" "node_text (nd t q) = c" using r(3) by auto
qed

lemma prefix_closed_trie_words:
  assumes "trie_rep t w"
  shows "prefix_closed (trie_words t w)"
proof -
  have "u @ v = w i \<Longrightarrow> i < length t \<Longrightarrow> \<exists>j<length t. u = w j" for u v i
  proof (induction v arbitrary: i rule: rev_induct)
    case (snoc x v)
    then have "i \<noteq> 0" using trie_rep_root_iff(2) [OF assms snoc.prems(2)] by (metis append_is_Nil_conv not_Cons_self2)
    then obtain p where "p < i" "w i = w p @ [node_text (nd t i)]" using trie_repD(6) [OF assms snoc.prems(2)] by blast
    then show ?case using snoc.IH [of p] snoc.prems by auto
  qed auto
  then show ?thesis by (fastforce simp: prefix_closed_def trie_words_def)
qed

lemma Nil_in_trie_words: "trie_rep t w \<Longrightarrow> [] \<in> trie_words t w"
  using trie_repD(1,2) by (force simp: trie_words_def)

section \<open>Finding a child\<close>

lemma find_child_list:
  "(\<And>i. i \<in> set is \<Longrightarrow> deref t (Some i) = Some (nd t i)) \<Longrightarrow>
    find_child t is c = Some (find (\<lambda>i. node_text (nd t i) = c) is)"
  by (induction "is") auto

lemma find_child_rep:
  assumes "trie_rep t w" "p < length t"
  shows "q < length t \<Longrightarrow> w q = w p @ [c] \<Longrightarrow> find_child t (child_list (nd t p)) c = Some (Some q)"
    and "w p @ [c] \<notin> trie_words t w \<Longrightarrow> find_child t (child_list (nd t p)) c = Some None"
proof -
  note ch = trie_rep_child [OF assms]
  have f: "find_child t (child_list (nd t p)) c = Some (find (\<lambda>i. node_text (nd t i) = c) (child_list (nd t p)))"
    using ch(1) trie_repD(5) [OF assms(1)] by (intro find_child_list) auto
  have none: "find (\<lambda>i. node_text (nd t i) = c) (child_list (nd t p)) = None \<Longrightarrow> q < length t \<Longrightarrow> w q \<noteq> w p @ [c]" for q
    using trie_rep_snoc [OF assms] unfolding find_None_iff by blast
  have some: "r < length t \<and> w r = w p @ [c]" if "find (\<lambda>i. node_text (nd t i) = c) (child_list (nd t p)) = Some r" for r
    using that ch by (auto simp: find_Some_iff)
  show "q < length t \<Longrightarrow> w q = w p @ [c] \<Longrightarrow> find_child t (child_list (nd t p)) c = Some (Some q)"
  proof -
    assume q: "q < length t" "w q = w p @ [c]"
    then obtain r where r: "find (\<lambda>i. node_text (nd t i) = c) (child_list (nd t p)) = Some r" using none by fastforce
    then have "r = q" using some [OF r] q trie_repD(4) [OF assms(1)] by (auto simp: inj_on_def)
    then show ?thesis using f r by simp
  qed
  show "w p @ [c] \<notin> trie_words t w \<Longrightarrow> find_child t (child_list (nd t p)) c = Some None"
    using some f by (cases "find (\<lambda>i. node_text (nd t i) = c) (child_list (nd t p))") (auto dest: trie_wordsI)
qed

section \<open>Changes that keep the words\<close>

text \<open>The fields that determine the words, and the others.\<close>

definition shape :: "aho_trie_node \<Rightarrow> uint8_t \<times> nat ptr \<times> nat list" where
  "shape n = (node_text n, parent n, child_list n)"

definition marks :: "aho_trie_node \<Rightarrow> bool \<times> nat ptr \<times> nat ptr \<times> nat ptr" where
  "marks n = (text_end n, output_text n, failure_link n, output_link n)"

lemma trie_rep_cong:
  assumes "trie_rep t w" "length t' = length t" "None \<notin> set t'" "\<And>i. i < length t \<Longrightarrow> shape (nd t' i) = shape (nd t i)"
  shows "trie_rep t' w"
proof -
  have sh: "node_text (nd t' i) = node_text (nd t i)" "parent (nd t' i) = parent (nd t i)" "child_list (nd t' i) = child_list (nd t i)"
    if "i < length t" for i using assms(4) [OF that] by (simp_all add: shape_def)
  show ?thesis unfolding trie_rep_def
  proof (intro conjI allI impI ballI)
    fix i assume i: "i < length t'" "i \<noteq> 0"
    then obtain p where "p < i" "parent (nd t i) = Some p" "w i = w p @ [node_text (nd t i)]" "i \<in> set (child_list (nd t p))"
      using trie_repD(6) [OF assms(1), of i] assms(2) by auto
    then show "\<exists>p<i. parent (nd t' i) = Some p \<and> w i = w p @ [node_text (nd t' i)] \<and> i \<in> set (child_list (nd t' p))"
      using sh [of i] sh [of p] i assms(2) by auto
  next
    fix i c assume "i < length t'" "c \<in> set (child_list (nd t' i))"
    then have "c \<noteq> 0 \<and> c < length t \<and> parent (nd t c) = Some i" using trie_repD(8) [OF assms(1), of i c] sh assms(2) by auto
    then show "c \<noteq> 0" "c < length t'" "parent (nd t' c) = Some i" using sh assms(2) by auto
  qed (use trie_repD(1-4,7) [OF assms(1)] sh assms(2,3) in simp_all)
qed

lemma trie_rep_update:
  assumes "trie_rep t w" "shape n = shape (nd t i)"
  shows "trie_rep (t[i := Some n]) w"
proof (rule trie_rep_cong [OF assms(1)])
  show "None \<notin> set (t[i := Some n])" using assms(1) set_update_subset_insert [of t i "Some n"] by (auto simp: trie_rep_def)
  show "j < length t \<Longrightarrow> shape (nd (t[i := Some n]) j) = shape (nd t j)" for j using assms(2) by (cases "j = i") simp_all
qed simp

section \<open>Growing\<close>

definition grow :: "trie \<Rightarrow> (nat \<Rightarrow> uint8_t list) \<Rightarrow> trie \<Rightarrow> (nat \<Rightarrow> uint8_t list) \<Rightarrow> bool" where
  "grow t w t' w' \<longleftrightarrow> trie_rep t' w' \<and> length t \<le> length t' \<and>
    (\<forall>i < length t. w' i = w i \<and> marks (nd t' i) = marks (nd t i)) \<and>
    (\<forall>i. length t \<le> i \<and> i < length t' \<longrightarrow> marks (nd t' i) = (False, None, None, None))"

lemma grow_refl: "trie_rep t w \<Longrightarrow> grow t w t w"
  by (auto simp: grow_def)

lemma grow_rep: "grow t w t' w' \<Longrightarrow> trie_rep t' w'"
  by (simp add: grow_def)

lemma grow_trans:
  assumes "grow t w t' w'" "grow t' w' t'' w''"
  shows "grow t w t'' w''"
proof -
  have "marks (nd t'' i) = (False, None, None, None)" if "length t \<le> i" "i < length t''" for i
    using that assms by (cases "i < length t'") (auto simp: grow_def)
  then show ?thesis using assms by (auto simp: grow_def)
qed

lemma grow_touch:
  assumes "trie_rep t w" "shape n = shape (nd t i)" "marks n = marks (nd t i)"
  shows "grow t w (t[i := Some n]) w"
proof -
  have "marks (nd (t[i := Some n]) j) = marks (nd t j)" if "j < length t" for j
    using assms(3) that by (cases "j = i") simp_all
  then show ?thesis using trie_rep_update [OF assms(1,2)] by (auto simp: grow_def)
qed

lemma new_child_rep:
  assumes "trie_rep t w" "p < length t" "w p @ [c] \<notin> trie_words t w"
  shows "\<exists>t'. new_child t p c = Some t' \<and> grow t w t' (w(length t := w p @ [c])) \<and> length t' = Suc (length t)"
proof -
  let ?m = "length t" and ?w = "w(length t := w p @ [c])"
  let ?new = "aho_trie_node_init\<lparr>node_text := c, parent := Some p\<rparr>"
  let ?p = "(nd t p)\<lparr>child_list := child_list (nd t p) @ [?m]\<rparr>"
  let ?t = "(t @ [Some ?new])[p := Some ?p]"
  note r = trie_repD [OF assms(1)]
  have ne: "w i \<noteq> w p @ [c]" "w p @ [c] \<noteq> w i" if "i < ?m" for i using trie_wordsI [OF that] assms(3) by metis+
  have at: "nd ?t i = (if i = p then ?p else if i = ?m then ?new else nd t i)" if "i \<le> ?m" for i
    using that assms(2) by (auto simp: nth_list_update nth_append)
  have "deref (t @ [Some ?new]) (Some p) = Some (nd t p)" using r(5) [OF assms(2)] assms(2) by (simp add: deref_alloc)
  then have nc: "new_child t p c = Some ?t" unfolding new_child_def by (rule store_some)
  have "trie_rep ?t ?w" unfolding trie_rep_def
  proof (intro conjI allI impI ballI)
    show "None \<notin> set ?t" using assms(1) set_update_subset_insert [of "t @ [Some ?new]" p "Some ?p"] by (auto simp: trie_rep_def)
    show "inj_on ?w {..<length ?t}"
      using r(4) ne by (auto simp: inj_on_def less_Suc_eq) blast
    show "parent (nd ?t 0) = None" using r(1,3) at [of 0] by auto
  next
    fix i assume i: "i < length ?t" "i \<noteq> 0"
    show "\<exists>q<i. parent (nd ?t i) = Some q \<and> ?w i = ?w q @ [node_text (nd ?t i)] \<and> i \<in> set (child_list (nd ?t q))"
    proof (cases "i = ?m")
      case True
      then show ?thesis using at [of ?m] at [of p] assms(2) by auto
    next
      case False
      then have "i < ?m" using i by simp
      moreover obtain q where "q < i" "parent (nd t i) = Some q" "w i = w q @ [node_text (nd t i)]" "i \<in> set (child_list (nd t q))"
        using r(6) [of i] calculation i(2) by blast
      ultimately show ?thesis using at [of i] at [of q] by (intro exI [of _ q]) auto
    qed
  next
    fix i assume i: "i < length ?t"
    then have ai: "child_list (nd ?t i) = (if i = p then child_list (nd t p) @ [?m] else if i = ?m then [] else child_list (nd t i))"
      by (subst at) (auto simp: aho_trie_node_init_def zero_node_def)
    show "distinct (child_list (nd ?t i))"
      unfolding ai using i r(7) [of i] r(8) [of p ?m] assms(2) by (auto simp: less_Suc_eq)
    fix d assume d: "d \<in> set (child_list (nd ?t i))"
    have "d = ?m \<and> i = p \<or> d \<noteq> ?m \<and> i < ?m \<and> d \<in> set (child_list (nd t i))"
      using i d r(8) [of i ?m] assms(2) unfolding ai by (auto simp: less_Suc_eq split: if_splits)
    then show "d \<noteq> 0" "d < length ?t" "parent (nd ?t d) = Some i"
      using r(8) [of i d] assms(2) at [of d] by auto
  qed (use r assms in auto)
  moreover have "marks (nd ?t i) = (if i = ?m then (False, None, None, None) else marks (nd t i))" if "i \<le> ?m" for i
    using at [OF that] assms(2) by (auto simp: marks_def aho_trie_node_init_def zero_node_def)
  ultimately show ?thesis using nc by (auto simp: grow_def)
qed

section \<open>Adding the characters of a text\<close>

text \<open>The children of a node have different characters, so a node is full only when every byte occurs.\<close>

lemma child_list_bound:
  assumes "trie_rep t w" "p < length t" "\<And>u. u \<in> trie_words t w \<Longrightarrow> b \<notin> set u"
  shows "length (child_list (nd t p)) < MAX_AHO_CHILD_NODE"
proof -
  let ?f = "\<lambda>i. node_text (nd t i)" and ?cs = "child_list (nd t p)"
  note ch = trie_rep_child [OF assms(1,2)]
  have inj: "inj_on ?f (set ?cs)"
    using ch(1,3) trie_repD(4) [OF assms(1)] by (auto simp: inj_on_def)
  have "?f i \<noteq> b" if "i \<in> set ?cs" for i
    using ch(3) [OF that] assms(3) [OF trie_wordsI [OF ch(1) [OF that] refl]] by auto
  then have sub: "?f ` set ?cs \<subseteq> UNIV - {b}" by auto
  have "card (set ?cs) \<le> card (UNIV - {b})" by (rule card_inj_on_le [OF inj sub]) simp
  also have "\<dots> = card (UNIV :: uint8_t set) - 1" by (rule card_Diff_singleton) simp
  also have "\<dots> = 255" unfolding card_word by simp
  finally show ?thesis using trie_repD(7) [OF assms(1,2)] by (simp add: distinct_card MAX_AHO_CHILD_NODE_def)
qed

lemma take_words_Cons:
  "{u @ take j (c # cs) | j. j \<le> Suc k} = insert u {(u @ [c]) @ take j cs | j. j \<le> k}"
  unfolding setcompr_eq_image atMost_def [symmetric] atMost_Suc_eq_insert_0 image_insert image_image by simp

text \<open>
  The result of adding \<open>cs\<close> below the word \<open>u\<close>: the words that lead there are added; unless a full node
  stops it, all of them, and that cannot happen when some byte \<open>b\<close> occurs nowhere.
\<close>

definition added :: "trie \<Rightarrow> (nat \<Rightarrow> uint8_t list) \<Rightarrow> uint8_t list \<Rightarrow> uint8_t list \<Rightarrow> (trie \<times> nat option) option \<Rightarrow> bool" where
  "added t w u cs res \<longleftrightarrow> (\<exists>t' w' r k. res = Some (t', r) \<and> grow t w t' w' \<and> k \<le> length cs \<and>
    trie_words t' w' = trie_words t w \<union> {u @ take j cs | j. j \<le> k} \<and>
    (\<forall>q. r = Some q \<longrightarrow> q < length t' \<and> w' q = u @ cs \<and> k = length cs) \<and>
    (\<forall>b. (\<forall>u' \<in> trie_words t w. b \<notin> set u') \<and> b \<notin> set cs \<longrightarrow> r \<noteq> None))"

lemma added_step:
  assumes "added t1 w1 (u @ [c]) cs res" "grow t w t1 w1" "u \<in> trie_words t w"
    "trie_words t1 w1 = insert (u @ [c]) (trie_words t w)"
  shows "added t w u (c # cs) res"
proof -
  obtain t' w' r k where s: "res = Some (t', r)" "grow t1 w1 t' w'" "k \<le> length cs"
      "trie_words t' w' = trie_words t1 w1 \<union> {(u @ [c]) @ take j cs | j. j \<le> k}"
      "\<And>q. r = Some q \<Longrightarrow> q < length t' \<and> w' q = (u @ [c]) @ cs \<and> k = length cs"
      "\<And>b. (\<forall>u' \<in> trie_words t1 w1. b \<notin> set u') \<and> b \<notin> set cs \<Longrightarrow> r \<noteq> None"
    using assms(1) unfolding added_def by blast
  have "u @ [c] \<in> {(u @ [c]) @ take j cs | j. j \<le> k}" by (auto intro!: exI [of _ 0])
  then have "trie_words t' w' = trie_words t w \<union> {u @ take j (c # cs) | j. j \<le> Suc k}"
    unfolding take_words_Cons s(4) assms(4) using assms(3) by auto
  moreover have "r \<noteq> None" if "\<forall>u' \<in> trie_words t w. b \<notin> set u'" "b \<notin> set (c # cs)" for b
    using s(6) [of b] that assms(3,4) by auto
  ultimately show ?thesis
    unfolding added_def using s(1,3,5) grow_trans [OF assms(2) s(2)]
    by (intro exI [of _ t'] exI [of _ w'] exI [of _ r] exI [of _ "Suc k"]) auto
qed

lemma added_stuck:
  assumes "trie_rep t w" "p < length t" "length (child_list (nd t p)) = MAX_AHO_CHILD_NODE"
  shows "added t w (w p) cs (Some (t, None))"
proof -
  have "\<exists>u \<in> trie_words t w. b \<in> set u" for b using child_list_bound [OF assms(1,2), of b] assms(3) by fastforce
  moreover have "w p \<in> trie_words t w" using assms(2) by (rule trie_wordsI) simp
  ultimately show ?thesis unfolding added_def using grow_refl [OF assms(1)]
    by (intro exI [of _ t] exI [of _ w] exI [of _ None] exI [of _ 0]) (auto simp: insert_absorb)
qed

lemma add_chars_rep: "trie_rep t w \<Longrightarrow> p < length t \<Longrightarrow> added t w (w p) cs (add_chars t p cs)"
proof (induction cs arbitrary: t w p)
  case Nil
  then show ?case unfolding added_def using grow_refl [OF Nil(1)] trie_wordsI [OF Nil(2), of w "w p"]
    by (intro exI [of _ t] exI [of _ w] exI [of _ "Some p"] exI [of _ 0]) auto
next
  case (Cons c cs)
  let ?n = "nd t p"
  have d: "deref t (Some p) = Some ?n" using trie_repD(5) [OF Cons.prems] .
  have wp: "w p \<in> trie_words t w" using Cons.prems(2) by (rule trie_wordsI) simp
  show ?case
  proof (cases "length (child_list ?n) = MAX_AHO_CHILD_NODE")
    case True
    moreover have "child_list ?n \<noteq> []" using True by (auto simp: MAX_AHO_CHILD_NODE_def)
    ultimately show ?thesis using d added_stuck [OF Cons.prems] by simp
  next
    case free: False
    show ?thesis
    proof (cases "w p @ [c] \<in> trie_words t w")
      case True
      then obtain q where q: "q < length t" "w q = w p @ [c]" by (auto simp: trie_words_def)
      let ?t = "t[q := Some ((nd t q)\<lparr>ref_count := ref_count (nd t q) + 1\<rparr>)]"
      have g: "grow t w ?t w" by (rule grow_touch [OF Cons.prems(1)]) (simp_all add: shape_def marks_def)
      have ne: "child_list ?n \<noteq> []" using trie_rep_snoc(1) [OF Cons.prems q] by auto
      have "add_chars t p (c # cs) = add_chars ?t q cs"
        using d free ne find_child_rep(1) [OF Cons.prems q] store_some [OF trie_repD(5) [OF Cons.prems(1) q(1)]] by simp
      moreover have "added ?t w (w q) cs (add_chars ?t q cs)"
        using Cons.IH [of ?t w q] g q(1) by (simp add: grow_def)
      moreover have "trie_words ?t w = insert (w p @ [c]) (trie_words t w)" using True by (auto simp: trie_words_def)
      ultimately show ?thesis using added_step [OF _ g wp] q(2) by simp
    next
      case False
      obtain t' w' where t': "new_child t p c = Some t'" "grow t w t' w'" "length t' = Suc (length t)" "w' (length t) = w p @ [c]"
        using new_child_rep [OF Cons.prems False] by (metis fun_upd_same)
      have "add_chars t p (c # cs) = add_chars t' (length t) cs"
        using d free find_child_rep(2) [OF Cons.prems False] t'(1) by simp
      moreover have "added t' w' (w' (length t)) cs (add_chars t' (length t) cs)"
        using Cons.IH [OF grow_rep [OF t'(2)], of "length t"] t'(3) by simp
      moreover have "trie_words t' w' = insert (w p @ [c]) (trie_words t w)"
        using t'(2-4) by (auto simp: trie_words_def lessThan_Suc grow_def)
      ultimately show ?thesis using added_step [OF _ t'(2) wp] t'(4) by simp
    qed
  qed
qed

end
