(* ===== verification/Aho_Build.thy ===== *)
theory Aho_Build
  imports Aho_Rep
begin

text \<open>
  The trie that \<open>aho_create_trie\<close> makes from the list of texts, before its links are connected.
\<close>

text \<open>
  \<open>m\<close> gives for a word the text that ends at its node; the links are not set yet.
\<close>

definition ends_rep :: "trie \<Rightarrow> (nat \<Rightarrow> uint8_t list) \<Rightarrow> (uint8_t list \<rightharpoonup> nat) \<Rightarrow> bool" where
  "ends_rep t w m \<longleftrightarrow> dom m \<subseteq> trie_words t w \<and>
    (\<forall>i<length t. marks (nd t i) = (m (w i) \<noteq> None, m (w i), None, None))"

lemma grow_words: "grow t w t' w' \<Longrightarrow> trie_words t w \<subseteq> trie_words t' w'"
  by (auto simp: grow_def trie_words_def) (metis imageI lessThan_iff order.strict_trans2)

lemma grow_ends_rep:
  assumes "grow t w t' w'" "ends_rep t w m"
  shows "ends_rep t' w' m"
proof -
  have r: "inj_on w' {..<length t'}" "\<And>i. i < length t \<Longrightarrow> w' i = w i" using assms(1) trie_repD(4) by (auto simp: grow_def)
  have "m (w' i) = None" if "length t \<le> i" "i < length t'" for i
  proof (rule ccontr)
    assume "m (w' i) \<noteq> None"
    then obtain j where "j < length t" "w j = w' i" using assms(2) by (auto simp: ends_rep_def trie_words_def)
    then show False using r that inj_onD [OF r(1), of j i] by auto
  qed
  then have "marks (nd t' i) = (m (w' i) \<noteq> None, m (w' i), None, None)" if "i < length t'" for i
    using assms that by (cases "i < length t") (auto simp: grow_def ends_rep_def)
  then show ?thesis using assms(2) grow_words [OF assms(1)] by (auto simp: ends_rep_def)
qed

lemma ends_rep_mark:
  fixes a :: nat
  assumes "trie_rep t w" "ends_rep t w m" "q < length t"
  defines "t' \<equiv> t[q := Some ((nd t q)\<lparr>text_end := True, output_text := Some a\<rparr>)]"
  shows "trie_rep t' w" "ends_rep t' w (m(w q \<mapsto> a))" "trie_words t' w = trie_words t w"
proof -
  show "trie_rep t' w" unfolding t'_def by (rule trie_rep_update [OF assms(1)]) (simp add: shape_def)
  show words: "trie_words t' w = trie_words t w" by (simp add: trie_words_def t'_def)
  have "w i = w q \<longleftrightarrow> i = q" if "i < length t" for i using inj_onD [OF trie_repD(4) [OF assms(1)]] that assms(3) by auto
  then have "marks (nd t' i) = ((m(w q \<mapsto> a)) (w i) \<noteq> None, (m(w q \<mapsto> a)) (w i), None, None)" if "i < length t" for i
    using assms(2) that by (cases "i = q") (auto simp: ends_rep_def t'_def marks_def)
  moreover have "w q \<in> trie_words t w" using assms(3) by (rule trie_wordsI) simp
  ultimately show "ends_rep t' w (m(w q \<mapsto> a))" using assms(2) words by (auto simp: ends_rep_def t'_def)
qed

lemma take_prefixes: "{take j cs | j. j \<le> length cs} = {u. prefix u cs}"
  by (auto simp: take_is_prefix) (metis prefix_def append_eq_conv_conj prefix_length_le)

lemma add_trie_node_rep:
  assumes "trie_rep t w" "ends_rep t w m" "deref h (Some a) = Some x"
  shows "\<exists>t' w' ok. aho_add_trie_node t h (Some a) = Some (t', ok) \<and> trie_rep t' w' \<and>
    ends_rep t' w' (if ok then m(text_chars x \<mapsto> a) else m) \<and>
    trie_words t' w' \<subseteq> trie_words t w \<union> {u. prefix u (text_chars x)} \<and>
    (ok \<longrightarrow> trie_words t' w' = trie_words t w \<union> {u. prefix u (text_chars x)}) \<and>
    (\<forall>b. (\<forall>u \<in> trie_words t w. b \<notin> set u) \<and> b \<notin> set (text_chars x) \<longrightarrow> ok)"
proof -
  let ?cs = "text_chars x"
  note r = trie_repD [OF assms(1)]
  have "added t w [] ?cs (add_chars t 0 ?cs)" using add_chars_rep [OF assms(1) r(1)] r(2) by simp
  then obtain t' w' r k where s: "add_chars t 0 ?cs = Some (t', r)" "grow t w t' w'" "k \<le> length ?cs"
    "trie_words t' w' = trie_words t w \<union> {take j ?cs | j. j \<le> k}"
    "\<forall>q. r = Some q \<longrightarrow> q < length t' \<and> w' q = ?cs \<and> k = length ?cs"
    "\<forall>b. (\<forall>u \<in> trie_words t w. b \<notin> set u) \<and> b \<notin> set ?cs \<longrightarrow> r \<noteq> None"
    unfolding added_def append_Nil by (elim exE conjE)
  have t': "trie_rep t' w'" "ends_rep t' w' m" using s(2) grow_ends_rep [OF s(2) assms(2)] by (simp_all add: grow_def)
  show ?thesis
  proof (cases r)
    case None
    moreover have "trie_words t' w' \<subseteq> trie_words t w \<union> {u. prefix u ?cs}" using s(4) by (auto simp: take_is_prefix)
    ultimately show ?thesis using s t' assms(3) by (intro exI [of _ t'] exI [of _ w'] exI [of _ False]) (simp add: aho_add_trie_node_def)
  next
    case (Some q)
    then have q: "q < length t'" "w' q = ?cs" "k = length ?cs" using s(5) by auto
    let ?t = "t'[q := Some ((nd t' q)\<lparr>text_end := True, output_text := Some a\<rparr>)]"
    have "aho_add_trie_node t h (Some a) = Some (?t, True)"
      using s(1) Some assms(3) store_some [OF trie_repD(5) [OF t'(1) q(1)]] by (simp add: aho_add_trie_node_def)
    then show ?thesis using ends_rep_mark [OF t' q(1), of a] s(4) q(2,3) take_prefixes [of ?cs]
      by (intro exI [of _ ?t] exI [of _ w'] exI [of _ True]) simp
  qed
qed

section \<open>All the texts\<close>

text \<open>For each word the last text with it.\<close>

definition last_entry :: "(nat \<times> aho_text_t) list \<Rightarrow> uint8_t list \<rightharpoonup> nat \<times> aho_text_t" where
  "last_entry xs v = find (\<lambda>x. text_chars (snd x) = v) (rev xs)"

definition last_text :: "(nat \<times> aho_text_t) list \<Rightarrow> uint8_t list \<rightharpoonup> nat" where
  "last_text xs v = map_option fst (last_entry xs v)"

abbreviation words_of :: "(nat \<times> aho_text_t) list \<Rightarrow> uint8_t list list" where
  "words_of xs \<equiv> map (\<lambda>x. text_chars (snd x)) xs"

lemma find_append: "find P (xs @ ys) = (case find P xs of None \<Rightarrow> find P ys | Some x \<Rightarrow> Some x)"
  by (induction xs) auto

lemma last_text_Nil: "last_text [] = Map.empty"
  by (rule ext) (simp add: last_text_def last_entry_def)

lemma last_text_Cons: "m ++ last_text ((a, x) # xs) = m(text_chars x \<mapsto> a) ++ last_text xs"
  by (rule ext) (auto simp: last_text_def last_entry_def map_add_def find_append split: option.splits)

lemma last_text_in: "last_text xs v = Some a \<Longrightarrow> \<exists>x. last_entry xs v = Some (a, x) \<and> (a, x) \<in> set xs \<and> text_chars x = v"
  by (auto simp: last_text_def last_entry_def find_Some_iff) (metis nth_mem set_rev length_rev snd_conv)

lemma dom_last_text: "dom (last_text xs) = set (words_of xs)"
proof (rule set_eqI)
  fix v
  have "last_text xs v = None \<longleftrightarrow> (\<forall>x \<in> set xs. text_chars (snd x) \<noteq> v)"
    by (auto simp: last_text_def last_entry_def find_None_iff) blast
  then show "v \<in> dom (last_text xs) \<longleftrightarrow> v \<in> set (words_of xs)" unfolding domIff by auto
qed

lemma print_texts_Some: "print_texts h (Some a) = Some xs \<Longrightarrow>
    \<exists>x ys. deref h (Some a) = Some x \<and> print_texts h (tnext x) = Some ys \<and> xs = (a, x) # ys"
  by (subst (asm) print_texts.simps) (auto simp: bind_eq_Some_conv)

lemma print_texts_None: "print_texts h None = Some []"
  by (subst print_texts.simps) simp

lemma print_texts_live: "print_texts h iter = Some xs \<Longrightarrow> (a, x) \<in> set xs \<Longrightarrow> deref h (Some a) = Some x"
proof (induction xs arbitrary: iter)
  case (Cons y ys)
  then obtain a' where "iter = Some a'" using print_texts_None by (cases iter) auto
  then show ?case using Cons print_texts_Some by fastforce
qed simp

lemma add_texts_rep:
  assumes "print_texts h iter = Some xs" "trie_rep t w" "ends_rep t w m"
  shows "\<exists>t' w' m'. add_texts h iter t = Some t' \<and> trie_rep t' w' \<and> ends_rep t' w' m' \<and>
    (\<forall>v a. m' v = Some a \<longrightarrow> m v = Some a \<or> (\<exists>x. (a, x) \<in> set xs \<and> text_chars x = v)) \<and>
    trie_words t' w' \<subseteq> trie_words t w \<union> (\<Union>x \<in> set xs. {u. prefix u (text_chars (snd x))}) \<and>
    (\<forall>b. (\<forall>u \<in> trie_words t w \<union> set (words_of xs). b \<notin> set u) \<longrightarrow>
      trie_words t' w' = trie_words t w \<union> (\<Union>x \<in> set xs. {u. prefix u (text_chars (snd x))}) \<and> m' = m ++ last_text xs)"
  using assms
proof (induction xs arbitrary: iter t w m)
  case Nil
  then have "iter = None" using print_texts_Some by (cases iter) auto
  then have "add_texts h iter t = Some t" by (subst add_texts.simps) simp
  then show ?case using Nil by (intro exI [of _ t] exI [of _ w] exI [of _ m]) (auto simp: last_text_Nil)
next
  case (Cons y ys)
  then obtain a where it: "iter = Some a" using print_texts_None by (cases iter) auto
  then obtain x where x: "deref h (Some a) = Some x" "print_texts h (tnext x) = Some ys" "y = (a, x)"
    using print_texts_Some Cons.prems(1) by blast
  let ?cs = "text_chars x"
  obtain t1 w1 ok where t1: "aho_add_trie_node t h (Some a) = Some (t1, ok)" "trie_rep t1 w1"
    "ends_rep t1 w1 (if ok then m(?cs \<mapsto> a) else m)"
    "trie_words t1 w1 \<subseteq> trie_words t w \<union> {u. prefix u ?cs}"
    "ok \<Longrightarrow> trie_words t1 w1 = trie_words t w \<union> {u. prefix u ?cs}"
    "\<And>b. (\<forall>u \<in> trie_words t w. b \<notin> set u) \<and> b \<notin> set ?cs \<Longrightarrow> ok"
    using add_trie_node_rep [OF Cons.prems(2,3) x(1)] by blast
  let ?m = "if ok then m(?cs \<mapsto> a) else m"
  obtain t' w' m' where t': "add_texts h (tnext x) t1 = Some t'" "trie_rep t' w'" "ends_rep t' w' m'"
    "\<forall>v a. m' v = Some a \<longrightarrow> ?m v = Some a \<or> (\<exists>x. (a, x) \<in> set ys \<and> text_chars x = v)"
    "trie_words t' w' \<subseteq> trie_words t1 w1 \<union> (\<Union>x \<in> set ys. {u. prefix u (text_chars (snd x))})"
    "\<forall>b. (\<forall>u \<in> trie_words t1 w1 \<union> set (words_of ys). b \<notin> set u) \<longrightarrow>
      trie_words t' w' = trie_words t1 w1 \<union> (\<Union>x \<in> set ys. {u. prefix u (text_chars (snd x))}) \<and> m' = ?m ++ last_text ys"
    using Cons.IH [OF x(2) t1(2,3)] by (elim exE conjE)
  have "add_texts h iter t = Some t'" using t'(1) t1(1) x(1) it by (subst add_texts.simps) simp
  moreover have "m v = Some a' \<or> (\<exists>x'. (a', x') \<in> set (y # ys) \<and> text_chars x' = v)" if "m' v = Some a'" for v a'
    using t'(4) [rule_format, OF that] x(3) by (auto split: if_splits)
  moreover have "trie_words t' w' \<subseteq> trie_words t w \<union> (\<Union>x \<in> set (y # ys). {u. prefix u (text_chars (snd x))})"
    using t'(5) t1(4) x(3) by auto
  moreover have "trie_words t' w' = trie_words t w \<union> (\<Union>x \<in> set (y # ys). {u. prefix u (text_chars (snd x))}) \<and> m' = m ++ last_text (y # ys)"
    if b: "\<forall>u \<in> trie_words t w \<union> set (words_of (y # ys)). b \<notin> set u" for b
  proof -
    have ok: "ok" using t1(6) [of b] b x(3) by auto
    have "b \<notin> set u" if "prefix u ?cs" for u using b x(3) set_mono_prefix [OF that] by auto
    then have "\<forall>u \<in> trie_words t1 w1 \<union> set (words_of ys). b \<notin> set u" using b t1(5) [OF ok] by auto
    then show ?thesis using t'(6) [rule_format, of b] t1(5) [OF ok] ok x(3) last_text_Cons [of m a x ys] by auto
  qed
  ultimately show ?case using t'(2,3) by (intro exI [of _ t'] exI [of _ w'] exI [of _ m']) blast
qed

end
