(* ===== verification/Aho_Walk.thy ===== *)
theory Aho_Walk
  imports Aho_Build
begin

text \<open>
  The traversals of the trie: each visits every node once. With it, what \<open>aho_clean_trie_node\<close> frees and what
  \<open>aho_print_trie\<close> prints.
\<close>

section \<open>Visited and pending nodes\<close>

definition walk :: "trie \<Rightarrow> nat set \<Rightarrow> nat list \<Rightarrow> bool" where
  "walk t V xs \<longleftrightarrow> V \<union> set xs \<subseteq> {..<length t} \<and> V \<inter> set xs = {} \<and> distinct xs \<and> 0 \<in> V \<union> set xs \<and>
    (\<forall>i \<in> V \<union> set xs. \<forall>p. parent (nd t i) = Some p \<longrightarrow> p \<in> V) \<and>
    (\<forall>i \<in> V. set (child_list (nd t i)) \<subseteq> V \<union> set xs)"

lemma walk_start: "trie_rep t w \<Longrightarrow> walk t {} [0]"
  using trie_repD(1,3) by (auto simp: walk_def)

lemma walkD:
  assumes "walk t V xs"
  shows "i \<in> V \<union> set xs \<Longrightarrow> parent (nd t i) = Some p \<Longrightarrow> p \<in> V" "i \<in> V \<union> set xs \<Longrightarrow> i < length t"
    "i \<in> V \<Longrightarrow> i \<notin> set xs"
  using assms unfolding walk_def by blast+

lemma walk_fresh:
  assumes "trie_rep t w" "walk t V (xs @ [p])"
  shows "set (child_list (nd t p)) \<inter> (V \<union> set (xs @ [p])) = {}" "p < length t" "p \<notin> V"
proof -
  show p: "p < length t" "p \<notin> V" using walkD(2,3) [OF assms(2), of p] by auto
  have "q \<notin> V \<union> set (xs @ [p])" if "q \<in> set (child_list (nd t p))" for q
    using trie_rep_child(4) [OF assms(1) p(1) that] walkD(1) [OF assms(2), of q p] p(2) by blast
  then show "set (child_list (nd t p)) \<inter> (V \<union> set (xs @ [p])) = {}" by blast
qed

lemma walk_step:
  assumes "trie_rep t w" "walk t V (xs @ [p])"
  shows "walk t (insert p V) (xs @ child_list (nd t p))"
proof -
  let ?C = "set (child_list (nd t p))"
  note f = walk_fresh [OF assms] and ch = trie_rep_child [OF assms(1) walk_fresh(2) [OF assms]]
  note W = assms(2) [unfolded walk_def set_append list.set distinct_append]
  show ?thesis unfolding walk_def set_append distinct_append
  proof (intro conjI)
    show "insert p V \<union> (set xs \<union> ?C) \<subseteq> {..<length t}" using W ch(1) by auto
    show "insert p V \<inter> (set xs \<union> ?C) = {}" using W f(1) by auto
    show "set xs \<inter> ?C = {}" using f(1) by auto
    show "\<forall>i \<in> insert p V \<union> (set xs \<union> ?C). \<forall>j. parent (nd t i) = Some j \<longrightarrow> j \<in> insert p V"
    proof (intro ballI allI impI)
      fix i j assume "i \<in> insert p V \<union> (set xs \<union> ?C)" "parent (nd t i) = Some j"
      then show "j \<in> insert p V" using walkD(1) [OF assms(2), of i j] ch(4) [of i] by (cases "i \<in> ?C") auto
    qed
    show "\<forall>i \<in> insert p V. set (child_list (nd t i)) \<subseteq> insert p V \<union> (set xs \<union> ?C)" using W by auto
  qed (use W trie_repD(7) [OF assms(1) f(2)] in auto)
qed

lemma walk_end:
  assumes "trie_rep t w" "walk t V []"
  shows "V = {..<length t}"
proof -
  have "i < length t \<Longrightarrow> i \<in> V" for i
  proof (induction i rule: less_induct)
    case (less i)
    show ?case
    proof (cases "i = 0")
      case False
      then obtain p where "p < i" "i \<in> set (child_list (nd t p))" using trie_repD(6) [OF assms(1) less.prems] by blast
      then show ?thesis using less assms(2) by (auto simp: walk_def)
    qed (use assms(2) in \<open>simp add: walk_def\<close>)
  qed
  then show ?thesis using assms(2) by (auto simp: walk_def)
qed

lemma walk_length: "walk t V xs \<Longrightarrow> length xs \<le> length t"
  using distinct_subset_length [of xs "length t"] by (auto simp: walk_def atLeast0LessThan)

lemma enqueue_children_rep:
  "queue_rep s xs \<Longrightarrow> length xs + length qs < 2 ^ 32 \<Longrightarrow> \<exists>s'. enqueue_children qs s = Some s' \<and> queue_rep s' (xs @ qs)"
proof (induction qs arbitrary: s xs)
  case (Cons q qs)
  then obtain s1 where "enqueue_data s q = Some s1" "queue_rep s1 (xs @ [q])"
    using aho.push_rep [of s xs q] by auto
  then show ?case using Cons.IH [of s1 "xs @ [q]"] Cons.prems(2) by auto
qed auto

lemma walk_enqueue:
  assumes "trie_rep t w" "walk t V (xs @ [p])" "length t < 2 ^ 32" "queue_rep s xs"
  shows "\<exists>s'. enqueue_children (child_list (nd t p)) s = Some s' \<and> queue_rep s' (xs @ child_list (nd t p))"
  using enqueue_children_rep [OF assms(4)] walk_length [OF walk_step [OF assms(1,2)]] assms(3) by simp

lemma enqueue_root: "\<exists>s. enqueue_data ([], aho_queue_init) 0 = Some s \<and> queue_rep s [0]"
  using aho.push_rep [OF queue_rep_init, of 0] by simp

section \<open>Freeing\<close>

lemma clean_visit_rep:
  assumes "trie_rep t0 w" "length t0 < 2 ^ 32" "walk t0 V (xs @ [p])" "queue_rep s xs"
    "length t = length t0" "\<And>i. i < length t0 \<Longrightarrow> t ! i = (if i \<in> V \<and> i \<noteq> 0 then None else t0 ! i)"
  shows "\<exists>s' t'. clean_visit p s t = Some (s', t') \<and> queue_rep s' (xs @ child_list (nd t0 p)) \<and> length t' = length t0 \<and>
    (\<forall>i < length t0. t' ! i = (if i \<in> insert p V \<and> i \<noteq> 0 then None else t0 ! i))"
proof -
  note p = walk_fresh(2,3) [OF assms(1,3)]
  have "deref t (Some p) = Some (nd t0 p)"
    using assms(5,6) p trie_repD(5) [OF assms(1) p(1)] by (simp add: deref_Some)
  moreover obtain s' where "enqueue_children (child_list (nd t0 p)) s = Some s'" and q: "queue_rep s' (xs @ child_list (nd t0 p))"
    using walk_enqueue [OF assms(1,3,2,4)] by blast
  ultimately have "clean_visit p s t = Some (s', if p = 0 then t else t[p := None])"
    using trie_rep_root_iff(1) [OF assms(1) p(1)] by (simp add: clean_visit_def release_some)
  moreover have "(if p = 0 then t else t[p := None]) ! i = (if i \<in> insert p V \<and> i \<noteq> 0 then None else t0 ! i)"
    if "i < length t0" for i using assms(5) assms(6) [OF that] that by (cases "i = p") auto
  ultimately show ?thesis using q assms(5) by auto
qed

lemma clean_trie_rep:
  assumes "trie_rep t w" "length t < 2 ^ 32"
  shows "\<exists>t'. aho_clean_trie_node t = Some t' \<and> live t' = {0} \<and> deref t' (Some 0) = deref t (Some 0)"
proof -
  obtain s0 where s0: "enqueue_data ([], aho_queue_init) 0 = Some s0" "queue_rep s0 [0]" using enqueue_root by blast
  let ?C = "\<lambda>V xs t'. walk t V xs \<and> length t' = length t \<and> (\<forall>i < length t. t' ! i = (if i \<in> V \<and> i \<noteq> 0 then None else t ! i))"
  have "\<exists>s' t' V'. clean_loop s0 t = Some (s', t') \<and> ?C V' [] t' \<and> queue_rep s' []"
  proof (rule aho.traversal [where visit = clean_visit and N = "length t"])
    show "\<exists>s' t'' ys. clean_visit p s t' = Some (s', t'') \<and> queue_rep s' (xs @ ys) \<and> ?C (insert p V) (xs @ ys) t''"
      if "?C V (xs @ [p]) t'" "queue_rep s xs" for V xs p s t'
      using clean_visit_rep [of t w V xs p s t'] walk_step [OF assms(1), of V xs p] that assms by blast
    show "?C {} [0] t" using walk_start [OF assms(1)] by simp
  qed (use s0 in \<open>simp_all add: clean_loop.simps walk_def\<close>)
  then obtain s' t' V' where c: "clean_loop s0 t = Some (s', t')" "walk t V' []" "length t' = length t"
    "\<forall>i < length t. t' ! i = (if i \<in> V' \<and> i \<noteq> 0 then None else t ! i)" by blast
  have "V' = {..<length t}" using walk_end [OF assms(1) c(2)] .
  then have t': "t' ! i = (if i = 0 then t ! i else None)" if "i < length t" for i using c(4) that by auto
  note r = trie_repD(1,5) [OF assms(1)]
  have "deref t' (Some 0) = deref t (Some 0)" using t' [of 0] c(3) r(1) by (simp add: deref_Some)
  moreover have "i \<in> live t' \<longleftrightarrow> i = 0" for i
    using t' [of i] c(3) r(1) r(2) [of 0] by (cases "i = 0") (auto simp: live_def deref_Some)
  ultimately show ?thesis using c(1) s0(1) by (auto simp: aho_clean_trie_node_def)
qed

section \<open>Printing\<close>

lemma print_trie_rep:
  assumes "trie_rep t w" "length t < 2 ^ 32"
  shows "\<exists>ps. aho_print_trie t = Some (map (\<lambda>p. node_line p (nd t p)) ps) \<and> distinct ps \<and> set ps = {..<length t}"
proof -
  obtain s0 where s0: "enqueue_data ([], aho_queue_init) 0 = Some s0" "queue_rep s0 [0]" using enqueue_root by blast
  let ?P = "\<lambda>V xs out. walk t V xs \<and> (\<exists>ps. out = map (\<lambda>p. node_line p (nd t p)) ps \<and> distinct ps \<and> set ps = V)"
  have "\<exists>s' out V'. print_loop t s0 [] = Some (s', out) \<and> ?P V' [] out \<and> queue_rep s' []"
  proof (rule aho.traversal [where visit = "print_visit t" and N = "length t"])
    fix V xs p s out
    assume P: "?P V (xs @ [p]) out" and q: "queue_rep s xs"
    then have W: "walk t V (xs @ [p])" by simp
    note p = walk_fresh(2,3) [OF assms(1) W]
    obtain s' where "enqueue_children (child_list (nd t p)) s = Some s'" "queue_rep s' (xs @ child_list (nd t p))"
      using walk_enqueue [OF assms(1) W assms(2) q] by blast
    then have "print_visit t p s out = Some (s', out @ [node_line p (nd t p)])" "queue_rep s' (xs @ child_list (nd t p))"
      using trie_repD(5) [OF assms(1) p(1)] by (simp_all add: print_visit_def)
    moreover obtain ps where ps: "out = map (\<lambda>p. node_line p (nd t p)) ps" "distinct ps" "set ps = V" using P by blast
    have "?P (insert p V) (xs @ child_list (nd t p)) (out @ [node_line p (nd t p)])"
      using walk_step [OF assms(1) W] ps p(2) by (auto intro!: exI [of _ "ps @ [p]"])
    ultimately show "\<exists>s' out' ys. print_visit t p s out = Some (s', out') \<and> queue_rep s' (xs @ ys) \<and> ?P (insert p V) (xs @ ys) out'"
      by blast
  next
    show "?P {} [0] []" using walk_start [OF assms(1)] by simp
  qed (use s0 in \<open>simp_all add: print_loop.simps walk_def\<close>)
  then obtain s' out V' where c: "print_loop t s0 [] = Some (s', out)" "?P V' [] out" "queue_rep s' []" by blast
  then have "V' = {..<length t}" using walk_end [OF assms(1)] by blast
  then show ?thesis using c s0(1) queue_destroy_frees [OF c(3)] by (auto simp: aho_print_trie_def)
qed

end
