(* ===== verification/Aho_Links.thy ===== *)
theory Aho_Links
  imports Aho_Walk
begin

text \<open>
  The failure and output links that \<open>aho_connect_link\<close> sets: they always lead to shorter words, and in a
  self-contained set of words they are those of the automaton.
\<close>

section \<open>Links\<close>

definition safe_links :: "trie \<Rightarrow> (nat \<Rightarrow> uint8_t list) \<Rightarrow> nat \<Rightarrow> bool" where
  "safe_links t w i \<longleftrightarrow>
    (\<forall>f. failure_link (nd t i) = Some f \<longrightarrow> f < length t \<and> length (w f) < length (w i)) \<and>
    (\<forall>j. output_link (nd t i) = Some j \<longrightarrow> j < length t \<and> j \<noteq> 0 \<and> length (w j) < length (w i) \<and> text_end (nd t j))"

text \<open>\<open>P\<close> are the texts.\<close>

definition linked :: "trie \<Rightarrow> (nat \<Rightarrow> uint8_t list) \<Rightarrow> uint8_t list set \<Rightarrow> nat \<Rightarrow> bool" where
  "linked t w P i \<longleftrightarrow>
    (\<exists>f < length t. failure_link (nd t i) = Some f \<and> w f = lsuf (trie_words t w) (tl (w i))) \<and>
    (case lpat P (tl (w i)) of
       None \<Rightarrow> output_link (nd t i) = None
     | Some v \<Rightarrow> \<exists>j < length t. output_link (nd t i) = Some j \<and> w j = v)"

section \<open>One step\<close>

lemma connect_step_root:
  assumes "trie_rep t w" "p < length t" "q < length t" "failure_link (nd t p) = None \<or> p = 0"
  shows "aho_connect_link_step t (Some p) (Some q) = Some (t[q := Some ((nd t q)\<lparr>failure_link := Some p\<rparr>)], True)"
  using assms trie_repD(5) [OF assms(1)] trie_rep_root_iff(1) [OF assms(1,2)]
  by (auto simp: aho_connect_link_step_def store_some)

lemma connect_step_child:
  assumes "trie_rep t w" "p < length t" "q < length t" "p \<noteq> 0" "failure_link (nd t p) = Some f" "f < length t"
    "i < length t" "w i = w f @ [node_text (nd t q)]"
  shows "aho_connect_link_step t (Some p) (Some q) = Some (t[q := Some ((nd t q)\<lparr>failure_link := Some i,
    output_link := (if text_end (nd t i) then Some i else output_link (nd t i))\<rparr>)], True)"
  using trie_repD(5) [OF assms(1)] trie_rep_root_iff(1) [OF assms(1,2)] find_child_rep(1) [OF assms(1,6,7,8)] assms(2-7)
  by (auto simp: aho_connect_link_step_def store_some)

lemma connect_step_none:
  assumes "trie_rep t w" "p < length t" "q < length t" "p \<noteq> 0" "failure_link (nd t p) = Some f" "f < length t"
    "w f @ [node_text (nd t q)] \<notin> trie_words t w"
  shows "aho_connect_link_step t (Some p) (Some q) = Some (t, False)"
  using trie_repD(5) [OF assms(1)] trie_rep_root_iff(1) [OF assms(1,2)] find_child_rep(2) [OF assms(1,6,7)] assms(2-6)
  by (auto simp: aho_connect_link_step_def)

text \<open>The node \<open>n\<close> that replaces node \<open>q\<close>, with its new links.\<close>

definition relinked :: "trie \<Rightarrow> (nat \<Rightarrow> uint8_t list) \<Rightarrow> nat \<Rightarrow> aho_trie_node \<Rightarrow> bool" where
  "relinked t w q n \<longleftrightarrow> (\<exists>f l. n = (nd t q)\<lparr>failure_link := Some f, output_link := l\<rparr> \<and>
     f < length t \<and> length (w f) < length (w q) \<and>
     (\<forall>j. l = Some j \<longrightarrow> j < length t \<and> j \<noteq> 0 \<and> length (w j) < length (w q) \<and> text_end (nd t j)))"

lemma connect_while_safe:
  assumes "trie_rep t w" "\<And>i. i < length t \<Longrightarrow> safe_links t w i" "q < length t"
  shows "p < length t \<Longrightarrow> length (w p) < length (w q) \<Longrightarrow>
    \<exists>n. connect_while t (Some p) (Some q) = Some (t[q := Some n]) \<and> relinked t w q n"
proof (induction "length (w p)" arbitrary: p rule: less_induct)
  case less
  let ?c = "node_text (nd t q)"
  show ?case
  proof (cases "failure_link (nd t p) = None \<or> p = 0")
    case True
    let ?n = "(nd t q)\<lparr>failure_link := Some p\<rparr>"
    have "connect_while t (Some p) (Some q) = Some (t[q := Some ?n])"
      using connect_step_root [OF assms(1) less.prems(1) assms(3) True] by (subst connect_while.simps) simp
    moreover have "relinked t w q ?n" unfolding relinked_def
      using less.prems assms(2) [OF assms(3)]
      by (intro exI [of _ p] exI [of _ "output_link (nd t q)"]) (auto simp: safe_links_def)
    ultimately show ?thesis by blast
  next
    case False
    then obtain f where f: "failure_link (nd t p) = Some f" "p \<noteq> 0" by auto
    then have f': "f < length t" "length (w f) < length (w p)" using assms(2) [OF less.prems(1)] by (auto simp: safe_links_def)
    show ?thesis
    proof (cases "w f @ [?c] \<in> trie_words t w")
      case True
      then obtain i where i: "i < length t" "w i = w f @ [?c]" by (auto simp: trie_words_def)
      let ?n = "(nd t q)\<lparr>failure_link := Some i, output_link := (if text_end (nd t i) then Some i else output_link (nd t i))\<rparr>"
      have "connect_while t (Some p) (Some q) = Some (t[q := Some ?n])"
        using connect_step_child [OF assms(1) less.prems(1) assms(3) f(2,1) f'(1) i] by (subst connect_while.simps) simp
      moreover have "length (w i) < length (w q)" "i \<noteq> 0"
        using i f'(2) less.prems(2) trie_rep_root_iff(2) [OF assms(1) i(1)] by simp_all
      then have "relinked t w q ?n" unfolding relinked_def using i(1) assms(2) [OF i(1)]
        by (intro exI [of _ i] exI [of _ "if text_end (nd t i) then Some i else output_link (nd t i)"])
          (auto simp: safe_links_def split: if_splits intro: less_trans)
      ultimately show ?thesis by blast
    next
      case no: False
      have "connect_while t (Some p) (Some q) = connect_while t (Some f) (Some q)"
        using connect_step_none [OF assms(1) less.prems(1) assms(3) f(2,1) f'(1) no] trie_repD(5) [OF assms(1) less.prems(1)] f(1)
        by (subst connect_while.simps) simp
      then show ?thesis using less.hyps [OF f'(2,1)] f'(2) less.prems(2) by simp
    qed
  qed
qed

lemma linked_updateI:
  assumes "q < length t" "f < length t" "w f = lsuf (trie_words t w) (tl (w q))" "failure_link n = Some f"
    "case lpat P (tl (w q)) of None \<Rightarrow> output_link n = None | Some v \<Rightarrow> \<exists>j < length t. output_link n = Some j \<and> w j = v"
  shows "linked (t[q := Some n]) w P q"
  using assms by (auto simp: linked_def trie_words_def split: option.splits)

lemma linked_other: "i \<noteq> q \<Longrightarrow> linked (t[q := v]) w P i \<longleftrightarrow> linked t w P i"
  by (simp add: linked_def trie_words_def split: option.splits)

lemma connect_while_linked:
  fixes P :: "uint8_t list set"
  assumes rep: "trie_rep t w" and P: "P \<subseteq> trie_words t w" and q: "q < length t" "w q = u @ [c]" "node_text (nd t q) = c"
    "output_link (nd t q) = None" and ends: "\<And>i. i < length t \<Longrightarrow> text_end (nd t i) \<longleftrightarrow> w i \<in> P"
    and H: "\<And>i. i < length t \<Longrightarrow> i \<noteq> 0 \<Longrightarrow> suffix (w i) u \<or> suffix (w i) (tl (w q)) \<Longrightarrow> linked t w P i"
  defines "T \<equiv> trie_words t w"
  shows "p < length t \<Longrightarrow> suffix (w p) u \<Longrightarrow> lsuf T (tl (w q)) = (if w p = [] then [] else lsuf T (tl (w p) @ [c])) \<Longrightarrow>
    \<exists>n. connect_while t (Some p) (Some q) = Some (t[q := Some n]) \<and> linked (t[q := Some n]) w P q"
proof (induction "length (w p)" arbitrary: p rule: less_induct)
  case less
  note root = trie_rep_root_iff(2) [OF rep] and pc = prefix_closed_trie_words [OF rep, folded T_def]
  have lp: "lpat P (tl (w q)) = lpat P (lsuf T (tl (w q)))" using lpat_lsuf [OF P] by (simp add: T_def)
  show ?case
  proof (cases "p = 0")
    case True
    let ?n = "(nd t q)\<lparr>failure_link := Some p\<rparr>"
    have "connect_while t (Some p) (Some q) = Some (t[q := Some ?n])"
      using connect_step_root [OF rep less.prems(1) q(1)] True by (subst connect_while.simps) simp
    moreover have "w p = []" "lsuf T (tl (w q)) = []" using True less.prems(1,3) root by auto
    then have "linked (t[q := Some ?n]) w P q"
      using q(4) lp by (intro linked_updateI [OF q(1) less.prems(1)]) (simp_all add: T_def)
    ultimately show ?thesis by blast
  next
    case False
    then obtain f where f: "failure_link (nd t p) = Some f" "f < length t" "w f = lsuf T (tl (w p))"
      using H [OF less.prems(1) False] less.prems(2) by (auto simp: linked_def T_def)
    have wp: "w p \<noteq> []" using root less.prems(1) False by simp
    have x: "lsuf T (tl (w q)) = lsuf T (w f @ [c])" using less.prems(3) wp lsuf_snoc [OF pc, of "tl (w p)" c] f(3) by simp
    show ?thesis
    proof (cases "w f @ [c] \<in> T")
      case True
      then obtain i where i: "i < length t" "w i = w f @ [c]" by (auto simp: T_def trie_words_def)
      let ?n = "(nd t q)\<lparr>failure_link := Some i, output_link := (if text_end (nd t i) then Some i else output_link (nd t i))\<rparr>"
      have "connect_while t (Some p) (Some q) = Some (t[q := Some ?n])"
        using connect_step_child [OF rep less.prems(1) q(1) False f(1,2) i(1)] i(2) q(3) by (subst connect_while.simps) simp
      moreover have wi: "lsuf T (tl (w q)) = w i" "w i \<noteq> []" using x i(2) lsuf_self [OF True] by simp_all
      have "suffix (w i) (tl (w q))" using lsuf_suffix [of T "tl (w q)"] wi(1) by simp
      then have "linked t w P i" using H [OF i(1)] root [OF i(1)] wi(2) by simp
      then have "linked (t[q := Some ?n]) w P q"
        using lp wi lpat_unfold [OF wi(2), of P] ends [OF i(1)] i(1)
        by (intro linked_updateI [OF q(1) i(1)]) (auto simp: T_def linked_def split: option.splits)
      ultimately show ?thesis by blast
    next
      case no: False
      have "connect_while t (Some p) (Some q) = connect_while t (Some f) (Some q)"
        using connect_step_none [OF rep less.prems(1) q(1) False f(1,2)] no q(3) trie_repD(5) [OF rep less.prems(1)] f(1)
        by (subst connect_while.simps) (simp add: T_def)
      moreover have "length (w f) < length (w p)" using length_lsuf [of T "tl (w p)"] f(3) wp by (cases "w p") auto
      moreover have "suffix (w f) u"
        using lsuf_suffix [of T "tl (w p)"] f(3) less.prems(2) suffix_tl [of "w p"] suffix_order.trans by metis
      moreover have "lsuf T (tl (w q)) = (if w f = [] then [] else lsuf T (tl (w f) @ [c]))"
        using x lsuf_tl [OF no] by simp
      ultimately show ?thesis using less.hyps [of f] f(2) by simp
    qed
  qed
qed

section \<open>The invariant of the loop\<close>

text \<open>
  \<open>D\<close> are the nodes whose links have been set; \<open>m\<close> gives the text that ends at a word.
\<close>

definition conn :: "(nat \<Rightarrow> uint8_t list) \<Rightarrow> (uint8_t list \<rightharpoonup> nat) \<Rightarrow> nat set \<Rightarrow> trie \<Rightarrow> bool" where
  "conn w m D t \<longleftrightarrow> trie_rep t w \<and> dom m \<subseteq> trie_words t w \<and>
    (\<forall>i < length t. text_end (nd t i) = (m (w i) \<noteq> None) \<and> output_text (nd t i) = m (w i)) \<and>
    (\<forall>i < length t. safe_links t w i) \<and>
    (\<forall>i < length t. if i \<in> D then i = 0 \<or> failure_link (nd t i) \<noteq> None
       else failure_link (nd t i) = None \<and> output_link (nd t i) = None) \<and>
    (self_contained (trie_words t w) \<longrightarrow> (\<forall>i < length t. i \<in> D \<and> i \<noteq> 0 \<longrightarrow> linked t w (dom m) i))"

lemma connD:
  assumes "conn w m D t"
  shows "trie_rep t w" "dom m \<subseteq> trie_words t w"
    "\<And>i. i < length t \<Longrightarrow> text_end (nd t i) \<longleftrightarrow> w i \<in> dom m" "\<And>i. i < length t \<Longrightarrow> output_text (nd t i) = m (w i)"
    "\<And>i. i < length t \<Longrightarrow> safe_links t w i"
    "\<And>i. i < length t \<Longrightarrow> i \<in> D \<Longrightarrow> i \<noteq> 0 \<Longrightarrow> failure_link (nd t i) \<noteq> None"
    "\<And>i. i < length t \<Longrightarrow> i \<notin> D \<Longrightarrow> failure_link (nd t i) = None \<and> output_link (nd t i) = None"
    "\<And>i. self_contained (trie_words t w) \<Longrightarrow> i < length t \<Longrightarrow> i \<in> D \<Longrightarrow> i \<noteq> 0 \<Longrightarrow> linked t w (dom m) i"
  using assms unfolding conn_def by auto

text \<open>The update of one node.\<close>

lemma conn_update:
  assumes "conn w m D t" "q < length t" "q \<noteq> 0" "relinked t w q n"
    "self_contained (trie_words t w) \<Longrightarrow> linked (t[q := Some n]) w (dom m) q"
  shows "conn w m (insert q D) (t[q := Some n])"
proof -
  let ?t = "t[q := Some n]"
  note C = connD [OF assms(1)]
  obtain f l where n: "n = (nd t q)\<lparr>failure_link := Some f, output_link := l\<rparr>" "f < length t" "length (w f) < length (w q)"
    "\<And>j. l = Some j \<Longrightarrow> j < length t \<and> j \<noteq> 0 \<and> length (w j) < length (w q) \<and> text_end (nd t j)"
    using assms(4) unfolding relinked_def by blast
  have at: "nd ?t i = (if i = q then n else nd t i)" if "i < length t" for i using that by simp
  have te: "text_end (nd ?t i) = text_end (nd t i)" "output_text (nd ?t i) = output_text (nd t i)" if "i < length t" for i
    using n(1) at [OF that] by auto
  have words: "trie_words ?t w = trie_words t w" by (simp add: trie_words_def)
  have safe: "safe_links ?t w i" if "i < length t" for i
    using C(5) [OF that] at [OF that] n te unfolding safe_links_def by (cases "i = q") auto
  have lk: "linked ?t w (dom m) i" if "self_contained (trie_words t w)" "i < length t" "i \<in> insert q D" "i \<noteq> 0" for i
    using assms(5) [OF that(1)] C(8) [OF that(1,2)] that(3,4) linked_other by (cases "i = q") simp_all
  have rep: "trie_rep ?t w" by (rule trie_rep_update [OF C(1)]) (simp add: n(1) shape_def)
  have set: "if i \<in> insert q D then i = 0 \<or> failure_link (nd ?t i) \<noteq> None
       else failure_link (nd ?t i) = None \<and> output_link (nd ?t i) = None" if "i < length t" for i
    using C(6,7) [OF that] at [OF that] n(1) by (cases "i = q") auto
  have ends: "text_end (nd ?t i) = (m (w i) \<noteq> None)" "output_text (nd ?t i) = m (w i)" if "i < length t" for i
    using te [OF that] C(3,4) [OF that] by auto
  show ?thesis unfolding conn_def words length_list_update
    by (intro conjI allI impI rep C(2) safe set ends) (auto intro: lk)
qed

definition parent_closed :: "trie \<Rightarrow> nat set \<Rightarrow> bool" where
  "parent_closed t D \<longleftrightarrow> (\<forall>i \<in> D. \<forall>j. i < length t \<and> parent (nd t i) = Some j \<longrightarrow> j \<in> D)"

text \<open>In a self-contained trie the suffixes that are words belong to nodes on the way from the root.\<close>

lemma on_the_way:
  assumes "trie_rep t w" "p < length t" "p \<in> D" "parent_closed t D"
    "prefix (w i) (w p)" "i < length t"
  shows "i \<in> D"
  using assms(2,3,5)
proof (induction p rule: less_induct)
  case (less p)
  show ?case
  proof (cases "w i = w p")
    case True
    then show ?thesis using inj_onD [OF trie_repD(4) [OF assms(1)]] less.prems assms(6) by auto
  next
    case False
    then have "p \<noteq> 0" using less.prems(3) trie_repD(2) [OF assms(1)] by (cases "p = 0") auto
    then obtain r where r: "r < p" "parent (nd t p) = Some r" "w p = w r @ [node_text (nd t p)]"
      using trie_repD(6) [OF assms(1) less.prems(1)] by blast
    then have "prefix (w i) (w r)" using less.prems(3) False by (simp add: prefix_snoc)
    then show ?thesis using less.IH [of r] r less.prems assms(4) by (auto simp: parent_closed_def)
  qed
qed

lemma conn_step:
  assumes "conn w m D t" "p < length t" "p \<in> D" "q \<in> set (child_list (nd t p))" "q \<notin> D"
    "parent_closed t D"
  shows "\<exists>n. connect_while t (Some p) (Some q) = Some (t[q := Some n]) \<and> relinked t w q n \<and> conn w m (insert q D) (t[q := Some n])"
proof -
  note C = connD [OF assms(1)]
  note q = trie_rep_child [OF C(1) assms(2,4)]
  obtain n where n: "connect_while t (Some p) (Some q) = Some (t[q := Some n])" "relinked t w q n"
    using connect_while_safe [OF C(1,5) q(1) assms(2)] q(3) by auto
  have "linked (t[q := Some n]) w (dom m) q" if sc: "self_contained (trie_words t w)"
  proof -
    have "linked t w (dom m) i" if i: "i < length t" "i \<noteq> 0" "suffix (w i) (w p) \<or> suffix (w i) (tl (w q))" for i
    proof -
      have "prefix (w i) (w p)"
      proof (cases "suffix (w i) (w p)")
        case True
        then show ?thesis using self_containedD [OF sc] i(1) assms(2) by (auto simp: trie_words_def)
      next
        case False
        then have s: "suffix (w i) (tl (w q))" using i(3) by simp
        then have "suffix (w i) (w q)" using suffix_order.trans [OF _ suffix_tl] by blast
        then have "prefix (w i) (w q)" using self_containedD [OF sc] i(1) q(1) by (auto simp: trie_words_def)
        moreover have "w i \<noteq> w q" using suffix_length_le [OF s] q(3) by auto
        ultimately show ?thesis using q(3) by (simp add: prefix_snoc)
      qed
      then have "i \<in> D" using on_the_way [OF C(1) assms(2,3) assms(6) _ i(1)] by simp
      then show ?thesis using C(8) [OF sc i(1) _ i(2)] by simp
    qed
    moreover have "output_link (nd t q) = None" using C(7) [OF q(1) assms(5)] by simp
    moreover have "lsuf (trie_words t w) (tl (w q)) = (if w p = [] then [] else lsuf (trie_words t w) (tl (w p) @ [node_text (nd t q)]))"
      using q(3) by simp
    ultimately obtain n' where "connect_while t (Some p) (Some q) = Some (t[q := Some n'])" "linked (t[q := Some n']) w (dom m) q"
      using connect_while_linked [OF C(1,2) q(1,3) refl _ C(3), of p] assms(2) by auto
    then show ?thesis using n(1) by simp
  qed
  moreover have "q \<noteq> 0" using q(2) by simp
  ultimately show ?thesis using n conn_update [OF assms(1) q(1) _ n(2)] by blast
qed

section \<open>The whole loop\<close>

definition same_nodes :: "trie \<Rightarrow> trie \<Rightarrow> bool" where
  "same_nodes t t' \<longleftrightarrow> length t' = length t \<and> (\<forall>i < length t. shape (nd t' i) = shape (nd t i))"

lemma same_nodesD:
  assumes "same_nodes t t'"
  shows "length t' = length t" "i < length t \<Longrightarrow> parent (nd t' i) = parent (nd t i)"
    "i < length t \<Longrightarrow> child_list (nd t' i) = child_list (nd t i)"
  using assms by (auto simp: same_nodes_def shape_def)

lemma same_nodes_trans: "same_nodes t t' \<Longrightarrow> same_nodes t' t'' \<Longrightarrow> same_nodes t t''"
  by (auto simp: same_nodes_def)

lemma same_nodes_relinked:
  assumes "relinked t w q n"
  shows "same_nodes t (t[q := Some n])"
proof -
  have "shape n = shape (nd t q)" using assms by (auto simp: relinked_def shape_def)
  then show ?thesis using nth_update_field [of "\<lambda>x. shape (the x)" "Some n" t q] by (simp add: same_nodes_def)
qed

lemma connect_children_rep:
  assumes "conn w m D t" "p < length t" "p \<in> D" "set qs \<subseteq> set (child_list (nd t p))" "distinct qs" "set qs \<inter> D = {}"
    "parent_closed t D"
    "queue_rep s xs" "length xs + length qs < 2 ^ 32"
  shows "\<exists>s' t'. connect_children p qs s t = Some (s', t') \<and> queue_rep s' (xs @ qs) \<and> conn w m (D \<union> set qs) t' \<and> same_nodes t t'"
  using assms
proof (induction qs arbitrary: D t s xs)
  case Nil
  then show ?case by (auto simp: same_nodes_def)
next
  case (Cons q qs)
  have q: "q \<in> set (child_list (nd t p))" "q \<notin> D" using Cons.prems(4,6) by auto
  obtain n where n: "connect_while t (Some p) (Some q) = Some (t[q := Some n])" "relinked t w q n"
    "conn w m (insert q D) (t[q := Some n])"
    using conn_step [OF Cons.prems(1-3) q Cons.prems(7)] by blast
  let ?t = "t[q := Some n]"
  have sh: "same_nodes t ?t" using same_nodes_relinked [OF n(2)] .
  obtain s1 where s1: "enqueue_data s q = Some s1" "queue_rep s1 (xs @ [q])"
    using aho.push_rep [OF Cons.prems(8), of q] Cons.prems(9) by auto
  have pq: "parent (nd t q) = Some p" using trie_rep_child(4) [OF connD(1) [OF Cons.prems(1)] Cons.prems(2) q(1)] .
  have "j \<in> insert q D" if "i \<in> insert q D" "i < length t" "parent (nd ?t i) = Some j" for i j
    using that same_nodesD(2) [OF sh, of i] Cons.prems(3,7) pq unfolding parent_closed_def by (cases "i = q") auto
  then have closed: "parent_closed ?t (insert q D)" unfolding parent_closed_def by simp
  have kids: "set qs \<subseteq> set (child_list (nd ?t p))"
    using Cons.prems(4) same_nodesD(3) [OF sh Cons.prems(2)] by auto
  obtain s' t' where "connect_children p qs s1 ?t = Some (s', t')" "queue_rep s' ((xs @ [q]) @ qs)"
    "conn w m (insert q D \<union> set qs) t'" "same_nodes ?t t'"
    using Cons.IH [OF n(3) _ _ kids _ _ closed s1(2)] Cons.prems(2,3,5,6,9) by auto
  then show ?case using s1(1) n(1) same_nodes_trans [OF sh] by auto
qed

lemma conn_start:
  assumes "trie_rep t w" "ends_rep t w m"
  shows "conn w m {0} t"
proof -
  have mk: "text_end (nd t i) = (m (w i) \<noteq> None)" "output_text (nd t i) = m (w i)" "failure_link (nd t i) = None" "output_link (nd t i) = None"
    if "i < length t" for i using assms(2) that by (auto simp: ends_rep_def marks_def)
  then have "safe_links t w i" if "i < length t" for i using that by (simp add: safe_links_def)
  then show ?thesis using mk assms unfolding conn_def ends_rep_def by auto
qed

lemma connect_visit_rep:
  assumes "walk t0 V (xs @ [p])" "same_nodes t0 t" "conn w m (V \<union> set (xs @ [p])) t" "queue_rep s xs"
    "trie_rep t0 w" "length t0 < 2 ^ 32"
  shows "\<exists>s' t'. connect_visit p s t = Some (s', t') \<and> queue_rep s' (xs @ child_list (nd t0 p)) \<and> same_nodes t0 t' \<and>
    conn w m (insert p V \<union> set (xs @ child_list (nd t0 p))) t'"
proof -
  let ?C = "child_list (nd t0 p)" and ?D = "V \<union> set (xs @ [p])"
  note p = walk_fresh [OF assms(5,1)] and sh = same_nodesD [OF assms(2)] and C = connD(1) [OF assms(3)]
  have len: "length xs + length ?C < 2 ^ 32" using walk_length [OF walk_step [OF assms(5,1)]] assms(6) by simp
  have "j \<in> ?D" if "i \<in> ?D" "i < length t" "parent (nd t i) = Some j" for i j
    using walkD(1) [OF assms(1) that(1), of j] that(2,3) sh(1,2) by simp
  then have closed: "parent_closed t ?D" unfolding parent_closed_def by blast
  have "deref t (Some p) = Some (nd t p)" "child_list (nd t p) = ?C" using trie_repD(5) [OF C] sh(1,3) p(2) by auto
  then have "connect_visit p s t = connect_children p ?C s t" by (simp add: connect_visit_def)
  moreover have "insert p V \<union> set (xs @ ?C) = ?D \<union> set ?C" by auto
  ultimately show ?thesis
    using connect_children_rep [OF assms(3) _ _ _ trie_repD(7) [OF assms(5) p(2)] p(1) closed assms(4) len, of p] p(2) sh
      same_nodes_trans [OF assms(2)] by auto
qed

lemma connect_link_rep:
  assumes "trie_rep t w" "ends_rep t w m" "length t < 2 ^ 32"
  shows "\<exists>t'. aho_connect_link t = Some t' \<and> conn w m {..<length t} t' \<and> same_nodes t t'"
proof -
  obtain s0 where s0: "enqueue_data ([], aho_queue_init) 0 = Some s0" "queue_rep s0 [0]" using enqueue_root by blast
  let ?I = "\<lambda>V xs t'. walk t V xs \<and> same_nodes t t' \<and> conn w m (V \<union> set xs) t'"
  have "\<exists>s' t' V'. connect_loop s0 t = Some (s', t') \<and> ?I V' [] t' \<and> queue_rep s' []"
  proof (rule aho.traversal [where visit = connect_visit and N = "length t"])
    show "connect_loop s t = do {
       (s, r) \<leftarrow> dequeue_data s;
       case r of None \<Rightarrow> Some (s, t) | Some p \<Rightarrow> do { (s, t) \<leftarrow> connect_visit p s t; connect_loop s t } }" for s t
      by (rule connect_loop.simps)
    show "\<exists>s' t'' ys. connect_visit p s t' = Some (s', t'') \<and> queue_rep s' (xs @ ys) \<and> ?I (insert p V) (xs @ ys) t''"
      if "?I V (xs @ [p]) t'" "queue_rep s xs" for V xs p s t'
      using connect_visit_rep [of t V xs p t' w m s] walk_step [OF assms(1), of V xs p] that assms(1,3) by blast
    show "?I {} [0] t" using walk_start [OF assms(1)] conn_start [OF assms(1,2)] by (simp add: same_nodes_def)
  qed (use s0 in \<open>simp_all add: walk_def\<close>)
  then obtain s' t' V' where c: "connect_loop s0 t = Some (s', t')" "?I V' [] t'" "queue_rep s' []" by blast
  then show ?thesis using walk_end [OF assms(1), of V'] s0(1) queue_destroy_frees [OF c(3)] by (auto simp: aho_connect_link_def)
qed

end
