(* ===== verification/Aho_Find.thy ===== *)
theory Aho_Find
  imports Aho_Links
begin

text \<open>
  Following a character in a trie whose links are connected, and the search loop.
\<close>

section \<open>Following a character\<close>

lemma find_step_child:
  assumes "trie_rep t w" "i < length t" "j < length t" "w j = w i @ [c]"
  shows "aho_find_trie_node t (Some i) c = map_option (Pair (Some j)) (found_text t (Some j))"
  using trie_repD(5) [OF assms(1,2)] find_child_rep(1) [OF assms]
  by (subst aho_find_trie_node.simps) (cases "found_text t (Some j)", simp_all add: aho_find_trie_step_def)

lemma find_step_none:
  assumes "trie_rep t w" "i < length t" "w i @ [c] \<notin> trie_words t w"
  shows "aho_find_trie_node t (Some i) c =
    (if i = 0 then Some (Some 0, None) else aho_find_trie_node t (failure_link (nd t i)) c)"
  using trie_repD(5) [OF assms(1,2)] find_child_rep(2) [OF assms] trie_rep_root_iff(1) [OF assms(1,2)]
  by (subst aho_find_trie_node.simps) (simp add: aho_find_trie_step_def)

lemma found_text_safe:
  assumes "conn w m D t" "j < length t" "j \<noteq> 0"
  shows "\<exists>x. found_text t (Some j) = Some x \<and> (\<forall>a. x = Some a \<longrightarrow> (\<exists>v. m v = Some a \<and> v \<noteq> [] \<and> length v \<le> length (w j)))"
proof -
  note C = connD [OF assms(1)] and d = trie_repD(5) [OF connD(1) [OF assms(1)]]
  note root = trie_rep_root_iff(2) [OF C(1)]
  show ?thesis
  proof (cases "text_end (nd t j) \<or> output_link (nd t j) = None")
    case True
    then show ?thesis using d [OF assms(2)] C(4) [OF assms(2)] root [OF assms(2)] assms(3)
      by (auto simp: found_text_def intro!: exI [of _ "w j"])
  next
    case False
    then obtain k where k: "output_link (nd t j) = Some k" "\<not> text_end (nd t j)" by auto
    then have "k < length t" "k \<noteq> 0" "length (w k) < length (w j)" using C(5) [OF assms(2)] by (auto simp: safe_links_def)
    then show ?thesis using k d [OF assms(2)] d [of k] C(4) [of k] root [of k]
      by (auto simp: found_text_def intro!: exI [of _ "w k"])
  qed
qed

lemma find_trie_node_safe:
  assumes "conn w m {..<length t} t"
  shows "i < length t \<Longrightarrow> \<exists>j x. aho_find_trie_node t (Some i) c = Some (Some j, x) \<and> j < length t \<and>
    length (w j) \<le> Suc (length (w i)) \<and> (\<forall>a. x = Some a \<longrightarrow> (\<exists>v. m v = Some a \<and> v \<noteq> [] \<and> length v \<le> length (w j)))"
proof (induction "length (w i)" arbitrary: i rule: less_induct)
  case less
  note C = connD [OF assms]
  note root = trie_rep_root_iff(2) [OF C(1)]
  show ?case
  proof (cases "w i @ [c] \<in> trie_words t w")
    case True
    then obtain j where j: "j < length t" "w j = w i @ [c]" by (auto simp: trie_words_def)
    then have "j \<noteq> 0" using root by force
    then obtain x where "found_text t (Some j) = Some x" "\<forall>a. x = Some a \<longrightarrow> (\<exists>v. m v = Some a \<and> v \<noteq> [] \<and> length v \<le> length (w j))"
      using found_text_safe [OF assms j(1)] by blast
    then show ?thesis using find_step_child [OF C(1) less.prems j] j by simp
  next
    case False
    show ?thesis
    proof (cases "i = 0")
      case True
      then show ?thesis using find_step_none [OF C(1) less.prems False] less.prems root by simp
    next
      case ne: False
      then obtain f where f: "failure_link (nd t i) = Some f" using C(6) [OF less.prems] less.prems by auto
      then have f': "f < length t" "length (w f) < length (w i)" using C(5) [OF less.prems] by (auto simp: safe_links_def)
      show ?thesis using less.hyps [OF f'(2,1)] f'(2) find_step_none [OF C(1) less.prems False] ne f by fastforce
    qed
  qed
qed

text \<open>In a self-contained trie the node is the longest suffix and the text the longest text.\<close>

lemma found_text_linked:
  assumes "conn w m {..<length t} t" "self_contained (trie_words t w)" "j < length t" "j \<noteq> 0"
  shows "found_text t (Some j) = Some (case lpat (dom m) (w j) of None \<Rightarrow> None | Some v \<Rightarrow> m v)"
proof -
  note C = connD [OF assms(1)] and d = trie_repD(5) [OF connD(1) [OF assms(1)]]
  have ne: "w j \<noteq> []" using trie_rep_root_iff(2) [OF C(1) assms(3)] assms(4) by simp
  have L: "linked t w (dom m) j" using C(8) [OF assms(2,3) _ assms(4)] assms(3) by simp
  show ?thesis
  proof (cases "text_end (nd t j)")
    case True
    then show ?thesis using C(3,4) [OF assms(3)] d [OF assms(3)] lpat_unfold [OF ne, of "dom m"] by (simp add: found_text_def)
  next
    case False
    then have lp: "lpat (dom m) (w j) = lpat (dom m) (tl (w j))" using C(3) [OF assms(3)] lpat_unfold [OF ne, of "dom m"] by simp
    show ?thesis
    proof (cases "lpat (dom m) (tl (w j))")
      case None
      then show ?thesis using L lp d [OF assms(3)] False by (simp add: found_text_def linked_def)
    next
      case (Some v)
      then obtain k where "k < length t" "output_link (nd t j) = Some k" "w k = v" using L by (auto simp: linked_def)
      then show ?thesis using Some lp d [OF assms(3)] d [of k] C(4) [of k] False by (simp add: found_text_def)
    qed
  qed
qed

lemma find_trie_node_linked:
  assumes "conn w m {..<length t} t" "self_contained (trie_words t w)"
  shows "i < length t \<Longrightarrow> \<exists>j < length t. w j = lsuf (trie_words t w) (w i @ [c]) \<and>
    aho_find_trie_node t (Some i) c = Some (Some j, case lpat (dom m) (w i @ [c]) of None \<Rightarrow> None | Some v \<Rightarrow> m v)"
proof (induction "length (w i)" arbitrary: i rule: less_induct)
  case less
  let ?T = "trie_words t w"
  note C = connD [OF assms(1)]
  note root = trie_rep_root_iff(2) [OF C(1)] and pc = prefix_closed_trie_words [OF C(1)]
  show ?case
  proof (cases "w i @ [c] \<in> ?T")
    case True
    then obtain j where j: "j < length t" "w j = w i @ [c]" by (auto simp: trie_words_def)
    then have "j \<noteq> 0" using root by force
    then show ?thesis using found_text_linked [OF assms j(1)] find_step_child [OF C(1) less.prems j] j lsuf_self [OF True]
      by (intro exI [of _ j]) simp
  next
    case no: False
    show ?thesis
    proof (cases "i = 0")
      case True
      then have "w i = []" using root less.prems by simp
      moreover have "lpat (dom m) [c] = None" using calculation no C(2) by (auto split: if_splits)
      ultimately show ?thesis using find_step_none [OF C(1) less.prems no] True no less.prems by (intro exI [of _ 0]) simp
    next
      case False
      have wi: "w i \<noteq> []" using root less.prems False by simp
      obtain f where f: "failure_link (nd t i) = Some f" "f < length t" "w f = lsuf ?T (tl (w i))"
        using C(8) [OF assms(2) less.prems _ False] less.prems by (auto simp: linked_def)
      have "length (w f) < length (w i)" using f(3) length_lsuf [of ?T "tl (w i)"] wi by (cases "w i") auto
      moreover have "lsuf ?T (w i @ [c]) = lsuf ?T (w f @ [c])" using lsuf_step [OF pc no wi] f(3) by simp
      moreover have "lpat (dom m) (w i @ [c]) = lpat (dom m) (w f @ [c])"
        using lpat_lsuf [OF C(2), of "w i @ [c]"] lpat_lsuf [OF C(2), of "w f @ [c]"] calculation(2) by simp
      ultimately show ?thesis using less.hyps [of f] f(1,2) find_step_none [OF C(1) less.prems no] False by simp
    qed
  qed
qed

end
