(* ===== verification/Aho_Correct.thy ===== *)
theory Aho_Correct
  imports Aho_Find
begin

text \<open>
  The trie that \<open>aho_create_trie\<close> makes and what \<open>aho_findtext\<close> reports.
\<close>

section \<open>The trie\<close>

text \<open>The texts have fewer prefixes than an \<open>unsigned int\<close> has values.\<close>

definition fits :: "(nat \<times> aho_text_t) list \<Rightarrow> bool" where
  "fits xs \<longleftrightarrow> length (prefixes_of (words_of xs)) < 2 ^ 32"

lemma init_trie_rep: "trie_rep aho_init_trie (\<lambda>_. [])" "ends_rep aho_init_trie (\<lambda>_. []) Map.empty"
  "trie_words aho_init_trie (\<lambda>_. []) = {[]}"
  by (auto simp: inj_on_def trie_rep_def aho_init_trie_def aho_trie_node_init_def zero_node_def ends_rep_def marks_def trie_words_def)

lemma prefixes_of_words: "set (prefixes_of (words_of xs)) = {[]} \<union> (\<Union>x \<in> set xs. {u. prefix u (text_chars (snd x))})"
  by (auto simp: prefixes_of_def)

lemma create_trie_rep:
  assumes "aho_print_match_text aho = Some xs" "fits xs"
  shows "\<exists>t w m. aho_create_trie aho = Some (aho\<lparr>trie := t\<rparr>) \<and> conn w m {..<length t} t \<and> length t < 2 ^ 32 \<and>
    (\<forall>v a. m v = Some a \<longrightarrow> (\<exists>x. (a, x) \<in> set xs \<and> text_chars x = v)) \<and>
    (\<forall>b. (\<forall>u \<in> set (words_of xs). b \<notin> set u) \<longrightarrow> trie_words t w = set (prefixes_of (words_of xs)) \<and> m = last_text xs)"
proof -
  have p: "print_texts (texts aho) (text_list_head aho) = Some xs" using assms(1) by (simp add: aho_print_match_text_def)
  obtain t w m where t: "add_texts (texts aho) (text_list_head aho) aho_init_trie = Some t" "trie_rep t w" "ends_rep t w m"
    "\<forall>v a. m v = Some a \<longrightarrow> Map.empty v = Some a \<or> (\<exists>x. (a, x) \<in> set xs \<and> text_chars x = v)"
    "trie_words t w \<subseteq> {[]} \<union> (\<Union>x \<in> set xs. {u. prefix u (text_chars (snd x))})"
    "\<forall>b. (\<forall>u \<in> {[]} \<union> set (words_of xs). b \<notin> set u) \<longrightarrow>
      trie_words t w = {[]} \<union> (\<Union>x \<in> set xs. {u. prefix u (text_chars (snd x))}) \<and> m = Map.empty ++ last_text xs"
    using add_texts_rep [OF p init_trie_rep(1,2)] unfolding init_trie_rep(3) by (elim exE conjE)
  have "length t = card (trie_words t w)" using card_image [OF trie_repD(4) [OF t(2)]] by (simp add: trie_words_def)
  also have "\<dots> \<le> card (set (prefixes_of (words_of xs)))" using t(5) unfolding prefixes_of_words [symmetric] by (simp add: card_mono)
  also have "\<dots> \<le> length (prefixes_of (words_of xs))" by (rule card_length)
  also have "\<dots> < 2 ^ 32" using assms(2) by (simp add: fits_def)
  finally have len: "length t < 2 ^ 32" .
  obtain t' where t': "aho_connect_link t = Some t'" "conn w m {..<length t} t'" "same_nodes t t'"
    using connect_link_rep [OF t(2,3) len] by blast
  have "aho_create_trie aho = Some (aho\<lparr>trie := t'\<rparr>)" using t(1) t'(1) by (simp add: aho_create_trie_def)
  moreover have "length t' = length t" "trie_words t' w = trie_words t w"
    using same_nodesD(1) [OF t'(3)] by (simp_all add: trie_words_def)
  ultimately show ?thesis using t(4,6) t'(2) len unfolding prefixes_of_words
    by (intro exI [of _ t'] exI [of _ w] exI [of _ m]) simp
qed

text \<open>The node that a word leads to.\<close>

fun node_at :: "trie \<Rightarrow> nat \<Rightarrow> uint8_t list \<Rightarrow> nat option" where
  "node_at t i [] = Some i"
| "node_at t i (c # cs) = do {
     n \<leftarrow> deref t (Some i);
     r \<leftarrow> find_child t (child_list n) c;
     j \<leftarrow> r;
     node_at t j cs }"

lemma node_at_rep:
  assumes "trie_rep t w"
  shows "i < length t \<Longrightarrow> (case node_at t i v of None \<Rightarrow> w i @ v \<notin> trie_words t w | Some j \<Rightarrow> j < length t \<and> w j = w i @ v)"
proof (induction v arbitrary: i)
  case (Cons c v)
  show ?case
  proof (cases "w i @ [c] \<in> trie_words t w")
    case True
    then obtain j where j: "j < length t" "w j = w i @ [c]" by (auto simp: trie_words_def)
    then show ?thesis using Cons.IH [OF j(1)] trie_repD(5) [OF assms Cons.prems] find_child_rep(1) [OF assms Cons.prems j]
      by (simp split: option.splits)
  next
    case False
    then have "w i @ c # v \<notin> trie_words t w" using prefix_closed_trie_words [OF assms]
      unfolding prefix_closed_def by (metis append.assoc append_Cons append_Nil)
    then show ?thesis using trie_repD(5) [OF assms Cons.prems] find_child_rep(2) [OF assms Cons.prems False] by simp
  qed
qed simp

text \<open>C35: when some byte occurs in none of the texts, the trie that \<open>aho_create_trie\<close> makes holds exactly the texts:
  a word leads to a node from the root exactly when it is a prefix of a text, and the node is marked
  as the end of a text exactly when it is one of them, with the last such text as its output.\<close>

theorem aho_trie_holds_texts:
  assumes "aho_print_match_text aho = Some xs" "fits xs" "\<exists>b. \<forall>u \<in> set (words_of xs). b \<notin> set u"
  shows "\<exists>t. aho_create_trie aho = Some (aho\<lparr>trie := t\<rparr>) \<and>
    (\<forall>v. case node_at t 0 v of
       None \<Rightarrow> v \<notin> set (prefixes_of (words_of xs))
     | Some i \<Rightarrow> v \<in> set (prefixes_of (words_of xs)) \<and>
         (\<exists>n. deref t (Some i) = Some n \<and> (text_end n \<longleftrightarrow> v \<in> set (words_of xs)) \<and> output_text n = last_text xs v))"
proof -
  obtain t w m where t: "aho_create_trie aho = Some (aho\<lparr>trie := t\<rparr>)" "conn w m {..<length t} t"
    "trie_words t w = set (prefixes_of (words_of xs))" "m = last_text xs"
    using create_trie_rep [OF assms(1,2)] assms(3) by blast
  note C = connD [OF t(2)]
  have "case node_at t 0 v of
       None \<Rightarrow> v \<notin> set (prefixes_of (words_of xs))
     | Some i \<Rightarrow> v \<in> set (prefixes_of (words_of xs)) \<and>
         (\<exists>n. deref t (Some i) = Some n \<and> (text_end n \<longleftrightarrow> v \<in> set (words_of xs)) \<and> output_text n = last_text xs v)" for v
  proof (cases "node_at t 0 v")
    case None
    then show ?thesis using node_at_rep [OF C(1), of 0 v] trie_repD(1,2) [OF C(1)] t(3) by simp
  next
    case (Some i)
    then have i: "i < length t" "w i = v" using node_at_rep [OF C(1), of 0 v] trie_repD(1,2) [OF C(1)] by auto
    then have "v \<in> trie_words t w" by (rule trie_wordsI)
    then show ?thesis using Some i C(3,4) [OF i(1)] trie_repD(5) [OF C(1) i(1)] t(3,4) dom_last_text [of xs] by simp
  qed
  then show ?thesis using t(1) by blast
qed

section \<open>What a search is to report\<close>

text \<open>The longest text that ends where \<open>d\<close> does; the last one if it occurs more than once.\<close>

definition longest_text :: "(nat \<times> aho_text_t) list \<Rightarrow> uint8_t list \<Rightarrow> aho_text_t option" where
  "longest_text xs d = (case lpat (set (words_of xs)) d of None \<Rightarrow> None | Some v \<Rightarrow> map_option snd (last_entry xs v))"

definition matches_between :: "(nat \<times> aho_text_t) list \<Rightarrow> uint8_t list \<Rightarrow> nat \<Rightarrow> nat \<Rightarrow> aho_match_t list" where
  "matches_between xs data i j = concat (map (\<lambda>k. case longest_text xs (take (Suc k) data) of
     None \<Rightarrow> [] | Some x \<Rightarrow> [match_of (int k) x]) [i ..< j])"

lemma matches_between_Cons:
  "matches_between xs (d @ c # cs) (length d) (length (d @ c # cs)) =
    (case longest_text xs (d @ [c]) of None \<Rightarrow> [] | Some x \<Rightarrow> [match_of (int (length d)) x]) @
    matches_between xs ((d @ [c]) @ cs) (length (d @ [c])) (length ((d @ [c]) @ cs))"
proof -
  have "[length d ..< length (d @ c # cs)] = length d # [length (d @ [c]) ..< length (d @ c # cs)]"
    by (subst upt_conv_Cons) simp_all
  then show ?thesis by (simp add: matches_between_def)
qed

lemma longest_text_entry:
  assumes "lpat (set (words_of xs)) d = Some v" "print_texts h p = Some xs"
  shows "\<exists>a x. last_text xs v = Some a \<and> deref h (Some a) = Some x \<and> longest_text xs d = Some x"
proof -
  have "v \<in> dom (last_text xs)" using lpat_in [OF assms(1)] by (simp add: dom_last_text)
  then obtain a where a: "last_text xs v = Some a" by blast
  then obtain x where "last_entry xs v = Some (a, x)" "(a, x) \<in> set xs" using last_text_in by blast
  then show ?thesis using a assms print_texts_live [OF assms(2)] by (simp add: longest_text_def)
qed

section \<open>The search\<close>

lemma find_loop_correct:
  assumes "conn w (last_text xs) {..<length (trie aho)} (trie aho)" "self_contained (trie_words (trie aho) w)"
    "print_texts (texts aho) p = Some xs"
  shows "i < length (trie aho) \<Longrightarrow> w i = lsuf (trie_words (trie aho) w) d \<Longrightarrow> int (length (d @ cs)) \<le> INT_MAX \<Longrightarrow> n \<le> int (length d) \<Longrightarrow>
    find_loop aho (Some i) (int (length d)) n out cs =
      (let ms = matches_between xs (d @ cs) (length d) (length (d @ cs)) in
       Some (n + int (length ms), if callback_match aho = None then out else out @ ms))"
proof (induction cs arbitrary: i d n out)
  case Nil
  then show ?case by (simp add: matches_between_def)
next
  case (Cons c cs)
  let ?T = "trie_words (trie aho) w" and ?P = "set (words_of xs)"
  note C = connD [OF assms(1)]
  have x: "lsuf ?T (w i @ [c]) = lsuf ?T (d @ [c])"
    using lsuf_snoc [OF prefix_closed_trie_words [OF C(1)], of d c] Cons.prems(2) by simp
  have lp: "lpat ?P (w i @ [c]) = lpat ?P (d @ [c])"
    using lpat_lsuf [of ?P ?T "w i @ [c]"] lpat_lsuf [of ?P ?T "d @ [c]"] C(2) x unfolding dom_last_text by simp
  obtain j where j: "j < length (trie aho)" "w j = lsuf ?T (d @ [c])"
    "aho_find_trie_node (trie aho) (Some i) c = Some (Some j, case lpat ?P (d @ [c]) of None \<Rightarrow> None | Some v \<Rightarrow> last_text xs v)"
    using find_trie_node_linked [OF assms(1,2) Cons.prems(1), of c] x lp unfolding dom_last_text by auto
  have b: "int (length d) \<noteq> INT_MAX" "n \<noteq> INT_MAX" "int (length ((d @ [c]) @ cs)) \<le> INT_MAX" using Cons.prems(3,4) by auto
  show ?case
  proof (cases "lpat ?P (d @ [c])")
    case None
    then have "longest_text xs (d @ [c]) = None" by (simp add: longest_text_def)
    then show ?thesis using None j(3) b Cons.IH [OF j(1,2) b(3), of n out] Cons.prems(4) matches_between_Cons [of xs d c cs]
      by (simp add: add.commute)
  next
    case (Some v)
    then obtain a y where y: "last_text xs v = Some a" "deref (texts aho) (Some a) = Some y" "longest_text xs (d @ [c]) = Some y"
      using longest_text_entry assms(3) by blast
    then show ?thesis
      using Some j(3) b Cons.IH [OF j(1,2) b(3), of "n + 1" "if callback_match aho = None then out else out @ [match_of (int (length d)) y]"]
        Cons.prems(4) matches_between_Cons [of xs d c cs]
      by (simp add: Let_def add.commute add.left_commute)
  qed
qed


text \<open>A matcher with the text \<open>abab\<close>.\<close>

definition abab :: ahocorasick where
  "abab = (aho_init [Some \<lparr>tid = 0, tbuf = [97, 98, 97, 98, 0], tlen = 4, tprev = None, tnext = None\<rparr>])
     \<lparr>text_list_head := Some 0, text_list_tail := Some 0, text_list_len := 1, accumulate_text_id := 1, callback_match := Some 0\<rparr>"

definition abab_list :: "(nat \<times> aho_text_t) list" where
  "abab_list = [(0, \<lparr>tid = 0, tbuf = [97, 98, 97, 98, 0], tlen = 4, tprev = None, tnext = None\<rparr>)]"

lemma abab_texts: "aho_print_match_text abab = Some abab_list"
  by code_simp

lemma abab_words: "words_of abab_list = [[97, 98, 97, 98]]"
  by code_simp

lemma abab_fits: "fits abab_list" "\<exists>b. \<forall>u \<in> set (words_of abab_list). b \<notin> set u"
  unfolding fits_def abab_words by (simp add: prefixes_of_def) (intro exI [of _ 0], simp)

theorem aho_trie_holds_texts_witness:
  "\<exists>t. aho_create_trie abab = Some (abab\<lparr>trie := t\<rparr>) \<and> node_at t 0 [98] = None"
proof -
  obtain t where t: "aho_create_trie abab = Some (abab\<lparr>trie := t\<rparr>)"
    "\<forall>v. case node_at t 0 v of
       None \<Rightarrow> v \<notin> set (prefixes_of (words_of abab_list))
     | Some i \<Rightarrow> v \<in> set (prefixes_of (words_of abab_list)) \<and>
         (\<exists>n. deref t (Some i) = Some n \<and> (text_end n \<longleftrightarrow> v \<in> set (words_of abab_list)) \<and> output_text n = last_text abab_list v)"
    using aho_trie_holds_texts [OF abab_texts abab_fits] by blast
  have "[98] \<notin> set (prefixes_of (words_of abab_list))" unfolding abab_words by (simp add: prefixes_of_def)
  then show ?thesis using t(1) t(2) [THEN spec, of "[98]"] by (auto split: option.splits)
qed


end
