(* ===== verification/Aho_Safe.thy ===== *)
theory Aho_Safe
  imports Aho_Correct
begin

text \<open>
  What holds of a search for every list of texts: it ends without an invalid access, and every match it
  reports lies within the data. The texts it reports may be wrong, because the links are connected in depth-first
  order.
\<close>

section \<open>Every search is safe\<close>

text \<open>The buffer of a text holds its characters.\<close>

definition text_ok :: "aho_text_t \<Rightarrow> bool" where
  "text_ok x \<longleftrightarrow> tlen x \<le> int (length (tbuf x))"

definition match_within :: "(nat \<times> aho_text_t) list \<Rightarrow> nat \<Rightarrow> aho_match_t \<Rightarrow> bool" where
  "match_within xs n mt \<longleftrightarrow> (\<exists>x \<in> set xs. mid mt = tid (snd x) \<and> mlen mt = int (length (text_chars (snd x))) \<and>
     0 < mlen mt \<and> unat (pos mt) + nat (mlen mt) \<le> n)"

lemma tlen_chars: "text_ok x \<Longrightarrow> text_chars x \<noteq> [] \<Longrightarrow> tlen x = int (length (text_chars x))"
  by (auto simp: text_ok_def text_chars_def)

lemma match_of_within:
  assumes "(a, x) \<in> set xs" "text_ok x" "text_chars x \<noteq> []" "length (text_chars x) \<le> Suc k" "k < n" "k < 2 ^ 31"
  shows "match_within xs n (match_of (int k) x)"
proof -
  let ?l = "length (text_chars x)"
  have l: "tlen x = int ?l" "0 < ?l" using tlen_chars assms(2,3) by auto
  have "pos (match_of (int k) x) = word_of_nat (Suc k - ?l)"
    using l assms(4) by (auto simp: match_of_def of_nat_diff)
  moreover have "(Suc k - ?l :: nat) < 2 ^ 64" using assms(6) by simp
  then have "unat (word_of_nat (Suc k - ?l) :: uint64_t) = Suc k - ?l"
    by (simp only: unsigned_of_nat take_bit_nat_eq_self len_num1 len_bit0) (simp add: take_bit_nat_eq_self)
  ultimately have "unat (pos (match_of (int k) x)) + ?l \<le> n" using assms(4,5) by simp
  then show ?thesis using assms(1) l unfolding match_within_def
    by (intro bexI [of _ "(a, x)"]) (simp_all add: match_of_def)
qed

lemma find_loop_safe:
  assumes "conn w m {..<length (trie aho)} (trie aho)" "print_texts (texts aho) p = Some xs" "\<forall>x \<in> set xs. text_ok (snd x)"
    "\<And>v a. m v = Some a \<Longrightarrow> \<exists>x. (a, x) \<in> set xs \<and> text_chars x = v"
  shows "i < length (trie aho) \<Longrightarrow> length (w i) \<le> k \<Longrightarrow> int (k + length cs) \<le> INT_MAX \<Longrightarrow> n \<le> int k \<Longrightarrow>
    \<exists>ms. find_loop aho (Some i) (int k) n out cs = Some (n + int (length ms), if callback_match aho = None then out else out @ ms) \<and>
      (\<forall>mt \<in> set ms. match_within xs (k + length cs) mt)"
proof (induction cs arbitrary: i k n out)
  case Nil
  then show ?case by (intro exI [of _ "[]"]) simp
next
  case (Cons c cs)
  obtain j r where j: "aho_find_trie_node (trie aho) (Some i) c = Some (Some j, r)" "j < length (trie aho)"
    "length (w j) \<le> Suc k" "\<And>a. r = Some a \<Longrightarrow> \<exists>v. m v = Some a \<and> v \<noteq> [] \<and> length v \<le> length (w j)"
    using find_trie_node_safe [OF assms(1) Cons.prems(1), of c] Cons.prems(2) by fastforce
  have b: "int k \<noteq> INT_MAX" "n \<noteq> INT_MAX" "int (Suc k + length cs) \<le> INT_MAX" "k < 2 ^ 31"
    using Cons.prems(3,4) by (auto simp: INT_MAX_def)
  show ?case
  proof (cases r)
    case None
    then show ?thesis using Cons.IH [OF j(2,3) b(3), of n out] Cons.prems(4) j(1) b(1) by (simp add: add.commute)
  next
    case (Some a)
    then obtain x where x: "(a, x) \<in> set xs" "text_chars x \<noteq> []" "length (text_chars x) \<le> Suc k"
      using j(3,4) assms(4) by fastforce
    let ?out = "if callback_match aho = None then out else out @ [match_of (int k) x]"
    obtain ms where ms: "find_loop aho (Some j) (int (Suc k)) (n + 1) ?out cs =
        Some (n + 1 + int (length ms), if callback_match aho = None then ?out else ?out @ ms)"
      "\<forall>mt \<in> set ms. match_within xs (Suc k + length cs) mt"
      using Cons.IH [OF j(2,3) b(3), of "n + 1" ?out] Cons.prems(4) by auto
    have "match_within xs (k + length (c # cs)) (match_of (int k) x)"
      using match_of_within [OF x(1) _ x(2,3)] assms(3) x(1) b(4) by auto
    moreover have "find_loop aho (Some i) (int k) n out (c # cs) = find_loop aho (Some j) (int (Suc k)) (n + 1) ?out cs"
      using Some j(1) b(1,2) print_texts_live [OF assms(2) x(1)] by (simp add: add.commute)
    ultimately show ?thesis using ms by (intro exI [of _ "match_of (int k) x # ms"]) auto
  qed
qed

text \<open>C37: whatever the texts, \<open>aho_create_trie\<close> and a search in up to \<open>INT_MAX\<close> bytes of data end, with no access
  to freed or missing memory; every match reported is one of the texts, at a place within the data.\<close>

theorem aho_findtext_safe:
  assumes "aho_print_match_text aho = Some xs" "fits xs" "\<forall>x \<in> set xs. text_ok (snd x)"
    "unat data_len = length data" "int (length data) \<le> INT_MAX"
  shows "\<exists>aho' ms. aho_create_trie aho = Some aho' \<and>
    aho_findtext aho' data data_len = Some (word_of_nat (length ms), if callback_match aho = None then [] else ms) \<and>
    (\<forall>mt \<in> set ms. match_within xs (length data) mt)"
proof -
  obtain t w m where t: "aho_create_trie aho = Some (aho\<lparr>trie := t\<rparr>)" "conn w m {..<length t} t"
    "\<forall>v a. m v = Some a \<longrightarrow> (\<exists>x. (a, x) \<in> set xs \<and> text_chars x = v)"
    using create_trie_rep [OF assms(1,2)] by blast
  note C = connD [OF t(2)]
  have "print_texts (texts (aho\<lparr>trie := t\<rparr>)) (text_list_head aho) = Some xs" using assms(1) by (simp add: aho_print_match_text_def)
  then obtain ms where "find_loop (aho\<lparr>trie := t\<rparr>) (Some 0) 0 0 [] data =
      Some (int (length ms), if callback_match aho = None then [] else ms)" "\<forall>mt \<in> set ms. match_within xs (length data) mt"
    using find_loop_safe [of w m "aho\<lparr>trie := t\<rparr>" "text_list_head aho" xs 0 0 data 0 "[]", unfolded append_Nil]
      t(2,3) assms(3,5) trie_repD(1,2) [OF C(1)] by auto
  then show ?thesis using t(1) assms(4) by (auto simp: aho_findtext_def)
qed

theorem aho_findtext_safe_witness:
  "\<exists>aho' r. aho_create_trie abab = Some aho' \<and> aho_findtext aho' [97, 98, 97, 98, 97] 5 = Some r"
proof -
  have "\<forall>x \<in> set abab_list. text_ok (snd x)" by code_simp
  then show ?thesis using aho_findtext_safe [OF abab_texts abab_fits(1), of 5 "[97, 98, 97, 98, 97]"] by (auto simp: INT_MAX_def)
qed

end
