(* ===== verification/Aho_Texts.thy ===== *)
theory Aho_Texts
  imports Aho
begin

text \<open>
  The doubly linked list of texts: adding, deleting and clearing.
\<close>

section \<open>Representation\<close>

text \<open>
  The list of texts has the nodes \<open>as\<close>, with the identifiers \<open>ids\<close>. The link from the first node back is not
  looked at, and is left as it was when the node before it has been deleted.
\<close>

definition text_nodes :: "aho_text_t heap \<Rightarrow> nat list \<Rightarrow> int list \<Rightarrow> bool" where
  "text_nodes h as ids \<longleftrightarrow> distinct as \<and> distinct ids \<and> length ids = length as \<and>
    (\<forall>k < length as. \<exists>x. deref h (Some (as ! k)) = Some x \<and> tid x = ids ! k \<and>
       tnext x = (if Suc k < length as then Some (as ! Suc k) else None) \<and>
       (k \<noteq> 0 \<longrightarrow> tprev x = Some (as ! (k - 1))))"

definition text_rep :: "ahocorasick \<Rightarrow> nat list \<Rightarrow> int list \<Rightarrow> bool" where
  "text_rep aho as ids \<longleftrightarrow> text_nodes (texts aho) as ids \<and>
    text_list_head aho = (if as = [] then None else Some (hd as)) \<and>
    (as \<noteq> [] \<longrightarrow> text_list_tail aho = Some (last as))"

lemma text_nodesD:
  assumes "text_nodes h as ids"
  shows "distinct as" "distinct ids" "length ids = length as"
    "\<And>k. k < length as \<Longrightarrow> \<exists>x. deref h (Some (as ! k)) = Some x \<and> tid x = ids ! k \<and>
       tnext x = (if Suc k < length as then Some (as ! Suc k) else None) \<and> (k \<noteq> 0 \<longrightarrow> tprev x = Some (as ! (k - 1)))"
  using assms by (auto simp: text_nodes_def)

lemma text_nodes_live: "text_nodes h as ids \<Longrightarrow> a \<in> set as \<Longrightarrow> a < length h"
  by (auto simp: text_nodes_def in_set_conv_nth) (metis deref_bound)

section \<open>Traversal\<close>

text \<open>Printing reads the nodes in order.\<close>

lemma print_texts_nodes:
  assumes "text_nodes h as ids"
  shows "k \<le> length as \<Longrightarrow> print_texts h (if k < length as then Some (as ! k) else None) =
    Some (map (\<lambda>a. (a, the (deref h (Some a)))) (drop k as))"
proof (induction "length as - k" arbitrary: k)
  case 0
  then show ?case by (subst print_texts.simps) simp
next
  case (Suc n)
  then have k: "k < length as" by simp
  obtain x where x: "deref h (Some (as ! k)) = Some x" "tnext x = (if Suc k < length as then Some (as ! Suc k) else None)"
    using text_nodesD(4) [OF assms k] by blast
  have "drop k as = as ! k # drop (Suc k) as" using k by (simp add: Cons_nth_drop_Suc)
  then show ?case using k x Suc(1) [of "Suc k"] Suc(2) by (subst print_texts.simps) simp
qed

lemma print_text_rep:
  "text_rep aho as ids \<Longrightarrow> aho_print_match_text aho = Some (map (\<lambda>a. (a, the (deref (texts aho) (Some a)))) as)"
  using print_texts_nodes [of "texts aho" as ids 0] by (auto simp: text_rep_def aho_print_match_text_def hd_conv_nth)

text \<open>The search for an identifier.\<close>

lemma del_loop_nodes:
  assumes "text_nodes (texts aho) as ids" "j < length as"
  shows "k \<le> j \<Longrightarrow> del_loop aho (ids ! j) (Some (as ! k)) = del_loop aho (ids ! j) (Some (as ! j))"
proof (induction "j - k" arbitrary: k)
  case (Suc n)
  then have k: "k < j" by simp
  obtain x where x: "deref (texts aho) (Some (as ! k)) = Some x" "tid x = ids ! k" "tnext x = Some (as ! Suc k)"
    using text_nodesD(4) [OF assms(1), of k] k assms(2) by auto
  have "ids ! k \<noteq> ids ! j" using text_nodesD(2,3) [OF assms(1)] k assms(2) by (simp add: nth_eq_iff_index_eq)
  then show ?case using Suc(1) [of "Suc k"] Suc(2) k x by (subst del_loop.simps) simp
qed simp

lemma del_loop_absent:
  assumes "text_nodes (texts aho) as ids" "i \<notin> set ids"
  shows "k \<le> length as \<Longrightarrow> del_loop aho i (if k < length as then Some (as ! k) else None) = Some (aho, False)"
proof (induction "length as - k" arbitrary: k)
  case 0
  then show ?case by (subst del_loop.simps) simp
next
  case (Suc n)
  then have k: "k < length as" by simp
  then obtain x where x: "deref (texts aho) (Some (as ! k)) = Some x" "tid x = ids ! k"
    "tnext x = (if Suc k < length as then Some (as ! Suc k) else None)"
    using text_nodesD(4) [OF assms(1), of k] by auto
  have "ids ! k \<noteq> i" using assms(2) k text_nodesD(3) [OF assms(1)] by (metis nth_mem)
  then show ?case using Suc(1) [of "Suc k"] Suc(2) k x by (subst del_loop.simps) simp
qed

section \<open>Deleting\<close>

lemma del_at:
  assumes "text_rep aho as ids" "k < length as" "deref (texts aho) (Some (as ! k)) = Some x" "tid x = ids ! k"
  shows "aho_del_match_text aho (ids ! k) = do {
    aho \<leftarrow> unlink_text aho (Some (as ! k)) x;
    h \<leftarrow> release (texts aho) (Some (as ! k));
    Some (aho\<lparr>texts := h, text_list_len := text_list_len aho - 1\<rparr>, True) }"
proof -
  have "text_list_head aho = Some (as ! 0)" using assms(1,2) by (cases as) (auto simp: text_rep_def)
  then have "aho_del_match_text aho (ids ! k) = del_loop aho (ids ! k) (Some (as ! k))"
    using del_loop_nodes [of aho as ids k 0] assms(1,2) by (simp add: aho_del_match_text_def text_rep_def)
  then show ?thesis using assms(3,4) by (subst (asm) del_loop.simps) simp
qed

text \<open>The first text of the list: only the head moves.\<close>

lemma del_first:
  assumes "text_rep aho as ids" "as \<noteq> []"
  shows "\<exists>aho'. aho_del_match_text aho (ids ! 0) = Some (aho', True) \<and> text_rep aho' (remove_nth 0 as) (remove_nth 0 ids) \<and>
    texts aho' = (texts aho)[as ! 0 := None] \<and> trie aho' = trie aho"
proof -
  have k: "0 < length as" using assms(2) by simp
  note N = text_nodesD [OF conjunct1 [OF assms(1) [unfolded text_rep_def]]]
  obtain x where x: "deref (texts aho) (Some (as ! 0)) = Some x" "tid x = ids ! 0"
    "tnext x = (if Suc 0 < length as then Some (as ! Suc 0) else None)" using N(4) [OF k] by blast
  let ?h = "(texts aho)[as ! 0 := None]"
  let ?aho = "aho\<lparr>text_list_head := tnext x, texts := ?h, text_list_len := text_list_len aho - 1\<rparr>"
  have "text_list_head aho = Some (as ! 0)" using assms by (simp add: text_rep_def hd_conv_nth)
  then have "aho_del_match_text aho (ids ! 0) = Some (?aho, True)"
    using del_at [OF assms(1) k x(1,2)] x(1) by (simp add: unlink_text_def release_some)
  moreover have "text_nodes ?h (remove_nth 0 as) (remove_nth 0 ids)" unfolding text_nodes_def
  proof (intro conjI allI impI)
    fix j assume j: "j < length (remove_nth 0 as)"
    then have j': "Suc j < length as" using k by simp
    obtain y where y: "deref (texts aho) (Some (as ! Suc j)) = Some y" "tid y = ids ! Suc j"
      "tnext y = (if Suc (Suc j) < length as then Some (as ! Suc (Suc j)) else None)" "tprev y = Some (as ! j)"
      using N(4) [OF j'] by auto
    have "as ! Suc j \<noteq> as ! 0" using N(1) j' k nth_eq_iff_index_eq [of as "Suc j" 0] by simp
    then have "deref ?h (Some (as ! Suc j)) = Some y" using y(1) by (simp add: deref_update)
    then show "\<exists>x. deref ?h (Some (remove_nth 0 as ! j)) = Some x \<and> tid x = remove_nth 0 ids ! j \<and>
       tnext x = (if Suc j < length (remove_nth 0 as) then Some (remove_nth 0 as ! Suc j) else None) \<and>
       (j \<noteq> 0 \<longrightarrow> tprev x = Some (remove_nth 0 as ! (j - 1)))"
      using y(2-4) j j' k N(3) by (intro exI [of _ y]) (simp add: nth_remove_nth, arith)
  qed (use N(1-3) k in \<open>simp_all add: distinct_remove_nth\<close>)
  moreover have "remove_nth 0 as = tl as" by (simp add: remove_nth_def drop_Suc)
  then have "tnext x = (if remove_nth 0 as = [] then None else Some (hd (remove_nth 0 as)))"
    "remove_nth 0 as \<noteq> [] \<Longrightarrow> last (remove_nth 0 as) = last as"
    using x(3) k by (cases as rule: remdups_adj.cases; simp)+
  ultimately show ?thesis using assms by (auto simp: text_rep_def)
qed

text \<open>A text with a neighbour on both sides is unlinked.\<close>

lemma del_inner:
  assumes "text_rep aho as ids" "k \<noteq> 0" "Suc k < length as"
  shows "\<exists>aho'. aho_del_match_text aho (ids ! k) = Some (aho', True) \<and> text_rep aho' (remove_nth k as) (remove_nth k ids) \<and>
    live (texts aho') = live (texts aho) - {as ! k}"
proof -
  let ?h = "texts aho" and ?p = "as ! (k - 1)" and ?a = "as ! k" and ?n = "as ! Suc k"
  have k: "k < length as" "k - 1 < length as" "Suc (k - 1) = k" using assms(2,3) by auto
  note N = text_nodesD [OF conjunct1 [OF assms(1) [unfolded text_rep_def]]]
  have idx: "i < length as \<Longrightarrow> j < length as \<Longrightarrow> as ! i = as ! j \<longleftrightarrow> i = j" for i j using N(1) by (rule nth_eq_iff_index_eq)
  obtain x where x: "deref ?h (Some ?a) = Some x" "tid x = ids ! k" "tnext x = Some ?n" "tprev x = Some ?p"
    using N(4) [OF k(1)] assms(2,3) by auto
  obtain xp where xp: "deref ?h (Some ?p) = Some xp" "tid xp = ids ! (k - 1)" "tnext xp = Some ?a"
      "k - 1 \<noteq> 0 \<longrightarrow> tprev xp = Some (as ! (k - 1 - 1))"
    using N(4) [OF k(2)] k by auto
  obtain xn where xn: "deref ?h (Some ?n) = Some xn" "tid xn = ids ! Suc k"
      "tnext xn = (if Suc (Suc k) < length as then Some (as ! Suc (Suc k)) else None)"
    using N(4) [OF assms(3)] by auto
  let ?h1 = "?h[?p := Some (xp\<lparr>tnext := Some ?n\<rparr>)]"
  let ?h2 = "?h1[?n := Some (xn\<lparr>tprev := Some ?p\<rparr>)]"
  let ?h3 = "?h2[?a := None]"
  let ?aho = "aho\<lparr>texts := ?h3, text_list_len := text_list_len aho - 1\<rparr>"
  have ne: "?a \<noteq> ?p" "?n \<noteq> ?p" "?a \<noteq> ?n" using idx k assms(2,3) by auto
  have b: "?p < length ?h" "?n < length ?h" "?a < length ?h" using deref_bound [OF xp(1)] deref_bound [OF xn(1)] deref_bound [OF x(1)] by simp_all
  have d: "deref ?h3 (Some i) = (if i = ?a then None else if i = ?n then Some (xn\<lparr>tprev := Some ?p\<rparr>)
      else if i = ?p then Some (xp\<lparr>tnext := Some ?n\<rparr>) else deref ?h (Some i))" for i
    using b by (auto simp: deref_update)
  have hd: "text_list_head aho = Some (as ! 0)" "text_list_tail aho = Some (as ! (length as - 1))"
    using assms(1,3) by (auto simp: text_rep_def hd_conv_nth last_conv_nth)
  have ht: "Some ?a \<noteq> text_list_head aho" "Some ?a \<noteq> text_list_tail aho"
    unfolding hd using idx [of k 0] idx [of k "length as - 1"] assms(2,3) k(1) by (cases as; simp)+
  have d1: "deref ?h1 (Some ?a) = Some x" "deref ?h1 (Some ?n) = Some xn" "deref ?h2 (Some ?a) = Some x"
    using x(1) xn(1) ne by (simp_all add: deref_update)
  have "unlink_text aho (Some ?a) x = Some (aho\<lparr>texts := ?h2\<rparr>)"
    using ht d1 store_some [OF xp(1)] store_some [OF d1(2)] by (simp add: unlink_text_def x(3,4))
  then have "aho_del_match_text aho (ids ! k) = Some (?aho, True)"
    using del_at [OF assms(1) k(1) x(1,2)] release_some [OF d1(3)] by simp
  moreover have "text_nodes ?h3 (remove_nth k as) (remove_nth k ids)" unfolding text_nodes_def
  proof (intro conjI allI impI)
    fix j assume j: "j < length (remove_nth k as)"
    let ?i = "if j < k then j else Suc j"
    have i: "?i < length as" "?i \<noteq> k" "j < length as - 1" using j k(1) by auto
    obtain y where y: "deref ?h (Some (as ! ?i)) = Some y" "tid y = ids ! ?i"
      "tnext y = (if Suc ?i < length as then Some (as ! Suc ?i) else None)" "?i \<noteq> 0 \<longrightarrow> tprev y = Some (as ! (?i - 1))"
      using N(4) [OF i(1)] by blast
    have at: "remove_nth k as ! j = as ! ?i" "remove_nth k ids ! j = ids ! ?i" "j - 1 < length as - 1"
      using nth_remove_nth [of k as j] nth_remove_nth [of k ids j] i(3) k(1) N(3) by auto
    let ?goal = "\<lambda>z. deref ?h3 (Some (as ! ?i)) = Some z \<and> tid z = ids ! ?i \<and>
       tnext z = (if Suc j < length as - 1 then Some (remove_nth k as ! Suc j) else None) \<and>
       (j \<noteq> 0 \<longrightarrow> tprev z = Some (remove_nth k as ! (j - 1)))"
    have s: "Suc j < length as - 1 \<Longrightarrow> remove_nth k as ! Suc j = as ! (if Suc j < k then Suc j else Suc (Suc j))"
      "remove_nth k as ! (j - 1) = as ! (if j - 1 < k then j - 1 else Suc (j - 1))"
      using nth_remove_nth [of k as] k(1) at(3) by auto
    consider "j = k - 1" "j < k" | "j = k" | "Suc j < k" | "k < j" using k(3) by linarith
    then have "\<exists>z. ?goal z"
    proof cases
      case 1
      then have "y = xp" "Suc j = k" using y(1) xp(1) k by auto
      then show ?thesis using 1 y s d [of ?p] ne xp assms(3) by (intro exI [of _ "xp\<lparr>tnext := Some ?n\<rparr>"]) auto
    next
      case 2
      then have "y = xn" using y(1) xn(1) by auto
      then show ?thesis using 2 y s d [of ?n] ne xn assms(2,3) by (intro exI [of _ "xn\<lparr>tprev := Some ?p\<rparr>"]) auto
    next
      case 3
      then have "as ! j \<noteq> ?a" "as ! j \<noteq> ?n" "as ! j \<noteq> ?p" using idx k assms(3) by auto
      then show ?thesis using 3 y s d [of "as ! j"] assms(3) by (intro exI [of _ y]) auto
    next
      case 4
      then have "as ! Suc j \<noteq> ?a" "as ! Suc j \<noteq> ?n" "as ! Suc j \<noteq> ?p" using idx i k assms(3) by auto
      then show ?thesis using 4 y s d [of "as ! Suc j"] assms(3) by (intro exI [of _ y]) auto
    qed
    then show "\<exists>x. deref ?h3 (Some (remove_nth k as ! j)) = Some x \<and> tid x = remove_nth k ids ! j \<and>
       tnext x = (if Suc j < length (remove_nth k as) then Some (remove_nth k as ! Suc j) else None) \<and>
       (j \<noteq> 0 \<longrightarrow> tprev x = Some (remove_nth k as ! (j - 1)))"
      unfolding at length_remove_nth [OF k(1)] .
  qed (use N(1-3) k in \<open>simp_all add: distinct_remove_nth\<close>)
  moreover have "live ?h3 = live ?h - {?a}"
    using b insert_absorb [OF liveI [OF xp(1)]] insert_absorb [OF liveI [OF xn(1)]] by (simp add: live_update)
  moreover have "remove_nth k as \<noteq> []" "hd (remove_nth k as) = hd as" "last (remove_nth k as) = last as"
    using assms(2,3) by (auto simp: remove_nth_def hd_append)
  moreover have "text_list_head aho = (if as = [] then None else Some (hd as))" "as \<noteq> [] \<longrightarrow> text_list_tail aho = Some (last as)" "as \<noteq> []"
    using assms(1) k(1) by (auto simp: text_rep_def)
  ultimately show ?thesis by (intro exI [of _ ?aho]) (simp add: text_rep_def)
qed

text \<open>The last text of a longer list is freed while the one before it still points to it.\<close>

lemma del_last:
  assumes "text_rep aho as ids" "k \<noteq> 0" "Suc k = length as"
  shows "\<exists>aho'. aho_del_match_text aho (ids ! k) = Some (aho', True) \<and> live (texts aho') = live (texts aho) - {as ! k} \<and>
    aho_print_match_text aho' = None"
proof -
  let ?h = "texts aho" and ?p = "as ! (k - 1)" and ?a = "as ! k"
  have k: "k < length as" "k - 1 < length as" "Suc (k - 1) = k" using assms(2,3) by auto
  note N = text_nodesD [OF conjunct1 [OF assms(1) [unfolded text_rep_def]]]
  have idx: "i < length as \<Longrightarrow> j < length as \<Longrightarrow> as ! i = as ! j \<longleftrightarrow> i = j" for i j using N(1) by (rule nth_eq_iff_index_eq)
  obtain x where x: "deref ?h (Some ?a) = Some x" "tid x = ids ! k" "tprev x = Some ?p"
    using N(4) [OF k(1)] assms(2) by auto
  let ?h' = "?h[?a := None]"
  let ?aho = "aho\<lparr>text_list_tail := Some ?p, texts := ?h', text_list_len := text_list_len aho - 1\<rparr>"
  have "length as - 1 = k" "as \<noteq> []" using assms(3) by auto
  then have hd: "text_list_head aho = Some (as ! 0)" "text_list_tail aho = Some ?a"
    using assms(1) by (auto simp: text_rep_def hd_conv_nth last_conv_nth)
  have "as ! k \<noteq> as ! 0" using idx [of k 0] k assms(2) by (cases as; simp)
  then have "aho_del_match_text aho (ids ! k) = Some (?aho, True)"
    using del_at [OF assms(1) k(1) x(1,2)] hd x(1,3) by (simp add: unlink_text_def release_some)
  moreover have "live ?h' = live ?h - {?a}" using deref_bound [OF x(1)] by (simp add: live_update)
  moreover have "print_texts ?h' (Some (as ! j)) = None" if "j \<le> k" for j
    using that
  proof (induction "k - j" arbitrary: j)
    case 0
    then show ?case using deref_bound [OF x(1)] by (subst print_texts.simps) (simp add: deref_update)
  next
    case (Suc m)
    then have j: "j < k" by simp
    then obtain y where y: "deref ?h (Some (as ! j)) = Some y" "tnext y = Some (as ! Suc j)"
      using N(4) [of j] k(1) by auto
    have "as ! j \<noteq> ?a" using idx [of j k] j k(1) by simp
    then have "deref ?h' (Some (as ! j)) = Some y" using y(1) by (simp add: deref_update)
    then show ?case using Suc(1) [of "Suc j"] Suc(2) j y(2) by (subst print_texts.simps) simp
  qed
  ultimately show ?thesis using hd by (auto simp: aho_print_match_text_def)
qed

text \<open>C40: \<open>aho_del_match_text\<close> deletes a text that is the first of the list or has a neighbour on both sides,
  and frees it, and returns false for an identifier that is not in the list. The last text of a list with several
  ones is freed but stays linked, so that every later traversal of the list accesses freed memory.\<close>

theorem aho_del_match_text_cases:
  assumes "text_rep aho as ids"
  shows "(\<forall>k < length as. \<exists>aho'. aho_del_match_text aho (ids ! k) = Some (aho', True) \<and>
      live (texts aho') = live (texts aho) - {as ! k} \<and>
      (if k = 0 \<or> Suc k < length as then text_rep aho' (remove_nth k as) (remove_nth k ids)
       else aho_print_match_text aho' = None)) \<and>
    (\<forall>i. i \<notin> set ids \<longrightarrow> aho_del_match_text aho i = Some (aho, False))"
proof (intro conjI allI impI)
  note N = conjunct1 [OF assms [unfolded text_rep_def]]
  fix k assume k: "k < length as"
  consider "k = 0" | "k \<noteq> 0" "Suc k < length as" | "k \<noteq> 0" "Suc k = length as" using k by linarith
  then show "\<exists>aho'. aho_del_match_text aho (ids ! k) = Some (aho', True) \<and> live (texts aho') = live (texts aho) - {as ! k} \<and>
      (if k = 0 \<or> Suc k < length as then text_rep aho' (remove_nth k as) (remove_nth k ids)
       else aho_print_match_text aho' = None)"
  proof cases
    case 1
    moreover have "as ! k < length (texts aho)" using text_nodes_live [OF N] k by simp
    ultimately show ?thesis using del_first [OF assms] k by (auto simp: live_update)
  next
    case 2
    then show ?thesis using del_inner [OF assms 2] by auto
  next
    case 3
    then show ?thesis using del_last [OF assms 3] by auto
  qed
next
  fix i assume "i \<notin> set ids"
  then show "aho_del_match_text aho i = Some (aho, False)"
    using del_loop_absent [of aho as ids i 0] assms by (auto simp: text_rep_def aho_del_match_text_def hd_conv_nth)
qed

theorem aho_del_match_text_cases_witness:
  "\<exists>aho'. aho_del_match_text (aho_init [Some \<lparr>tid = 0, tbuf = [97, 0], tlen = 1, tprev = None, tnext = Some 1\<rparr>,
       Some \<lparr>tid = 1, tbuf = [98, 0], tlen = 1, tprev = Some 0, tnext = None\<rparr>]
     \<lparr>text_list_head := Some 0, text_list_tail := Some 1\<rparr>) 1 = Some (aho', True) \<and> aho_print_match_text aho' = None"
proof -
  let ?aho = "aho_init [Some \<lparr>tid = 0, tbuf = [97, 0], tlen = 1, tprev = None, tnext = Some 1\<rparr>,
       Some \<lparr>tid = 1, tbuf = [98, 0], tlen = 1, tprev = Some 0, tnext = None\<rparr>]\<lparr>text_list_head := Some 0, text_list_tail := Some 1\<rparr>"
  have "text_rep ?aho [0, 1] [0, 1]"
    by (auto simp: text_rep_def text_nodes_def aho_init_def deref_Some less_Suc_eq numeral_2_eq_2)
  from conjunct1 [OF aho_del_match_text_cases [OF this], rule_format, of 1]
  show ?thesis by (simp add: ex_forward)
qed

section \<open>Adding\<close>

lemma text_nodes_snoc:
  fixes x :: aho_text_t
  assumes "text_nodes h as ids" "tid x \<notin> set ids" "tnext x = None" "as \<noteq> [] \<Longrightarrow> tprev x = Some (last as)"
  shows "as = [] \<Longrightarrow> text_nodes (h @ [Some x]) [length h] [tid x]"
    and "as \<noteq> [] \<Longrightarrow> deref h (Some (last as)) = Some y \<Longrightarrow>
      text_nodes (h[last as := Some (y\<lparr>tnext := Some (length h)\<rparr>)] @ [Some x]) (as @ [length h]) (ids @ [tid x])"
proof -
  note N = text_nodesD [OF assms(1)]
  show "as = [] \<Longrightarrow> text_nodes (h @ [Some x]) [length h] [tid x]"
    using assms(3) by (simp add: text_nodes_def deref_alloc)
  assume ne: "as \<noteq> []" and y: "deref h (Some (last as)) = Some y"
  let ?m = "length as - 1" and ?h = "h[last as := Some (y\<lparr>tnext := Some (length h)\<rparr>)] @ [Some x]"
  have m: "?m < length as" "last as = as ! ?m" "Suc ?m = length as" using ne by (simp_all add: last_conv_nth)
  have b: "a \<in> set as \<Longrightarrow> a < length h" for a using text_nodes_live [OF assms(1)] .
  then have fresh: "length h \<notin> set as" "last as < length h" using ne by auto
  have d: "deref ?h (Some a) = (if a = length h then Some x else if a = last as then Some (y\<lparr>tnext := Some (length h)\<rparr>) else deref h (Some a))" for a
    using fresh(2) by (auto simp: deref_alloc deref_update)
  have "\<exists>z. deref ?h (Some ((as @ [length h]) ! k)) = Some z \<and> tid z = (ids @ [tid x]) ! k \<and>
       tnext z = (if Suc k < length (as @ [length h]) then Some ((as @ [length h]) ! Suc k) else None) \<and>
       (k \<noteq> 0 \<longrightarrow> tprev z = Some ((as @ [length h]) ! (k - 1)))" if k: "k < length (as @ [length h])" for k
  proof (cases "k = length as")
    case True
    then show ?thesis using d [of "length h"] assms(3) assms(4) [OF ne] m N(3) by (intro exI [of _ x]) (simp add: nth_append)
  next
    case False
    then have k': "k < length as" using k by simp
    obtain z where z: "deref h (Some (as ! k)) = Some z" "tid z = ids ! k"
      "tnext z = (if Suc k < length as then Some (as ! Suc k) else None)" "k \<noteq> 0 \<longrightarrow> tprev z = Some (as ! (k - 1))"
      using N(4) [OF k'] by blast
    have "as ! k \<noteq> length h" using b [of "as ! k"] k' by simp
    show ?thesis
    proof (cases "k = ?m")
      case True
      then have "z = y" using z(1) y m(2) by simp
      then show ?thesis using True z d [of "as ! k"] m N(3) \<open>as ! k \<noteq> length h\<close>
        by (intro exI [of _ "y\<lparr>tnext := Some (length h)\<rparr>"]) (auto simp: nth_append)
    next
      case no: False
      then have "as ! k \<noteq> last as" using m(1) k' N(1) nth_eq_iff_index_eq [of as k ?m] unfolding m(2) by simp
      then show ?thesis using no k' z d [of "as ! k"] m N(3) \<open>as ! k \<noteq> length h\<close>
        by (intro exI [of _ z]) (auto simp: nth_append)
    qed
  qed
  then show "text_nodes ?h (as @ [length h]) (ids @ [tid x])"
    using N(1-3) fresh(1) assms(2) unfolding text_nodes_def by simp
qed

text \<open>A text that was added is at the end of the list; the others keep their characters.\<close>

lemma add_text_rep:
  assumes "text_rep aho as ids" "accumulate_text_id aho \<notin> set ids" "accumulate_text_id aho \<noteq> AHO_MAX_TEXT_ID"
    "unat (len + 1) \<le> length txt"
  defines "a \<equiv> length (texts aho)"
  shows "\<exists>aho' x. aho_add_match_text True True junk aho txt len = Some (aho', accumulate_text_id aho) \<and>
    text_rep aho' (as @ [a]) (ids @ [accumulate_text_id aho]) \<and> accumulate_text_id aho' = accumulate_text_id aho + 1 \<and>
    live (texts aho') = insert a (live (texts aho)) \<and> callback_match aho' = callback_match aho \<and>
    deref (texts aho') (Some a) = Some x \<and> tbuf x = take (unat (len + 1)) txt \<and> tlen x = sint len \<and>
    (\<forall>b \<in> set as. text_chars (the (deref (texts aho') (Some b))) = text_chars (the (deref (texts aho) (Some b))))"
proof -
  let ?h = "texts aho" and ?i = "accumulate_text_id aho"
  let ?x = "\<lparr>tid = ?i, tbuf = take (unat (len + 1)) txt, tlen = sint len, tprev = None, tnext = None\<rparr>"
  note R = assms(1) [unfolded text_rep_def]
  show ?thesis
  proof (cases "as = []")
    case True
    let ?aho = "aho\<lparr>texts := ?h @ [Some ?x], accumulate_text_id := ?i + 1, text_list_head := Some a, text_list_tail := Some a,
      text_list_len := text_list_len aho + 1\<rparr>"
    have "aho_add_match_text True True junk aho txt len = Some (?aho, ?i)"
      using True R assms(3,4) by (simp add: aho_add_match_text_def a_def Let_def)
    moreover have "ids = []" using True R by (simp add: text_nodes_def)
    then have "text_rep ?aho (as @ [a]) (ids @ [?i])"
      using text_nodes_snoc(1) [of ?h as ids ?x] R True by (simp add: text_rep_def a_def)
    ultimately show ?thesis using True by (intro exI [of _ ?aho] exI [of _ ?x]) (simp add: a_def deref_alloc live_alloc)
  next
    case False
    let ?l = "last as"
    have l: "?l \<in> set as" "?l < length ?h" using False text_nodes_live R by auto
    have ne: "?l \<noteq> a" using l(2) by (simp add: a_def)
    obtain y where y: "deref ?h (Some ?l) = Some y"
      using text_nodesD(4) [OF conjunct1 [OF R], of "length as - 1"] False by (auto simp: last_conv_nth)
    let ?x' = "?x\<lparr>tprev := Some ?l\<rparr>"
    let ?h' = "?h[?l := Some (y\<lparr>tnext := Some a\<rparr>)] @ [Some ?x']"
    let ?aho = "aho\<lparr>texts := ?h', accumulate_text_id := ?i + 1, text_list_tail := Some a, text_list_len := text_list_len aho + 1\<rparr>"
    have s: "store (?h @ [Some ?x]) (Some ?l) (\<lambda>z. z\<lparr>tnext := Some a\<rparr>) = Some (?h[?l := Some (y\<lparr>tnext := Some a\<rparr>)] @ [Some ?x])"
      using y ne l(2) by (simp add: store_def deref_alloc a_def list_update_append)
    have s': "store (?h[?l := Some (y\<lparr>tnext := Some a\<rparr>)] @ [Some ?x]) (Some a) (\<lambda>z. z\<lparr>tprev := Some ?l\<rparr>) = Some ?h'"
      by (simp add: store_def deref_alloc a_def list_update_append)
    have add: "aho_add_match_text True True junk aho txt len = Some (?aho, ?i)"
      using False R assms(3,4) s s' by (simp add: aho_add_match_text_def a_def [symmetric] Let_def)
    have "text_nodes ?h' (as @ [a]) (ids @ [tid ?x'])" unfolding a_def
      using R assms(2) by (intro text_nodes_snoc(2) [OF _ _ _ _ False y]) simp_all
    then have rep: "text_rep ?aho (as @ [a]) (ids @ [?i])" using R False by (simp add: text_rep_def)
    have "live ?h' = insert a (live ?h)"
      using insert_absorb [OF liveI [OF y]] l(2) by (simp add: live_alloc live_update a_def)
    moreover have "text_chars (the (deref ?h' (Some b))) = text_chars (the (deref ?h (Some b)))" if "b \<in> set as" for b
      using that text_nodes_live [OF conjunct1 [OF R] that] y l(2) by (simp add: deref_alloc deref_update text_chars_def)
    ultimately show ?thesis using add rep
      by (intro exI [of _ ?aho] exI [of _ ?x']) (simp add: deref_alloc a_def)
  qed
qed

section \<open>Clearing\<close>

text \<open>Deleting the texts in the order in which they were added frees all of them.\<close>

lemma clear_loop_all:
  "text_rep aho as (map int [k ..< k + length as]) \<Longrightarrow>
    \<exists>aho'. clear_loop [k ..< k + length as] aho = Some aho' \<and> live (texts aho') = live (texts aho) - set as \<and> trie aho' = trie aho"
proof (induction as arbitrary: aho k)
  case Nil
  then show ?case by simp
next
  case (Cons a as)
  let ?ids = "map int [k ..< k + length (a # as)]"
  have up: "[k ..< k + length (a # as)] = k # [Suc k ..< Suc k + length as]" by (subst upt_conv_Cons) simp_all
  obtain aho1 where d: "aho_del_match_text aho (int k) = Some (aho1, True)" "text_rep aho1 as (map int [Suc k ..< Suc k + length as])"
    "texts aho1 = (texts aho)[a := None]" "trie aho1 = trie aho"
    using del_first [OF Cons.prems] unfolding up by (auto simp: remove_nth_def)
  have "a < length (texts aho)" using text_nodes_live [of "texts aho" "a # as" ?ids a] Cons.prems by (simp add: text_rep_def)
  then have "live (texts aho1) = live (texts aho) - {a}" using d(3) by (simp add: live_update)
  moreover obtain aho' where "clear_loop [Suc k ..< Suc k + length as] aho1 = Some aho'" "live (texts aho') = live (texts aho1) - set as" "trie aho' = trie aho1"
    using Cons.IH [OF d(2)] by blast
  ultimately show ?case unfolding up using d(1,4) by auto
qed

end
