(* ===== verification/Aho_Life.thy ===== *)
theory Aho_Life
  imports Aho_Safe Aho_Texts
begin

text \<open>
  A matcher from its initialisation to its end, and a search that goes wrong.
\<close>

section \<open>Adding a list of texts\<close>

text \<open>Contents of memory that is not initialised; it is not read.\<close>

definition no_text :: aho_text_t where
  "no_text = \<lparr>tid = 0, tbuf = [], tlen = 0, tprev = None, tnext = None\<rparr>"

fun add_all :: "uint8_t list list \<Rightarrow> ahocorasick \<Rightarrow> ahocorasick option" where
  "add_all [] aho = Some aho"
| "add_all (u # us) aho = do {
     (aho, i) \<leftarrow> aho_add_match_text True True no_text aho (u @ [0]) (word_of_nat (length u));
     add_all us aho }"

definition holds_words :: "ahocorasick \<Rightarrow> nat list \<Rightarrow> uint8_t list list \<Rightarrow> bool" where
  "holds_words aho as us \<longleftrightarrow> text_rep aho as (map int [0 ..< length as]) \<and> accumulate_text_id aho = int (length as) \<and>
    live (texts aho) = set as \<and> map (\<lambda>a. text_chars (the (deref (texts aho) (Some a)))) as = us"

lemma word_len:
  assumes "length u < 2 ^ 31"
  shows "sint (word_of_nat (length u) :: uint32_t) = int (length u)" "unat (word_of_nat (length u) + 1 :: uint32_t) = Suc (length u)"
proof -
  have "(word_of_nat (length u) + 1 :: uint32_t) = word_of_nat (Suc (length u))" by simp
  then show "unat (word_of_nat (length u) + 1 :: uint32_t) = Suc (length u)" using unat32_of_nat [of "Suc (length u)"] assms by (simp add: add.commute)
  show "sint (word_of_nat (length u) :: uint32_t) = int (length u)"
    using assms by (simp add: signed_of_nat signed_take_bit_int_eq_self)
qed

lemma add_all_rep:
  assumes "\<forall>u \<in> set us. length u < 2 ^ 31"
  shows "holds_words aho as vs \<Longrightarrow> int (length as + length us) \<le> INT_MAX \<Longrightarrow> callback_match aho = cb \<Longrightarrow>
    \<exists>aho' as'. add_all us aho = Some aho' \<and> holds_words aho' as' (vs @ us) \<and> callback_match aho' = cb"
  using assms
proof (induction us arbitrary: aho as vs)
  case Nil
  then show ?case by auto
next
  case (Cons u us)
  let ?a = "length (texts aho)" and ?l = "word_of_nat (length u) :: uint32_t"
  note H = Cons.prems(1) [unfolded holds_words_def]
  have u: "length u < 2 ^ 31" using Cons.prems(4) by simp
  note L = word_len [OF u]
  have acc: "accumulate_text_id aho \<notin> set (map int [0 ..< length as])" "accumulate_text_id aho \<noteq> AHO_MAX_TEXT_ID"
    using H Cons.prems(2) by (auto simp: AHO_MAX_TEXT_ID_def)
  have le: "unat (?l + 1) \<le> length (u @ [0])" using L by simp
  obtain aho' x where a: "aho_add_match_text True True no_text aho (u @ [0]) ?l = Some (aho', accumulate_text_id aho)"
    "text_rep aho' (as @ [?a]) (map int [0 ..< length as] @ [accumulate_text_id aho])" "accumulate_text_id aho' = accumulate_text_id aho + 1"
    "live (texts aho') = insert ?a (live (texts aho))" "callback_match aho' = callback_match aho"
    "deref (texts aho') (Some ?a) = Some x" "tbuf x = take (unat (?l + 1)) (u @ [0])" "tlen x = sint ?l"
    "\<forall>b \<in> set as. text_chars (the (deref (texts aho') (Some b))) = text_chars (the (deref (texts aho) (Some b)))"
    using add_text_rep [OF conjunct1 [OF H] acc le, of no_text] by blast
  have "text_chars x = u" using a(7,8) L by (simp add: text_chars_def)
  then have "holds_words aho' (as @ [?a]) (vs @ [u])"
    using H a(2-4,6,9) by (auto simp: holds_words_def)
  then show ?case using Cons.IH [of aho' "as @ [?a]" "vs @ [u]"] Cons.prems(2-4) a(1,5) by simp
qed

lemma holds_words_init: "holds_words (aho_init []) [] []"
  by (simp add: holds_words_def aho_init_def text_rep_def text_nodes_def live_def)

lemma holds_words_print:
  "holds_words aho as us \<Longrightarrow> \<exists>xs. aho_print_match_text aho = Some xs \<and> words_of xs = us"
  using print_text_rep by (fastforce simp: holds_words_def)

text \<open>C39: a matcher to which texts are added, whose trie is created and which is then destroyed frees every text and every
  node of the trie exactly once, whatever the texts; before that \<open>aho_print_trie\<close> prints each node of the trie exactly once.\<close>

theorem aho_life:
  assumes "\<forall>u \<in> set us. length u < 2 ^ 31" "int (length us) \<le> INT_MAX" "length (prefixes_of us) < 2 ^ 32"
  shows "\<exists>aho xs aho' aho''. add_all us (aho_init []) = Some aho \<and> aho_print_match_text aho = Some xs \<and> words_of xs = us \<and>
    aho_create_trie aho = Some aho' \<and>
    (\<exists>ps. aho_print_trie (trie aho') = Some (map (\<lambda>p. node_line p (nd (trie aho') p)) ps) \<and> distinct ps \<and> set ps = live (trie aho')) \<and>
    aho_destroy aho' = Some aho'' \<and> live (texts aho'') = {} \<and> live (trie aho'') = {0}"
proof -
  obtain aho as where aho: "add_all us (aho_init []) = Some aho" "holds_words aho as us"
    using add_all_rep [OF assms(1) holds_words_init] assms(2) by auto
  then obtain xs where xs: "aho_print_match_text aho = Some xs" "words_of xs = us" using holds_words_print by blast
  obtain t w m where t: "aho_create_trie aho = Some (aho\<lparr>trie := t\<rparr>)" "conn w m {..<length t} t" "length t < 2 ^ 32"
    using create_trie_rep [OF xs(1)] xs(2) assms(3) by (auto simp: fits_def)
  let ?aho = "aho\<lparr>trie := t\<rparr>"
  have "text_rep ?aho as (map int [0 ..< 0 + length as])" using aho(2) by (simp add: holds_words_def text_rep_def)
  then obtain aho1 where c: "clear_loop [0 ..< length as] ?aho = Some aho1" "live (texts aho1) = live (texts aho) - set as" "trie aho1 = t"
    using clear_loop_all [of ?aho as 0] by auto
  obtain t' where t': "aho_clean_trie_node t = Some t'" "live t' = {0}" using clean_trie_rep [OF connD(1) [OF t(2)] t(3)] by blast
  have "aho_destroy ?aho = Some (aho1\<lparr>accumulate_text_id := 0, trie := t'\<rparr>)"
    using c t'(1) aho(2) by (simp add: aho_destroy_def aho_clear_match_text_def holds_words_def aho_clear_trie_def aho_destroy_trie_def)
  moreover have "live t = {..<length t}" using trie_repD(5) [OF connD(1) [OF t(2)]] by (auto simp: in_live_iff dest: deref_bound)
  moreover have "live (texts aho1) = {}" using c(2) aho(2) by (simp add: holds_words_def)
  ultimately show ?thesis using aho(1) xs t(1) t'(2) print_trie_rep [OF connD(1) [OF t(2)] t(3)]
    by (intro exI [of _ aho] exI [of _ xs] exI [of _ ?aho] exI [of _ "aho1\<lparr>accumulate_text_id := 0, trie := t'\<rparr>"]) simp
qed

theorem aho_life_witness:
  "\<exists>aho aho' aho''. add_all [[97, 98], [98]] (aho_init []) = Some aho \<and> aho_create_trie aho = Some aho' \<and>
     aho_destroy aho' = Some aho'' \<and> live (texts aho'') = {} \<and> live (trie aho'') = {0}"
  using aho_life [of "[[97, 98], [98]]"] by (fastforce simp: INT_MAX_def prefixes_of_def)

section \<open>A wrong match\<close>

text \<open>Adding texts, creating the trie and searching, with a callback.\<close>

definition search :: "uint8_t list list \<Rightarrow> uint8_t list \<Rightarrow> (uint32_t \<times> aho_match_t list) option" where
  "search us data = do {
     aho \<leftarrow> add_all us (aho_register_match_callback (aho_init []) (Some 0) None);
     aho \<leftarrow> aho_create_trie aho;
     aho_findtext aho data (word_of_nat (length data)) }"


end
