(* ===== verification/Kmp.thy ===== *)
theory Kmp
  imports Prelude Aho_Words "HOL-Library.Monad_Syntax"
begin

text \<open>
  The string search of \<open>c-study/str_match/kmp/kmp_test.c\<close>: the table \<open>next\<close> of the pattern and the search. An access
  outside an array gives \<open>None\<close>.
\<close>

section \<open>Model\<close>

text \<open>The \<open>while\<close> loop, the same in both functions: back along \<open>next\<close> until the character \<open>c\<close> follows.\<close>

partial_function (option) kmp_back :: "uint8_t list \<Rightarrow> int list \<Rightarrow> int \<Rightarrow> uint8_t \<Rightarrow> int option" where
  [code]: "kmp_back p nxt k c =
    (if k > -1
     then do {
       x \<leftarrow> rd p (k + 1);
       if x \<noteq> c then do { k \<leftarrow> rd nxt k; kmp_back p nxt k c } else Some k }
     else Some k)"

text \<open>The loop and the \<open>if\<close> after it.\<close>

definition kmp_advance :: "uint8_t list \<Rightarrow> int list \<Rightarrow> int \<Rightarrow> uint8_t \<Rightarrow> int option" where
  "kmp_advance p nxt k c = do {
     k \<leftarrow> kmp_back p nxt k c;
     x \<leftarrow> rd p (k + 1);
     Some (if x = c then k + 1 else k) }"

fun cal_next_loop :: "uint8_t list \<Rightarrow> nat list \<Rightarrow> int \<Rightarrow> int list \<Rightarrow> int list option" where
  "cal_next_loop p [] k nxt = Some nxt"
| "cal_next_loop p (q # qs) k nxt = do {
     c \<leftarrow> rd p (int q);
     k \<leftarrow> kmp_advance p nxt k c;
     nxt \<leftarrow> wr nxt (int q) k;
     cal_next_loop p qs k nxt }"

definition cal_next :: "uint8_t list \<Rightarrow> int list \<Rightarrow> int \<Rightarrow> int list option" where
  "cal_next str nxt len = do {
     nxt \<leftarrow> wr nxt 0 (-1);
     cal_next_loop str [1 ..< nat len] (-1) nxt }"

fun KMP_loop :: "uint8_t list \<Rightarrow> uint8_t list \<Rightarrow> int \<Rightarrow> int list \<Rightarrow> int \<Rightarrow> nat list \<Rightarrow> int option" where
  "KMP_loop str p plen nxt k [] = Some (-1)"
| "KMP_loop str p plen nxt k (i # is) = do {
     c \<leftarrow> rd str (int i);
     k \<leftarrow> kmp_advance p nxt k c;
     if k = plen - 1 then Some (int i - plen + 1) else KMP_loop str p plen nxt k is }"

text \<open>
  \<open>mem\<close> is the array that \<open>malloc\<close> gives, with arbitrary contents, or none; its result is not tested. The second
  component of the result is the table that is printed.
\<close>

definition KMP :: "int list option \<Rightarrow> uint8_t list \<Rightarrow> int \<Rightarrow> uint8_t list \<Rightarrow> int \<Rightarrow> (int \<times> int list) option" where
  "KMP mem str slen p plen = do {
     nxt \<leftarrow> mem;
     nxt \<leftarrow> cal_next p nxt plen;
     r \<leftarrow> KMP_loop str p plen nxt (-1) [0 ..< nat slen];
     Some (r, nxt) }"

section \<open>The prefixes of the pattern\<close>

definition pre :: "uint8_t list \<Rightarrow> uint8_t list set" where
  "pre p = {u. prefix u p}"

lemma pre_props: "[] \<in> pre p" "prefix_closed (pre p)"
  by (auto simp: pre_def prefix_closed_def dest: append_prefixD)

lemma in_pre: "u \<in> pre p \<longleftrightarrow> length u \<le> length p \<and> u = take (length u) p"
  by (auto simp: pre_def prefix_def take_is_prefix dest: prefix_length_le) (metis append_take_drop_id)

lemma pre_snoc: "j \<le> length p \<Longrightarrow> take j p @ [c] \<in> pre p \<longleftrightarrow> j < length p \<and> p ! j = c"
  by (auto simp: in_pre take_Suc_conv_app_nth)

text \<open>The border of the prefix of length \<open>j\<close>: its longest proper suffix that is a prefix.\<close>

definition border :: "uint8_t list \<Rightarrow> nat \<Rightarrow> nat" where
  "border p j = length (lsuf (pre p) (tl (take j p)))"

lemma lsuf_pre_take: "lsuf (pre p) u = take (length (lsuf (pre p) u)) p" "length (lsuf (pre p) u) \<le> length p"
  using lsuf_in [OF pre_props(1), of p u] by (simp_all add: in_pre)

lemma border_less: "0 < j \<Longrightarrow> j \<le> length p \<Longrightarrow> border p j < j"
  using length_lsuf [of "pre p" "tl (take j p)"] by (simp add: border_def)

text \<open>The table is right up to \<open>n\<close>.\<close>

definition table_ok :: "uint8_t list \<Rightarrow> int list \<Rightarrow> nat \<Rightarrow> bool" where
  "table_ok p nxt n \<longleftrightarrow> n \<le> length p \<and> length nxt = length p \<and> (\<forall>j < n. nxt ! j = int (border p (Suc j)) - 1)"

lemma kmp_advance_lsuf:
  "table_ok p nxt j \<Longrightarrow> j < length p \<Longrightarrow> w = take j p \<Longrightarrow>
    kmp_advance p nxt (int j - 1) c = Some (int (length (lsuf (pre p) (w @ [c]))) - 1)"
proof (induction j arbitrary: w rule: less_induct)
  case (less j)
  let ?k = "int j - 1"
  have p: "rd p (?k + 1) = Some (p ! j)" using less.prems(2) by (simp add: rd_def)
  show ?case
  proof (cases "p ! j = c")
    case True
    then have "w @ [c] \<in> pre p" using pre_snoc [of j p c] less.prems by simp
    then have "lsuf (pre p) (w @ [c]) = w @ [c]" by (rule lsuf_self)
    moreover have "kmp_back p nxt ?k c = Some ?k" using p True by (subst kmp_back.simps) simp
    ultimately show ?thesis using p True less.prems by (simp add: kmp_advance_def)
  next
    case False
    then have no: "w @ [c] \<notin> pre p" using pre_snoc [of j p c] less.prems by simp
    show ?thesis
    proof (cases "j = 0")
      case True
      then have "kmp_back p nxt ?k c = Some ?k" by (subst kmp_back.simps) simp
      then show ?thesis using p False True no less.prems(3) by (simp add: kmp_advance_def)
    next
      case j: False
      let ?b = "border p j"
      have b: "?b < j" using border_less j less.prems(2) by simp
      have "rd nxt ?k = Some (int ?b - 1)" using less.prems(1,2) j by (simp add: table_ok_def rd_def nat_diff_distrib)
      then have "kmp_back p nxt ?k c = kmp_back p nxt (int ?b - 1) c"
        using p False j by (subst kmp_back.simps) simp
      then have "kmp_advance p nxt ?k c = kmp_advance p nxt (int ?b - 1) c" by (simp add: kmp_advance_def)
      also have "\<dots> = Some (int (length (lsuf (pre p) (take ?b p @ [c]))) - 1)"
        using less.IH [OF b _ _ refl] b less.prems(1,2) by (simp add: table_ok_def)
      also have "take ?b p = lsuf (pre p) (tl w)" using lsuf_pre_take(1) [of p "tl w"] less.prems(3) by (simp add: border_def)
      also have "lsuf (pre p) (lsuf (pre p) (tl w) @ [c]) = lsuf (pre p) (w @ [c])"
        using lsuf_step [OF pre_props(2) no] j less.prems(2,3) by (cases p) simp_all
      finally show ?thesis .
    qed
  qed
qed

lemma kmp_advance_word:
  assumes "table_ok p nxt n" "length (lsuf (pre p) u) \<le> n" "length (lsuf (pre p) u) < length p"
  shows "kmp_advance p nxt (int (length (lsuf (pre p) u)) - 1) c = Some (int (length (lsuf (pre p) (u @ [c]))) - 1)"
proof -
  let ?j = "length (lsuf (pre p) u)"
  have "table_ok p nxt ?j" using assms by (simp add: table_ok_def)
  then show ?thesis
    using kmp_advance_lsuf [OF _ assms(3) lsuf_pre_take(1), of nxt c] lsuf_snoc [OF pre_props(2), of p u c] by simp
qed

section \<open>The table\<close>

lemma cal_next_loop_ok:
  "table_ok p nxt q \<Longrightarrow> 0 < q \<Longrightarrow> q \<le> length p \<Longrightarrow>
    \<exists>nxt'. cal_next_loop p [q ..< length p] (int (border p q) - 1) nxt = Some nxt' \<and> table_ok p nxt' (length p)"
proof (induction "length p - q" arbitrary: q nxt)
  case 0
  then show ?case by simp
next
  case (Suc m)
  then have q: "q < length p" by simp
  let ?u = "tl (take q p)" and ?c = "p ! q" and ?k = "int (border p (Suc q)) - 1"
  have b: "length (lsuf (pre p) ?u) < q" using border_less Suc.prems q by (simp add: border_def)
  have "take q p \<noteq> []" using q Suc.prems(2) by (cases p) auto
  then have u: "?u @ [?c] = tl (take (Suc q) p)" using q by (simp add: take_Suc_conv_app_nth tl_append2)
  have "kmp_advance p nxt (int (border p q) - 1) ?c = Some ?k"
    using kmp_advance_word [OF Suc.prems(1), of ?u ?c] b q u by (simp add: border_def)
  moreover have "wr nxt (int q) ?k = Some (nxt[q := ?k])" "rd p (int q) = Some ?c"
    using Suc.prems(1) q by (simp_all add: wr_def rd_def table_ok_def)
  moreover have "table_ok p (nxt[q := ?k]) (Suc q)"
    using Suc.prems(1) q by (auto simp: table_ok_def nth_list_update less_Suc_eq)
  moreover have "[q ..< length p] = q # [Suc q ..< length p]" using q by (simp add: upt_conv_Cons)
  ultimately show ?case using Suc(1) [of "Suc q" "nxt[q := ?k]"] Suc(2) q by simp
qed

lemma cal_next_ok:
  assumes "p \<noteq> []" "length nxt = length p"
  shows "cal_next p nxt (int (length p)) = Some (map (\<lambda>j. int (border p (Suc j)) - 1) [0 ..< length p])"
proof -
  have b: "border p 1 = 0" using assms(1) by (cases p) (simp_all add: border_def)
  have "table_ok p (nxt[0 := -1]) 1" using assms b by (cases p) (simp_all add: table_ok_def)
  then obtain nxt' where "cal_next_loop p [1 ..< length p] (-1) (nxt[0 := -1]) = Some nxt'" "table_ok p nxt' (length p)"
    using cal_next_loop_ok [of p "nxt[0 := -1]" 1] assms(1) b by (cases p) auto
  moreover have "nxt' = map (\<lambda>j. int (border p (Suc j)) - 1) [0 ..< length p]"
    using calculation(2) by (intro nth_equalityI) (simp_all add: table_ok_def)
  moreover have "wr nxt 0 (-1) = Some (nxt[0 := -1])" using assms by (simp add: wr_def)
  ultimately show ?thesis by (simp add: cal_next_def)
qed

section \<open>The search\<close>

definition occurs :: "uint8_t list \<Rightarrow> uint8_t list \<Rightarrow> nat \<Rightarrow> bool" where
  "occurs p str j \<longleftrightarrow> take (length p) (drop j str) = p"

text \<open>The pattern occurs at \<open>j\<close> when it ends what has been read after \<open>j + length p\<close> characters.\<close>

lemma occurs_suffix:
  assumes "i \<le> length str" "length p \<le> i"
  shows "occurs p str (i - length p) \<longleftrightarrow> suffix p (take i str)"
proof -
  have "take (length p) (drop (i - length p) str) = drop (i - length p) (take i str)" using assms by (simp add: drop_take)
  moreover have "p = drop (i - length p) (take i str)" if "suffix p (take i str)"
  proof -
    obtain zs where zs: "take i str = zs @ p" using \<open>suffix p (take i str)\<close> by (auto simp: suffix_def)
    have "length zs = i - length p" using arg_cong [OF zs, of length] assms unfolding length_append length_take by simp
    then show ?thesis using zs by simp
  qed
  moreover have "suffix p (take i str)" if "p = drop (i - length p) (take i str)"
    using suffix_drop [of "i - length p" "take i str"] that by simp
  ultimately show ?thesis unfolding occurs_def by auto
qed

lemma lsuf_whole: "length (lsuf (pre p) u) = length p \<longleftrightarrow> suffix p u"
proof
  assume "length (lsuf (pre p) u) = length p"
  then have "lsuf (pre p) u = p" using lsuf_pre_take(1) [of p u] by simp
  then show "suffix p u" using lsuf_suffix [of "pre p" u] by simp
next
  assume "suffix p u"
  then show "length (lsuf (pre p) u) = length p"
  proof (induction u)
    case (Cons x u)
    show ?case
    proof (cases "x # u \<in> pre p")
      case True
      then show ?thesis using Cons.prems suffix_length_le [OF Cons.prems] by (auto simp: in_pre)
    next
      case False
      then have "suffix p u" using Cons.prems by (auto simp: suffix_Cons pre_def)
      then show ?thesis using Cons.IH False by simp
    qed
  qed simp
qed

lemma KMP_loop_ok:
  assumes "table_ok p nxt (length p)" "p \<noteq> []"
  shows "i \<le> length str \<Longrightarrow> (\<And>i'. i' \<le> i \<Longrightarrow> \<not> suffix p (take i' str)) \<Longrightarrow>
    \<exists>r. KMP_loop str p (int (length p)) nxt (int (length (lsuf (pre p) (take i str))) - 1) [i ..< length str] = Some r \<and>
      (if r = -1 then \<forall>i' \<le> length str. \<not> suffix p (take i' str)
       else \<exists>e \<le> length str. r = int e - int (length p) \<and> suffix p (take e str) \<and> (\<forall>i' < e. \<not> suffix p (take i' str)))"
proof (induction "length str - i" arbitrary: i)
  case 0
  then show ?case by simp
next
  case (Suc m)
  then have i: "i < length str" by simp
  let ?u = "take i str" and ?c = "str ! i"
  have u: "?u @ [?c] = take (Suc i) str" using i by (simp add: take_Suc_conv_app_nth)
  have l: "length (lsuf (pre p) ?u) < length p"
    using lsuf_whole [of p ?u] lsuf_pre_take(2) [of p ?u] Suc.prems(2) [of i] by simp
  then have a: "kmp_advance p nxt (int (length (lsuf (pre p) ?u)) - 1) ?c = Some (int (length (lsuf (pre p) (take (Suc i) str))) - 1)"
    using kmp_advance_word [OF assms(1), of ?u ?c] u by simp
  have s: "[i ..< length str] = i # [Suc i ..< length str]" "rd str (int i) = Some ?c" using i by (simp_all add: upt_conv_Cons rd_def)
  show ?case
  proof (cases "suffix p (take (Suc i) str)")
    case True
    have "length p \<le> Suc i" using suffix_length_le [OF True] by simp
    then have "int i - int (length p) + 1 \<noteq> -1" by linarith
    then show ?thesis using True a s lsuf_whole [of p "take (Suc i) str"] i Suc.prems(2)
      by (auto intro!: exI [of _ "Suc i"])
  next
    case False
    then have "\<not> suffix p (take i' str)" if "i' \<le> Suc i" for i' using that Suc.prems(2) [of i'] by (cases "i' = Suc i") auto
    then show ?thesis using Suc(1) [of "Suc i"] Suc(2) i a s False lsuf_whole [of p "take (Suc i) str"] by simp
  qed
qed

text \<open>C12: for a pattern that is not empty \<open>KMP\<close> returns the first position at which the pattern occurs, and -1 when it
  does not occur; the table it prints holds the length of the border of each prefix, less one. For an empty pattern it
  writes outside the table.\<close>

theorem KMP_correct:
  assumes "length nxt = length p"
  shows "if p = [] then KMP (Some nxt) str (int (length str)) p (int (length p)) = None
    else \<exists>r. KMP (Some nxt) str (int (length str)) p (int (length p)) =
        Some (r, map (\<lambda>j. int (border p (Suc j)) - 1) [0 ..< length p]) \<and>
      (if \<exists>j. occurs p str j then r = int (LEAST j. occurs p str j) else r = -1)"
proof (cases "p = []")
  case True
  then show ?thesis using assms by (simp add: KMP_def cal_next_def wr_def)
next
  case False
  let ?t = "map (\<lambda>j. int (border p (Suc j)) - 1) [0 ..< length p]"
  have "table_ok p ?t (length p)" by (simp add: table_ok_def)
  then obtain r where r: "KMP_loop str p (int (length p)) ?t (-1) [0 ..< length str] = Some r"
    "if r = -1 then \<forall>i' \<le> length str. \<not> suffix p (take i' str)
     else \<exists>e \<le> length str. r = int e - int (length p) \<and> suffix p (take e str) \<and> (\<forall>i' < e. \<not> suffix p (take i' str))"
    using KMP_loop_ok [of p ?t 0 str] False by auto
  have occ: "j + length p \<le> length str \<and> suffix p (take (j + length p) str)" if "occurs p str j" for j
  proof -
    have "length p = min (length p) (length str - j)" using arg_cong [OF that [unfolded occurs_def], of length] by simp
    then have "j + length p \<le> length str" using False by (cases "j \<le> length str") (auto simp: min_def split: if_splits)
    then show ?thesis using occurs_suffix [of "j + length p" str p] that by simp
  qed
  have "if \<exists>j. occurs p str j then r = int (LEAST j. occurs p str j) else r = -1"
  proof (cases "r = -1")
    case True
    then show ?thesis using r(2) occ by auto
  next
    case ne: False
    then obtain e where e: "e \<le> length str" "r = int e - int (length p)" "suffix p (take e str)" "\<forall>i' < e. \<not> suffix p (take i' str)"
      using r(2) by auto
    have le: "length p \<le> e" using suffix_length_le [OF e(3)] by simp
    have o: "occurs p str (e - length p)" using occurs_suffix [OF e(1) le] e(3) by simp
    moreover have "e - length p \<le> j" if "occurs p str j" for j
    proof (rule ccontr)
      assume "\<not> e - length p \<le> j"
      then have "j + length p < e" by linarith
      then show False using e(4) occ [OF that] by blast
    qed
    ultimately have "(LEAST j. occurs p str j) = e - length p" by (intro Least_equality)
    then show ?thesis using o e(2) le by auto
  qed
  moreover have "KMP (Some nxt) str (int (length str)) p (int (length p)) = Some (r, ?t)"
    using cal_next_ok [OF False assms] r(1) by (simp add: KMP_def)
  ultimately show ?thesis using False by simp
qed

theorem KMP_correct_witness:
  "\<exists>r. KMP (Some [7, 7]) [97, 97, 98] 3 [97, 98] 2 = Some (r, map (\<lambda>j. int (border [97, 98] (Suc j)) - 1) [0 ..< 2]) \<and>
     (if \<exists>j. occurs [97, 98] [97, 97, 98] j then r = int (LEAST j. occurs [97, 98] [97, 97, 98] j) else r = -1)"
  using KMP_correct [of "[7, 7]" "[97, 98]" "[97, 97, 98]"] by (simp add: numeral_2_eq_2)

end
