(* ===== verification/Dlinks.thy ===== *)
theory Dlinks
  imports Heap
begin

text \<open>
  Doubly linked nodes in a heap, whatever the other fields of a node are: how segments are composed, and which updates
  of the two links leave them intact.
\<close>

locale dlinks =
  fixes nxt :: "'n \<Rightarrow> nat ptr" and prv :: "'n \<Rightarrow> nat ptr"
    and set_nxt :: "nat ptr \<Rightarrow> 'n \<Rightarrow> 'n" and set_prv :: "nat ptr \<Rightarrow> 'n \<Rightarrow> 'n"
  assumes nxt_set_nxt [simp]: "nxt (set_nxt p x) = p"
    and prv_set_nxt [simp]: "prv (set_nxt p x) = prv x"
    and nxt_set_prv [simp]: "nxt (set_prv p x) = nxt x"
    and prv_set_prv [simp]: "prv (set_prv p x) = p"
begin

text \<open>
  The nodes \<open>as\<close> are linked in both directions. The link back from the first one and the link forward from the last
  one are left open, so that segments can be joined at a node.
\<close>

fun seg :: "'n heap \<Rightarrow> nat list \<Rightarrow> bool" where
  "seg h [] \<longleftrightarrow> True"
| "seg h [a] \<longleftrightarrow> (\<exists>x. deref h (Some a) = Some x)"
| "seg h (a # b # as) \<longleftrightarrow> (\<exists>x y. deref h (Some a) = Some x \<and> deref h (Some b) = Some y \<and>
     nxt x = Some b \<and> prv y = Some a) \<and> seg h (b # as)"

lemma seg_live: "seg h as \<Longrightarrow> a \<in> set as \<Longrightarrow> \<exists>x. deref h (Some a) = Some x"
  by (induction h as rule: seg.induct) auto

lemma seg_split: "seg h (us @ a # vs) \<longleftrightarrow> seg h (us @ [a]) \<and> seg h (a # vs)"
proof (induction us rule: induct_list012)
  case 1
  then show ?case by (cases vs) auto
qed auto

lemma seg_other: "(\<And>a. a \<in> set as \<Longrightarrow> deref h' (Some a) = deref h (Some a)) \<Longrightarrow> seg h' as \<longleftrightarrow> seg h as"
  by (induction h as rule: seg.induct) auto

text \<open>The end of a segment may get another successor, and its beginning another predecessor.\<close>

lemma seg_end:
  assumes "seg h (us @ [a])" "a \<notin> set us" "deref h (Some a) = Some x" "deref h' (Some a) = Some x'" "prv x' = prv x"
    "\<And>b. b \<in> set us \<Longrightarrow> deref h' (Some b) = deref h (Some b)"
  shows "seg h' (us @ [a])"
proof (cases us rule: rev_cases)
  case Nil
  then show ?thesis using assms(4) by simp
next
  case (snoc ws u)
  have "seg h (ws @ [u])" "seg h [u, a]" using assms(1) seg_split [of h ws u "[a]"] snoc by simp_all
  moreover have "seg h' (ws @ [u]) \<longleftrightarrow> seg h (ws @ [u])" using assms(6) snoc by (intro seg_other) auto
  moreover have "deref h' (Some u) = deref h (Some u)" using assms(6) snoc by simp
  ultimately have "seg h' (ws @ [u])" "seg h' [u, a]" using assms(3-5) by auto
  then show ?thesis using seg_split [of h' ws u "[a]"] snoc by simp
qed

lemma seg_begin:
  assumes "seg h (b # vs)" "b \<notin> set vs" "deref h (Some b) = Some y" "deref h' (Some b) = Some y'" "nxt y' = nxt y"
    "\<And>a. a \<in> set vs \<Longrightarrow> deref h' (Some a) = deref h (Some a)"
  shows "seg h' (b # vs)"
proof (cases vs)
  case (Cons v ws)
  have "seg h' (v # ws) \<longleftrightarrow> seg h (v # ws)" using assms(6) Cons by (intro seg_other) auto
  then show ?thesis using assms Cons by auto
qed (use assms(4) in simp)

text \<open>A list: distinct nodes, and no successor of the last one.\<close>

definition chain :: "'n heap \<Rightarrow> nat list \<Rightarrow> bool" where
  "chain h as \<longleftrightarrow> as \<noteq> [] \<and> distinct as \<and> seg h as \<and> (\<exists>x. deref h (Some (last as)) = Some x \<and> nxt x = None)"

lemma chain_node: "chain h as \<Longrightarrow> a \<in> set as \<Longrightarrow> \<exists>x. deref h (Some a) = Some x"
  using seg_live by (auto simp: chain_def)

lemma chain_split:
  assumes "chain h (us @ a # vs)"
  shows "distinct (us @ a # vs)" "seg h (us @ [a])" "seg h (a # vs)"
    "\<exists>x. deref h (Some (last (a # vs))) = Some x \<and> nxt x = None"
  using assms seg_split [of h us a vs] by (simp_all add: chain_def)

lemma chain_next:
  assumes "chain h (us @ a # vs)" "deref h (Some a) = Some x"
  shows "nxt x = (if vs = [] then None else Some (hd vs))"
  using chain_split(3,4) [OF assms(1)] assms(2) by (cases vs) auto

lemma chain_prev:
  assumes "chain h (us @ a # b # vs)" "deref h (Some b) = Some y"
  shows "prv y = Some a"
  using chain_split(3) [OF assms(1)] assms(2) by auto

text \<open>A new node \<open>n\<close> behind \<open>a\<close>.\<close>

lemma chain_insert:
  assumes "chain h (us @ a # vs)" "n \<notin> set (us @ a # vs)"
    "deref h (Some a) = Some x" "deref h' (Some a) = Some (set_nxt (Some n) x)"
    "deref h' (Some n) = Some z" "prv z = Some a" "nxt z = (if vs = [] then None else Some (hd vs))"
    "\<And>y. vs \<noteq> [] \<Longrightarrow> deref h (Some (hd vs)) = Some y \<Longrightarrow> deref h' (Some (hd vs)) = Some (set_prv (Some n) y)"
    "\<And>b. b \<in> set us \<union> set (tl vs) \<Longrightarrow> deref h' (Some b) = deref h (Some b)"
  shows "chain h' (us @ a # n # vs)"
proof -
  have d: "distinct (us @ a # vs)" and s: "seg h (us @ [a])" "seg h (a # vs)"
    and e: "\<exists>x. deref h (Some (last (a # vs))) = Some x \<and> nxt x = None" using chain_split [OF assms(1)] .
  have l: "seg h' (us @ [a])" using d assms(9) by (intro seg_end [OF s(1) _ assms(3,4)]) auto
  show ?thesis
  proof (cases vs)
    case Nil
    then have "seg h' (a # [n])" using assms(4-6) by simp
    then show ?thesis using l d assms(2,5,7) Nil seg_split [of h' us a "[n]"] by (auto simp: chain_def)
  next
    case (Cons b ws)
    then obtain y where y: "deref h (Some b) = Some y" "seg h (b # ws)" using s(2) by auto
    then have y': "deref h' (Some b) = Some (set_prv (Some n) y)" using assms(8) [of y] Cons by simp
    have "seg h' (b # ws)" using y y' d Cons assms(9) by (intro seg_begin [OF y(2) _ y(1) y']) auto
    then have "seg h' (a # n # b # ws)" using assms(4-7) y' Cons by auto
    moreover have "\<exists>x. deref h' (Some (last (b # ws))) = Some x \<and> nxt x = None"
      using e assms(9) [of "last ws"] y(1) y' Cons by (cases "ws = []") auto
    ultimately show ?thesis using l d assms(2) Cons seg_split [of h' us a "n # vs"] by (auto simp: chain_def)
  qed
qed

text \<open>Taking out the node \<open>n\<close> behind \<open>a\<close>.\<close>

lemma chain_remove:
  assumes "chain h (us @ a # n # vs)" "deref h (Some a) = Some x"
    "deref h' (Some a) = Some (set_nxt (if vs = [] then None else Some (hd vs)) x)"
    "\<And>y. vs \<noteq> [] \<Longrightarrow> deref h (Some (hd vs)) = Some y \<Longrightarrow> deref h' (Some (hd vs)) = Some (set_prv (Some a) y)"
    "\<And>b. b \<in> set us \<union> set (tl vs) \<Longrightarrow> deref h' (Some b) = deref h (Some b)"
  shows "chain h' (us @ a # vs)"
proof -
  have d: "distinct (us @ a # n # vs)" and s: "seg h (us @ [a])" "seg h (n # vs)"
    and e: "\<exists>x. deref h (Some (last (a # n # vs))) = Some x \<and> nxt x = None"
    using chain_split [OF assms(1)] by (auto split: if_splits)
  have l: "seg h' (us @ [a])" using d assms(5) by (intro seg_end [OF s(1) _ assms(2,3)]) auto
  show ?thesis
  proof (cases vs)
    case Nil
    then show ?thesis using l d assms(3) by (auto simp: chain_def)
  next
    case (Cons b ws)
    then obtain y where y: "deref h (Some b) = Some y" "seg h (b # ws)" using s(2) by auto
    then have y': "deref h' (Some b) = Some (set_prv (Some a) y)" using assms(4) [of y] Cons by simp
    have "seg h' (b # ws)" using y y' d Cons assms(5) by (intro seg_begin [OF y(2) _ y(1) y']) auto
    then have "seg h' (a # b # ws)" using assms(3) y' Cons by auto
    moreover have "\<exists>x. deref h' (Some (last (b # ws))) = Some x \<and> nxt x = None"
      using e assms(5) [of "last ws"] y(1) y' Cons by (cases "ws = []") auto
    ultimately show ?thesis using l d Cons seg_split [of h' us a vs] by (auto simp: chain_def)
  qed
qed

end

end
