(* ===== verification/Dllist.thy ===== *)
theory Dllist
  imports Dlinks
begin

text \<open>
  The doubly linked list of \<open>c-study/dllist/list_01/list.c\<close>: a header node and behind it the nodes of the list, each with a
  pointer to an element. \<open>None\<close> is an access through a null or dangling pointer, or a call that does not return.
\<close>

record node_t =
  nelem :: "nat ptr"
  nprev :: "nat ptr"
  nnext :: "nat ptr"

interpretation dl: dlinks nnext nprev "\<lambda>p x. x\<lparr>nnext := p\<rparr>" "\<lambda>p x. x\<lparr>nprev := p\<rparr>"
  by unfold_locales simp_all

text \<open>\<open>mem\<close> says whether \<open>malloc\<close> succeeds; the element of the header is what was in memory.\<close>

definition init_list :: "bool \<Rightarrow> nat ptr \<Rightarrow> node_t heap \<Rightarrow> node_t heap \<times> nat ptr \<times> int" where
  "init_list mem junk h = (if \<not> mem then (h, None, 0)
     else (h @ [Some \<lparr>nelem = junk, nprev = None, nnext = None\<rparr>], Some (length h), 1))"

text \<open>\<open>eh\<close> is the heap of the elements.\<close>

partial_function (option) destroy_walk :: "unit heap \<Rightarrow> node_t heap \<Rightarrow> nat ptr \<Rightarrow> (unit heap \<times> node_t heap) option" where
  [code]: "destroy_walk eh h p = (if p = None then Some (eh, h)
     else do {
       x \<leftarrow> deref h p;
       eh \<leftarrow> release eh (nelem x);
       h \<leftarrow> release h p;
       destroy_walk eh h (nnext x) })"

definition destroy_list :: "unit heap \<Rightarrow> node_t heap \<Rightarrow> nat ptr \<Rightarrow> (unit heap \<times> node_t heap \<times> nat ptr \<times> int) option" where
  "destroy_list eh h list = (if list = None then Some (eh, h, list, -1)
     else do {
       x \<leftarrow> deref h list;
       (eh, h) \<leftarrow> destroy_walk eh h (nnext x);
       h \<leftarrow> release h list;
       Some (eh, h, None, 1) })"

partial_function (option) clear_walk :: "node_t heap \<Rightarrow> nat ptr \<Rightarrow> node_t heap option" where
  [code]: "clear_walk h p = (if p = None then Some h
     else do {
       x \<leftarrow> deref h p;
       h \<leftarrow> release h p;
       clear_walk h (nnext x) })"

definition clear_list :: "node_t heap \<Rightarrow> nat ptr \<Rightarrow> (node_t heap \<times> int) option" where
  "clear_list h list = (if list = None then Some (h, -1)
     else do {
       x \<leftarrow> deref h list;
       h \<leftarrow> clear_walk h (nnext x);
       h \<leftarrow> store h list (\<lambda>x. x\<lparr>nnext := None, nprev := None\<rparr>);
       Some (h, 1) })"

definition list_empty :: "node_t heap \<Rightarrow> nat ptr \<Rightarrow> int option" where
  "list_empty h list = (if list = None then Some (-1)
     else do {
       x \<leftarrow> deref h list;
       Some (if nnext x = None \<and> nprev x = None then 1 else 0) })"

partial_function (option) length_walk :: "node_t heap \<Rightarrow> nat ptr \<Rightarrow> int \<Rightarrow> int option" where
  [code]: "length_walk h p i = (if p = None then Some i
     else if i = INT_MAX then None
     else do { x \<leftarrow> deref h p; length_walk h (nnext x) (i + 1) })"

definition list_length :: "node_t heap \<Rightarrow> nat ptr \<Rightarrow> int option" where
  "list_length h list = (if list = None then Some (-1)
     else do { x \<leftarrow> deref h list; length_walk h (nnext x) 0 })"

text \<open>The loop \<open>while (p != NULL && j != i) j++;\<close> of \<open>get_element\<close>.\<close>

partial_function (option) get_wait :: "nat ptr \<Rightarrow> int \<Rightarrow> int \<Rightarrow> int option" where
  [code]: "get_wait p j i = (if p \<noteq> None \<and> j \<noteq> i
     then (if j = INT_MAX then None else get_wait p (j + 1) i)
     else Some j)"

text \<open>The second component is what is stored through \<open>e\<close>, if anything.\<close>

definition get_element :: "node_t heap \<Rightarrow> nat ptr \<Rightarrow> int \<Rightarrow> (int \<times> nat ptr option) option" where
  "get_element h list i = (if list = None then Some (-1, None)
     else do {
       l \<leftarrow> deref h list;
       if nnext l = None then Some (-1, None)
       else do {
         len \<leftarrow> list_length h list;
         if i < 1 \<or> i > len then Some (-1, None)
         else do {
           j \<leftarrow> get_wait (nnext l) 0 i;
           x \<leftarrow> deref h (nnext l);
           Some (1, Some (nelem x)) } } })"

partial_function (option) locate_walk ::
    "(nat ptr \<Rightarrow> nat ptr \<Rightarrow> bool) \<Rightarrow> node_t heap \<Rightarrow> nat ptr \<Rightarrow> nat ptr \<Rightarrow> int \<Rightarrow> int option" where
  [code]: "locate_walk compare h p e i = (if p = None then Some 0
     else if i = INT_MAX then None
     else do {
       x \<leftarrow> deref h p;
       if compare (nelem x) e then Some (i + 1) else locate_walk compare h (nnext x) e (i + 1) })"

definition locate_element ::
    "(nat ptr \<Rightarrow> nat ptr \<Rightarrow> bool) \<Rightarrow> node_t heap \<Rightarrow> nat ptr \<Rightarrow> nat ptr \<Rightarrow> int option" where
  "locate_element compare h list e = (if list = None then Some (-1)
     else do { l \<leftarrow> deref h list; locate_walk compare h (nnext l) e 0 })"

text \<open>The loop of \<open>prior_element\<close> does not move on.\<close>

partial_function (option) prior_walk :: "node_t heap \<Rightarrow> nat ptr \<Rightarrow> nat ptr \<Rightarrow> (int \<times> nat ptr option) option" where
  [code]: "prior_walk h p cure = (if p = None then Some (0, None)
     else do {
       x \<leftarrow> deref h p;
       if nelem x = cure then do { y \<leftarrow> deref h (nprev x); Some (1, Some (nelem y)) }
       else prior_walk h p cure })"

definition prior_element :: "node_t heap \<Rightarrow> nat ptr \<Rightarrow> nat ptr \<Rightarrow> (int \<times> nat ptr option) option" where
  "prior_element h list cure = (if list = None then Some (-1, None)
     else do {
       l \<leftarrow> deref h list;
       if nnext l = None then Some (-1, None)
       else do { x \<leftarrow> deref h (nnext l); prior_walk h (nnext x) cure } })"

text \<open>\<open>next_element\<close> stores the address of a node where the address of an element is expected: the second component is
  an address of a node.\<close>

partial_function (option) next_walk :: "node_t heap \<Rightarrow> nat ptr \<Rightarrow> nat ptr \<Rightarrow> (int \<times> nat ptr option) option" where
  [code]: "next_walk h p cure = (if p = None then Some (0, None)
     else do {
       x \<leftarrow> deref h p;
       y \<leftarrow> deref h (nprev x);
       if nelem y = cure then Some (1, Some (nnext x)) else next_walk h (nnext x) cure })"

definition next_element :: "node_t heap \<Rightarrow> nat ptr \<Rightarrow> nat ptr \<Rightarrow> (int \<times> nat ptr option) option" where
  "next_element h list cure = (if list = None then Some (-1, None)
     else do {
       l \<leftarrow> deref h list;
       x \<leftarrow> deref h (nnext l);
       next_walk h (nnext x) cure })"

text \<open>The \<open>for\<close> loop of \<open>get_elem_node\<close>; its counter would overflow for \<open>i = INT_MAX\<close>.\<close>

fun walk_next :: "node_t heap \<Rightarrow> nat \<Rightarrow> nat ptr \<Rightarrow> nat ptr option" where
  "walk_next h 0 p = Some p"
| "walk_next h (Suc n) p = do { x \<leftarrow> deref h p; walk_next h n (nnext x) }"

definition get_elem_node :: "node_t heap \<Rightarrow> nat ptr \<Rightarrow> int \<Rightarrow> nat ptr option" where
  "get_elem_node h list i = (if list = None then Some None
     else do {
       len \<leftarrow> list_length h list;
       if i < 1 \<or> i > len then Some None
       else if i = INT_MAX then None
       else walk_next h (nat i) list })"

definition list_insert :: "bool \<Rightarrow> node_t heap \<Rightarrow> nat ptr \<Rightarrow> int \<Rightarrow> nat ptr \<Rightarrow> (node_t heap \<times> int) option" where
  "list_insert mem h list i e = (if list = None then Some (h, -1)
     else do {
       len \<leftarrow> list_length h list;
       if len = INT_MAX then None
       else if i < 0 \<or> i > len + 1 then Some (h, -1)
       else if \<not> mem then Some (h, 0)
       else let s = length h in do {
         l \<leftarrow> deref h list;
         if nnext l = None
         then do {
           h \<leftarrow> store (h @ [Some \<lparr>nelem = e, nprev = list, nnext = None\<rparr>]) list (\<lambda>x. x\<lparr>nnext := Some s\<rparr>);
           Some (h, 1) }
         else if i = 0
         then do {
           h \<leftarrow> store (h @ [Some \<lparr>nelem = e, nprev = list, nnext = nnext l\<rparr>]) (nnext l) (\<lambda>x. x\<lparr>nprev := Some s\<rparr>);
           h \<leftarrow> store h list (\<lambda>x. x\<lparr>nnext := Some s\<rparr>);
           Some (h, 1) }
         else do {
           len \<leftarrow> list_length h list;
           p \<leftarrow> get_elem_node h list i;
           if i = len
           then do {
             h \<leftarrow> store (h @ [Some \<lparr>nelem = e, nprev = p, nnext = None\<rparr>]) p (\<lambda>x. x\<lparr>nnext := Some s\<rparr>);
             Some (h, 1) }
           else do {
             x \<leftarrow> deref h p;
             h \<leftarrow> store (h @ [Some \<lparr>nelem = e, nprev = p, nnext = nnext x\<rparr>]) (nnext x) (\<lambda>x. x\<lparr>nprev := Some s\<rparr>);
             h \<leftarrow> store h p (\<lambda>x. x\<lparr>nnext := Some s\<rparr>);
             Some (h, 1) } } } })"

definition list_delete :: "node_t heap \<Rightarrow> nat ptr \<Rightarrow> int \<Rightarrow> (node_t heap \<times> int \<times> nat ptr option) option" where
  "list_delete h list i = (if list = None then Some (h, -1, None)
     else do {
       len \<leftarrow> list_length h list;
       if i < 1 \<or> i > len then Some (h, -1, None)
       else do {
         l \<leftarrow> deref h list;
         if nnext l = None then Some (h, 0, None)
         else do {
           p \<leftarrow> get_elem_node h list i;
           if p = None then Some (h, 0, None)
           else do {
             x \<leftarrow> deref h p;
             if i = len
             then do {
               h \<leftarrow> store h (nprev x) (\<lambda>y. y\<lparr>nnext := None\<rparr>);
               h \<leftarrow> release h p;
               Some (h, 1, Some (nelem x)) }
             else do {
               h \<leftarrow> store h (nprev x) (\<lambda>y. y\<lparr>nnext := nnext x\<rparr>);
               x \<leftarrow> deref h p;
               h \<leftarrow> store h (nnext x) (\<lambda>y. y\<lparr>nprev := nprev x\<rparr>);
               h \<leftarrow> release h p;
               Some (h, 1, Some (nelem x)) } } } } })"

end
