(* ===== verification/Dllist_Correct.thy ===== *)
theory Dllist_Correct
  imports Dllist
begin

text \<open>
  The doubly linked list refines a list of elements; and what some of its operations do instead of what
  their names say.
\<close>

section \<open>Representation\<close>

text \<open>The list with the header \<open>l\<close> has the nodes \<open>as\<close> with the elements \<open>es\<close>; nothing precedes the header.\<close>

definition elems :: "node_t heap \<Rightarrow> nat list \<Rightarrow> nat ptr list" where
  "elems h as = map (\<lambda>a. nelem (the (deref h (Some a)))) as"

definition dl_rep :: "node_t heap \<Rightarrow> nat \<Rightarrow> nat list \<Rightarrow> nat ptr list \<Rightarrow> bool" where
  "dl_rep h l as es \<longleftrightarrow> dl.chain h (l # as) \<and> elems h as = es \<and> nprev (the (deref h (Some l))) = None"

lemma dl_rep_length: "dl_rep h l as es \<Longrightarrow> length es = length as"
  by (auto simp: dl_rep_def elems_def)

lemma dl_rep_nodes:
  assumes "dl_rep h l as es"
  shows "distinct (l # as)" "\<And>a. a \<in> set (l # as) \<Longrightarrow> deref h (Some a) = Some (the (deref h (Some a)))"
    "\<And>a. a \<in> set (l # as) \<Longrightarrow> a < length h"
proof -
  show "distinct (l # as)" using assms by (auto simp: dl_rep_def dl.chain_def)
  show d: "\<And>a. a \<in> set (l # as) \<Longrightarrow> deref h (Some a) = Some (the (deref h (Some a)))"
    using dl.chain_node assms by (fastforce simp: dl_rep_def)
  show "\<And>a. a \<in> set (l # as) \<Longrightarrow> a < length h" by (rule deref_bound [OF d])
qed

lemma elems_app: "elems h (as @ bs) = elems h as @ elems h bs"
  by (simp add: elems_def)

lemma elems_Cons: "elems h (a # as) = nelem (the (deref h (Some a))) # elems h as"
  by (simp add: elems_def)

lemma elems_take: "elems h (take k as) = take k (elems h as)"
  by (simp add: elems_def take_map)

lemma elems_drop: "elems h (drop k as) = drop k (elems h as)"
  by (simp add: elems_def drop_map)

lemmas elems_simps = elems_app elems_Cons elems_take elems_drop

text \<open>The links at a place of the list.\<close>

lemma dl_at:
  assumes "dl_rep h l as es" "l # as = us @ a # vs"
  shows "\<exists>x. deref h (Some a) = Some x \<and> nnext x = (if vs = [] then None else Some (hd vs)) \<and>
    (us \<noteq> [] \<longrightarrow> nprev x = Some (last us))"
proof -
  obtain x where x: "deref h (Some a) = Some x" using dl_rep_nodes(2) [OF assms(1), of a] assms(2) by auto
  have "dl.chain h (us @ a # vs)" using assms by (simp add: dl_rep_def)
  moreover have "nprev x = Some (last us)" if "us \<noteq> []"
    using dl.chain_prev [of h "butlast us" "last us" a vs x] calculation x that by (metis append_butlast_last_id append.assoc append_Cons append_Nil)
  ultimately show ?thesis using dl.chain_next x by blast
qed

section \<open>Length and positions\<close>

lemma length_walk_rep:
  assumes "dl_rep h l as es" "int (length as) \<le> INT_MAX"
  shows "l # as = us @ a # vs \<Longrightarrow> length_walk h (if vs = [] then None else Some (hd vs)) (int (length us)) = Some (int (length as))"
proof (induction vs arbitrary: us a)
  case Nil
  then have "length us = length as" by (metis length_Cons length_append_singleton nat.inject)
  then show ?case by (subst length_walk.simps) simp
next
  case (Cons b vs)
  have e: "l # as = (us @ [a]) @ b # vs" using Cons.prems by simp
  obtain x where "deref h (Some b) = Some x" "nnext x = (if vs = [] then None else Some (hd vs))" using dl_at [OF assms(1) e] by blast
  moreover have "length as = length us + Suc (length vs)" using arg_cong [OF Cons.prems, of length] by simp
  then have "int (length us) \<noteq> INT_MAX" using assms(2) by simp
  ultimately show ?case using Cons.IH [OF e] by (subst length_walk.simps) (simp add: add.commute)
qed

lemma list_length_rep:
  assumes "dl_rep h l as es" "int (length as) \<le> INT_MAX"
  shows "list_length h (Some l) = Some (int (length as))"
proof -
  obtain x where "deref h (Some l) = Some x" "nnext x = (if as = [] then None else Some (hd as))"
    using dl_at [OF assms(1), of "[]" l as] by auto
  then show ?thesis using length_walk_rep [OF assms, of "[]" l as] by (simp add: list_length_def)
qed

lemma walk_next_rep:
  assumes "dl_rep h l as es"
  shows "l # as = us @ a # vs \<Longrightarrow> n \<le> length vs \<Longrightarrow> walk_next h n (Some a) = Some (Some ((a # vs) ! n))"
proof (induction n arbitrary: us a vs)
  case (Suc n)
  then obtain b ws where vs: "vs = b # ws" by (cases vs) auto
  have "\<exists>x. deref h (Some a) = Some x \<and> nnext x = Some b" using dl_at [OF assms Suc.prems(1)] vs by auto
  then show ?case using Suc.IH [of "us @ [a]" b ws] Suc.prems vs by auto
qed simp

lemma get_elem_node_rep:
  assumes "dl_rep h l as es" "int (length as) < INT_MAX"
  shows "get_elem_node h (Some l) i = Some (if i < 1 \<or> i > int (length as) then None else Some (as ! (nat i - 1)))"
proof (cases "i < 1 \<or> i > int (length as)")
  case False
  then have "walk_next h (nat i) (Some l) = Some (Some ((l # as) ! nat i))" by (intro walk_next_rep [OF assms(1), of "[]"]) auto
  moreover have "(l # as) ! nat i = as ! (nat i - 1)" using False by (cases "nat i") auto
  ultimately show ?thesis using list_length_rep [OF assms(1)] assms(2) False by (simp add: get_elem_node_def)
qed (use list_length_rep [OF assms(1)] assms(2) in \<open>auto simp: get_elem_node_def\<close>)

section \<open>Inserting\<close>

lemma nth_split: "k \<le> length as \<Longrightarrow> l # as = take k (l # as) @ (l # as) ! k # drop k as"
  using id_take_nth_drop [of k "l # as"] by simp

lemma elems_other: "(\<And>a. a \<in> set as \<Longrightarrow> nelem (the (deref h' (Some a))) = nelem (the (deref h (Some a)))) \<Longrightarrow> elems h' as = elems h as"
  by (simp add: elems_def)

text \<open>The effect of the stores of every branch, at the place behind \<open>a\<close>.\<close>

lemma dl_rep_insert:
  assumes rep: "dl_rep h l as es" and k: "k \<le> length as" and a: "a = (l # as) ! k" and n: "n \<notin> set (l # as)"
    and x: "deref h (Some a) = Some x" "deref h' (Some a) = Some (x\<lparr>nnext := Some n\<rparr>)"
    and z: "deref h' (Some n) = Some \<lparr>nelem = e, nprev = Some a, nnext = (if k < length as then Some (as ! k) else None)\<rparr>"
    and y: "\<And>y. k < length as \<Longrightarrow> deref h (Some (as ! k)) = Some y \<Longrightarrow> deref h' (Some (as ! k)) = Some (y\<lparr>nprev := Some n\<rparr>)"
    and b: "\<And>b. b \<in> set (l # as) \<Longrightarrow> b \<noteq> a \<Longrightarrow> (k < length as \<longrightarrow> b \<noteq> as ! k) \<Longrightarrow> deref h' (Some b) = deref h (Some b)"
  shows "dl_rep h' l (take k as @ n # drop k as) (take k es @ e # drop k es)"
proof -
  let ?us = "take k (l # as)" and ?vs = "drop k as"
  have s: "l # as = ?us @ a # ?vs" using nth_split [OF k] a by simp
  have d: "distinct (?us @ a # ?vs)" using dl_rep_nodes(1) [OF rep] s by simp
  have hd: "?vs \<noteq> [] \<longleftrightarrow> k < length as" "k < length as \<Longrightarrow> hd ?vs = as ! k" by (auto simp: hd_drop_conv_nth)
  have "l \<notin> set as" using dl_rep_nodes(1) [OF rep] by simp
  then have "k < length as \<longrightarrow> l \<noteq> as ! k" using nth_mem [of k as] by blast
  then have "nprev (the (deref h' (Some l))) = None" using b [of l] x rep by (cases "l = a") (auto simp: dl_rep_def)
  moreover have "dl.chain h' (?us @ a # n # ?vs)"
  proof (rule dl.chain_insert [OF _ _ x])
    show "dl.chain h (?us @ a # ?vs)" using rep s by (simp add: dl_rep_def)
    show "n \<notin> set (?us @ a # ?vs)" using n s by simp
    fix b assume m: "b \<in> set ?us \<union> set (tl ?vs)"
    have "b \<noteq> a" "k < length as \<longrightarrow> b \<noteq> as ! k" "b \<in> set (?us @ a # ?vs)"
      using m d hd by (cases ?vs; auto)+
    then show "deref h' (Some b) = deref h (Some b)" using b s by metis
  qed (use z y hd in auto)
  moreover have "?us @ a # n # ?vs = l # take k as @ n # ?vs" using k a
    by (cases k) (simp_all add: take_Suc_conv_app_nth)
  moreover have "elems h' as = elems h as"
  proof (rule elems_other)
    fix c assume "c \<in> set as"
    then show "nelem (the (deref h' (Some c))) = nelem (the (deref h (Some c)))"
      using b [of c] x y dl_rep_nodes(2) [OF rep, of c] by (cases "c = a"; cases "k < length as \<and> c = as ! k") auto
  qed
  then have "elems h' as = es" using rep by (simp add: dl_rep_def)
  then have "elems h' (take k as @ n # drop k as) = take k es @ e # drop k es"
    using z by (simp add: elems_simps)
  ultimately show ?thesis by (simp add: dl_rep_def)
qed

text \<open>Where the new node goes, and what \<open>list_insert\<close> returns.\<close>

lemma list_insert_rep:
  assumes rep: "dl_rep h l as es" and len: "int (length as) < INT_MAX" and k: "k \<le> length as"
  shows "\<exists>h'. list_insert True h (Some l) (int k) e = Some (h', 1) \<and>
    dl_rep h' l (take k as @ length h # drop k as) (take k es @ e # drop k es) \<and> live h' = insert (length h) (live h)"
proof -
  define a where "a = (l # as) ! k"
  define n where "n = length h"
  define z where "z = \<lparr>nelem = e, nprev = Some a, nnext = (if k < length as then Some (as ! k) else None)\<rparr>"
  have "a \<in> set (l # as)" unfolding a_def using k by (intro nth_mem) simp
  moreover have "\<And>b. b \<in> set (l # as) \<Longrightarrow> b \<noteq> n" using dl_rep_nodes(3) [OF rep] by (fastforce simp: n_def)
  ultimately have m: "a \<in> set (l # as)" "\<And>b. b \<in> set (l # as) \<Longrightarrow> b \<noteq> n" .
  have d: "distinct (l # as)" using dl_rep_nodes(1) [OF rep] .
  obtain x where x: "deref h (Some a) = Some x" "nnext x = (if k < length as then Some (as ! k) else None)"
    using dl_at [OF rep nth_split [OF k]] by (auto simp: a_def hd_drop_conv_nth split: if_splits)
  obtain y where l: "deref h (Some l) = Some y" "nnext y = (if as = [] then None else Some (as ! 0))"
    using dl_at [OF rep, of "[]" l as] by (auto simp: hd_conv_nth)
  have p: "get_elem_node h (Some l) (int k) = Some (if k = 0 then None else Some a)"
    using get_elem_node_rep [OF rep len, of "int k"] k by (auto simp: a_def nth_Cons')
  have ll: "list_length h (Some l) = Some (int (length as))" using list_length_rep [OF rep] len by simp
  have bnd: "a < length h" using deref_bound [OF x(1)] .
  show ?thesis
  proof (cases "k < length as")
    case False
    define h' where "h' = (h @ [Some z])[a := Some (x\<lparr>nnext := Some n\<rparr>)]"
    have "list_insert True h (Some l) (int k) e = Some (h', 1)"
      using False k l x p ll len bnd
      by (cases "as = []") (auto simp: list_insert_def h'_def z_def n_def a_def store_def deref_alloc)
    moreover have "dl_rep h' l (take k as @ n # drop k as) (take k es @ e # drop k es)"
      by (rule dl_rep_insert [OF rep k a_def _ x(1)])
        (use False m x bnd in \<open>auto simp: h'_def heap_simps z_def n_def\<close>)
    moreover have "live h' = insert n (live h)" using bnd liveI [OF x(1)] by (auto simp: h'_def heap_simps n_def)
    ultimately show ?thesis by (auto simp: n_def)
  next
    case True
    obtain w where w: "deref h (Some (as ! k)) = Some w" using dl_rep_nodes(2) [OF rep, of "as ! k"] True by auto
    define h' where "h' = (h @ [Some z])[as ! k := Some (w\<lparr>nprev := Some n\<rparr>), a := Some (x\<lparr>nnext := Some n\<rparr>)]"
    have ne: "a \<noteq> as ! k" using d True by (cases k) (auto simp: a_def nth_eq_iff_index_eq)
    have "list_insert True h (Some l) (int k) e = Some (h', 1)"
      using True l x p ll len w m(2) [of "as ! k"] bnd ne
      by (cases "k = 0") (auto simp: list_insert_def h'_def z_def n_def a_def store_def heap_simps Let_def)
    moreover have "dl_rep h' l (take k as @ n # drop k as) (take k es @ e # drop k es)"
      by (rule dl_rep_insert [OF rep k a_def _ x(1)])
        (use True m x w ne bnd deref_bound [OF w] in \<open>auto simp: h'_def heap_simps z_def n_def\<close>)
    moreover have "live h' = insert n (live h)" using bnd liveI [OF x(1)] liveI [OF w] deref_bound [OF w] by (auto simp: h'_def heap_simps n_def)
    ultimately show ?thesis by (auto simp: n_def)
  qed
qed

section \<open>Deleting\<close>

lemma dl_rep_remove:
  assumes rep: "dl_rep h l as es" and k: "k < length as" and a: "a = (l # as) ! k"
    and x: "deref h (Some a) = Some x" "deref h' (Some a) = Some (x\<lparr>nnext := if Suc k < length as then Some (as ! Suc k) else None\<rparr>)"
    and y: "\<And>y. Suc k < length as \<Longrightarrow> deref h (Some (as ! Suc k)) = Some y \<Longrightarrow> deref h' (Some (as ! Suc k)) = Some (y\<lparr>nprev := Some a\<rparr>)"
    and b: "\<And>b. b \<in> set (l # as) \<Longrightarrow> b \<noteq> a \<Longrightarrow> b \<noteq> as ! k \<Longrightarrow> (Suc k < length as \<longrightarrow> b \<noteq> as ! Suc k) \<Longrightarrow>
      deref h' (Some b) = deref h (Some b)"
  shows "dl_rep h' l (remove_nth k as) (remove_nth k es)"
proof -
  let ?us = "take k (l # as)" and ?vs = "drop (Suc k) as"
  have s: "l # as = ?us @ a # as ! k # ?vs" using nth_split [of k as l] k a by (simp add: Cons_nth_drop_Suc)
  have d: "distinct (?us @ a # as ! k # ?vs)" using dl_rep_nodes(1) [OF rep] s by simp
  have hd: "?vs \<noteq> [] \<longleftrightarrow> Suc k < length as" "Suc k < length as \<Longrightarrow> hd ?vs = as ! Suc k" by (auto simp: hd_drop_conv_nth)
  have "l \<notin> set as" using dl_rep_nodes(1) [OF rep] by simp
  then have "l \<noteq> as ! k" "Suc k < length as \<longrightarrow> l \<noteq> as ! Suc k" using k nth_mem by blast+
  then have "nprev (the (deref h' (Some l))) = None" using b [of l] x rep by (cases "l = a") (auto simp: dl_rep_def)
  moreover have "dl.chain h' (?us @ a # ?vs)"
  proof (rule dl.chain_remove [of h _ _ "as ! k"])
    show "dl.chain h (?us @ a # as ! k # ?vs)" using rep s by (simp add: dl_rep_def)
    fix b assume m: "b \<in> set ?us \<union> set (tl ?vs)"
    have "b \<noteq> a" "b \<noteq> as ! k" "Suc k < length as \<longrightarrow> b \<noteq> as ! Suc k" "b \<in> set (?us @ a # as ! k # ?vs)"
      using m d hd by (cases ?vs; auto)+
    then show "deref h' (Some b) = deref h (Some b)" using b s by metis
  qed (use x y hd in auto)
  moreover have "?us @ a # ?vs = l # remove_nth k as" using k a
    by (cases k) (simp_all add: take_Suc_conv_app_nth remove_nth_def)
  moreover have "elems h' (remove_nth k as) = elems h (remove_nth k as)"
  proof (rule elems_other)
    fix c assume "c \<in> set (remove_nth k as)"
    then have "c \<in> set as" "c \<noteq> as ! k" using set_remove_nth [of as k] dl_rep_nodes(1) [OF rep] k by auto
    then show "nelem (the (deref h' (Some c))) = nelem (the (deref h (Some c)))"
      using b [of c] x y dl_rep_nodes(2) [OF rep, of c] by (cases "c = a"; cases "Suc k < length as \<and> c = as ! Suc k") auto
  qed
  moreover have "elems h (remove_nth k as) = remove_nth k es" using rep by (auto simp: dl_rep_def remove_nth_def elems_simps)
  ultimately show ?thesis by (simp add: dl_rep_def)
qed

lemma list_delete_rep:
  assumes rep: "dl_rep h l as es" and len: "int (length as) < INT_MAX" and k: "k < length as"
  shows "\<exists>h'. list_delete h (Some l) (int k + 1) = Some (h', 1, Some (es ! k)) \<and>
    dl_rep h' l (remove_nth k as) (remove_nth k es) \<and> live h' = live h - {as ! k}"
proof -
  define a where "a = (l # as) ! k"
  define n where "n = as ! k"
  have d: "distinct (l # as)" using dl_rep_nodes(1) [OF rep] .
  have s: "l # as = take k (l # as) @ a # n # drop (Suc k) as" using nth_split [of k as l] k by (simp add: Cons_nth_drop_Suc a_def n_def)
  have "distinct (a # n # drop (Suc k) as)" using d s by (metis distinct_append)
  then have ne: "a \<noteq> n" "Suc k < length as \<Longrightarrow> as ! Suc k \<noteq> a \<and> as ! Suc k \<noteq> n" 
    by (auto simp: Cons_nth_drop_Suc [symmetric])
  obtain x where x: "deref h (Some a) = Some x" using dl_at [OF rep s] by auto
  obtain z where z: "deref h (Some n) = Some z" "nnext z = (if Suc k < length as then Some (as ! Suc k) else None)" "nprev z = Some a"
    using dl_at [OF rep, of "take k (l # as) @ [a]" n "drop (Suc k) as"] s by (auto simp: hd_drop_conv_nth split: if_splits)
  have e: "nelem z = es ! k" using rep z(1) k by (auto simp: dl_rep_def elems_def n_def)
  obtain y where l: "deref h (Some l) = Some y" "nnext y = Some (as ! 0)"
    using dl_at [OF rep, of "[]" l as] k by (auto simp: hd_conv_nth split: if_splits)
  have p: "get_elem_node h (Some l) (int k + 1) = Some (Some n)"
    using get_elem_node_rep [OF rep len, of "int k + 1"] k by (auto simp: n_def nat_add_distrib)
  have ll: "list_length h (Some l) = Some (int (length as))" using list_length_rep [OF rep] len by simp
  note bnd = deref_bound [OF x] deref_bound [OF z(1)]
  show ?thesis
  proof (cases "Suc k < length as")
    case False
    define h' where "h' = h[a := Some (x\<lparr>nnext := None\<rparr>), n := None]"
    have "list_delete h (Some l) (int k + 1) = Some (h', 1, Some (es ! k))"
      using False k l x z e p ll bnd ne by (auto simp: list_delete_def h'_def store_def release_def heap_simps)
    moreover have "dl_rep h' l (remove_nth k as) (remove_nth k es)"
      by (rule dl_rep_remove [OF rep k a_def x]) (use False x bnd ne in \<open>auto simp: h'_def heap_simps n_def\<close>)
    moreover have "live h' = live h - {n}" using bnd ne liveI [OF x] by (auto simp: h'_def heap_simps)
    ultimately show ?thesis by (auto simp: n_def)
  next
    case True
    obtain w where w: "deref h (Some (as ! Suc k)) = Some w" using dl_rep_nodes(2) [OF rep, of "as ! Suc k"] True by auto
    define h' where "h' = h[a := Some (x\<lparr>nnext := nnext z\<rparr>), as ! Suc k := Some (w\<lparr>nprev := Some a\<rparr>), n := None]"
    have "list_delete h (Some l) (int k + 1) = Some (h', 1, Some (es ! k))"
      using True k l x z e p ll bnd ne w by (auto simp: list_delete_def h'_def store_def release_def heap_simps)
    moreover have "dl_rep h' l (remove_nth k as) (remove_nth k es)"
      by (rule dl_rep_remove [OF rep k a_def x]) (use True x z w bnd ne deref_bound [OF w] in \<open>auto simp: h'_def heap_simps n_def\<close>)
    moreover have "live h' = live h - {n}" using bnd ne liveI [OF x] liveI [OF w] by (auto simp: h'_def heap_simps)
    ultimately show ?thesis by (auto simp: n_def)
  qed
qed

section \<open>Taking the list down\<close>

text \<open>The elements of different nodes are different objects, allocated in the heap \<open>eh\<close>.\<close>

definition owns :: "unit heap \<Rightarrow> nat ptr list \<Rightarrow> bool" where
  "owns eh es \<longleftrightarrow> distinct es \<and> (\<forall>e\<in>set es. deref eh e \<noteq> None)"

lemma chain_free:
  assumes "dl.chain h (a # as)"
  shows "\<exists>x. deref h (Some a) = Some x \<and> nnext x = (if as = [] then None else Some (hd as)) \<and> (as = [] \<or> dl.chain (h[a := None]) as)"
proof -
  obtain x where x: "deref h (Some a) = Some x" using dl.chain_node [OF assms, of a] by auto
  have d: "a \<notin> set as" using assms by (simp add: dl.chain_def)
  have o: "deref (h[a := None]) (Some b) = deref h (Some b)" if "b \<in> set as" for b using that d by (auto simp: heap_simps)
  have "dl.chain (h[a := None]) as" if "as \<noteq> []"
  proof -
    have "dl.seg h as" using assms by (cases as) (auto simp: dl.chain_def)
    moreover have "dl.seg (h[a := None]) as \<longleftrightarrow> dl.seg h as" by (rule dl.seg_other) (rule o)
    ultimately show ?thesis using assms that o [of "last as"] by (simp add: dl.chain_def)
  qed
  then show ?thesis using dl.chain_next [of h "[]" a as x] assms x by auto
qed

lemma clear_walk_chain:
  "as = [] \<or> dl.chain h as \<Longrightarrow> \<exists>h'. clear_walk h (if as = [] then None else Some (hd as)) = Some h' \<and> live h' = live h - set as \<and>
    (\<forall>b. b \<notin> set as \<longrightarrow> deref h' (Some b) = deref h (Some b))"
proof (induction as arbitrary: h)
  case Nil
  then show ?case by (subst clear_walk.simps) simp
next
  case (Cons a as)
  then obtain x where x: "deref h (Some a) = Some x" "nnext x = (if as = [] then None else Some (hd as))"
    "as = [] \<or> dl.chain (h[a := None]) as" using chain_free [of h a as] by auto
  obtain h' where h': "clear_walk (h[a := None]) (nnext x) = Some h'" "live h' = live (h[a := None]) - set as"
    "\<forall>b. b \<notin> set as \<longrightarrow> deref h' (Some b) = deref (h[a := None]) (Some b)" using Cons.IH [OF x(3)] x(2) by auto
  have "clear_walk h (Some a) = Some h'" using h'(1) x(1) by (subst clear_walk.simps) (simp add: release_some)
  then show ?case using h'(2,3) deref_bound [OF x(1)] by (auto simp: heap_simps)
qed

text \<open>\<open>destroy_list\<close> frees the nodes as \<open>clear_list\<close> does, and the elements.\<close>

lemma destroy_walk_chain:
  "as = [] \<or> dl.chain h as \<Longrightarrow> owns eh (elems h as) \<Longrightarrow> clear_walk h (if as = [] then None else Some (hd as)) = Some h' \<Longrightarrow>
    \<exists>eh'. destroy_walk eh h (if as = [] then None else Some (hd as)) = Some (eh', h') \<and>
      live eh' = live eh - {e. Some e \<in> set (elems h as)}"
proof (induction as arbitrary: eh h)
  case Nil
  then show ?case by (subst destroy_walk.simps, subst (asm) clear_walk.simps) (simp add: elems_def)
next
  case (Cons a as)
  then obtain x where x: "deref h (Some a) = Some x" "nnext x = (if as = [] then None else Some (hd as))"
    "as = [] \<or> dl.chain (h[a := None]) as" using chain_free [of h a as] by auto
  have "a \<notin> set as" using Cons.prems(1) by (simp add: dl.chain_def)
  then have es: "elems (h[a := None]) as = elems h as" by (auto simp: heap_simps intro!: elems_other)
  obtain e u where e: "nelem x = Some e" "deref eh (Some e) = Some u" using Cons.prems(2) x(1)
    by (cases "nelem x") (auto simp: owns_def elems_Cons)
  have "owns (eh[e := None]) (elems h as)"
  proof -
    have "deref (eh[e := None]) p \<noteq> None" if "p \<in> set (elems h as)" for p
    proof -
      have "deref eh p \<noteq> None" "p \<noteq> Some e" using that Cons.prems(2) x(1) e by (auto simp: owns_def elems_Cons)
      then show ?thesis by (cases p) (simp_all add: heap_simps)
    qed
    then show ?thesis using Cons.prems(2) by (auto simp: owns_def elems_Cons)
  qed
  moreover have "clear_walk (h[a := None]) (nnext x) = Some h'" using Cons.prems(3) x(1)
    by (subst (asm) clear_walk.simps) (simp add: release_some)
  ultimately obtain eh' where eh': "destroy_walk (eh[e := None]) (h[a := None]) (nnext x) = Some (eh', h')"
    "live eh' = live (eh[e := None]) - {e. Some e \<in> set (elems h as)}" using Cons.IH [OF x(3)] x(2) es by auto
  have "destroy_walk eh h (Some a) = Some (eh', h')" using eh'(1) x(1) e by (subst destroy_walk.simps) (simp add: release_some)
  then show ?case using eh'(2) deref_bound [OF e(2)] x(1) e(1) by (auto simp: live_update elems_Cons)
qed

lemma clear_list_rep:
  assumes "dl_rep h l as es"
  shows "\<exists>h'. clear_list h (Some l) = Some (h', 1) \<and> dl_rep h' l [] [] \<and> live h' = live h - set as"
proof -
  obtain x where x: "deref h (Some l) = Some x" "nnext x = (if as = [] then None else Some (hd as))"
    using dl_at [OF assms, of "[]" l as] by auto
  have c: "dl.chain h (l # as)" "l \<notin> set as" using assms by (auto simp: dl_rep_def dl.chain_def)
  then have "as = [] \<or> dl.chain h as" by (cases as) (auto simp: dl.chain_def)
  then obtain h' where h': "clear_walk h (nnext x) = Some h'" "live h' = live h - set as"
    "\<forall>b. b \<notin> set as \<longrightarrow> deref h' (Some b) = deref h (Some b)" using clear_walk_chain [of as h] x(2) by auto
  have l: "deref h' (Some l) = Some x" using h'(3) c(2) x(1) by simp
  let ?h = "h'[l := Some (x\<lparr>nnext := None, nprev := None\<rparr>)]"
  have "clear_list h (Some l) = Some (?h, 1)" using x(1) h'(1) l by (simp add: clear_list_def store_some)
  moreover have "dl_rep ?h l [] []" using deref_bound [OF l] by (simp add: dl_rep_def dl.chain_def elems_def heap_simps)
  moreover have "live ?h = live h - set as" using h'(2) liveI [OF l] deref_bound [OF l] by (auto simp: live_update)
  ultimately show ?thesis by blast
qed

lemma destroy_list_rep:
  assumes "dl_rep h l as es" "owns eh es"
  shows "\<exists>eh' h'. destroy_list eh h (Some l) = Some (eh', h', None, 1) \<and> live h' = live h - set (l # as) \<and>
    live eh' = live eh - {e. Some e \<in> set es}"
proof -
  obtain x where x: "deref h (Some l) = Some x" "nnext x = (if as = [] then None else Some (hd as))"
    using dl_at [OF assms(1), of "[]" l as] by auto
  have c: "dl.chain h (l # as)" "l \<notin> set as" "elems h as = es" using assms(1) by (auto simp: dl_rep_def dl.chain_def)
  then have a: "as = [] \<or> dl.chain h as" by (cases as) (auto simp: dl.chain_def)
  then obtain h' where h': "clear_walk h (nnext x) = Some h'" "live h' = live h - set as"
    "\<forall>b. b \<notin> set as \<longrightarrow> deref h' (Some b) = deref h (Some b)" using clear_walk_chain [of as h] x(2) by auto
  obtain eh' where eh': "destroy_walk eh h (nnext x) = Some (eh', h')" "live eh' = live eh - {e. Some e \<in> set es}"
    using destroy_walk_chain [OF a, of eh h'] h'(1) assms(2) c(3) x(2) by auto
  have l: "deref h' (Some l) = Some x" using h'(3) c(2) x(1) by simp
  have "destroy_list eh h (Some l) = Some (eh', h'[l := None], None, 1)" using x(1) eh'(1) l
    by (simp add: destroy_list_def release_some)
  moreover have "live (h'[l := None]) = live h - set (l # as)" using h'(2) deref_bound [OF l] by (auto simp: live_update)
  ultimately show ?thesis using eh'(2) by blast
qed

section \<open>Creating and searching\<close>

lemma init_list_rep: "\<exists>h'. init_list True junk h = (h', Some (length h), 1) \<and> dl_rep h' (length h) [] []"
  by (auto simp: init_list_def dl_rep_def dl.chain_def elems_def heap_simps)

lemma list_empty_rep: "dl_rep h l as es \<Longrightarrow> list_empty h (Some l) = Some (if as = [] then 1 else 0)"
  using dl_at [of h l as es "[]" l as] by (auto simp: list_empty_def dl_rep_def)

text \<open>The place of the first element that matches, from 1 on, or 0.\<close>

definition place :: "('a \<Rightarrow> bool) \<Rightarrow> 'a list \<Rightarrow> int" where
  "place P es = (if \<exists>x\<in>set es. P x then int (length (takeWhile (\<lambda>x. \<not> P x) es)) + 1 else 0)"

lemma locate_walk_rep:
  assumes "dl_rep h l as es" "int (length as) \<le> INT_MAX"
  shows "l # as = us @ a # vs \<Longrightarrow> locate_walk cmp h (if vs = [] then None else Some (hd vs)) e (int (length us)) =
    Some (let k = place (\<lambda>x. cmp x e) (elems h vs) in if k = 0 then 0 else int (length us) + k)"
proof (induction vs arbitrary: us a)
  case Nil
  then show ?case by (subst locate_walk.simps) (simp add: elems_def place_def)
next
  case (Cons b vs)
  have e: "l # as = (us @ [a]) @ b # vs" using Cons.prems by simp
  obtain x where x: "deref h (Some b) = Some x" "nnext x = (if vs = [] then None else Some (hd vs))" using dl_at [OF assms(1) e] by blast
  have "length as = length us + Suc (length vs)" using arg_cong [OF Cons.prems, of length] by simp
  then have "int (length us) \<noteq> INT_MAX" using assms(2) by simp
  then show ?case using Cons.IH [OF e] x by (subst locate_walk.simps) (auto simp: elems_Cons place_def Let_def add.commute)
qed

lemma locate_element_rep:
  assumes "dl_rep h l as es" "int (length as) \<le> INT_MAX"
  shows "locate_element cmp h (Some l) e = Some (place (\<lambda>x. cmp x e) es)"
proof -
  obtain x where "deref h (Some l) = Some x" "nnext x = (if as = [] then None else Some (hd as))"
    using dl_at [OF assms(1), of "[]" l as] by auto
  then show ?thesis using locate_walk_rep [OF assms, of "[]" l as cmp e] assms(1) by (auto simp: locate_element_def dl_rep_def Let_def)
qed

section \<open>Operations that do something else\<close>

lemma get_wait_counts: "j \<le> i \<Longrightarrow> i \<le> INT_MAX \<Longrightarrow> get_wait (Some a) j i = Some i"
proof (induction "nat (i - j)" arbitrary: j)
  case 0
  then show ?case by (subst get_wait.simps) simp
next
  case (Suc n)
  then show ?case by (subst get_wait.simps) simp
qed

lemma get_element_rep:
  assumes "dl_rep h l as es" "int (length as) < INT_MAX" "1 \<le> i" "i \<le> int (length as)"
  shows "get_element h (Some l) i = Some (1, Some (es ! 0))"
proof -
  have n: "as \<noteq> []" using assms(3,4) by auto
  obtain x where x: "deref h (Some l) = Some x" "nnext x = Some (hd as)" using dl_at [OF assms(1), of "[]" l as] n by auto
  obtain y where "deref h (Some (hd as)) = Some y" "nelem y = es ! 0"
    using dl_rep_nodes(2) [OF assms(1), of "hd as"] n assms(1) by (auto simp: dl_rep_def elems_def hd_conv_nth)
  moreover have "get_wait (Some (hd as)) 0 i = Some i" using get_wait_counts assms(2-4) by simp
  ultimately show ?thesis using x list_length_rep [OF assms(1)] assms(2-4) by (simp add: get_element_def)
qed

lemma prior_walk_stuck: "prior_walk h p c = Some r \<Longrightarrow> p = None \<or> (\<exists>x. deref h p = Some x \<and> nelem x = c)"
  by (rule prior_walk.raw_induct [where P = "\<lambda>h p c r. p = None \<or> (\<exists>x. deref h p = Some x \<and> nelem x = c)"])
    (fastforce split: if_splits bind_splits)+

lemma prior_element_rep:
  assumes "dl_rep h l as es" "2 \<le> length as"
  shows "prior_element h (Some l) c = (if es ! 1 = c then Some (1, Some (es ! 0)) else None)"
proof -
  obtain a b vs where as: "as = a # b # vs" using assms(2) by (auto simp: Suc_le_length_iff numeral_2_eq_2)
  obtain x where x: "deref h (Some l) = Some x" "nnext x = Some a" using dl_at [OF assms(1), of "[]" l as] as by auto
  obtain y where y: "deref h (Some a) = Some y" "nnext y = Some b" using dl_at [OF assms(1), of "[l]" a "b # vs"] as by auto
  obtain z where z: "deref h (Some b) = Some z" "nprev z = Some a" using dl_at [OF assms(1), of "[l, a]" b vs] as by auto
  have e: "es ! 0 = nelem y" "es ! 1 = nelem z" using assms(1) as y z by (auto simp: dl_rep_def elems_Cons)
  have "prior_walk h (Some b) c = (if nelem z = c then Some (1, Some (nelem y)) else None)"
  proof (cases "nelem z = c")
    case True
    then show ?thesis using y z by (subst prior_walk.simps) simp
  next
    case False
    then show ?thesis using prior_walk_stuck [of h "Some b" c] z(1) by (cases "prior_walk h (Some b) c") auto
  qed
  then show ?thesis using x y e by (simp add: prior_element_def)
qed

text \<open>The loop of \<open>next_element\<close> at the node behind \<open>a\<close>.\<close>

lemma next_walk_rep:
  assumes "dl_rep h l as es"
  shows "as = us @ a # vs \<Longrightarrow> next_walk h (if vs = [] then None else Some (hd vs)) c =
    Some (let k = place (\<lambda>x. x = c) (butlast (elems h (a # vs)))
      in if k = 0 then (0, None) else (1, Some (if nat k < length vs then Some (vs ! nat k) else None)))"
proof (induction vs arbitrary: us a)
  case Nil
  then show ?case by (subst next_walk.simps) (simp add: elems_def place_def)
next
  case (Cons b vs)
  obtain x where x: "deref h (Some b) = Some x" "nnext x = (if vs = [] then None else Some (hd vs))" "nprev x = Some a"
    using dl_at [OF assms, of "l # us @ [a]" b vs] Cons.prems by auto
  obtain y where y: "deref h (Some a) = Some y" using dl_rep_nodes(2) [OF assms, of a] Cons.prems by auto
  have IH: "next_walk h (nnext x) c = Some (let k = place (\<lambda>x. x = c) (butlast (elems h (b # vs)))
      in if k = 0 then (0, None) else (1, Some (if nat k < length vs then Some (vs ! nat k) else None)))"
    using Cons.IH [of "us @ [a]" b] Cons.prems x(2) by simp
  show ?case
  proof (cases "nelem y = c")
    case True
    then show ?thesis using x y by (subst next_walk.simps) (auto simp: elems_Cons place_def hd_conv_nth)
  next
    case False
    define k where "k = place (\<lambda>x. x = c) (butlast (elems h (b # vs)))"
    have "place (\<lambda>x. x = c) (butlast (elems h (a # b # vs))) = (if k = 0 then 0 else k + 1)"
      using False y by (auto simp: k_def elems_Cons place_def)
    moreover have "next_walk h (Some b) c = next_walk h (nnext x) c" using False x(1,3) y by (subst next_walk.simps) simp
    moreover have "0 \<le> k" by (simp add: k_def place_def)
    ultimately show ?thesis using IH [folded k_def] by (auto simp: Let_def nat_add_distrib)
  qed
qed

lemma next_element_rep:
  assumes "dl_rep h l as es"
  shows "next_element h (Some l) c = (if as = [] then None
    else Some (let k = place (\<lambda>x. x = c) (butlast es)
      in if k = 0 then (0, None) else (1, Some (if nat k + 1 < length as then Some (as ! (nat k + 1)) else None))))"
proof (cases as)
  case Nil
  then show ?thesis using dl_at [OF assms, of "[]" l as] by (auto simp: next_element_def)
next
  case (Cons a vs)
  obtain x where x: "deref h (Some l) = Some x" "nnext x = Some a" using dl_at [OF assms, of "[]" l as] Cons by auto
  obtain y where y: "deref h (Some a) = Some y" "nnext y = (if vs = [] then None else Some (hd vs))" using dl_at [OF assms, of "[l]" a vs] Cons by auto
  have "elems h (a # vs) = es" using assms Cons by (simp add: dl_rep_def)
  then show ?thesis using x y Cons next_walk_rep [OF assms, of "[]" a vs c] by (auto simp: next_element_def Let_def)
qed

lemma list_insert_behind:
  assumes "dl_rep h l as es" "int (length as) < INT_MAX" "as \<noteq> []"
  shows "list_insert True h (Some l) (int (length as) + 1) e = None"
proof -
  obtain x where "deref h (Some l) = Some x" "nnext x = Some (hd as)" using dl_at [OF assms(1), of "[]" l as] assms(3) by auto
  then show ?thesis using list_length_rep [OF assms(1)] assms(2) get_elem_node_rep [OF assms(1,2)] by (simp add: list_insert_def Let_def)
qed

lemma list_insert_refused:
  assumes "dl_rep h l as es" "int (length as) < INT_MAX"
  shows "i < 0 \<or> i > int (length as) + 1 \<Longrightarrow> list_insert mem h (Some l) i e = Some (h, -1)"
    "0 \<le> i \<Longrightarrow> i \<le> int (length as) + 1 \<Longrightarrow> list_insert False h (Some l) i e = Some (h, 0)"
  using list_length_rep [OF assms(1)] assms(2) by (auto simp: list_insert_def)

lemma list_delete_refused:
  assumes "dl_rep h l as es" "int (length as) < INT_MAX"
  shows "i < 1 \<or> i > int (length as) \<Longrightarrow> list_delete h (Some l) i = Some (h, -1, None)"
  using list_length_rep [OF assms(1)] assms(2) by (auto simp: list_delete_def)

section \<open>The claims\<close>

text \<open>C13: on a list with the elements \<open>es\<close>, fewer than \<open>INT_MAX\<close> of them, the operations are those on a sequence.
  \<open>init_list\<close> makes the empty one, \<open>list_length\<close> and \<open>list_empty\<close> report the length, \<open>locate_element\<close> the place of the first
  match; \<open>list_insert\<close> at \<open>i\<close> puts the element behind the first \<open>i\<close> ones, allocating one node; \<open>list_delete\<close> at \<open>i\<close> takes out the
  \<open>i\<close>-th one, returns it and frees its node; places out of range are refused without an effect. \<open>clear_list\<close>
  frees all nodes but the header, and \<open>destroy_list\<close> the header, all nodes and all elements.\<close>

theorem dllist_refines_list:
  assumes rep: "dl_rep h l as es" and len: "int (length as) < INT_MAX"
  shows "(\<forall>h0. \<exists>h'. init_list True junk h0 = (h', Some (length h0), 1) \<and> dl_rep h' (length h0) [] []) \<and>
    list_length h (Some l) = Some (int (length es)) \<and>
    list_empty h (Some l) = Some (if es = [] then 1 else 0) \<and>
    locate_element cmp h (Some l) e = Some (place (\<lambda>x. cmp x e) es) \<and>
    (k \<le> length es \<longrightarrow> (\<exists>h'. list_insert True h (Some l) (int k) e = Some (h', 1) \<and>
      dl_rep h' l (take k as @ length h # drop k as) (take k es @ e # drop k es) \<and> live h' = insert (length h) (live h))) \<and>
    (k < length es \<longrightarrow> (\<exists>h'. list_delete h (Some l) (int k + 1) = Some (h', 1, Some (es ! k)) \<and>
      dl_rep h' l (remove_nth k as) (remove_nth k es) \<and> live h' = live h - {as ! k})) \<and>
    (i < 0 \<or> i > int (length es) + 1 \<longrightarrow> list_insert mem h (Some l) i e = Some (h, -1)) \<and>
    (0 \<le> i \<and> i \<le> int (length es) + 1 \<longrightarrow> list_insert False h (Some l) i e = Some (h, 0)) \<and>
    (i < 1 \<or> i > int (length es) \<longrightarrow> list_delete h (Some l) i = Some (h, -1, None)) \<and>
    (\<exists>h'. clear_list h (Some l) = Some (h', 1) \<and> dl_rep h' l [] [] \<and> live h' = live h - set as) \<and>
    (owns eh es \<longrightarrow> (\<exists>eh' h'. destroy_list eh h (Some l) = Some (eh', h', None, 1) \<and> live h' = live h - set (l # as) \<and>
      live eh' = live eh - {e. Some e \<in> set es}))"
proof (intro conjI impI allI)
  note n = dl_rep_length [OF rep]
  show "list_length h (Some l) = Some (int (length es))" using list_length_rep [OF rep] len n by simp
  show "list_empty h (Some l) = Some (if es = [] then 1 else 0)" using list_empty_rep [OF rep] n by auto
  show "locate_element cmp h (Some l) e = Some (place (\<lambda>x. cmp x e) es)" using locate_element_rep [OF rep] len by simp
qed (use init_list_rep list_insert_rep [OF rep len] list_delete_rep [OF rep len] list_insert_refused [OF rep len]
  list_delete_refused [OF rep len] clear_list_rep [OF rep] destroy_list_rep [OF rep] dl_rep_length [OF rep] in simp_all)

definition two :: "node_t heap" where
  "two = [Some \<lparr>nelem = None, nprev = None, nnext = Some 1\<rparr>, Some \<lparr>nelem = Some 0, nprev = Some 0, nnext = Some 2\<rparr>,
    Some \<lparr>nelem = Some 1, nprev = Some 1, nnext = None\<rparr>]"

lemma two_rep: "dl_rep two 0 [1, 2] [Some 0, Some 1]"
  by (simp add: dl_rep_def dl.chain_def elems_def two_def deref_Some nth_Cons')

lemma length_two: "length two = 3"
  by (simp add: two_def)

theorem dllist_refines_list_witness:
  "(\<exists>h'. list_insert True two (Some 0) 1 (Some 7) = Some (h', 1) \<and> dl_rep h' 0 [1, 3, 2] [Some 0, Some 7, Some 1] \<and> live h' = insert 3 (live two)) \<and>
   (\<exists>h'. list_delete two (Some 0) 2 = Some (h', 1, Some (Some 1)) \<and> dl_rep h' 0 [1] [Some 0] \<and> live h' = live two - {2})"
proof -
  have i: "int (length [1::nat, 2]) < INT_MAX" by (simp add: INT_MAX_def)
  show ?thesis using dllist_refines_list [OF two_rep i, where k = 1 and e = "Some 7"] by (simp add: remove_nth_def length_two)
qed

text \<open>C22: where the list does not do what the names of its operations say. \<open>get_element\<close> gives the first element at
  every place; \<open>prior_element\<close> does not return unless the second element is the one asked for; \<open>next_element\<close> goes through
  a null pointer on an empty list, and otherwise answers with the address of the node two places behind the match,
  or with null; and \<open>list_insert\<close> at the place \<open>length + 1\<close>, which its guard lets through, goes through a null
  pointer when the list is not empty.\<close>

theorem dllist_errors:
  assumes rep: "dl_rep h l as es" and len: "int (length as) < INT_MAX"
  shows "(1 \<le> i \<and> i \<le> int (length es) \<longrightarrow> get_element h (Some l) i = Some (1, Some (es ! 0))) \<and>
    (2 \<le> length es \<longrightarrow> prior_element h (Some l) c = (if es ! 1 = c then Some (1, Some (es ! 0)) else None)) \<and>
    next_element h (Some l) c = (if es = [] then None
      else Some (let k = place (\<lambda>x. x = c) (butlast es)
        in if k = 0 then (0, None) else (1, Some (if nat k + 1 < length es then Some (as ! (nat k + 1)) else None)))) \<and>
    (es \<noteq> [] \<longrightarrow> list_insert True h (Some l) (int (length es) + 1) e = None)"
proof (intro conjI impI)
  note n = dl_rep_length [OF rep]
  show "get_element h (Some l) i = Some (1, Some (es ! 0))" if "1 \<le> i \<and> i \<le> int (length es)"
    using get_element_rep [OF rep len] n that by simp
  show "prior_element h (Some l) c = (if es ! 1 = c then Some (1, Some (es ! 0)) else None)" if "2 \<le> length es"
    using prior_element_rep [OF rep] n that by simp
  show "list_insert True h (Some l) (int (length es) + 1) e = None" if "es \<noteq> []"
    using list_insert_behind [OF rep len] n that by (cases as) auto
qed (use next_element_rep [OF rep, of c] dl_rep_length [OF rep] in \<open>auto simp: Let_def\<close>)

theorem dllist_errors_witness:
  "get_element two (Some 0) 2 = Some (1, Some (Some 0)) \<and> prior_element two (Some 0) (Some 0) = None \<and>
   next_element two (Some 0) (Some 0) = Some (1, Some None) \<and> list_insert True two (Some 0) 3 (Some 7) = None"
proof -
  have i: "int (length [1::nat, 2]) < INT_MAX" by (simp add: INT_MAX_def)
  show ?thesis using dllist_errors [OF two_rep i, where i = 2 and c = "Some 0" and e = "Some 7"] by (simp add: place_def)
qed

end
