(* ===== verification/Regex_Bounded.thy ===== *)
theory Regex_Bounded
  imports "HOL-Library.Tree" Regex_Correct
begin

text \<open>
  The matcher of \<open>c-study/dfa-about/bounded-mem-dfa.c\<close>: as \<open>dfa.c\<close>, but the cache is thrown away when it holds
  \<open>maxstates\<close> lists, and the \<open>DState\<close>s are kept in a free list for later use.
\<close>

section \<open>The operations\<close>

record bounded_mem =
  cache :: dfa_mem
  freelist :: "nat ptr"
  nstates :: int

definition maxstates :: int where
  "maxstates = 32"

text \<open>A new \<open>DState\<close> gets its list from the caller.\<close>

definition allocdstate :: "bounded_mem \<Rightarrow> bounded_mem \<times> nat" where
  "allocdstate m = (let ds = dstates (cache m) in case freelist m of
     Some d \<Rightarrow> (m\<lparr>freelist := dleft (ds ! d),
       cache := (cache m)\<lparr>dstates := ds[d := (ds ! d)\<lparr>dleft := None, dright := None, dnext := replicate 256 None\<rparr>]\<rparr>\<rparr>, d)
   | None \<Rightarrow> (m\<lparr>cache := (cache m)\<lparr>dstates := ds @ [\<lparr>dl = [], dnext = replicate 256 None, dleft = None, dright = None\<rparr>]\<rparr>\<rparr>,
       length ds))"

partial_function (option) freestates :: "dstate list \<Rightarrow> nat ptr \<Rightarrow> nat ptr \<Rightarrow> (dstate list \<times> nat ptr) option" where
  [code]: "freestates ds p fl = (case p of
     None \<Rightarrow> Some (ds, fl)
   | Some d \<Rightarrow> do {
       (ds, fl) \<leftarrow> freestates ds (dleft (ds ! d)) fl;
       (ds, fl) \<leftarrow> freestates ds (dright (ds ! d)) fl;
       Some (ds[d := (ds ! d)\<lparr>dleft := fl\<rparr>], Some d) })"

definition freecache :: "bounded_mem \<Rightarrow> bounded_mem option" where
  "freecache m = do {
     (ds, fl) \<leftarrow> freestates (dstates (cache m)) (alldstates (cache m)) (freelist m);
     Some (m\<lparr>cache := (cache m)\<lparr>dstates := ds, alldstates := None\<rparr>, freelist := fl, nstates := 0\<rparr>) }"

definition set_dl :: "dfa_mem \<Rightarrow> nat \<Rightarrow> sref list \<Rightarrow> dfa_mem" where
  "set_dl m d l = m\<lparr>dstates := (dstates m)[d := (dstates m ! d)\<lparr>dl := l\<rparr>]\<rparr>"

text \<open>
  \<open>nextp\<close> is the address of an entry of a \<open>DState\<close>. The list of a \<open>DState\<close> has room for as many states as there
  are in the automaton.
\<close>

definition bounded_dstate ::
    "(sref \<Rightarrow> nat) \<Rightarrow> (sref list \<Rightarrow> sref list) \<Rightarrow> bounded_mem \<Rightarrow> sref list \<Rightarrow> (nat \<times> nat) option \<Rightarrow> (bounded_mem \<times> nat) option" where
  "bounded_dstate addr qsort m l nextp =
     (let l = qsort l in do {
        r \<leftarrow> find_dstate addr (cache m) l Root;
        case r of
          Inl d \<Rightarrow> Some (m, d)
        | Inr dp \<Rightarrow> do {
            (m, dp, nextp) \<leftarrow>
              (if nstates m \<ge> maxstates then do { m \<leftarrow> freecache m; Some (m, Root, None) } else Some (m, dp, nextp));
            let (m, d) = allocdstate m in
            if length l > length (nfa_mem.heap (nfa (cache m))) then None
            else
              let c = set_dl (cache m) d l;
                  c = write_link c dp (Some d);
                  c = (case nextp of None \<Rightarrow> c | Some (e, ch) \<Rightarrow> set_next c e ch d)
              in Some (m\<lparr>cache := c, nstates := nstates m + 1\<rparr>, d) } })"

definition bounded_startdstate ::
    "(sref \<Rightarrow> nat) \<Rightarrow> (sref list \<Rightarrow> sref list) \<Rightarrow> bounded_mem \<Rightarrow> sref \<Rightarrow> (bounded_mem \<times> nat) option" where
  "bounded_startdstate addr qsort m start = do {
     (n, l) \<leftarrow> startlist (nfa (cache m)) start;
     bounded_dstate addr qsort (m\<lparr>cache := (cache m)\<lparr>nfa := n\<rparr>\<rparr>) l None }"

definition bounded_nextstate ::
    "(sref \<Rightarrow> nat) \<Rightarrow> (sref list \<Rightarrow> sref list) \<Rightarrow> bounded_mem \<Rightarrow> nat \<Rightarrow> uint8_t \<Rightarrow> (bounded_mem \<times> nat) option" where
  "bounded_nextstate addr qsort m d ch = do {
     (n, l) \<leftarrow> step (nfa (cache m)) (dl (dstates (cache m) ! d)) (uint ch);
     bounded_dstate addr qsort (m\<lparr>cache := (cache m)\<lparr>nfa := n\<rparr>\<rparr>) l (Some (d, unat ch)) }"

fun bounded_match_loop ::
    "(sref \<Rightarrow> nat) \<Rightarrow> (sref list \<Rightarrow> sref list) \<Rightarrow> bounded_mem \<Rightarrow> nat \<Rightarrow> uint8_t list \<Rightarrow> (bounded_mem \<times> nat) option" where
  "bounded_match_loop addr qsort m d [] = Some (m, d)"
| "bounded_match_loop addr qsort m d (ch # s) =
     (case dnext (dstates (cache m) ! d) ! unat ch of
        Some d' \<Rightarrow> bounded_match_loop addr qsort m d' s
      | None \<Rightarrow> do { (m, d') \<leftarrow> bounded_nextstate addr qsort m d ch; bounded_match_loop addr qsort m d' s })"

definition bounded_match ::
    "(sref \<Rightarrow> nat) \<Rightarrow> (sref list \<Rightarrow> sref list) \<Rightarrow> bounded_mem \<Rightarrow> nat \<Rightarrow> uint8_t list \<Rightarrow> (bounded_mem \<times> bool) option" where
  "bounded_match addr qsort m start s = do {
     (m, d) \<leftarrow> bounded_match_loop addr qsort m start s;
     Some (m, ismatch (dl (dstates (cache m) ! d))) }"

text \<open>\<open>main\<close>, with the memory at the end.\<close>

fun bounded_main_loop ::
    "(sref \<Rightarrow> nat) \<Rightarrow> (sref list \<Rightarrow> sref list) \<Rightarrow> bounded_mem \<Rightarrow> sref \<Rightarrow> uint8_t list list \<Rightarrow> (bounded_mem \<times> uint8_t list list) option" where
  "bounded_main_loop addr qsort m start [] = Some (m, [])"
| "bounded_main_loop addr qsort m start (s # ss) = do {
     (m, d) \<leftarrow> bounded_startdstate addr qsort m start;
     (m, b) \<leftarrow> bounded_match addr qsort m d s;
     (m, out) \<leftarrow> bounded_main_loop addr qsort m start ss;
     Some (m, if b then s # out else out) }"

definition bounded_init :: "state list \<Rightarrow> bounded_mem" where
  "bounded_init h = \<lparr>cache = \<lparr>nfa = \<lparr>heap = h, match_lastlist = 0, listid = 0\<rparr>, dstates = [], alldstates = None\<rparr>,
     freelist = None, nstates = 0\<rparr>"

text \<open>The third component of the result is the number of \<open>DState\<close>s that were allocated.\<close>

definition bounded_main ::
    "(sref \<Rightarrow> nat) \<Rightarrow> (sref list \<Rightarrow> sref list) \<Rightarrow> uint8_t list list \<Rightarrow> (int \<times> uint8_t list list \<times> nat) option" where
  "bounded_main addr qsort args =
     (if length args < 2 then Some (1, [], 0)
      else do {
        post \<leftarrow> re2post (args ! 0);
        case post of
          None \<Rightarrow> Some (1, [], 0)
        | Some post \<Rightarrow> do {
            (start, h) \<leftarrow> post2nfa (Some post);
            case start of
              None \<Rightarrow> Some (1, [], 0)
            | Some start \<Rightarrow> do {
                (m, out) \<leftarrow> bounded_main_loop addr qsort (bounded_init h) start (drop 1 args);
                Some (0, out, length (dstates (cache m)))
              }
          }
      })"

section \<open>The tree and the free list\<close>

fun tree_at :: "dstate list \<Rightarrow> nat ptr \<Rightarrow> nat tree \<Rightarrow> bool" where
  "tree_at ds p Leaf \<longleftrightarrow> p = None"
| "tree_at ds p (Node l d r) \<longleftrightarrow> p = Some d \<and> tree_at ds (dleft (ds ! d)) l \<and> tree_at ds (dright (ds ! d)) r"

fun free_at :: "dstate list \<Rightarrow> nat ptr \<Rightarrow> nat list \<Rightarrow> bool" where
  "free_at ds p [] \<longleftrightarrow> p = None"
| "free_at ds p (d # fs) \<longleftrightarrow> p = Some d \<and> free_at ds (dleft (ds ! d)) fs"

lemma tree_at_frame:
  "tree_at ds p t \<Longrightarrow> (\<And>d. d \<in> set_tree t \<Longrightarrow> dleft (ds' ! d) = dleft (ds ! d) \<and> dright (ds' ! d) = dright (ds ! d)) \<Longrightarrow> tree_at ds' p t"
  by (induction t arbitrary: p) auto

lemma free_at_frame: "free_at ds p fs \<Longrightarrow> (\<And>d. d \<in> set fs \<Longrightarrow> dleft (ds' ! d) = dleft (ds ! d)) \<Longrightarrow> free_at ds' p fs"
  by (induction fs arbitrary: p) auto

lemma tree_at_None [simp]: "tree_at ds None t \<longleftrightarrow> t = Leaf"
  by (cases t) auto

text \<open>\<open>freestates\<close> moves the nodes of the tree to the free list.\<close>

lemma freestates_frees:
  assumes "tree_at ds p t" "free_at ds fl fs" "distinct (inorder t @ fs)" "set_tree t \<subseteq> {..<length ds}"
  shows "\<exists>ds' fl' fs'. freestates ds p fl = Some (ds', fl') \<and> free_at ds' fl' fs' \<and> mset fs' = mset (inorder t) + mset fs \<and>
    length ds' = length ds \<and> (\<forall>i. i \<notin> set_tree t \<longrightarrow> ds' ! i = ds ! i)"
  using assms
proof (induction t arbitrary: ds p fl fs)
  case Leaf
  then show ?case by (subst freestates.simps) auto
next
  case (Node l d r)
  have p: "p = Some d" "tree_at ds (dleft (ds ! d)) l" "tree_at ds (dright (ds ! d)) r" using Node.prems(1) by auto
  have "distinct (inorder l @ fs)" "set_tree l \<subseteq> {..<length ds}" using Node.prems(3,4) by auto
  then obtain ds1 fl1 fs1 where 1: "freestates ds (dleft (ds ! d)) fl = Some (ds1, fl1)" "free_at ds1 fl1 fs1"
    "mset fs1 = mset (inorder l) + mset fs" "length ds1 = length ds" "\<forall>i. i \<notin> set_tree l \<longrightarrow> ds1 ! i = ds ! i"
    using Node.IH(1) [OF p(2) Node.prems(2)] by blast
  have s1: "set fs1 = set_tree l \<union> set fs" using arg_cong [OF 1(3), of set_mset] by simp
  have d: "d \<notin> set_tree l" "d \<notin> set_tree r" "d \<notin> set fs" "set_tree l \<inter> set_tree r = {}" using Node.prems(3) by auto
  have "tree_at ds1 (dright (ds ! d)) r" by (rule tree_at_frame [OF p(3)]) (use 1(5) d(4) in auto)
  then have "tree_at ds1 (dright (ds1 ! d)) r" using 1(5) d(1) by simp
  moreover have "distinct fs1" using Node.prems(3) 1(3) mset_eq_imp_distinct_iff [of fs1 "inorder l @ fs"] by auto
  then have "distinct (inorder r @ fs1)" using Node.prems(3) s1 by auto
  moreover have "set_tree r \<subseteq> {..<length ds1}" using Node.prems(4) 1(4) by auto
  ultimately obtain ds2 fl2 fs2 where 2: "freestates ds1 (dright (ds1 ! d)) fl1 = Some (ds2, fl2)" "free_at ds2 fl2 fs2"
    "mset fs2 = mset (inorder r) + mset fs1" "length ds2 = length ds1" "\<forall>i. i \<notin> set_tree r \<longrightarrow> ds2 ! i = ds1 ! i"
    using Node.IH(2) [OF _ 1(2)] by blast
  have s2: "set fs2 = set_tree r \<union> set fs1" using arg_cong [OF 2(3), of set_mset] by simp
  let ?ds = "ds2[d := (ds2 ! d)\<lparr>dleft := fl2\<rparr>]"
  have "d \<notin> set fs2" using s1 s2 d by auto
  then have "free_at ?ds fl2 fs2" by (intro free_at_frame [OF 2(2)]) (metis nth_list_update_neq)
  moreover have "d < length ds2" using Node.prems(4) 1(4) 2(4) by simp
  ultimately have "free_at ?ds (Some d) (d # fs2)" by simp
  moreover have "freestates ds p fl = Some (?ds, Some d)" using p(1) 1(1) 2(1) by (subst freestates.simps) simp
  moreover have "mset (d # fs2) = mset (inorder (Node l d r)) + mset fs" using 1(3) 2(3) by simp
  moreover have "?ds ! i = ds ! i" if "i \<notin> set_tree (Node l d r)" for i using that 1(5) 2(5) by (simp add: nth_list_update_neq)
  ultimately show ?case using 1(4) 2(4) by (intro exI [of _ ?ds] exI [of _ "Some d"] exI [of _ "d # fs2"]) simp
qed

text \<open>Searching a tree, and the link where a new node goes.\<close>

fun hole :: "dfa_mem \<Rightarrow> nat tree \<Rightarrow> link \<Rightarrow> link \<Rightarrow> bool" where
  "hole m t dp Root \<longleftrightarrow> dp = Root \<and> t = Leaf"
| "hole m t dp (Left_Of d) \<longleftrightarrow> (if t = Leaf then dp = Left_Of d else d \<in> set_tree t) \<and> dleft (dstates m ! d) = None"
| "hole m t dp (Right_Of d) \<longleftrightarrow> (if t = Leaf then dp = Right_Of d else d \<in> set_tree t) \<and> dright (dstates m ! d) = None"

lemma find_dstate_tree:
  assumes "inj addr"
  shows "tree_at (dstates m) (read_link m dp) t \<Longrightarrow> \<exists>r. find_dstate addr m l dp = Some r \<and>
    (case r of Inl d \<Rightarrow> d \<in> set_tree t \<and> dl (dstates m ! d) = l | Inr dp' \<Rightarrow> hole m t dp dp')"
proof (induction t arbitrary: dp)
  case Leaf
  then show ?case by (subst find_dstate.simps) (cases dp; simp)
next
  case (Node l' d r')
  let ?i = "listcmp addr l (dl (dstates m ! d))"
  have p: "read_link m dp = Some d" "tree_at (dstates m) (read_link m (Left_Of d)) l'" "tree_at (dstates m) (read_link m (Right_Of d)) r'"
    using Node.prems by auto
  have lift: "hole m (Node l' d r') dp q" if "hole m l' (Left_Of d) q \<or> hole m r' (Right_Of d) q" for q
    using that by (cases q) (auto split: if_splits)
  consider "?i < 0" | "?i > 0" | "?i = 0" by linarith
  then show ?case
  proof cases
    case 1
    then have "find_dstate addr m l dp = find_dstate addr m l (Left_Of d)" by (subst find_dstate.simps) (simp add: p(1) Let_def)
    then show ?thesis using Node.IH(1) [OF p(2)] lift by (auto split: sum.splits)
  next
    case 2
    then have "find_dstate addr m l dp = find_dstate addr m l (Right_Of d)" by (subst find_dstate.simps) (simp add: p(1) Let_def)
    then show ?thesis using Node.IH(2) [OF p(3)] lift by (auto split: sum.splits)
  next
    case 3
    then show ?thesis using listcmp_eq [OF assms 3] by (subst find_dstate.simps) (simp add: p(1) Let_def)
  qed
qed

text \<open>A new node \<open>d\<close> at a free link of the node \<open>e\<close>.\<close>

lemma tree_at_insert:
  assumes new: "dleft (ds' ! d) = None" "dright (ds' ! d) = None"
    and e: "dleft (ds ! e) = None \<and> dleft (ds' ! e) = Some d \<and> dright (ds' ! e) = dright (ds ! e) \<or>
      dright (ds ! e) = None \<and> dright (ds' ! e) = Some d \<and> dleft (ds' ! e) = dleft (ds ! e)"
    and other: "\<And>i. i \<noteq> d \<Longrightarrow> i \<noteq> e \<Longrightarrow> dleft (ds' ! i) = dleft (ds ! i) \<and> dright (ds' ! i) = dright (ds ! i)"
  shows "tree_at ds p t \<Longrightarrow> e \<in> set_tree t \<Longrightarrow> distinct (inorder t) \<Longrightarrow> d \<notin> set_tree t \<Longrightarrow>
    \<exists>t'. tree_at ds' p t' \<and> mset (inorder t') = add_mset d (mset (inorder t))"
proof (induction t arbitrary: p)
  case (Node l a r)
  have frame: "tree_at ds' q u" if "tree_at ds q u" "set_tree u \<subseteq> set_tree (Node l a r)" "e \<notin> set_tree u" for q u
    using that Node.prems(4) by (intro tree_at_frame [OF that(1)] other) auto
  have p: "p = Some a" "tree_at ds (dleft (ds ! a)) l" "tree_at ds (dright (ds ! a)) r" using Node.prems(1) by auto
  have new_leaf: "tree_at ds' (Some d) (Node Leaf d Leaf)" using new by simp
  consider "a = e" | "e \<in> set_tree l" | "e \<in> set_tree r" using Node.prems(2) by auto
  then show ?case
  proof cases
    case 1
    then have f: "tree_at ds' (dleft (ds ! e)) l" "tree_at ds' (dright (ds ! e)) r" using p(2,3) Node.prems(3) by (auto intro!: frame)
    from e show ?thesis
    proof
      assume e: "dleft (ds ! e) = None \<and> dleft (ds' ! e) = Some d \<and> dright (ds' ! e) = dright (ds ! e)"
      then have "l = Leaf" using p(2) 1 by simp
      then show ?thesis using e f p(1) 1 new_leaf by (intro exI [of _ "Node (Node Leaf d Leaf) e r"]) simp
    next
      assume e: "dright (ds ! e) = None \<and> dright (ds' ! e) = Some d \<and> dleft (ds' ! e) = dleft (ds ! e)"
      then have "r = Leaf" using p(3) 1 by simp
      then show ?thesis using e f p(1) 1 new_leaf by (intro exI [of _ "Node l e (Node Leaf d Leaf)"]) simp
    qed
  next
    case 2
    then obtain l' where l': "tree_at ds' (dleft (ds ! a)) l'" "mset (inorder l') = add_mset d (mset (inorder l))"
      using Node.IH(1) [OF p(2)] Node.prems(3,4) by auto
    have "a \<noteq> e" "a \<noteq> d" "tree_at ds' (dright (ds ! a)) r" using 2 Node.prems(3,4) p(3) by (auto intro!: frame)
    then show ?thesis using l' p(1) other [of a] by (intro exI [of _ "Node l' a r"]) simp
  next
    case 3
    then obtain r' where r': "tree_at ds' (dright (ds ! a)) r'" "mset (inorder r') = add_mset d (mset (inorder r))"
      using Node.IH(2) [OF p(3)] Node.prems(3,4) by auto
    have "a \<noteq> e" "a \<noteq> d" "tree_at ds' (dleft (ds ! a)) l" using 3 Node.prems(3,4) p(2) by (auto intro!: frame)
    then show ?thesis using r' p(1) other [of a] by (intro exI [of _ "Node l a r'"]) simp
  qed
qed simp

section \<open>The invariant\<close>

text \<open>
  Every \<open>DState\<close> is in the tree, in the free list or among those taken out (\<open>xs\<close>), and only in one of them. Those in the
  tree have good lists and entries that lead to others in the tree.
\<close>

definition node_ok :: "state list \<Rightarrow> dstate list \<Rightarrow> nat set \<Rightarrow> nat \<Rightarrow> bool" where
  "node_ok h ds T d \<longleftrightarrow> list_ok h (dl (ds ! d)) \<and> length (dnext (ds ! d)) = 256 \<and>
     (\<forall>ch<256. \<forall>e. dnext (ds ! d) ! ch = Some e \<longrightarrow> e \<in> T \<and> next_ok h ds d ch e)"

definition brep :: "state list \<Rightarrow> dfa_mem \<Rightarrow> nat ptr \<Rightarrow> nat tree \<Rightarrow> nat list \<Rightarrow> nat list \<Rightarrow> bool" where
  "brep h c fl t fs xs \<longleftrightarrow> sim_ok h (nfa c) \<and> tree_at (dstates c) (alldstates c) t \<and> free_at (dstates c) fl fs \<and>
     distinct (xs @ inorder t @ fs) \<and> set xs \<union> set_tree t \<union> set fs = {..<length (dstates c)} \<and>
     int (length (dstates c)) \<le> maxstates \<and> (\<forall>d\<in>set_tree t. node_ok h (dstates c) (set_tree t) d)"

definition bounded_rep :: "state list \<Rightarrow> bounded_mem \<Rightarrow> nat tree \<Rightarrow> nat list \<Rightarrow> bool" where
  "bounded_rep h m t fs \<longleftrightarrow> brep h (cache m) (freelist m) t fs [] \<and> nstates m = int (size t)"

lemma brepD:
  assumes "brep h c fl t fs xs"
  shows "sim_ok h (nfa c)" "tree_at (dstates c) (alldstates c) t" "free_at (dstates c) fl fs" "distinct (xs @ inorder t @ fs)"
    "set xs \<union> set_tree t \<union> set fs = {..<length (dstates c)}" "int (length (dstates c)) \<le> maxstates"
    "\<And>d. d \<in> set_tree t \<Longrightarrow> node_ok h (dstates c) (set_tree t) d"
  using assms by (auto simp: brep_def)

lemma brep_length: "brep h c fl t fs xs \<Longrightarrow> length (dstates c) = length xs + size t + length fs"
  using distinct_card [of "xs @ inorder t @ fs"] by (simp add: brep_def Un_assoc)

lemma node_ok_frame:
  assumes "node_ok h ds T d" "length ds \<le> length ds'" "d \<in> T" "\<And>e. e \<in> T \<Longrightarrow> dl (ds' ! e) = dl (ds ! e) \<and> dnext (ds' ! e) = dnext (ds ! e)"
    "T \<subseteq> T'"
  shows "node_ok h ds' T' d"
  using assms by (fastforce simp: node_ok_def next_ok_def)

lemma freecache_rep:
  assumes "bounded_rep h m t fs"
  shows "\<exists>m' fs'. freecache m = Some m' \<and> bounded_rep h m' Leaf fs' \<and> nfa (cache m') = nfa (cache m) \<and>
    length (dstates (cache m')) = length (dstates (cache m))"
proof -
  have b: "brep h (cache m) (freelist m) t fs []" using assms by (simp add: bounded_rep_def)
  note B = brepD [OF b]
  obtain ds fl fs' where f: "freestates (dstates (cache m)) (alldstates (cache m)) (freelist m) = Some (ds, fl)" "free_at ds fl fs'"
    "mset fs' = mset (inorder t @ fs)" "length ds = length (dstates (cache m))"
    using freestates_frees [OF B(2,3)] B(4,5) by auto
  let ?m = "m\<lparr>cache := (cache m)\<lparr>dstates := ds, alldstates := None\<rparr>, freelist := fl, nstates := 0\<rparr>"
  have "distinct fs'" "set fs' = set_tree t \<union> set fs"
    using B(4) mset_eq_imp_distinct_iff [OF f(3)] mset_eq_setD [OF f(3)] by auto
  then have "bounded_rep h ?m Leaf fs'" using B f by (simp add: bounded_rep_def brep_def)
  then show ?thesis using f by (auto simp: freecache_def)
qed

text \<open>Taking a node from the free list, or a new one when that is empty.\<close>

lemma allocdstate_rep:
  assumes "bounded_rep h m t fs" "int (size t) < maxstates" "allocdstate m = (m', d)"
  shows "\<exists>fs'. brep h (cache m') (freelist m') t fs' [d] \<and> nstates m' = nstates m \<and> nfa (cache m') = nfa (cache m) \<and>
    alldstates (cache m') = alldstates (cache m) \<and> (\<forall>e\<in>set_tree t. dstates (cache m') ! e = dstates (cache m) ! e) \<and>
    dleft (dstates (cache m') ! d) = None \<and> dright (dstates (cache m') ! d) = None \<and>
    dnext (dstates (cache m') ! d) = replicate 256 None"
proof (cases "freelist m")
  case None
  let ?ds = "dstates (cache m)" and ?x = "\<lparr>dl = [], dnext = replicate 256 None, dleft = None, dright = None\<rparr>"
  have b: "brep h (cache m) (freelist m) t fs []" using assms(1) by (simp add: bounded_rep_def)
  note B = brepD [OF b]
  have f: "fs = []" using B(3) None by (cases fs) auto
  have len: "length ?ds = size t" using brep_length [OF b] f by simp
  have m': "m' = m\<lparr>cache := (cache m)\<lparr>dstates := ?ds @ [?x]\<rparr>\<rparr>" "d = length ?ds" using assms(3) None by (auto simp: allocdstate_def Let_def)
  have lt: "e < length ?ds" if "e \<in> set_tree t" for e using B(5) that by auto
  then have same: "(?ds @ [?x]) ! e = ?ds ! e" if "e \<in> set_tree t" for e using that by (simp add: nth_append)
  have "tree_at (?ds @ [?x]) (alldstates (cache m)) t" by (rule tree_at_frame [OF B(2)]) (simp add: same)
  moreover have "node_ok h (?ds @ [?x]) (set_tree t) e" if "e \<in> set_tree t" for e
    by (rule node_ok_frame [OF B(7) [OF that]]) (use that same in auto)
  moreover have "set (d # inorder t) = {..<length (?ds @ [?x])}" using B(5) f m'(2) by (simp add: lessThan_Suc)
  moreover have "int (length (?ds @ [?x])) \<le> maxstates" using len assms(2) by simp
  ultimately have "brep h (cache m') (freelist m') t [] [d]" using B(1,4) m' None lt f by (auto simp: brep_def)
  then show ?thesis using m' same by (intro exI [of _ "[]"]) simp
next
  case (Some a)
  let ?ds = "dstates (cache m)"
  let ?x = "(?ds ! a)\<lparr>dleft := None, dright := None, dnext := replicate 256 None\<rparr>"
  have b: "brep h (cache m) (freelist m) t fs []" using assms(1) by (simp add: bounded_rep_def)
  note B = brepD [OF b]
  have d: "d = a" using assms(3) Some by (simp add: allocdstate_def Let_def)
  then obtain fs' where f: "fs = d # fs'" "free_at ?ds (dleft (?ds ! d)) fs'" using B(3) Some by (cases fs) auto
  have m': "m' = m\<lparr>freelist := dleft (?ds ! d), cache := (cache m)\<lparr>dstates := ?ds[d := ?x]\<rparr>\<rparr>"
    using assms(3) Some d by (simp add: allocdstate_def Let_def)
  have nd: "d \<notin> set_tree t" "d \<notin> set fs'" "d < length ?ds" using B(4,5) f(1) by auto
  then have same: "?ds[d := ?x] ! e = ?ds ! e" if "e \<in> set_tree t" for e using that by (auto simp: nth_list_update)
  have "tree_at (?ds[d := ?x]) (alldstates (cache m)) t" by (rule tree_at_frame [OF B(2)]) (simp add: same)
  moreover have "free_at (?ds[d := ?x]) (dleft (?ds ! d)) fs'" by (rule free_at_frame [OF f(2)]) (use nd in \<open>auto simp: nth_list_update\<close>)
  moreover have "node_ok h (?ds[d := ?x]) (set_tree t) e" if "e \<in> set_tree t" for e
    by (rule node_ok_frame [OF B(7) [OF that]]) (use that same in auto)
  moreover have "set [d] \<union> set_tree t \<union> set fs' = set [] \<union> set_tree t \<union> set fs" by (auto simp: f(1))
  then have "set [d] \<union> set_tree t \<union> set fs' = {..<length ?ds}" by (simp only: B(5))
  moreover have "distinct ([d] @ inorder t @ fs')" using B(4) f(1) by auto
  ultimately have "brep h (cache m') (freelist m') t fs' [d]" using B(1,6) m' by (simp add: brep_def)
  then show ?thesis using m' same nd by (intro exI [of _ fs']) simp
qed

text \<open>Hanging it into the tree.\<close>

lemma write_link_rep:
  assumes b: "brep h c fl t fs [d]" and new: "dleft (dstates c ! d) = None" "dright (dstates c ! d) = None"
    "dnext (dstates c ! d) = replicate 256 None" "list_ok h (dl (dstates c ! d))" and hole: "hole c t Root dp"
  shows "\<exists>t'. brep h (write_link c dp (Some d)) fl t' fs [] \<and> size t' = Suc (size t) \<and> set_tree t' = insert d (set_tree t)"
proof -
  note B = brepD [OF b]
  let ?c = "write_link c dp (Some d)"
  have d: "d \<notin> set_tree t" "d \<notin> set fs" "d < length (dstates c)" "distinct (inorder t)" using B(4,5) by auto
  have e: "e \<in> set_tree t" "e < length (dstates c)" if "dp = Left_Of e \<or> dp = Right_Of e" for e
  proof -
    show "e \<in> set_tree t" using hole that by (cases dp) (auto split: if_splits)
    then show "e < length (dstates c)" using B(5) by blast
  qed
  have links: "dleft (dstates ?c ! i) = (if dp = Left_Of i then Some d else dleft (dstates c ! i))"
    "dright (dstates ?c ! i) = (if dp = Right_Of i then Some d else dright (dstates c ! i))" for i
    using e(2) by (cases dp; cases "i < length (dstates c)"; simp add: nth_list_update list_update_beyond)+
  have "\<exists>t'. tree_at (dstates ?c) (alldstates ?c) t' \<and> mset (inorder t') = add_mset d (mset (inorder t))"
  proof (cases dp)
    case Root
    then show ?thesis using hole new links by (intro exI [of _ "Node Leaf d Leaf"]) simp
  next
    case (Left_Of e')
    then show ?thesis using hole new d e(1) links
      by (intro tree_at_insert [where e = e', OF _ _ _ _ _ _ d(4,1)]) (auto simp: B(2))
  next
    case (Right_Of e')
    then show ?thesis using hole new d e(1) links
      by (intro tree_at_insert [where e = e', OF _ _ _ _ _ _ d(4,1)]) (auto simp: B(2))
  qed
  then obtain t' where t': "tree_at (dstates ?c) (alldstates ?c) t'" "mset (inorder t') = mset (d # inorder t)" by auto
  have s: "set_tree t' = insert d (set_tree t)" "size t' = Suc (size t)" "distinct (inorder t')"
    using mset_eq_setD [OF t'(2)] mset_eq_length [OF t'(2)] mset_eq_imp_distinct_iff [OF t'(2)] d by simp_all
  have "free_at (dstates ?c) fl fs" by (rule free_at_frame [OF B(3)]) (use links e(1) B(4) in auto)
  moreover have "node_ok h (dstates ?c) (set_tree t') i" if "i \<in> set_tree t'" for i
  proof (cases "i = d")
    case True
    then show ?thesis using new by (simp add: node_ok_def)
  next
    case False
    then have "i \<in> set_tree t" using that s by simp
    then show ?thesis by (intro node_ok_frame [OF B(7)]) (auto simp: s)
  qed
  moreover have "set_tree t' \<union> set fs = set [d] \<union> set_tree t \<union> set fs" by (auto simp: s(1))
  then have "set_tree t' \<union> set fs = {..<length (dstates c)}" by (simp only: B(5))
  moreover have "distinct (inorder t' @ fs)" using B(4) s by auto
  ultimately have "brep h ?c fl t' fs []" using B(1,6) t'(1) by (simp add: brep_def)
  then show ?thesis using s by blast
qed

lemma set_dl_simps [simp]: "nfa (set_dl c d l) = nfa c" "alldstates (set_dl c d l) = alldstates c"
  "length (dstates (set_dl c d l)) = length (dstates c)"
  "dleft (dstates (set_dl c d l) ! i) = dleft (dstates c ! i)" "dright (dstates (set_dl c d l) ! i) = dright (dstates c ! i)"
  "dnext (dstates (set_dl c d l) ! i) = dnext (dstates c ! i)"
  by (simp_all add: set_dl_def nth_update_field [of dleft] nth_update_field [of dright] nth_update_field [of dnext])

lemma set_dl_nth: "d < length (dstates c) \<Longrightarrow> dl (dstates (set_dl c d l) ! i) = (if i = d then l else dl (dstates c ! i))"
  by (simp add: set_dl_def nth_list_update)

lemma set_dl_rep:
  assumes "brep h c fl t fs [d]"
  shows "brep h (set_dl c d l) fl t fs [d]"
proof -
  note B = brepD [OF assms]
  have d: "d < length (dstates c)" "d \<notin> set_tree t" using B(4,5) by auto
  have "tree_at (dstates (set_dl c d l)) (alldstates c) t" by (rule tree_at_frame [OF B(2)]) simp
  moreover have "free_at (dstates (set_dl c d l)) fl fs" by (rule free_at_frame [OF B(3)]) simp
  moreover have "node_ok h (dstates (set_dl c d l)) (set_tree t) e" if "e \<in> set_tree t" for e
    by (rule node_ok_frame [OF B(7) [OF that]]) (use that d in \<open>auto simp: set_dl_nth\<close>)
  ultimately show ?thesis using B(1,4,5,6) by (simp add: brep_def)
qed

lemma set_next_simps [simp]: "nfa (set_next c e ch d) = nfa c" "alldstates (set_next c e ch d) = alldstates c"
  "length (dstates (set_next c e ch d)) = length (dstates c)" "dl (dstates (set_next c e ch d) ! i) = dl (dstates c ! i)"
  "dleft (dstates (set_next c e ch d) ! i) = dleft (dstates c ! i)" "dright (dstates (set_next c e ch d) ! i) = dright (dstates c ! i)"
  by (simp_all add: set_next_def nth_update_field [of dl] nth_update_field [of dleft] nth_update_field [of dright])

lemma set_next_rep:
  assumes "brep h c fl t fs []" "e \<in> set_tree t" "d \<in> set_tree t" "ch < 256" "next_ok h (dstates c) e ch d"
  shows "brep h (set_next c e ch d) fl t fs []"
proof -
  note B = brepD [OF assms(1)]
  let ?ds = "dstates (set_next c e ch d)"
  have "e < length (dstates c)" using B(5) assms(2) by auto
  then have nx: "dnext (?ds ! i) = (if i = e then (dnext (dstates c ! e))[ch := Some d] else dnext (dstates c ! i))" for i
    by (simp add: set_next_def nth_list_update)
  have "tree_at ?ds (alldstates c) t" by (rule tree_at_frame [OF B(2)]) simp
  moreover have "free_at ?ds fl fs" by (rule free_at_frame [OF B(3)]) simp
  moreover have "node_ok h ?ds (set_tree t) i" if "i \<in> set_tree t" for i
  proof -
    have n: "node_ok h (dstates c) (set_tree t) i" using B(7) [OF that] .
    have same: "next_ok h ?ds i ch' e' = next_ok h (dstates c) i ch' e'" for ch' e' by (rule next_ok_cong) simp_all
    show ?thesis using n assms(3-5) by (auto simp: node_ok_def same nx nth_list_update split: if_splits)
  qed
  ultimately show ?thesis using B(1,4,5,6) by (simp add: brep_def)
qed

section \<open>Matching\<close>

text \<open>What \<open>nextp\<close> has to be for the list \<open>l\<close>.\<close>

definition entry_ok :: "state list \<Rightarrow> dstate list \<Rightarrow> nat set \<Rightarrow> sref list \<Rightarrow> (nat \<times> nat) option \<Rightarrow> bool" where
  "entry_ok h ds T l nextp \<longleftrightarrow> (case nextp of None \<Rightarrow> True | Some (e, ch) \<Rightarrow>
     e \<in> T \<and> ch < 256 \<and> (\<forall>w. list_acc h l w \<longleftrightarrow> list_acc h (dl (ds ! e)) (int ch # w)))"

text \<open>A new \<open>DState\<close> for the list \<open>l\<close>, when there is room in the cache.\<close>

lemma add_dstate:
  assumes m: "bounded_rep h m t fs" and room: "int (size t) < maxstates" and hole: "hole (cache m) t Root dp" and l: "list_ok h l"
    and nextp: "entry_ok h (dstates (cache m)) (set_tree t) l nextp" and alloc: "allocdstate m = (m1, d)"
  defines "c \<equiv> write_link (set_dl (cache m1) d l) dp (Some d)"
  defines "c' \<equiv> (case nextp of None \<Rightarrow> c | Some (e, ch) \<Rightarrow> set_next c e ch d)"
  shows "\<exists>t' fs'. bounded_rep h (m1\<lparr>cache := c', nstates := nstates m1 + 1\<rparr>) t' fs' \<and> d \<in> set_tree t' \<and> dl (dstates c' ! d) = l \<and>
    nfa c' = nfa (cache m) \<and> nfa (cache m1) = nfa (cache m)"
proof -
  obtain fs' where a: "brep h (cache m1) (freelist m1) t fs' [d]" "nstates m1 = nstates m" "nfa (cache m1) = nfa (cache m)"
    "alldstates (cache m1) = alldstates (cache m)" "\<forall>e\<in>set_tree t. dstates (cache m1) ! e = dstates (cache m) ! e"
    "dleft (dstates (cache m1) ! d) = None" "dright (dstates (cache m1) ! d) = None"
    "dnext (dstates (cache m1) ! d) = replicate 256 None" using allocdstate_rep [OF m room alloc] by blast
  have d: "d < length (dstates (cache m1))" "d \<notin> set_tree t" using brepD(4,5) [OF a(1)] by auto
  have "hole (set_dl (cache m1) d l) t Root dp" using hole a(5) by (cases dp) (auto split: if_splits)
  then have "\<exists>t'. brep h c (freelist m1) t' fs' [] \<and> size t' = Suc (size t) \<and> set_tree t' = insert d (set_tree t)"
    unfolding c_def using a(6-8) l d by (intro write_link_rep [OF set_dl_rep [OF a(1)]]) (simp_all add: set_dl_nth)
  then obtain t' where t': "brep h c (freelist m1) t' fs' []" "size t' = Suc (size t)" "set_tree t' = insert d (set_tree t)" by blast
  have dl: "dl (dstates c ! i) = (if i = d then l else dl (dstates (cache m1) ! i))" for i using d by (simp add: c_def set_dl_nth)
  have len: "length (dstates c) = length (dstates (cache m1))" by (simp add: c_def)
  have "brep h c' (freelist m1) t' fs' []"
  proof (cases nextp)
    case (Some ec)
    obtain e ch where ec: "ec = (e, ch)" by (cases ec)
    then have e: "e \<in> set_tree t" "ch < 256" "\<And>w. list_acc h l w \<longleftrightarrow> list_acc h (dl (dstates (cache m) ! e)) (int ch # w)"
      using nextp Some by (auto simp: entry_ok_def)
    then have "next_ok h (dstates c) e ch d" using d a(5) by (auto simp: next_ok_def dl len)
    then show ?thesis using set_next_rep [OF t'(1), of e d ch] e t'(3) Some ec by (simp add: c'_def)
  qed (use t'(1) in \<open>simp add: c'_def\<close>)
  moreover have "dl (dstates c' ! d) = l" "nfa c' = nfa (cache m)" using a(3) dl by (auto simp: c'_def c_def split: option.splits)
  ultimately show ?thesis using m t' a(2,3) by (intro exI [of _ t'] exI [of _ fs']) (simp add: bounded_rep_def)
qed

lemma bounded_dstate_ok:
  assumes m: "bounded_rep h m t fs" and addr: "inj addr" and q: "\<And>l. mset (qsort l) = mset l" and l: "list_ok h l"
    and nextp: "entry_ok h (dstates (cache m)) (set_tree t) l nextp"
  shows "\<exists>m' d t' fs'. bounded_dstate addr qsort m l nextp = Some (m', d) \<and> bounded_rep h m' t' fs' \<and> d \<in> set_tree t' \<and>
    list_acc h (dl (dstates (cache m') ! d)) = list_acc h l \<and> nfa (cache m') = nfa (cache m)"
proof -
  have b: "brep h (cache m) (freelist m) t fs []" "nstates m = int (size t)" using m by (auto simp: bounded_rep_def)
  have ql: "list_ok h (qsort l)" "list_acc h (qsort l) = list_acc h l" using qsort_ok [of qsort l h] q l by auto
  have sim: "sim_ok h (nfa (cache m))" using brepD(1) [OF b(1)] .
  have fits: "length (qsort l) \<le> length (nfa_mem.heap (nfa (cache m)))"
    using list_ok_length [OF _ ql(1)] sim by (auto simp: sim_ok_def same_shape_def)
  obtain r where r: "find_dstate addr (cache m) (qsort l) Root = Some r"
    "case r of Inl d \<Rightarrow> d \<in> set_tree t \<and> dl (dstates (cache m) ! d) = qsort l | Inr dp \<Rightarrow> hole (cache m) t Root dp"
    using find_dstate_tree [OF addr, of "cache m" Root t "qsort l"] brepD(2) [OF b(1)] by auto
  show ?thesis
  proof (cases r)
    case (Inl d)
    then show ?thesis using r ql m by (auto simp: bounded_dstate_def)
  next
    case (Inr dp)
    show ?thesis
    proof (cases "nstates m \<ge> maxstates")
      case False
      obtain m1 d where a: "allocdstate m = (m1, d)" by fastforce
      have "entry_ok h (dstates (cache m)) (set_tree t) (qsort l) nextp" using nextp ql(2) by (auto simp: entry_ok_def split: option.splits)
      from add_dstate [OF m _ _ ql(1) this a, of dp] show ?thesis
        using False b(2) r Inr ql(2) a fits by (fastforce simp: bounded_dstate_def Let_def)
    next
      case True
      obtain m0 fs0 where f: "freecache m = Some m0" "bounded_rep h m0 Leaf fs0" "nfa (cache m0) = nfa (cache m)"
        using freecache_rep [OF m] by blast
      obtain m1 d where a: "allocdstate m0 = (m1, d)" by fastforce
      have "entry_ok h (dstates (cache m0)) (set_tree Leaf) (qsort l) None" by (simp add: entry_ok_def)
      from add_dstate [OF f(2) _ _ ql(1) this a, of Root] show ?thesis
        using True r Inr ql(2) a f fits by (fastforce simp: bounded_dstate_def Let_def maxstates_def)
    qed
  qed
qed

text \<open>The \<open>DState\<close> \<open>d\<close> is in the cache of a memory that is in order.\<close>

definition cached :: "state list \<Rightarrow> bounded_mem \<Rightarrow> nat \<Rightarrow> bool" where
  "cached h m d \<longleftrightarrow> (\<exists>t fs. bounded_rep h m t fs \<and> d \<in> set_tree t)"

definition bounded_ok :: "state list \<Rightarrow> bounded_mem \<Rightarrow> bool" where
  "bounded_ok h m \<longleftrightarrow> (\<exists>t fs. bounded_rep h m t fs)"

lemma bounded_okD: "bounded_ok h m \<Longrightarrow> sim_ok h (nfa (cache m)) \<and> int (length (dstates (cache m))) \<le> maxstates"
  by (auto simp: bounded_ok_def bounded_rep_def brep_def)

lemma cached_ok: "cached h m d \<Longrightarrow> bounded_ok h m"
  by (auto simp: cached_def bounded_ok_def)

lemma bounded_rep_nfa: "bounded_rep h m t fs \<Longrightarrow> sim_ok h n \<Longrightarrow> bounded_rep h (m\<lparr>cache := (cache m)\<lparr>nfa := n\<rparr>\<rparr>) t fs"
  by (simp add: bounded_rep_def brep_def)

lemma cachedD:
  assumes "cached h m d"
  shows "list_ok h (dl (dstates (cache m) ! d))"
    "\<And>ch e. ch < 256 \<Longrightarrow> dnext (dstates (cache m) ! d) ! ch = Some e \<Longrightarrow> cached h m e \<and>
      (\<forall>w. list_acc h (dl (dstates (cache m) ! e)) w \<longleftrightarrow> list_acc h (dl (dstates (cache m) ! d)) (int ch # w))"
proof -
  obtain t fs where t: "bounded_rep h m t fs" "d \<in> set_tree t" using assms by (auto simp: cached_def)
  then have n: "node_ok h (dstates (cache m)) (set_tree t) d" by (auto simp: bounded_rep_def brep_def)
  then show "list_ok h (dl (dstates (cache m) ! d))" by (simp add: node_ok_def)
  show "cached h m e \<and> (\<forall>w. list_acc h (dl (dstates (cache m) ! e)) w \<longleftrightarrow> list_acc h (dl (dstates (cache m) ! d)) (int ch # w))"
    if "ch < 256" "dnext (dstates (cache m) ! d) ! ch = Some e" for ch e
    using n that t(1) by (auto simp: node_ok_def next_ok_def cached_def)
qed

lemma bounded_nextstate_ok:
  assumes "cached h m d" "inj addr" "\<And>l. mset (qsort l) = mset l" "listid (nfa (cache m)) < INT_MAX"
  shows "\<exists>m' d'. bounded_nextstate addr qsort m d ch = Some (m', d') \<and> cached h m' d' \<and>
    listid (nfa (cache m')) = listid (nfa (cache m)) + 1 \<and>
    (\<forall>w. list_acc h (dl (dstates (cache m') ! d')) w \<longleftrightarrow> list_acc h (dl (dstates (cache m) ! d)) (uint ch # w))"
proof -
  obtain t fs where t: "bounded_rep h m t fs" "d \<in> set_tree t" using assms(1) by (auto simp: cached_def)
  have "uint ch \<noteq> Match" using uint_lt2p [of ch] by (simp add: Match_def)
  moreover have "sim_ok h (nfa (cache m))" using bounded_okD [OF cached_ok [OF assms(1)]] by simp
  ultimately obtain n l where n: "step (nfa (cache m)) (dl (dstates (cache m) ! d)) (uint ch) = Some (n, l)" "sim_ok h n"
    "listid n = listid (nfa (cache m)) + 1" "list_ok h l" "\<And>w. list_acc h l w \<longleftrightarrow> list_acc h (dl (dstates (cache m) ! d)) (uint ch # w)"
    using step_fills [OF _ assms(4) cachedD(1) [OF assms(1)]] unfolding list_acc_def by blast
  have "entry_ok h (dstates (cache (m\<lparr>cache := (cache m)\<lparr>nfa := n\<rparr>\<rparr>))) (set_tree t) l (Some (d, unat ch))"
    using t(2) n(5) unat8_less [of ch] by (simp add: entry_ok_def)
  from bounded_dstate_ok [OF bounded_rep_nfa [OF t(1) n(2)] assms(2,3) n(4) this] obtain m' d' t' fs' where
    "bounded_dstate addr qsort (m\<lparr>cache := (cache m)\<lparr>nfa := n\<rparr>\<rparr>) l (Some (d, unat ch)) = Some (m', d')" "bounded_rep h m' t' fs'"
    "d' \<in> set_tree t'" "list_acc h (dl (dstates (cache m') ! d')) = list_acc h l" "nfa (cache m') = n" by auto
  then show ?thesis using n by (intro exI [of _ m'] exI [of _ d']) (auto simp: bounded_nextstate_def cached_def)
qed

lemma bounded_match_loop_ok:
  assumes "inj addr" "\<And>l. mset (qsort l) = mset l"
  shows "cached h m d \<Longrightarrow> listid (nfa (cache m)) + int (length s) \<le> INT_MAX \<Longrightarrow>
    \<exists>m' d'. bounded_match_loop addr qsort m d s = Some (m', d') \<and> cached h m' d' \<and>
      listid (nfa (cache m')) \<le> listid (nfa (cache m)) + int (length s) \<and>
      (list_acc h (dl (dstates (cache m') ! d')) [] \<longleftrightarrow> list_acc h (dl (dstates (cache m) ! d)) (map uint s))"
proof (induction s arbitrary: m d)
  case (Cons ch s)
  show ?case
  proof (cases "dnext (dstates (cache m) ! d) ! unat ch")
    case (Some e)
    then have "cached h m e" "\<And>w. list_acc h (dl (dstates (cache m) ! e)) w \<longleftrightarrow> list_acc h (dl (dstates (cache m) ! d)) (uint ch # w)"
      using cachedD(2) [OF Cons.prems(1) unat8_less Some] by auto
    then show ?thesis using Cons.IH [of m e] Cons.prems(2) Some by fastforce
  next
    case None
    have "listid (nfa (cache m)) < INT_MAX" using Cons.prems(2) by simp
    then obtain m1 e where e: "bounded_nextstate addr qsort m d ch = Some (m1, e)" "cached h m1 e"
      "listid (nfa (cache m1)) = listid (nfa (cache m)) + 1"
      "\<forall>w. list_acc h (dl (dstates (cache m1) ! e)) w \<longleftrightarrow> list_acc h (dl (dstates (cache m) ! d)) (uint ch # w)"
      using bounded_nextstate_ok [OF Cons.prems(1) assms] by blast
    then show ?thesis using Cons.IH [OF e(2)] Cons.prems(2) None by fastforce
  qed
qed simp

lemma bounded_match_correct:
  assumes "inj addr" "\<And>l. mset (qsort l) = mset l" "bounded_ok h m" "sref_ok (length h) start"
    "listid (nfa (cache m)) + int (length s) < INT_MAX"
  shows "\<exists>m1 d m2. bounded_startdstate addr qsort m start = Some (m1, d) \<and>
    bounded_match addr qsort m1 d s = Some (m2, acc h (To start) (map uint s)) \<and> bounded_ok h m2 \<and>
    listid (nfa (cache m2)) \<le> listid (nfa (cache m)) + int (length s) + 1"
proof -
  obtain t fs where t: "bounded_rep h m t fs" using assms(3) by (auto simp: bounded_ok_def)
  obtain n l where n: "startlist (nfa (cache m)) start = Some (n, l)" "fills h (nfa (cache m)) {To start} n l"
    using startlist_fills [OF _ _ assms(4)] bounded_okD [OF assms(3)] assms(5) by fastforce
  then have l: "sim_ok h n" "listid n = listid (nfa (cache m)) + 1" "list_ok h l" "\<And>w. list_acc h l w \<longleftrightarrow> acc h (To start) w"
    by (auto simp: fills_def list_acc_def)
  let ?m = "m\<lparr>cache := (cache m)\<lparr>nfa := n\<rparr>\<rparr>"
  have "entry_ok h (dstates (cache ?m)) (set_tree t) l None" by (simp add: entry_ok_def)
  from bounded_dstate_ok [OF bounded_rep_nfa [OF t l(1)] assms(1,2) l(3) this] obtain m1 d t' fs' where
    1: "bounded_dstate addr qsort ?m l None = Some (m1, d)" "bounded_rep h m1 t' fs'" "d \<in> set_tree t'"
    "list_acc h (dl (dstates (cache m1) ! d)) = list_acc h l" "nfa (cache m1) = n" by auto
  then have "cached h m1 d" by (auto simp: cached_def)
  moreover have "listid (nfa (cache m1)) + int (length s) \<le> INT_MAX" using assms(5) l(2) 1(5) by simp
  ultimately obtain m2 d2 where 2: "bounded_match_loop addr qsort m1 d s = Some (m2, d2)" "cached h m2 d2"
    "listid (nfa (cache m2)) \<le> listid (nfa (cache m1)) + int (length s)"
    "list_acc h (dl (dstates (cache m2) ! d2)) [] \<longleftrightarrow> list_acc h (dl (dstates (cache m1) ! d)) (map uint s)"
    using bounded_match_loop_ok [OF assms(1,2)] by blast
  have "ismatch (dl (dstates (cache m2) ! d2)) \<longleftrightarrow> acc h (To start) (map uint s)"
    using ismatch_acc [OF cachedD(1) [OF 2(2)]] 2(4) 1(4) l(4) by (simp add: list_acc_def)
  then show ?thesis using n(1) 1(1,5) 2 l(2) cached_ok [OF 2(2)] by (simp add: bounded_startdstate_def bounded_match_def)
qed

lemma bounded_main_loop_correct:
  assumes "inj addr" "\<And>l. mset (qsort l) = mset l"
  shows "bounded_ok h m \<Longrightarrow> sref_ok (length h) start \<Longrightarrow> listid (nfa (cache m)) + steps ss \<le> INT_MAX \<Longrightarrow>
     \<exists>m'. bounded_main_loop addr qsort m start ss = Some (m', filter (\<lambda>s. acc h (To start) (map uint s)) ss) \<and> bounded_ok h m'"
proof (induction ss arbitrary: m)
  case (Cons s ss)
  have "listid (nfa (cache m)) + int (length s) < INT_MAX" using Cons.prems(3) steps_nonneg [of ss] by (simp add: steps_def)
  then obtain m1 d m2 where m: "bounded_startdstate addr qsort m start = Some (m1, d)"
    "bounded_match addr qsort m1 d s = Some (m2, acc h (To start) (map uint s))" "bounded_ok h m2"
    "listid (nfa (cache m2)) \<le> listid (nfa (cache m)) + int (length s) + 1"
    using bounded_match_correct [OF assms Cons.prems(1,2)] by blast
  have "listid (nfa (cache m2)) + steps ss \<le> INT_MAX" using Cons.prems(3) m(4) by (simp add: steps_def)
  then show ?case using Cons.IH [OF m(3) Cons.prems(2)] m(1,2) by auto
qed simp

text \<open>C15: the program with the bounded cache prints what \<open>nfa.c\<close> prints, without a fault, for every order of the addresses and
  every permutation that \<open>qsort\<close> makes, and it never allocates more than \<open>maxstates\<close> \<open>DState\<close>s: no entry of a \<open>DState\<close> that was
  thrown away is followed, and a \<open>DState\<close> is not in the cache and in the free list at the same time.\<close>

theorem bounded_main_equals_nfa_main:
  assumes "inj addr" "\<forall>l. mset (qsort l) = mset l" "re_fits bs" "ss \<noteq> []" "steps ss \<le> INT_MAX"
  shows "\<exists>out k. bounded_main addr qsort (print_re bs # ss) = Some (0, out, k) \<and> nfa_main (print_re bs # ss) = Some (0, out) \<and>
    int k \<le> maxstates"
proof -
  obtain start h where c: "re2post (print_re bs) = Some (Some (post_re bs))" "post2nfa (Some (post_re bs)) = Some (Some start, h)"
    "sref_ok (length h) start" "sim_ok h \<lparr>heap = h, match_lastlist = 0, listid = 0\<rparr>"
    using compiled [OF assms(3)] by blast
  have q: "\<And>l. mset (qsort l) = mset l" using assms(2) by blast
  have two: "\<not> length (print_re bs # ss) < 2" using assms(4) by (cases ss) simp_all
  have "bounded_rep h (bounded_init h) Leaf []" using c(4)
    by (simp add: bounded_rep_def brep_def bounded_init_def maxstates_def)
  then have "bounded_ok h (bounded_init h)" by (auto simp: bounded_ok_def)
  moreover have "listid (nfa (cache (bounded_init h))) = 0" by (simp add: bounded_init_def)
  ultimately obtain m where m: "bounded_main_loop addr qsort (bounded_init h) start ss =
    Some (m, filter (\<lambda>s. acc h (To start) (map uint s)) ss)" "bounded_ok h m"
    using bounded_main_loop_correct [OF assms(1) q _ c(3)] assms(5) by fastforce
  then have "int (length (dstates (cache m))) \<le> maxstates" using bounded_okD by blast
  then show ?thesis using c m(1) nfa_main_loop_correct [OF c(4,3)] assms(5) two by (simp add: nfa_main_def bounded_main_def)
qed

theorem bounded_main_equals_nfa_main_witness:
  "\<exists>out k. bounded_main addr_of rev [[0x61, 0x2a], [], [0x62]] = Some (0, out, k) \<and>
    nfa_main [[0x61, 0x2a], [], [0x62]] = Some (0, out) \<and> int k \<le> maxstates"
proof -
  have "inj addr_of" by (auto simp: inj_def addr_of_def split: sref.splits)
  moreover have "steps [[], [0x62]] \<le> INT_MAX" by (simp add: steps_def INT_MAX_def)
  ultimately show ?thesis
    using bounded_main_equals_nfa_main [of addr_of rev, OF _ _ a_star(2), of "[[], [0x62]]"] unfolding a_star(1)
    by (metis list.distinct(1) mset_rev)
qed

end
