(* ===== verification/Nfa2dfa.thy ===== *)
theory Nfa2dfa
  imports Heap
begin

text \<open>
  The subset construction of \<open>c-study/dfa-about/nfa2dfa.c\<close>: a graph with named vertices and labelled edges, and a matrix whose
  first column holds the sets of states that were found, as arrays of their names, and whose other columns hold what each of
  them leads to. What the calls of \<open>scanf\<close> deliver are arguments. \<open>None\<close> is an access outside an array or
  through a null or dangling pointer.
\<close>

section \<open>Data\<close>

definition MAX_TN :: nat where "MAX_TN = 10"
definition INFINIT :: int where "INFINIT = 32767"
definition NumMaxChar :: nat where "NumMaxChar = 10"

record edge =
  dest :: int
  cost :: uint8_t
  elink :: "nat ptr"

record vertex =
  vdata :: uint8_t
  adj :: "nat ptr"

text \<open>\<open>edges\<close> is the heap of the edges.\<close>

record graph =
  NodeTable :: "vertex list"
  NumVertex :: int
  MaxNumVertex :: int
  NumEdge :: int
  edges :: "edge heap"

record tablenode =
  newname :: uint8_t
  ch :: "uint8_t list"

record tablequeue =
  TN :: "tablenode list"
  transword :: uint8_t
  NumTn :: int

record transmatrix =
  TQ :: "tablequeue list"
  transnum :: int

section \<open>The graph\<close>

definition GraphEmpty :: "graph \<Rightarrow> bool" where
  "GraphEmpty g \<longleftrightarrow> NumVertex g = 0"

definition GraphFull :: "graph \<Rightarrow> bool" where
  "GraphFull g \<longleftrightarrow> NumVertex g = MaxNumVertex g"

definition GetValue :: "graph \<Rightarrow> int \<Rightarrow> uint8_t option" where
  "GetValue g i = (if i > 0 \<and> i < NumVertex g then map_option vdata (rd (NodeTable g) i) else Some 0x20)"

definition Insert_Vertex :: "graph \<Rightarrow> uint8_t \<Rightarrow> graph option" where
  "Insert_Vertex g v = do {
     tab \<leftarrow> wr (NodeTable g) (NumVertex g) \<lparr>vdata = v, adj = None\<rparr>;
     Some (g\<lparr>NodeTable := tab, NumVertex := NumVertex g + 1\<rparr>) }"

definition Insert_Edge :: "graph \<Rightarrow> int \<Rightarrow> int \<Rightarrow> uint8_t \<Rightarrow> graph option" where
  "Insert_Edge g v1 v2 weight = do {
     v \<leftarrow> rd (NodeTable g) v1;
     tab \<leftarrow> wr (NodeTable g) v1 (v\<lparr>adj := Some (length (edges g))\<rparr>);
     Some (g\<lparr>NodeTable := tab, edges := edges g @ [Some \<lparr>dest = v2, cost = weight, elink = adj v\<rparr>]\<rparr>) }"

fun find_vertex :: "graph \<Rightarrow> uint8_t \<Rightarrow> int list \<Rightarrow> int option" where
  "find_vertex g v [] = Some INFINIT"
| "find_vertex g v (i # is) = do {
     x \<leftarrow> rd (NodeTable g) i;
     if vdata x = v then Some i else find_vertex g v is }"

definition GetVertexPos :: "graph \<Rightarrow> uint8_t \<Rightarrow> int option" where
  "GetVertexPos g v = find_vertex g v [0 .. NumVertex g - 1]"

fun insert_vertices :: "graph \<Rightarrow> uint8_t list \<Rightarrow> graph option" where
  "insert_vertices g [] = Some g"
| "insert_vertices g (name # names) = do { g \<leftarrow> Insert_Vertex g name; insert_vertices g names }"

fun insert_edges :: "graph \<Rightarrow> (uint8_t \<times> uint8_t \<times> uint8_t) list \<Rightarrow> graph option" where
  "insert_edges g [] = Some g"
| "insert_edges g ((tail, weight, head) # es) = do {
     k \<leftarrow> GetVertexPos g tail;
     j \<leftarrow> GetVertexPos g head;
     g \<leftarrow> Insert_Edge g k j weight;
     insert_edges g es }"

text \<open>\<open>junk\<close> is the contents of the new table.\<close>

definition Construct_Graph :: "vertex list \<Rightarrow> uint8_t list \<Rightarrow> (uint8_t \<times> uint8_t \<times> uint8_t) list \<Rightarrow> graph option" where
  "Construct_Graph junk names es = do {
     g \<leftarrow> insert_vertices \<lparr>NodeTable = junk, NumVertex = 0, MaxNumVertex = int MAX_TN, NumEdge = 0, edges = []\<rparr> names;
     insert_edges g es }"

text \<open>Freeing the edges of a vertex from the front.\<close>

partial_function (option) free_edges :: "graph \<Rightarrow> int \<Rightarrow> nat ptr \<Rightarrow> graph option" where
  [code]: "free_edges g i p = (if p = None then Some g
     else do {
       e \<leftarrow> deref (edges g) p;
       v \<leftarrow> rd (NodeTable g) i;
       tab \<leftarrow> wr (NodeTable g) i (v\<lparr>adj := elink e\<rparr>);
       es \<leftarrow> store (edges g) p (\<lambda>e. e\<lparr>elink := None\<rparr>);
       es \<leftarrow> release es p;
       v \<leftarrow> rd tab i;
       free_edges (g\<lparr>NodeTable := tab, edges := es\<rparr>) i (adj v) })"

fun free_vertices :: "graph \<Rightarrow> int list \<Rightarrow> graph option" where
  "free_vertices g [] = Some g"
| "free_vertices g (i # is) = do { v \<leftarrow> rd (NodeTable g) i; g \<leftarrow> free_edges g i (adj v); free_vertices g is }"

definition Destruct_Graph :: "graph \<Rightarrow> graph option" where
  "Destruct_Graph g = do {
     g \<leftarrow> free_vertices g [0 .. NumVertex g - 1];
     Some (g\<lparr>NumEdge := 0, NumVertex := 0\<rparr>) }"

text \<open>What is printed for each vertex: its name, that of the target, and the label.\<close>

partial_function (option) show_edges :: "graph \<Rightarrow> uint8_t \<Rightarrow> nat ptr \<Rightarrow> (uint8_t \<times> uint8_t \<times> uint8_t) list option" where
  [code]: "show_edges g v p = (if p = None then Some []
     else do {
       e \<leftarrow> deref (edges g) p;
       d \<leftarrow> rd (NodeTable g) (dest e);
       rest \<leftarrow> show_edges g v (elink e);
       Some ((v, vdata d, cost e) # rest) })"

fun show_vertices :: "graph \<Rightarrow> int list \<Rightarrow> (uint8_t \<times> uint8_t \<times> uint8_t) list list option" where
  "show_vertices g [] = Some []"
| "show_vertices g (i # is) = do {
     v \<leftarrow> rd (NodeTable g) i;
     line \<leftarrow> show_edges g (vdata v) (adj v);
     rest \<leftarrow> show_vertices g is;
     Some (line # rest) }"

definition Show_Graph :: "graph \<Rightarrow> (uint8_t \<times> uint8_t \<times> uint8_t) list list option" where
  "Show_Graph g = show_vertices g [0 .. NumVertex g - 1]"

section \<open>Sets of states\<close>

definition Init_Matrix :: "uint8_t list \<Rightarrow> transmatrix" where
  "Init_Matrix words =
     (let column = (\<lambda>w. \<lparr>TN = replicate MAX_TN \<lparr>newname = 0, ch = replicate NumMaxChar 0\<rparr>, transword = w, NumTn = 0\<rparr>)
      in \<lparr>TQ = map column (0x49 # words), transnum = int (length words)\<rparr>)"

text \<open>\<open>char\<close> is signed.\<close>

definition bubble_step :: "uint8_t list \<Rightarrow> int \<Rightarrow> uint8_t list option" where
  "bubble_step a j = do {
     x \<leftarrow> rd a j;
     y \<leftarrow> rd a (j + 1);
     if sint x > sint y then do { a \<leftarrow> wr a (j + 1) x; wr a j y } else Some a }"

fun bubble_pass :: "uint8_t list \<Rightarrow> int list \<Rightarrow> uint8_t list option" where
  "bubble_pass a [] = Some a"
| "bubble_pass a (j # js) = do { a \<leftarrow> bubble_step a j; bubble_pass a js }"

fun bubble_passes :: "uint8_t list \<Rightarrow> int \<Rightarrow> int list \<Rightarrow> uint8_t list option" where
  "bubble_passes a len [] = Some a"
| "bubble_passes a len (i # is) = do { a \<leftarrow> bubble_pass a [0 .. len - i - 2]; bubble_passes a len is }"

definition BubbleSort :: "uint8_t list \<Rightarrow> int \<Rightarrow> uint8_t list option" where
  "BubbleSort a len = bubble_passes a len [0 .. len - 1]"

fun check_chars :: "uint8_t list \<Rightarrow> uint8_t \<Rightarrow> int list \<Rightarrow> int option" where
  "check_chars t ti [] = Some 1"
| "check_chars t ti (i # is) = do { x \<leftarrow> rd t i; if x = ti then Some 0 else check_chars t ti is }"

definition CheckChar :: "uint8_t list \<Rightarrow> uint8_t \<Rightarrow> int option" where
  "CheckChar t ti = check_chars t ti [0 .. int NumMaxChar - 1]"

text \<open>\<open>!strcmp\<close> on two arrays.\<close>

fun strcmp_eq :: "uint8_t list \<Rightarrow> uint8_t list \<Rightarrow> bool option" where
  "strcmp_eq (a # as) (b # bs) = (if a \<noteq> b then Some False else if a = 0 then Some True else strcmp_eq as bs)"
| "strcmp_eq _ _ = None"

text \<open>\<open>strcpy\<close> of the string in the second array.\<close>

fun strcpy :: "uint8_t list \<Rightarrow> uint8_t list \<Rightarrow> uint8_t list option" where
  "strcpy (d # dst) (s # src) = (if s = 0 then Some (0 # dst) else map_option (Cons s) (strcpy dst src))"
| "strcpy _ _ = None"

text \<open>A node of the matrix, at a column and a row.\<close>

definition node :: "transmatrix \<Rightarrow> int \<Rightarrow> int \<Rightarrow> tablenode option" where
  "node TM i j = do { q \<leftarrow> rd (TQ TM) i; rd (TN q) j }"

definition set_node :: "transmatrix \<Rightarrow> int \<Rightarrow> int \<Rightarrow> tablenode \<Rightarrow> transmatrix option" where
  "set_node TM i j x = do {
     q \<leftarrow> rd (TQ TM) i;
     tn \<leftarrow> wr (TN q) j x;
     tq \<leftarrow> wr (TQ TM) i (q\<lparr>TN := tn\<rparr>);
     Some (TM\<lparr>TQ := tq\<rparr>) }"

fun check_rows :: "transmatrix \<Rightarrow> uint8_t list \<Rightarrow> int list \<Rightarrow> int option" where
  "check_rows TM str [] = Some 1"
| "check_rows TM str (i # is) = do {
     x \<leftarrow> node TM 0 i;
     eq \<leftarrow> strcmp_eq (ch x) str;
     if eq then Some i else check_rows TM str is }"

definition CheckTable :: "transmatrix \<Rightarrow> uint8_t list \<Rightarrow> int option" where
  "CheckTable TM str = do { q \<leftarrow> rd (TQ TM) 0; check_rows TM str [0 .. NumTn q - 1] }"

text \<open>\<open>while (t[k] != '\0') k++;\<close>\<close>

partial_function (option) str_end :: "uint8_t list \<Rightarrow> int \<Rightarrow> int option" where
  [code]: "str_end t k = do { x \<leftarrow> rd t k; if x \<noteq> 0 then str_end t (k + 1) else Some k }"

text \<open>The loop over the edges of a vertex, in \<open>Smove\<close> and in \<open>E_Closure\<close>: the targets of the edges labelled \<open>w\<close> that are not in the array
  are added at \<open>k\<close>.\<close>

partial_function (option) add_targets :: "graph \<Rightarrow> uint8_t \<Rightarrow> nat ptr \<Rightarrow> uint8_t list \<Rightarrow> int \<Rightarrow> (uint8_t list \<times> int) option" where
  [code]: "add_targets g w p t k = (if p = None then Some (t, k)
     else do {
       e \<leftarrow> deref (edges g) p;
       if cost e = w
       then do {
         v \<leftarrow> rd (NodeTable g) (dest e);
         check \<leftarrow> CheckChar t (vdata v);
         if check = 1
         then do { t \<leftarrow> wr t k (vdata v); add_targets g w (elink e) t (k + 1) }
         else add_targets g w (elink e) t k }
       else add_targets g w (elink e) t k })"

text \<open>The loop over the vertices, for those with the name \<open>c\<close>.\<close>

fun visit :: "graph \<Rightarrow> uint8_t \<Rightarrow> uint8_t \<Rightarrow> int list \<Rightarrow> uint8_t list \<Rightarrow> int \<Rightarrow> (uint8_t list \<times> int) option" where
  "visit g w c [] t k = Some (t, k)"
| "visit g w c (j # js) t k = do {
     v \<leftarrow> rd (NodeTable g) j;
     if vdata v = c
     then do { (t, k) \<leftarrow> add_targets g w (adj v) t k; visit g w c js t k }
     else visit g w c js t k }"

fun smove_loop :: "graph \<Rightarrow> uint8_t list \<Rightarrow> uint8_t \<Rightarrow> int list \<Rightarrow> uint8_t list \<Rightarrow> int \<Rightarrow> (uint8_t list \<times> int) option" where
  "smove_loop g t1 w [] t2 k = Some (t2, k)"
| "smove_loop g t1 w (i # is) t2 k = do {
     c \<leftarrow> rd t1 i;
     (t2, k) \<leftarrow> visit g w c [0 .. NumVertex g - 1] t2 k;
     smove_loop g t1 w is t2 k }"

definition Smove :: "graph \<Rightarrow> uint8_t list \<Rightarrow> uint8_t list \<Rightarrow> uint8_t \<Rightarrow> uint8_t list option" where
  "Smove g t1 t2 w = do {
     k \<leftarrow> str_end t2 0;
     (t2, k) \<leftarrow> smove_loop g t1 w [0 .. int MAX_TN - 1] t2 k;
     BubbleSort t2 k }"

partial_function (option) closure_loop :: "graph \<Rightarrow> int \<Rightarrow> uint8_t list \<Rightarrow> int \<Rightarrow> (uint8_t list \<times> int) option" where
  [code]: "closure_loop g i t k = do {
     c \<leftarrow> rd t i;
     if c = 0 then Some (t, k)
     else do {
       (t, k) \<leftarrow> visit g 0x2a c [0 .. NumVertex g - 1] t k;
       closure_loop g (i + 1) t k } }"

definition E_Closure :: "graph \<Rightarrow> uint8_t list \<Rightarrow> uint8_t list option" where
  "E_Closure g t = do {
     k \<leftarrow> str_end t 0;
     (t, k) \<leftarrow> closure_loop g 0 t k;
     BubbleSort t k }"

section \<open>The construction\<close>

text \<open>\<open>scanf("%c", ...)\<close> leaves its variable as it is at the end of the input.\<close>

fun scan_name :: "uint8_t list \<Rightarrow> uint8_t \<Rightarrow> uint8_t \<times> uint8_t list" where
  "scan_name [] old = (old, [])"
| "scan_name (x # xs) old = (x, xs)"

text \<open>The body of the loop over the columns, for row \<open>j\<close>.\<close>

definition fill_node :: "graph \<Rightarrow> int \<Rightarrow> int \<Rightarrow> transmatrix \<times> uint8_t list \<Rightarrow> (transmatrix \<times> uint8_t list) option" where
  "fill_node g j i = (\<lambda>(TM, names). do {
     x0 \<leftarrow> node TM 0 j;
     q \<leftarrow> rd (TQ TM) i;
     x \<leftarrow> node TM i j;
     t \<leftarrow> Smove g (ch x0) (ch x) (transword q);
     t \<leftarrow> E_Closure g t;
     TM \<leftarrow> set_node TM i j (x\<lparr>ch := t\<rparr>);
     c \<leftarrow> rd t 0;
     if c \<noteq> 0
     then do {
       check \<leftarrow> CheckTable TM t;
       if check = 1
       then let (name, names) = scan_name names (newname x) in do {
         TM \<leftarrow> set_node TM i j (x\<lparr>ch := t, newname := name\<rparr>);
         q0 \<leftarrow> rd (TQ TM) 0;
         y \<leftarrow> node TM 0 (NumTn q0);
         s \<leftarrow> strcpy (ch y) t;
         TM \<leftarrow> set_node TM 0 (NumTn q0) \<lparr>newname = name, ch = s\<rparr>;
         q0 \<leftarrow> rd (TQ TM) 0;
         tq \<leftarrow> wr (TQ TM) 0 (q0\<lparr>NumTn := NumTn q0 + 1\<rparr>);
         Some (TM\<lparr>TQ := tq\<rparr>, names) }
       else do {
         y \<leftarrow> node TM 0 check;
         TM \<leftarrow> set_node TM i j (x\<lparr>ch := t, newname := newname y\<rparr>);
         Some (TM, names) } }
     else Some (TM, names) })"

fun fill_row :: "graph \<Rightarrow> int \<Rightarrow> int list \<Rightarrow> transmatrix \<times> uint8_t list \<Rightarrow> (transmatrix \<times> uint8_t list) option" where
  "fill_row g j [] s = Some s"
| "fill_row g j (i # is) s = do { s \<leftarrow> fill_node g j i s; fill_row g j is s }"

partial_function (option) fill_rows :: "graph \<Rightarrow> int \<Rightarrow> transmatrix \<times> uint8_t list \<Rightarrow> (transmatrix \<times> uint8_t list) option" where
  [code]: "fill_rows g j s = do {
     q0 \<leftarrow> rd (TQ (fst s)) 0;
     if j < NumTn q0 then do { s \<leftarrow> fill_row g j [1 .. transnum (fst s)] s; fill_rows g (j + 1) s } else Some s }"

fun start_closure :: "graph \<Rightarrow> int list \<Rightarrow> uint8_t list \<Rightarrow> uint8_t list option" where
  "start_closure g [] t = Some t"
| "start_closure g (i # is) t = do { t \<leftarrow> E_Closure g t; start_closure g is t }"

definition NFA_to_DFA :: "graph \<Rightarrow> transmatrix \<Rightarrow> uint8_t list \<Rightarrow> (transmatrix \<times> uint8_t list) option" where
  "NFA_to_DFA g TM names = do {
     v \<leftarrow> rd (NodeTable g) 0;
     x \<leftarrow> node TM 0 0;
     t \<leftarrow> wr (ch x) 0 (vdata v);
     t \<leftarrow> start_closure g [1 .. transnum TM] t;
     let (name, names) = scan_name names (newname x);
     TM \<leftarrow> set_node TM 0 0 \<lparr>newname = name, ch = t\<rparr>;
     q0 \<leftarrow> rd (TQ TM) 0;
     tq \<leftarrow> wr (TQ TM) 0 (q0\<lparr>NumTn := NumTn q0 + 1\<rparr>);
     fill_rows g 0 (TM\<lparr>TQ := tq\<rparr>, names) }"

section \<open>Output\<close>

text \<open>The characters before the NUL.\<close>

partial_function (option) str_chars :: "uint8_t list \<Rightarrow> int \<Rightarrow> uint8_t list option" where
  [code]: "str_chars t i = do { x \<leftarrow> rd t i; if x \<noteq> 0 then do { xs \<leftarrow> str_chars t (i + 1); Some (x # xs) } else Some [] }"

text \<open>A name, or nothing for \<open>NULL\<close>, and the set, which is empty for \<open>NULL\<close>.\<close>

definition show_node :: "tablenode \<Rightarrow> (uint8_t option \<times> uint8_t list) option" where
  "show_node x = do { s \<leftarrow> str_chars (ch x) 0; Some (if newname x = 0 then None else Some (newname x), s) }"

fun show_cells :: "transmatrix \<Rightarrow> (int \<times> int) list \<Rightarrow> (uint8_t option \<times> uint8_t list) list option" where
  "show_cells TM [] = Some []"
| "show_cells TM ((k, j) # kjs) = do {
     x \<leftarrow> node TM j k;
     s \<leftarrow> show_node x;
     rest \<leftarrow> show_cells TM kjs;
     Some (s # rest) }"

text \<open>The words of the columns and the cells, row by row.\<close>

definition Show_TranMatrix :: "transmatrix \<Rightarrow> (uint8_t list \<times> (uint8_t option \<times> uint8_t list) list) option" where
  "Show_TranMatrix TM = do {
     (if transnum TM < int (length (TQ TM)) then Some () else None);
     cells \<leftarrow> show_cells TM [(k, j). k \<leftarrow> [0 .. int MAX_TN - 1], j \<leftarrow> [0 .. transnum TM]];
     Some (map (\<lambda>j. transword (TQ TM ! nat j)) [0 .. transnum TM], cells) }"

fun dfa_edges :: "transmatrix \<Rightarrow> int \<Rightarrow> int list \<Rightarrow> (uint8_t \<times> uint8_t \<times> uint8_t) list option" where
  "dfa_edges TM j [] = Some []"
| "dfa_edges TM j (i # is) = do {
     x0 \<leftarrow> node TM 0 j;
     q \<leftarrow> rd (TQ TM) i;
     x \<leftarrow> node TM i j;
     rest \<leftarrow> dfa_edges TM j is;
     Some (if newname x \<noteq> 0 then (newname x0, transword q, newname x) # rest else rest) }"

partial_function (option) dfa_lines :: "transmatrix \<Rightarrow> int \<Rightarrow> (uint8_t \<times> uint8_t \<times> uint8_t) list list option" where
  [code]: "dfa_lines TM j = do {
     x0 \<leftarrow> node TM 0 j;
     if newname x0 \<noteq> 0
     then do { line \<leftarrow> dfa_edges TM j [1 .. transnum TM]; rest \<leftarrow> dfa_lines TM (j + 1); Some (line # rest) }
     else Some [] }"

definition Show_DFA :: "transmatrix \<Rightarrow> (uint8_t \<times> uint8_t \<times> uint8_t) list list option" where
  "Show_DFA TM = dfa_lines TM 0"

text \<open>\<open>main\<close> up to the destruction of the graph, and the lines of the automaton that it prints.\<close>

definition nfa2dfa_main ::
    "vertex list \<Rightarrow> uint8_t list \<Rightarrow> (uint8_t \<times> uint8_t \<times> uint8_t) list \<Rightarrow> uint8_t list \<Rightarrow> uint8_t list \<Rightarrow>
      (graph \<times> (uint8_t \<times> uint8_t \<times> uint8_t) list list) option" where
  "nfa2dfa_main junk states es words names = do {
     g \<leftarrow> Construct_Graph junk states es;
     let TM = Init_Matrix words;
     Show_Graph g;
     Show_TranMatrix TM;
     (TM, _) \<leftarrow> NFA_to_DFA g TM names;
     Show_TranMatrix TM;
     out \<leftarrow> Show_DFA TM;
     g \<leftarrow> Destruct_Graph g;
     Show_Graph g;
     Some (g, out) }"

end
