(* ===== verification/Nfa2dfa_Sort.thy ===== *)
theory Nfa2dfa_Sort
  imports Nfa2dfa "HOL-Library.Multiset"
begin

text \<open>
  \<open>BubbleSort\<close> sorts the first elements of an array and leaves the rest alone; and how the arrays of names that end in a NUL are
  searched, compared and copied.
\<close>

section \<open>Arrays\<close>

lemma rd_nth: "k < length xs \<Longrightarrow> rd xs (int k) = Some (xs ! k)"
  by (simp add: rd_def)

lemma wr_nth: "k < length xs \<Longrightarrow> wr xs (int k) v = Some (xs[k := v])"
  by (simp add: wr_def)

lemma upto_nat_Cons: "a < b \<Longrightarrow> [int a .. int b - 1] = int a # [int (Suc a) .. int b - 1]"
  by (subst upto_rec1) (simp_all add: add.commute)

lemma upto_nat_Nil: "b \<le> a \<Longrightarrow> [int a .. int b - 1] = []"
  by simp

section \<open>Sorting\<close>

text \<open>One pass, on a list.\<close>

fun bubble :: "uint8_t list \<Rightarrow> uint8_t list" where
  "bubble (x # y # zs) = (if sint x > sint y then y # bubble (x # zs) else x # bubble (y # zs))"
| "bubble xs = xs"

lemma mset_bubble [simp]: "mset (bubble xs) = mset xs"
  by (induction xs rule: bubble.induct) auto

lemma length_bubble [simp]: "length (bubble xs) = length xs"
  by (metis mset_bubble size_mset)

lemma bubble_last: "xs \<noteq> [] \<Longrightarrow> x \<in> set xs \<Longrightarrow> sint x \<le> sint (last (bubble xs))"
proof (induction xs arbitrary: x rule: bubble.induct)
  case (1 y z zs)
  have "bubble (y # zs) \<noteq> []" "bubble (z # zs) \<noteq> []" by (metis length_bubble length_0_conv list.distinct(1))+
  then show ?case using 1 by (cases "sint y > sint z") fastforce+
qed auto

lemma bubble_pass_eq:
  "bubble_pass (us @ x # zs @ ws) [int (length us) .. int (length us + length zs) - 1] = Some (us @ bubble (x # zs) @ ws)"
proof (induction zs arbitrary: us x)
  case Nil
  then show ?case by simp
next
  case (Cons y zs)
  let ?a = "us @ x # (y # zs) @ ws"
  have up: "[int (length us) .. int (length us + length (y # zs)) - 1] =
      int (length us) # [int (Suc (length us)) .. int (length us + length (y # zs)) - 1]" by (rule upto_nat_Cons) simp
  have rd: "rd ?a (int (length us)) = Some x" "rd ?a (int (length us) + 1) = Some y"
    using rd_nth [of "length us" ?a] rd_nth [of "Suc (length us)" ?a] by (simp_all add: nth_append add.commute)
  show ?case
  proof (cases "sint x > sint y")
    case True
    have "wr ?a (int (length us) + 1) x = Some (us @ x # (x # zs) @ ws)"
      using wr_nth [of "Suc (length us)" ?a x] by (simp add: add.commute list_update_append)
    moreover have "wr (us @ x # (x # zs) @ ws) (int (length us)) y = Some ((us @ [y]) @ x # zs @ ws)"
      using wr_nth [of "length us" "us @ x # (x # zs) @ ws" y] by simp
    ultimately have "bubble_step ?a (int (length us)) = Some ((us @ [y]) @ x # zs @ ws)" using rd True by (simp add: bubble_step_def)
    then show ?thesis using Cons.IH [of "us @ [y]" x] True unfolding up by (simp add: add.commute add.left_commute)
  next
    case False
    then have "bubble_step ?a (int (length us)) = Some ((us @ [x]) @ y # zs @ ws)" using rd by (simp add: bubble_step_def)
    then show ?thesis using Cons.IH [of "us @ [x]" y] False unfolding up by (simp add: add.commute add.left_commute)
  qed
qed

lemma bubble_passes_sort:
  assumes "length xs = n - i" "i \<le> n" "sorted (map sint ys)" "length ys = i" "\<forall>x\<in>set xs. \<forall>y\<in>set ys. sint x \<le> sint y"
  shows "\<exists>zs. bubble_passes (xs @ ys @ ws) (int n) [int i .. int n - 1] = Some (zs @ ws) \<and> sorted (map sint zs) \<and> mset zs = mset (xs @ ys)"
  using assms
proof (induction "n - i" arbitrary: i xs ys)
  case 0
  then show ?case by (intro exI [of _ ys]) simp
next
  case (Suc m)
  obtain x xs' where xs: "xs = x # xs'" using Suc by (cases xs) auto
  define b where "b = bubble xs"
  have b: "b \<noteq> []" "mset b = mset xs" "set b = set xs" "\<And>y. y \<in> set xs \<Longrightarrow> sint y \<le> sint (last b)"
    using bubble_last [of xs] mset_bubble [of xs] mset_eq_setD [OF mset_bubble] xs
    by (auto simp: b_def) (metis length_0_conv length_bubble list.distinct(1))
  have up: "[int i .. int n - 1] = int i # [int (Suc i) .. int n - 1]" using Suc(2) by (intro upto_nat_Cons) simp
  have "int n - int i - 2 = int (length ([] :: uint8_t list) + length xs') - 1" using Suc(3,4) xs by simp
  then have pass: "bubble_pass (xs @ ys @ ws) [0 .. int n - int i - 2] = Some (butlast b @ (last b # ys) @ ws)"
    using bubble_pass_eq [of "[]" x xs' "ys @ ws"] b(1) xs by (simp add: b_def append_butlast_last_id flip: append_assoc)
  have le: "length b = length xs" by (simp add: b_def)
  have m: "mset (butlast b @ [last b]) = mset xs" using b(1,2) by simp
  have "last b \<in> set xs" using b(1,3) last_in_set by blast
  moreover have "set (butlast b) \<subseteq> set xs" using b(3) in_set_butlastD by fast
  ultimately have "sorted (map sint (last b # ys))" "\<forall>x\<in>set (butlast b). \<forall>y\<in>set (last b # ys). sint x \<le> sint y"
    using Suc(5,7) b(4) by auto
  moreover have "m = n - Suc i" "Suc i \<le> n" using Suc(2) by simp_all
  ultimately obtain zs where zs: "bubble_passes (butlast b @ (last b # ys) @ ws) (int n) [int (Suc i) .. int n - 1] = Some (zs @ ws)"
    "sorted (map sint zs)" "mset zs = mset (butlast b @ last b # ys)"
    using Suc(1) [of "Suc i" "butlast b" "last b # ys"] Suc(2-6) le by auto
  then show ?case using pass m unfolding up by (intro exI [of _ zs]) simp
qed

lemma inj_sint: "inj (sint :: uint8_t \<Rightarrow> int)"
  by (auto intro!: injI dest: signed_word_eqI)

text \<open>A sorted list is determined by its elements.\<close>

lemma sort_key_unique:
  fixes xs :: "uint8_t list"
  assumes "sorted (map sint xs)" "mset xs = mset ys"
  shows "sort_key sint ys = xs"
proof -
  have "mset (map sint xs) = mset (map sint (sort_key sint ys))" using assms(2) by simp
  then have "map sint xs = map sint (sort_key sint ys)"
    using properties_for_sort [of "map sint xs" "map sint (sort_key sint ys)"] assms(1) by (simp add: sorted_sort_id)
  then show ?thesis using inj_sint by (simp add: inj_map_eq_map)
qed

lemma BubbleSort_sorts:
  assumes "n \<le> length a"
  shows "BubbleSort a (int n) = Some (sort_key sint (take n a) @ drop n a)"
proof -
  obtain zs where zs: "bubble_passes (take n a @ [] @ drop n a) (int n) [int 0 .. int n - 1] = Some (zs @ drop n a)"
    "sorted (map sint zs)" "mset zs = mset (take n a @ [])"
    using bubble_passes_sort [of "take n a" n 0 "[]" "drop n a"] assms by auto
  have "sort_key sint (take n a) = zs" by (rule sort_key_unique) (use zs in simp_all)
  then show ?thesis using zs by (simp add: BubbleSort_def)
qed

end
