(* ===== verification/Nfa2dfa_Sets.thy ===== *)
theory Nfa2dfa_Sets
  imports Nfa2dfa_Sort
begin

text \<open>
  \<open>Smove\<close> and \<open>E_Closure\<close> on the arrays that represent sets of states compute the successors of a set and its closure under the empty
  word, for the graph that \<open>Construct_Graph\<close> builds.
\<close>

section \<open>Arrays that hold sets\<close>

text \<open>The array with the names \<open>xs\<close>, and that of a set: in ascending order.\<close>

definition arr :: "uint8_t list \<Rightarrow> uint8_t list" where
  "arr xs = xs @ replicate (NumMaxChar - length xs) 0"

definition char_values :: "int list" where
  "char_values = [-128 .. 127]"

definition names_of :: "uint8_t set \<Rightarrow> uint8_t list" where
  "names_of S = map word_of_int (filter (\<lambda>i. word_of_int i \<in> S) char_values)"

definition code :: "uint8_t set \<Rightarrow> uint8_t list" where
  "code S = arr (names_of S)"

lemma char_values: "set char_values = {-128 .. 127}" "sorted char_values" "distinct char_values"
  unfolding char_values_def by (rule set_upto sorted_upto distinct_upto)+

lemma byte_sint: "\<exists>i\<in>{-128..127}. x = (word_of_int i :: uint8_t)"
  using sint_range_size [of x] by (intro bexI [of _ "sint x"]) (simp_all add: word_size)

lemma set_names_of [simp]: "set (names_of S) = S"
proof -
  have "x \<in> set (names_of S)" if "x \<in> S" for x using byte_sint [of x] that by (auto simp: names_of_def char_values)
  then show ?thesis by (auto simp: names_of_def)
qed

lemma sint_names_of: "map sint (names_of S) = filter (\<lambda>i. word_of_int i \<in> S) char_values"
  by (auto simp: names_of_def comp_def char_values sint_byte intro!: map_idI)

lemma sorted_names_of: "sorted (map sint (names_of S))" "distinct (names_of S)"
proof -
  show "sorted (map sint (names_of S))" unfolding sint_names_of by (intro sorted_wrt_filter char_values)
  have "distinct (map sint (names_of S))" unfolding sint_names_of by (intro distinct_filter char_values)
  then show "distinct (names_of S)" by (simp add: distinct_map)
qed

lemma names_of_sort: "distinct xs \<Longrightarrow> sort_key sint xs = names_of (set xs)"
  by (rule sort_key_unique [OF sorted_names_of(1)]) (simp add: set_eq_iff_mset_eq_distinct [symmetric] sorted_names_of(2))

text \<open>The names of an automaton that fits: one of the ten places is needed for the NUL.\<close>

definition names_ok :: "uint8_t list \<Rightarrow> bool" where
  "names_ok vs \<longleftrightarrow> distinct vs \<and> 0 \<notin> set vs \<and> vs \<noteq> [] \<and> length vs < NumMaxChar"

definition sub_names :: "uint8_t list \<Rightarrow> uint8_t list \<Rightarrow> bool" where
  "sub_names vs xs \<longleftrightarrow> distinct xs \<and> set xs \<subseteq> set vs"

lemma sub_names_fits: "names_ok vs \<Longrightarrow> sub_names vs xs \<Longrightarrow> length xs < NumMaxChar \<and> 0 \<notin> set xs"
  using card_mono [of "set vs" "set xs"] by (auto simp: names_ok_def sub_names_def distinct_card)

lemma length_arr: "length xs \<le> NumMaxChar \<Longrightarrow> length (arr xs) = NumMaxChar"
  by (simp add: arr_def)

lemma rd_arr: "length xs < NumMaxChar \<Longrightarrow> i \<le> length xs \<Longrightarrow> rd (arr xs) (int i) = Some (if i < length xs then xs ! i else 0)"
  by (simp add: arr_def rd_def nth_append)

lemma rd_arr_any: "length xs \<le> NumMaxChar \<Longrightarrow> i < NumMaxChar \<Longrightarrow> rd (arr xs) (int i) = Some (if i < length xs then xs ! i else 0)"
  by (simp add: arr_def rd_def nth_append)

lemma wr_arr: "length xs < NumMaxChar \<Longrightarrow> wr (arr xs) (int (length xs)) v = Some (arr (xs @ [v]))"
proof -
  assume "length xs < NumMaxChar"
  then have "NumMaxChar - length xs = Suc (NumMaxChar - length (xs @ [v]))" by simp
  then show ?thesis by (simp add: arr_def wr_def list_update_append)
qed

lemma check_chars_eq: "i \<le> length t \<Longrightarrow> check_chars t v [int i .. int (length t) - 1] = Some (if v \<in> set (drop i t) then 0 else 1)"
proof (induction "length t - i" arbitrary: i)
  case (Suc n)
  then have i: "i < length t" by simp
  have "[int i .. int (length t) - 1] = int i # [int (Suc i) .. int (length t) - 1]" using i by (rule upto_nat_Cons)
  moreover have "drop i t = t ! i # drop (Suc i) t" using i by (rule Cons_nth_drop_Suc [symmetric])
  moreover have "check_chars t v [int (Suc i) .. int (length t) - 1] = Some (if v \<in> set (drop (Suc i) t) then 0 else 1)"
    using Suc i by (intro Suc.hyps) simp_all
  ultimately show ?case using rd_nth [OF i] by auto
qed simp

lemma CheckChar_arr: "length xs \<le> NumMaxChar \<Longrightarrow> v \<noteq> 0 \<Longrightarrow> CheckChar (arr xs) v = Some (if v \<in> set xs then 0 else 1)"
  using check_chars_eq [of 0 "arr xs" v] length_arr [of xs] by (auto simp: CheckChar_def arr_def)

lemma str_end_arr:
  assumes "length xs < NumMaxChar" "0 \<notin> set xs"
  shows "i \<le> length xs \<Longrightarrow> str_end (arr xs) (int i) = Some (int (length xs))"
proof (induction "length xs - i" arbitrary: i)
  case 0
  then show ?case using rd_arr [OF assms(1), of i] by (subst str_end.simps) simp
next
  case (Suc n)
  then have "i < length xs" by simp
  moreover then have "xs ! i \<noteq> 0" using assms(2) nth_mem by metis
  ultimately show ?case using Suc(1) [of "Suc i"] Suc(2) rd_arr [OF assms(1), of i] by (subst str_end.simps) (simp add: add.commute)
qed

lemma BubbleSort_arr:
  assumes "length xs < NumMaxChar" "distinct xs"
  shows "BubbleSort (arr xs) (int (length xs)) = Some (code (set xs))"
proof -
  have "BubbleSort (arr xs) (int (length xs)) = Some (sort_key sint xs @ replicate (NumMaxChar - length xs) 0)"
    using BubbleSort_sorts [of "length xs" "arr xs"] assms(1) by (simp add: arr_def)
  moreover have "length (names_of (set xs)) = length xs" using names_of_sort [OF assms(2)] by (metis length_sort)
  ultimately show ?thesis using names_of_sort [OF assms(2)] by (simp add: code_def arr_def)
qed

section \<open>Adding names\<close>

definition adds :: "uint8_t list \<Rightarrow> uint8_t list \<Rightarrow> uint8_t list" where
  "adds xs ys = fold (\<lambda>y xs. if y \<in> set xs then xs else xs @ [y]) ys xs"

lemma adds_simps [simp]: "adds xs [] = xs" "adds xs (y # ys) = adds (if y \<in> set xs then xs else xs @ [y]) ys"
  by (simp_all add: adds_def)

lemma adds_append: "adds xs (ys @ zs) = adds (adds xs ys) zs"
  by (simp add: adds_def)

lemma set_adds [simp]: "set (adds xs ys) = set xs \<union> set ys"
  by (induction ys arbitrary: xs) auto

lemma distinct_adds: "distinct xs \<Longrightarrow> distinct (adds xs ys)"
  by (induction ys arbitrary: xs) auto

lemma adds_prefix: "\<exists>zs. adds xs ys = xs @ zs"
proof (induction ys arbitrary: xs)
  case (Cons y ys)
  obtain zs where "adds (if y \<in> set xs then xs else xs @ [y]) ys = (if y \<in> set xs then xs else xs @ [y]) @ zs" using Cons.IH by blast
  then show ?case by auto
qed simp

lemma sub_names_adds: "sub_names vs xs \<Longrightarrow> set ys \<subseteq> set vs \<Longrightarrow> sub_names vs (adds xs ys)"
  by (simp add: sub_names_def distinct_adds)

section \<open>The graph\<close>

type_synonym transition = "uint8_t \<times> uint8_t \<times> uint8_t"

text \<open>The edges on a list: label and target.\<close>

fun edge_list :: "edge heap \<Rightarrow> nat ptr \<Rightarrow> (uint8_t \<times> nat) list \<Rightarrow> bool" where
  "edge_list h p [] \<longleftrightarrow> p = None"
| "edge_list h p ((w, d) # l) \<longleftrightarrow> (\<exists>n. deref h p = Some \<lparr>dest = int d, cost = w, elink = n\<rparr> \<and> edge_list h n l)"

text \<open>What leaves the state \<open>a\<close>, with the label \<open>w\<close>; the edge that was inserted last comes first.\<close>

definition out :: "transition list \<Rightarrow> uint8_t \<Rightarrow> (uint8_t \<times> uint8_t) list" where
  "out es a = map snd (filter (\<lambda>e. fst e = a) (rev es))"

definition targets :: "transition list \<Rightarrow> uint8_t \<Rightarrow> uint8_t \<Rightarrow> uint8_t list" where
  "targets es w a = map snd (filter (\<lambda>e. fst e = w) (out es a))"

definition nfa_ok :: "uint8_t list \<Rightarrow> transition list \<Rightarrow> bool" where
  "nfa_ok vs es \<longleftrightarrow> names_ok vs \<and> (\<forall>(a, w, b)\<in>set es. a \<in> set vs \<and> b \<in> set vs)"

definition vertex_at :: "graph \<Rightarrow> uint8_t list \<Rightarrow> transition list \<Rightarrow> nat \<Rightarrow> bool" where
  "vertex_at g vs es j \<longleftrightarrow> vdata (NodeTable g ! j) = vs ! j \<and>
     (\<exists>l. edge_list (edges g) (adj (NodeTable g ! j)) l \<and> (\<forall>(w, d)\<in>set l. d < length vs) \<and>
       map (\<lambda>(w, d). (w, vs ! d)) l = out es (vs ! j))"

definition graph_at :: "graph \<Rightarrow> uint8_t list \<Rightarrow> transition list \<Rightarrow> bool" where
  "graph_at g vs es \<longleftrightarrow> length (NodeTable g) = MAX_TN \<and> NumVertex g = int (length vs) \<and> length vs \<le> MAX_TN \<and>
     (\<forall>j<length vs. vertex_at g vs es j)"

lemma set_targets: "set (targets es w a) = {b. (a, w, b) \<in> set es}"
  by (force simp: targets_def out_def)

lemma targets_names: "nfa_ok vs es \<Longrightarrow> set (targets es w a) \<subseteq> set vs"
  by (auto simp: set_targets nfa_ok_def)

lemma deref_Null: "deref h p = Some x \<Longrightarrow> p \<noteq> None"
  by (cases p) auto

lemma add_targets_eq:
  assumes ok: "names_ok vs" and g: "graph_at g vs es"
  shows "edge_list (edges g) p l \<Longrightarrow> \<forall>(w, d)\<in>set l. d < length vs \<Longrightarrow> sub_names vs xs \<Longrightarrow>
    xs' = adds xs (map (\<lambda>(w, d). vs ! d) (filter (\<lambda>e. fst e = w) l)) \<Longrightarrow>
    add_targets g w p (arr xs) (int (length xs)) = Some (arr xs', int (length xs'))"
proof (induction l arbitrary: p xs)
  case Nil
  then show ?case by (subst add_targets.simps) simp
next
  case (Cons e l)
  obtain w' d where e: "e = (w', d)" by (cases e)
  obtain n where n: "deref (edges g) p = Some \<lparr>dest = int d, cost = w', elink = n\<rparr>" "edge_list (edges g) n l" using Cons.prems(1) e by auto
  have d: "d < length vs" using Cons.prems(2) e by auto
  have v: "rd (NodeTable g) (int d) = Some (NodeTable g ! d)" "vdata (NodeTable g ! d) = vs ! d"
    using g d by (auto simp: graph_at_def vertex_at_def rd_nth)
  have f: "length xs < NumMaxChar" "vs ! d \<noteq> 0" using sub_names_fits [OF ok Cons.prems(3)] ok nth_mem [OF d] unfolding names_ok_def by metis+
  have c: "CheckChar (arr xs) (vs ! d) = Some (if vs ! d \<in> set xs then 0 else 1)" using f by (intro CheckChar_arr) simp_all
  have s: "sub_names vs (xs @ [vs ! d])" if "vs ! d \<notin> set xs" using that Cons.prems(3) d by (simp add: sub_names_def)
  have w: "wr (arr xs) (int (length xs)) (vs ! d) = Some (arr (xs @ [vs ! d]))" using wr_arr [OF f(1)] .
  show ?case
    using Cons.IH [OF n(2) _ Cons.prems(3)] Cons.IH [OF n(2) _ s] Cons.prems(2,4) e n(1) v c w deref_Null [OF n(1)]
    by (subst add_targets.simps) (auto simp: add.commute)
qed

text \<open>The loop over the vertices does something at the one that has the name.\<close>

lemma visit_eq:
  assumes nfa: "nfa_ok vs es" and g: "graph_at g vs es" and xs: "sub_names vs xs"
  shows "j \<le> length vs \<Longrightarrow> xs' = adds xs (if c \<in> set (drop j vs) then targets es w c else []) \<Longrightarrow>
    visit g w c [int j .. int (length vs) - 1] (arr xs) (int (length xs)) = Some (arr xs', int (length xs'))"
  using xs
proof (induction "length vs - j" arbitrary: j xs)
  case 0
  then show ?case by simp
next
  case (Suc n)
  have j: "j < length vs" using Suc(2) by simp
  have up: "[int j .. int (length vs) - 1] = int j # [int (Suc j) .. int (length vs) - 1]" using j by (rule upto_nat_Cons)
  have dr: "drop j vs = vs ! j # drop (Suc j) vs" using j by (rule Cons_nth_drop_Suc [symmetric])
  have ok: "names_ok vs" using nfa by (simp add: nfa_ok_def)
  obtain l where v: "rd (NodeTable g) (int j) = Some (NodeTable g ! j)" "vdata (NodeTable g ! j) = vs ! j"
    "edge_list (edges g) (adj (NodeTable g ! j)) l" "\<forall>(w, d)\<in>set l. d < length vs" "map (\<lambda>(w, d). (w, vs ! d)) l = out es (vs ! j)"
    using g j by (auto simp: graph_at_def vertex_at_def rd_nth)
  show ?case
  proof (cases "vs ! j = c")
    case True
    have "targets es w c = map (\<lambda>(w, d). vs ! d) (filter (\<lambda>e. fst e = w) l)"
      unfolding targets_def True [symmetric] v(5) [symmetric] by (simp add: filter_map comp_def case_prod_beta)
    then have a: "add_targets g w (adj (NodeTable g ! j)) (arr xs) (int (length xs)) =
        Some (arr (adds xs (targets es w c)), int (length (adds xs (targets es w c))))"
      using add_targets_eq [OF ok g v(3,4) Suc.prems(3)] by simp
    have "c \<notin> set (drop (Suc j) vs)" using ok dr True by (metis distinct.simps(2) distinct_drop names_ok_def)
    moreover have "sub_names vs (adds xs (targets es w c))" using sub_names_adds [OF Suc.prems(3) targets_names [OF nfa]] .
    ultimately show ?thesis using Suc(1) [of "Suc j"] Suc(2) Suc.prems(2) j v(1,2) a True unfolding up by (simp add: dr)
  next
    case False
    then show ?thesis using Suc(1) [of "Suc j"] Suc(2) Suc.prems(2,3) j v(1,2) unfolding up by (simp add: dr)
  qed
qed

section \<open>Successors\<close>

definition move :: "transition list \<Rightarrow> uint8_t \<Rightarrow> uint8_t set \<Rightarrow> uint8_t set" where
  "move es w S = {b. \<exists>a\<in>S. (a, w, b) \<in> set es}"

lemma smove_loop_eq:
  assumes nfa: "nfa_ok vs es" and g: "graph_at g vs es" and ys: "sub_names vs ys"
  shows "i \<le> MAX_TN \<Longrightarrow> sub_names vs xs \<Longrightarrow> xs' = adds xs (concat (map (targets es w) (drop i ys))) \<Longrightarrow>
    smove_loop g (arr ys) w [int i .. int MAX_TN - 1] (arr xs) (int (length xs)) = Some (arr xs', int (length xs'))"
proof (induction "MAX_TN - i" arbitrary: i xs)
  case 0
  have "length ys \<le> i" using sub_names_fits [OF _ ys] nfa 0 by (auto simp: nfa_ok_def MAX_TN_def NumMaxChar_def)
  then show ?case using 0 by simp
next
  case (Suc n)
  have i: "i < MAX_TN" using Suc(2) by simp
  have up: "[int i .. int MAX_TN - 1] = int i # [int (Suc i) .. int MAX_TN - 1]" using i by (rule upto_nat_Cons)
  have ok: "names_ok vs" using nfa by (simp add: nfa_ok_def)
  have f: "length ys < NumMaxChar" "0 \<notin> set vs" using sub_names_fits [OF ok ys] ok by (auto simp: names_ok_def)
  let ?c = "if i < length ys then ys ! i else 0"
  let ?xs = "adds xs (if ?c \<in> set vs then targets es w ?c else [])"
  have c: "rd (arr ys) (int i) = Some ?c" using rd_arr_any [of ys i] f i by (simp add: MAX_TN_def NumMaxChar_def)
  have nv: "NumVertex g = int (length vs)" using g by (simp add: graph_at_def)
  have v: "visit g w ?c [0 .. NumVertex g - 1] (arr xs) (int (length xs)) = Some (arr ?xs, int (length ?xs))"
    using visit_eq [OF nfa g Suc.prems(2), of 0 ?xs ?c w] nv by simp
  have s: "sub_names vs ?xs" using Suc.prems(2) targets_names [OF nfa] by (intro sub_names_adds) auto
  have e: "adds xs (concat (map (targets es w) (drop i ys))) = adds ?xs (concat (map (targets es w) (drop (Suc i) ys)))"
  proof (cases "i < length ys")
    case True
    then have "ys ! i \<in> set vs" using ys by (auto simp: sub_names_def)
    then show ?thesis using True by (simp add: Cons_nth_drop_Suc [symmetric] adds_append)
  next
    case False
    then show ?thesis using f(2) by simp
  qed
  show ?case using Suc(1) [of "Suc i" ?xs] Suc(2) s e Suc.prems(3) i c v unfolding up by simp
qed

lemma Smove_code:
  assumes nfa: "nfa_ok vs es" and g: "graph_at g vs es" and ys: "sub_names vs ys"
  shows "Smove g (arr ys) (arr []) w = Some (code (move es w (set ys)))"
proof -
  let ?xs = "adds [] (concat (map (targets es w) ys))"
  have n: "sub_names vs ?xs" using targets_names [OF nfa] by (intro sub_names_adds) (auto simp: sub_names_def)
  have "smove_loop g (arr ys) w [0 .. int MAX_TN - 1] (arr []) 0 = Some (arr ?xs, int (length ?xs))"
    using smove_loop_eq [OF nfa g ys, of 0 "[]" ?xs w] by (simp add: sub_names_def)
  moreover have "str_end (arr []) 0 = Some 0" using str_end_arr [of "[]" 0] by (simp add: NumMaxChar_def)
  moreover have "BubbleSort (arr ?xs) (int (length ?xs)) = Some (code (set ?xs))"
    using sub_names_fits [OF _ n] nfa n by (intro BubbleSort_arr) (auto simp: nfa_ok_def sub_names_def)
  moreover have "set ?xs = move es w (set ys)" by (auto simp: set_targets move_def)
  ultimately show ?thesis by (simp add: Smove_def)
qed

section \<open>Closure\<close>

text \<open>The label of the empty word is \<open>'*'\<close>.\<close>

definition closure :: "transition list \<Rightarrow> uint8_t set \<Rightarrow> uint8_t set" where
  "closure es S = {(a, b). (a, 0x2a, b) \<in> set es}\<^sup>* `` S"

lemma closure_least:
  assumes "S \<subseteq> T" "\<And>a b. a \<in> T \<Longrightarrow> (a, 0x2a, b) \<in> set es \<Longrightarrow> b \<in> T"
  shows "closure es S \<subseteq> T"
proof -
  have "b \<in> T" if "(a, b) \<in> {(a, b). (a, 0x2a, b) \<in> set es}\<^sup>*" "a \<in> T" for a b
    using that by (induction rule: rtrancl_induct) (use assms(2) in auto)
  then show ?thesis using assms(1) by (auto simp: closure_def)
qed

lemma closure_step: "a \<in> closure es S \<Longrightarrow> (a, 0x2a, b) \<in> set es \<Longrightarrow> b \<in> closure es S"
  unfolding closure_def by (auto intro: rtrancl_into_rtrancl)

lemma closure_refl: "S \<subseteq> closure es S"
  by (auto simp: closure_def)

lemma closure_names: "nfa_ok vs es \<Longrightarrow> S \<subseteq> set vs \<Longrightarrow> closure es S \<subseteq> set vs"
  by (rule closure_least) (auto simp: nfa_ok_def)

lemma closure_loop_ok:
  assumes nfa: "nfa_ok vs es" and g: "graph_at g vs es"
  shows "sub_names vs xs \<Longrightarrow> i \<le> length xs \<Longrightarrow> set xs \<subseteq> closure es S \<Longrightarrow> \<forall>j<i. set (targets es 0x2a (xs ! j)) \<subseteq> set xs \<Longrightarrow>
    \<exists>xs'. closure_loop g (int i) (arr xs) (int (length xs)) = Some (arr xs', int (length xs')) \<and> sub_names vs xs' \<and>
      set xs \<subseteq> set xs' \<and> set xs' \<subseteq> closure es S \<and> (\<forall>x\<in>set xs'. set (targets es 0x2a x) \<subseteq> set xs')"
proof (induction "NumMaxChar - i" arbitrary: i xs)
  case 0
  then show ?case using sub_names_fits [of vs xs] nfa by (simp add: nfa_ok_def)
next
  case (Suc n)
  have ok: "names_ok vs" using nfa by (simp add: nfa_ok_def)
  note f = sub_names_fits [OF ok Suc.prems(1)]
  have rd: "rd (arr xs) (int i) = Some (if i < length xs then xs ! i else 0)" using f Suc.prems(2) by (intro rd_arr) simp_all
  show ?case
  proof (cases "i < length xs")
    case False
    then have "closure_loop g (int i) (arr xs) (int (length xs)) = Some (arr xs, int (length xs))" using rd by (subst closure_loop.simps) simp
    moreover have "\<forall>x\<in>set xs. set (targets es 0x2a x) \<subseteq> set xs" using False Suc.prems(2,4) by (metis in_set_conv_nth le_neq_implies_less)
    ultimately show ?thesis using Suc.prems(1,3) by auto
  next
    case True
    let ?c = "xs ! i"
    let ?xs = "adds xs (targets es 0x2a ?c)"
    have c: "?c \<in> set xs" using nth_mem [OF True] .
    then have c: "?c \<in> set xs" "?c \<in> set vs" "?c \<noteq> 0" using f Suc.prems(1) unfolding sub_names_def by (blast, blast, metis)
    have "visit g 0x2a ?c [0 .. NumVertex g - 1] (arr xs) (int (length xs)) = Some (arr ?xs, int (length ?xs))"
      using visit_eq [OF nfa g Suc.prems(1), of 0 ?xs ?c "0x2a"] g c(2) by (simp add: graph_at_def)
    then have "closure_loop g (int i) (arr xs) (int (length xs)) = closure_loop g (int (Suc i)) (arr ?xs) (int (length ?xs))"
      using rd True c(3) by (subst closure_loop.simps) (simp add: add.commute)
    moreover have "sub_names vs ?xs" using sub_names_adds [OF Suc.prems(1) targets_names [OF nfa]] .
    moreover obtain zs where zs: "?xs = xs @ zs" using adds_prefix by blast
    then have "?xs ! j = xs ! j" if "j < Suc i" for j using that True unfolding zs by (simp add: nth_append)
    then have "\<forall>j<Suc i. set (targets es 0x2a (?xs ! j)) \<subseteq> set ?xs" using Suc.prems(4) by (auto simp: less_Suc_eq)
    moreover have "set ?xs \<subseteq> closure es S" using Suc.prems(3) c(1) closure_step by (auto simp: set_targets)
    moreover have "Suc i \<le> length ?xs" using zs True by simp
    moreover have "n = NumMaxChar - Suc i" using Suc(2) by simp
    ultimately obtain xs' where "closure_loop g (int i) (arr xs) (int (length xs)) = Some (arr xs', int (length xs'))" "sub_names vs xs'"
      "set ?xs \<subseteq> set xs'" "set xs' \<subseteq> closure es S" "\<forall>x\<in>set xs'. set (targets es 0x2a x) \<subseteq> set xs'"
      using Suc(1) [of "Suc i" ?xs] by auto
    then show ?thesis by (intro exI [of _ xs']) simp
  qed
qed

lemma E_Closure_code:
  assumes nfa: "nfa_ok vs es" and g: "graph_at g vs es" and xs: "sub_names vs xs"
  shows "E_Closure g (arr xs) = Some (code (closure es (set xs)))"
proof -
  have ok: "names_ok vs" using nfa by (simp add: nfa_ok_def)
  note f = sub_names_fits [OF ok xs]
  obtain xs' where xs': "closure_loop g 0 (arr xs) (int (length xs)) = Some (arr xs', int (length xs'))" "sub_names vs xs'"
    "set xs \<subseteq> set xs'" "set xs' \<subseteq> closure es (set xs)" "\<forall>x\<in>set xs'. set (targets es 0x2a x) \<subseteq> set xs'"
    using closure_loop_ok [OF nfa g xs, of 0 "set xs"] closure_refl by auto
  have "closure es (set xs) \<subseteq> set xs'" by (rule closure_least [OF xs'(3)]) (use xs'(5) in \<open>auto simp: set_targets\<close>)
  then have "set xs' = closure es (set xs)" using xs'(4) by blast
  moreover have "BubbleSort (arr xs') (int (length xs')) = Some (code (set xs'))"
    using sub_names_fits [OF ok xs'(2)] xs'(2) by (intro BubbleSort_arr) (auto simp: sub_names_def)
  ultimately show ?thesis using xs'(1) str_end_arr [of xs 0] f by (simp add: E_Closure_def)
qed

section \<open>Building the graph\<close>

lemma edge_list_append: "edge_list h p l \<Longrightarrow> edge_list (h @ xs) p l"
proof (induction l arbitrary: p)
  case (Cons e l)
  then obtain n where n: "deref h p = Some \<lparr>dest = int (snd e), cost = fst e, elink = n\<rparr>" "edge_list h n l" by (cases e) auto
  then have "deref (h @ xs) p = deref h p" by (cases p) (auto simp: deref_Some nth_append split: if_splits)
  then show ?case using Cons.IH [OF n(2)] n(1) by (cases e) auto
qed simp

lemma out_empty [simp]: "out [] a = []"
  by (simp add: out_def)

lemma out_snoc: "out (es @ [(a, w, b)]) c = (if c = a then (w, b) # out es c else out es c)"
  by (simp add: out_def)

lemma Insert_Vertex_at:
  assumes g: "graph_at g us []" and len: "length us < MAX_TN"
  shows "\<exists>g'. Insert_Vertex g v = Some g' \<and> graph_at g' (us @ [v]) []"
proof -
  let ?tab = "(NodeTable g)[length us := \<lparr>vdata = v, adj = None\<rparr>]"
  let ?g = "g\<lparr>NodeTable := ?tab, NumVertex := int (length us) + 1\<rparr>"
  have G: "length (NodeTable g) = MAX_TN" "NumVertex g = int (length us)" "\<And>j. j < length us \<Longrightarrow> vertex_at g us [] j"
    using g by (auto simp: graph_at_def)
  have "vertex_at ?g (us @ [v]) [] j" if "j < length (us @ [v])" for j
  proof (cases "j = length us")
    case True
    then show ?thesis using G(1) len by (auto simp: vertex_at_def intro!: exI [of _ "[]"])
  next
    case False
    then have "j < length us" using that by simp
    then show ?thesis using G(3) [of j] by (auto simp: vertex_at_def nth_append intro!: exI [of _ "[]"])
  qed
  then have "graph_at ?g (us @ [v]) []" using G(1) len by (simp add: graph_at_def)
  moreover have "Insert_Vertex g v = Some ?g" using G(1,2) len by (simp add: Insert_Vertex_def wr_nth)
  ultimately show ?thesis by blast
qed

lemma insert_vertices_at: "graph_at g us [] \<Longrightarrow> length us + length vs \<le> MAX_TN \<Longrightarrow> \<exists>g'. insert_vertices g vs = Some g' \<and> graph_at g' (us @ vs) []"
proof (induction vs arbitrary: g us)
  case (Cons v vs)
  obtain g' where "Insert_Vertex g v = Some g'" "graph_at g' (us @ [v]) []" using Insert_Vertex_at [OF Cons.prems(1), of v] Cons.prems(2) by auto
  then show ?case using Cons.IH [of g' "us @ [v]"] Cons.prems(2) by auto
qed simp

lemma find_vertex_at:
  assumes g: "graph_at g vs es"
  shows "i \<le> length vs \<Longrightarrow> v \<in> set (drop i vs) \<Longrightarrow> \<exists>k<length vs. find_vertex g v [int i .. int (length vs) - 1] = Some (int k) \<and> vs ! k = v"
proof (induction "length vs - i" arbitrary: i)
  case (Suc n)
  have i: "i < length vs" using Suc(2) by simp
  have up: "[int i .. int (length vs) - 1] = int i # [int (Suc i) .. int (length vs) - 1]" using i by (rule upto_nat_Cons)
  have x: "rd (NodeTable g) (int i) = Some (NodeTable g ! i)" "vdata (NodeTable g ! i) = vs ! i"
    using g i by (auto simp: graph_at_def vertex_at_def rd_nth)
  show ?case
  proof (cases "vs ! i = v")
    case True
    then show ?thesis using i x unfolding up by auto
  next
    case False
    then have "v \<in> set (drop (Suc i) vs)" using Suc.prems(2) i by (simp add: Cons_nth_drop_Suc [symmetric])
    then show ?thesis using Suc(1) [of "Suc i"] Suc(2) i x False unfolding up by auto
  qed
qed simp

lemma GetVertexPos_at: "graph_at g vs es \<Longrightarrow> v \<in> set vs \<Longrightarrow> \<exists>k<length vs. GetVertexPos g v = Some (int k) \<and> vs ! k = v"
  using find_vertex_at [of g vs es 0 v] by (simp add: GetVertexPos_def graph_at_def)

lemma Insert_Edge_at:
  assumes g: "graph_at g vs es" and k: "k < length vs" "j < length vs" and d: "distinct vs"
  shows "\<exists>g'. Insert_Edge g (int k) (int j) w = Some g' \<and> graph_at g' vs (es @ [(vs ! k, w, vs ! j)])"
proof -
  have G: "length (NodeTable g) = MAX_TN" "NumVertex g = int (length vs)" "length vs \<le> MAX_TN" "\<And>i. i < length vs \<Longrightarrow> vertex_at g vs es i"
    using g by (auto simp: graph_at_def)
  let ?v = "NodeTable g ! k"
  let ?g = "g\<lparr>NodeTable := (NodeTable g)[k := ?v\<lparr>adj := Some (length (edges g))\<rparr>],
    edges := edges g @ [Some \<lparr>dest = int j, cost = w, elink = adj ?v\<rparr>]\<rparr>"
  have "vertex_at ?g vs (es @ [(vs ! k, w, vs ! j)]) i" if i: "i < length vs" for i
  proof -
    obtain l where l: "vdata (NodeTable g ! i) = vs ! i" "edge_list (edges g) (adj (NodeTable g ! i)) l" "\<forall>(w, d)\<in>set l. d < length vs"
      "map (\<lambda>(w, d). (w, vs ! d)) l = out es (vs ! i)" using G(4) [OF i] by (auto simp: vertex_at_def)
    have e: "edge_list (edges ?g) (adj (NodeTable g ! i)) l" using edge_list_append [OF l(2)] by simp
    show ?thesis
    proof (cases "i = k")
      case True
      then have "edge_list (edges ?g) (Some (length (edges g))) ((w, j) # l)" using e by (simp add: deref_alloc)
      then show ?thesis using l True k G(1,3) unfolding vertex_at_def
        by (intro conjI exI [of _ "(w, j) # l"]) (simp_all add: out_snoc)
    next
      case False
      then have "vs ! i \<noteq> vs ! k" using d i k(1) by (simp add: nth_eq_iff_index_eq)
      then show ?thesis using l e False unfolding vertex_at_def by (intro conjI exI [of _ l]) (simp_all add: out_snoc)
    qed
  qed
  then have "graph_at ?g vs (es @ [(vs ! k, w, vs ! j)])" using G(1-3) by (simp add: graph_at_def)
  moreover have "Insert_Edge g (int k) (int j) w = Some ?g" using G(1,3) k by (simp add: Insert_Edge_def rd_nth wr_nth)
  ultimately show ?thesis by blast
qed

lemma insert_edges_at:
  assumes "distinct vs"
  shows "graph_at g vs es \<Longrightarrow> \<forall>(a, w, b)\<in>set es'. a \<in> set vs \<and> b \<in> set vs \<Longrightarrow> \<exists>g'. insert_edges g es' = Some g' \<and> graph_at g' vs (es @ es')"
proof (induction es' arbitrary: g es)
  case (Cons e es')
  obtain a w b where e: "e = (a, w, b)" by (cases e) auto
  have ab: "a \<in> set vs" "b \<in> set vs" using Cons.prems(2) e by auto
  obtain k where k: "k < length vs" "GetVertexPos g a = Some (int k)" "vs ! k = a" using GetVertexPos_at [OF Cons.prems(1) ab(1)] by blast
  obtain j where j: "j < length vs" "GetVertexPos g b = Some (int j)" "vs ! j = b" using GetVertexPos_at [OF Cons.prems(1) ab(2)] by blast
  obtain g' where g': "Insert_Edge g (int k) (int j) w = Some g'" "graph_at g' vs (es @ [e])"
    using Insert_Edge_at [OF Cons.prems(1) k(1) j(1) assms, of w] e k(3) j(3) by blast
  have "\<forall>(a, w, b)\<in>set es'. a \<in> set vs \<and> b \<in> set vs" using Cons.prems(2) by simp
  then obtain g'' where "insert_edges g' es' = Some g''" "graph_at g'' vs ((es @ [e]) @ es')" using Cons.IH [OF g'(2)] by blast
  then show ?case using k(2) j(2) g'(1) e by simp
qed simp

lemma Construct_Graph_at:
  assumes "nfa_ok vs es" "length junk = MAX_TN"
  shows "\<exists>g. Construct_Graph junk vs es = Some g \<and> graph_at g vs es"
proof -
  let ?g = "\<lparr>NodeTable = junk, NumVertex = 0, MaxNumVertex = int MAX_TN, NumEdge = 0, edges = []\<rparr>"
  have "graph_at ?g [] []" using assms(2) by (simp add: graph_at_def)
  moreover have "length vs \<le> MAX_TN" using assms(1) by (simp add: nfa_ok_def names_ok_def MAX_TN_def NumMaxChar_def)
  ultimately obtain g where "insert_vertices ?g vs = Some g" "graph_at g vs []" using insert_vertices_at [of ?g "[]" vs] by auto
  moreover then obtain g' where "insert_edges g es = Some g'" "graph_at g' vs es"
    using insert_edges_at [of vs g "[]" es] assms(1) by (auto simp: nfa_ok_def names_ok_def)
  ultimately show ?thesis by (simp add: Construct_Graph_def)
qed

end
