(* ===== verification/Nfa2dfa_Correct.thy ===== *)
theory Nfa2dfa_Correct
  imports Nfa2dfa_Sets
begin

text \<open>
  \<open>NFA_to_DFA\<close> as a whole: it refines a subset construction on sets of states, with the lookup in the table as the code has it.
\<close>

section \<open>Strings in the arrays\<close>

lemma strcmp_padded: "0 \<notin> set xs \<Longrightarrow> 0 \<notin> set ys \<Longrightarrow> strcmp_eq (xs @ 0 # r) (ys @ 0 # s) = Some (xs = ys)"
proof (induction xs arbitrary: ys)
  case Nil
  then show ?case by (cases ys) auto
next
  case (Cons x xs)
  then show ?case by (cases ys) auto
qed

lemma strcpy_padded: "0 \<notin> set xs \<Longrightarrow> length xs < length d \<Longrightarrow> strcpy d (xs @ 0 # r) = Some (xs @ 0 # drop (Suc (length xs)) d)"
proof (induction xs arbitrary: d)
  case Nil
  then show ?case by (cases d) auto
next
  case (Cons x xs)
  then show ?case by (cases d) auto
qed

text \<open>The sets that fit into an array.\<close>

definition fits :: "uint8_t list \<Rightarrow> uint8_t set \<Rightarrow> bool" where
  "fits vs S \<longleftrightarrow> names_ok vs \<and> S \<subseteq> set vs"

lemma fits_names: "fits vs S \<Longrightarrow> sub_names vs (names_of S) \<and> length (names_of S) < NumMaxChar \<and> 0 \<notin> set (names_of S)"
  using sub_names_fits [of vs "names_of S"] by (simp add: fits_def sub_names_def sorted_names_of(2))

lemma code_padded: "fits vs S \<Longrightarrow> code S = names_of S @ 0 # replicate (NumMaxChar - Suc (length (names_of S))) 0"
  using fits_names [of vs S] by (simp add: code_def arr_def Suc_diff_Suc flip: replicate_Suc)

lemma strcmp_code: "fits vs S \<Longrightarrow> fits vs T \<Longrightarrow> strcmp_eq (code S) (code T) = Some (S = T)"
  using strcmp_padded [of "names_of S" "names_of T"] fits_names [of vs] by (simp add: code_padded) (metis set_names_of)

lemma code_empty: "code {} = replicate NumMaxChar 0"
  by (simp add: code_def arr_def names_of_def)

lemma strcpy_code: "fits vs S \<Longrightarrow> strcpy (code {}) (code S) = Some (code S)"
  using strcpy_padded [of "names_of S" "code {}"] fits_names [of vs S] by (simp add: code_padded code_empty)

lemma rd_code: "fits vs S \<Longrightarrow> \<exists>c. rd (code S) 0 = Some c \<and> (c = 0 \<longleftrightarrow> S = {})"
proof -
  assume f: "fits vs S"
  have "names_of S = [] \<longleftrightarrow> S = {}" by (metis set_names_of set_empty)
  then show ?thesis using fits_names [OF f] code_padded [OF f] by (cases "names_of S") (auto simp: rd_def)
qed

section \<open>The matrix\<close>

definition entry :: "transmatrix \<Rightarrow> nat \<Rightarrow> nat \<Rightarrow> tablenode" where
  "entry TM i j = TN (TQ TM ! i) ! j"

definition rows_used :: "transmatrix \<Rightarrow> int" where
  "rows_used TM = NumTn (TQ TM ! 0)"

definition shape :: "uint8_t list \<Rightarrow> transmatrix \<Rightarrow> bool" where
  "shape ws TM \<longleftrightarrow> transnum TM = int (length ws) \<and> length (TQ TM) = Suc (length ws) \<and>
     (\<forall>i\<le>length ws. length (TN (TQ TM ! i)) = MAX_TN) \<and> (\<forall>i<length ws. transword (TQ TM ! Suc i) = ws ! i)"

lemma node_cell: "shape ws TM \<Longrightarrow> i \<le> length ws \<Longrightarrow> j < MAX_TN \<Longrightarrow> node TM (int i) (int j) = Some (entry TM i j)"
  by (simp add: node_def shape_def rd_nth entry_def)

lemma node_beyond: "shape ws TM \<Longrightarrow> node TM 0 (int MAX_TN) = None"
  using rd_nth [of 0 "TQ TM"] by (simp add: node_def shape_def) (simp add: rd_def)

lemma set_node_cell:
  assumes "shape ws TM" "i \<le> length ws" "j < MAX_TN"
  shows "\<exists>TM'. set_node TM (int i) (int j) x = Some TM' \<and> shape ws TM' \<and> rows_used TM' = rows_used TM \<and>
    (\<forall>i' j'. i' \<le> length ws \<longrightarrow> j' < MAX_TN \<longrightarrow> entry TM' i' j' = (if i' = i \<and> j' = j then x else entry TM i' j'))"
proof -
  let ?q = "TQ TM ! i"
  let ?TM = "TM\<lparr>TQ := (TQ TM)[i := ?q\<lparr>TN := (TN ?q)[j := x]\<rparr>]\<rparr>"
  have s: "length (TQ TM) = Suc (length ws)" "\<forall>i\<le>length ws. length (TN (TQ TM ! i)) = MAX_TN" using assms(1) by (auto simp: shape_def)
  have "set_node TM (int i) (int j) x = Some ?TM" using s assms(2,3) by (simp add: set_node_def rd_nth wr_nth)
  moreover have "shape ws ?TM" using assms by (auto simp: shape_def nth_list_update)
  moreover have "rows_used ?TM = rows_used TM" using s assms(2) by (simp add: rows_used_def nth_list_update)
  moreover have "entry ?TM i' j' = (if i' = i \<and> j' = j then x else entry TM i' j')" if "i' \<le> length ws" "j' < MAX_TN" for i' j'
    using that s assms(2,3) by (simp add: entry_def nth_list_update)
  ultimately show ?thesis by blast
qed

lemma bump_rows:
  assumes "shape ws TM"
  shows "\<exists>q tq. rd (TQ TM) 0 = Some q \<and> NumTn q = rows_used TM \<and> wr (TQ TM) 0 (q\<lparr>NumTn := NumTn q + 1\<rparr>) = Some tq \<and>
    shape ws (TM\<lparr>TQ := tq\<rparr>) \<and> rows_used (TM\<lparr>TQ := tq\<rparr>) = rows_used TM + 1 \<and> (\<forall>i j. i \<le> length ws \<longrightarrow> entry (TM\<lparr>TQ := tq\<rparr>) i j = entry TM i j)"
proof -
  let ?q = "TQ TM ! 0"
  have s: "length (TQ TM) = Suc (length ws)" using assms by (simp add: shape_def)
  have "rd (TQ TM) 0 = Some ?q" using s by (simp add: rd_def)
  moreover have "wr (TQ TM) 0 (?q\<lparr>NumTn := NumTn ?q + 1\<rparr>) = Some ((TQ TM)[0 := ?q\<lparr>NumTn := NumTn ?q + 1\<rparr>])" using s by (simp add: wr_def)
  ultimately show ?thesis using assms s by (auto simp: shape_def rows_used_def entry_def nth_list_update)
qed

section \<open>The construction on sets\<close>

definition succs :: "transition list \<Rightarrow> uint8_t \<Rightarrow> uint8_t set \<Rightarrow> uint8_t set" where
  "succs es w S = closure es (move es w S)"

text \<open>The place of the first row with the set, or 1.\<close>

definition lookup :: "uint8_t set list \<Rightarrow> uint8_t set \<Rightarrow> nat" where
  "lookup rows S = (if S \<in> set rows then length (takeWhile (\<lambda>T. T \<noteq> S) rows) else 1)"

text \<open>A set that is looked up at 1 is taken for a new one.\<close>

definition add_row :: "uint8_t set list \<Rightarrow> uint8_t set \<Rightarrow> uint8_t set list option" where
  "add_row rows S = (if S = {} \<or> lookup rows S \<noteq> 1 then Some rows else if length rows < MAX_TN then Some (rows @ [S]) else None)"

fun add_rows :: "uint8_t set list \<Rightarrow> uint8_t set list \<Rightarrow> uint8_t set list option" where
  "add_rows rows [] = Some rows"
| "add_rows rows (S # Ss) = do { rows \<leftarrow> add_row rows S; add_rows rows Ss }"

text \<open>How the rows grow when the sets \<open>Ss\<close> are added.\<close>

definition grown :: "uint8_t set list \<Rightarrow> uint8_t set list \<Rightarrow> uint8_t set list \<Rightarrow> bool" where
  "grown rows Ss rows' \<longleftrightarrow> (\<exists>xs. rows' = rows @ xs \<and> set xs \<subseteq> set Ss \<and> {} \<notin> set xs) \<and> (\<forall>S\<in>set Ss. S = {} \<or> S \<in> set rows') \<and>
     (length rows \<le> MAX_TN \<longrightarrow> length rows' \<le> MAX_TN)"

lemma grown_trans:
  assumes "grown a Ss b" "grown b Ts c"
  shows "grown a (Ss @ Ts) c"
proof -
  obtain xs where xs: "b = a @ xs" "set xs \<subseteq> set Ss" "{} \<notin> set xs" using assms(1) unfolding grown_def by blast
  obtain ys where ys: "c = b @ ys" "set ys \<subseteq> set Ts" "{} \<notin> set ys" using assms(2) unfolding grown_def by blast
  have "c = a @ (xs @ ys) \<and> set (xs @ ys) \<subseteq> set (Ss @ Ts) \<and> {} \<notin> set (xs @ ys)" using xs ys by auto
  moreover have "\<forall>S\<in>set (Ss @ Ts). S = {} \<or> S \<in> set c" using assms xs ys by (auto simp: grown_def)
  ultimately show ?thesis using assms unfolding grown_def by blast
qed

lemma grownD:
  assumes "grown rows Ss rows'"
  shows "j < length rows \<Longrightarrow> rows' ! j = rows ! j" "length rows \<le> length rows'" "set rows \<subseteq> set rows'" "set rows' \<subseteq> set rows \<union> (set Ss - {{}})"
    "\<And>S. S \<in> set Ss \<Longrightarrow> S = {} \<or> S \<in> set rows'" "length rows \<le> MAX_TN \<Longrightarrow> length rows' \<le> MAX_TN"
  using assms by (auto simp: grown_def nth_append)

lemma add_row_grown: "add_row rows S = Some rows' \<Longrightarrow> grown rows [S] rows'"
proof (cases "S = {} \<or> lookup rows S \<noteq> 1")
  case True
  moreover assume "add_row rows S = Some rows'"
  ultimately have "rows' = rows" "S = {} \<or> S \<in> set rows" by (auto simp: add_row_def lookup_def split: if_splits)
  then show ?thesis by (simp add: grown_def)
next
  case False
  moreover assume "add_row rows S = Some rows'"
  ultimately have "rows' = rows @ [S]" "length rows < MAX_TN" "S \<noteq> {}" by (auto simp: add_row_def split: if_splits)
  then show ?thesis by (auto simp: grown_def)
qed

lemma add_rows_grown: "add_rows rows Ss = Some rows' \<Longrightarrow> grown rows Ss rows'"
proof (induction Ss arbitrary: rows)
  case Nil
  then show ?case by (simp add: grown_def)
next
  case (Cons S Ss)
  then obtain rows1 where "add_row rows S = Some rows1" "add_rows rows1 Ss = Some rows'" by (auto split: bind_splits)
  then show ?case using grown_trans [OF add_row_grown Cons.IH] by fastforce
qed

text \<open>The rows from \<open>j\<close> on; there are never more than \<open>MAX_TN\<close> of them.\<close>

function subset_rows :: "transition list \<Rightarrow> uint8_t list \<Rightarrow> nat \<Rightarrow> uint8_t set list \<Rightarrow> uint8_t set list option" where
  "subset_rows es ws j rows = (if j < length rows \<and> j < MAX_TN
     then do { rows \<leftarrow> add_rows rows (map (\<lambda>w. succs es w (rows ! j)) ws); subset_rows es ws (Suc j) rows }
     else Some rows)"
  by pat_completeness auto
termination by (relation "measure (\<lambda>(es, ws, j, rows). MAX_TN - j)") auto

declare subset_rows.simps [simp del]

section \<open>One node\<close>

text \<open>The matrix when all rows before \<open>J\<close> have been filled, and row \<open>J\<close> up to column \<open>I\<close>.\<close>

definition filled :: "nat \<Rightarrow> nat \<Rightarrow> nat \<Rightarrow> nat \<Rightarrow> bool" where
  "filled J I i j \<longleftrightarrow> j < J \<or> j = J \<and> i < I"

definition matrix_at ::
    "transition list \<Rightarrow> uint8_t list \<Rightarrow> uint8_t list \<Rightarrow> transmatrix \<Rightarrow> uint8_t set list \<Rightarrow> nat \<Rightarrow> nat \<Rightarrow> bool" where
  "matrix_at es ws vs TM rows J I \<longleftrightarrow> shape ws TM \<and> rows_used TM = int (length rows) \<and> length rows \<le> MAX_TN \<and> (\<forall>S\<in>set rows. fits vs S) \<and>
     (\<forall>j<MAX_TN. ch (entry TM 0 j) = (if j < length rows then code (rows ! j) else code {})) \<and>
     (\<forall>i<length ws. \<forall>j<MAX_TN. ch (entry TM (Suc i) j) = (if filled J I i j then code (succs es (ws ! i) (rows ! j)) else code {}))"

lemma check_rows_code:
  assumes s: "shape ws TM" and S: "fits vs S" and rows: "length rows \<le> MAX_TN" "\<forall>T\<in>set rows. fits vs T"
    "\<And>j. j < length rows \<Longrightarrow> ch (entry TM 0 j) = code (rows ! j)"
  shows "k \<le> length rows \<Longrightarrow> check_rows TM (code S) [int k .. int (length rows) - 1] =
    Some (if S \<in> set (drop k rows) then int (k + length (takeWhile (\<lambda>T. T \<noteq> S) (drop k rows))) else 1)"
proof (induction "length rows - k" arbitrary: k)
  case (Suc n)
  have k: "k < length rows" using Suc(2) by simp
  have up: "[int k .. int (length rows) - 1] = int k # [int (Suc k) .. int (length rows) - 1]" using k by (rule upto_nat_Cons)
  have dr: "drop k rows = rows ! k # drop (Suc k) rows" using k by (rule Cons_nth_drop_Suc [symmetric])
  have "node TM 0 (int k) = Some (entry TM 0 k)" using node_cell [OF s, of 0 k] k rows(1) by simp
  moreover have "strcmp_eq (ch (entry TM 0 k)) (code S) = Some (rows ! k = S)"
    unfolding rows(3) [OF k] using rows(2) k S by (intro strcmp_code) auto
  moreover have "check_rows TM (code S) [int (Suc k) .. int (length rows) - 1] =
    Some (if S \<in> set (drop (Suc k) rows) then int (Suc k + length (takeWhile (\<lambda>T. T \<noteq> S) (drop (Suc k) rows))) else 1)"
    using Suc(2) k by (intro Suc.hyps(1)) simp_all
  ultimately show ?case unfolding up dr by auto
qed simp

lemma CheckTable_code:
  assumes "shape ws TM" "rows_used TM = int (length rows)" "fits vs S" "length rows \<le> MAX_TN" "\<forall>T\<in>set rows. fits vs T"
    "\<And>j. j < length rows \<Longrightarrow> ch (entry TM 0 j) = code (rows ! j)"
  shows "CheckTable TM (code S) = Some (int (lookup rows S))"
proof -
  have "rd (TQ TM) 0 = Some (TQ TM ! 0)" using assms(1) by (simp add: rd_def shape_def)
  then show ?thesis using check_rows_code [OF assms(1,3-6), of 0] assms(2) by (simp add: CheckTable_def rows_used_def lookup_def)
qed

lemma succs_fits: "nfa_ok vs es \<Longrightarrow> fits vs S \<Longrightarrow> fits vs (succs es w S) \<and> fits vs (move es w S)"
proof -
  assume n: "nfa_ok vs es" "fits vs S"
  have m: "move es w S \<subseteq> set vs" using n(1) by (auto simp: move_def nfa_ok_def)
  then show ?thesis using closure_names [OF n(1) m] n(2) by (simp add: fits_def succs_def)
qed

lemma successor_code:
  assumes nfa: "nfa_ok vs es" and g: "graph_at g vs es" and S: "fits vs S"
  shows "Smove g (code S) (code {}) w = Some (code (move es w S))" "E_Closure g (code (move es w S)) = Some (code (succs es w S))"
proof -
  have "code {} = arr []" by (simp add: code_empty arr_def)
  then show "Smove g (code S) (code {}) w = Some (code (move es w S))"
    using Smove_code [OF nfa g, of "names_of S" w] fits_names [OF S] by (simp add: code_def)
  show "E_Closure g (code (move es w S)) = Some (code (succs es w S))"
    using E_Closure_code [OF nfa g, of "names_of (move es w S)"] fits_names [of vs "move es w S"] succs_fits [OF nfa S]
    by (simp add: code_def succs_def)
qed

lemma filled_next: "i < n \<Longrightarrow> filled J (Suc I) i j \<longleftrightarrow> filled J I i j \<or> i = I \<and> j = J"
  by (auto simp: filled_def less_Suc_eq)

text \<open>The matrix after the node at \<open>J\<close>, \<open>I\<close> was set, and after a row was added.\<close>

lemma matrix_fill:
  assumes "matrix_at es ws vs TM rows J I" "shape ws TM'" "rows_used TM' = rows_used TM" "J < MAX_TN" "I < length ws"
    "\<And>i j. i \<le> length ws \<Longrightarrow> j < MAX_TN \<Longrightarrow> entry TM' i j = (if i = Suc I \<and> j = J then x else entry TM i j)"
    "ch x = code (succs es (ws ! I) (rows ! J))"
  shows "matrix_at es ws vs TM' rows J (Suc I)"
  using assms by (auto simp: matrix_at_def filled_next)

lemma matrix_add:
  assumes "matrix_at es ws vs TM rows J I" "shape ws TM'" "rows_used TM' = rows_used TM + 1" "length rows < MAX_TN" "fits vs S" "J < length rows"
    "\<And>i j. i \<le> length ws \<Longrightarrow> j < MAX_TN \<Longrightarrow> entry TM' i j = (if i = 0 \<and> j = length rows then x else entry TM i j)" "ch x = code S"
  shows "matrix_at es ws vs TM' (rows @ [S]) J I"
proof -
  have "rows ! j = (rows @ [S]) ! j" if "filled J I i j" for i j using that assms(6) by (auto simp: filled_def nth_append)
  then show ?thesis using assms by (auto simp: matrix_at_def nth_append less_Suc_eq)
qed

lemma lookup_row: "lookup rows S \<noteq> 1 \<Longrightarrow> lookup rows S < length rows"
proof -
  have "S \<in> set rows \<Longrightarrow> length (takeWhile (\<lambda>T. T \<noteq> S) rows) < length rows" by (induction rows) auto
  then show "lookup rows S \<noteq> 1 \<Longrightarrow> lookup rows S < length rows" by (auto simp: lookup_def split: if_splits)
qed

text \<open>Copying the set at the node into a new row, or out of the table.\<close>

definition new_row :: "transmatrix \<Rightarrow> uint8_t list \<Rightarrow> uint8_t \<Rightarrow> transmatrix option" where
  "new_row TM t name = do {
     q0 \<leftarrow> rd (TQ TM) 0;
     y \<leftarrow> node TM 0 (NumTn q0);
     s \<leftarrow> strcpy (ch y) t;
     TM \<leftarrow> set_node TM 0 (NumTn q0) \<lparr>newname = name, ch = s\<rparr>;
     q0 \<leftarrow> rd (TQ TM) 0;
     tq \<leftarrow> wr (TQ TM) 0 (q0\<lparr>NumTn := NumTn q0 + 1\<rparr>);
     Some (TM\<lparr>TQ := tq\<rparr>) }"

lemma new_row_ok:
  assumes m: "matrix_at es ws vs TM rows J I" and J: "J < length rows" and S: "fits vs S"
  shows "if length rows < MAX_TN then \<exists>TM'. new_row TM (code S) name = Some TM' \<and> matrix_at es ws vs TM' (rows @ [S]) J I
    else new_row TM (code S) name = None"
proof -
  have s: "shape ws TM" "rows_used TM = int (length rows)" "length rows \<le> MAX_TN"
    and c0: "\<And>j. j < MAX_TN \<Longrightarrow> ch (entry TM 0 j) = (if j < length rows then code (rows ! j) else code {})"
    using m by (auto simp: matrix_at_def)
  obtain q where q: "rd (TQ TM) 0 = Some q" "NumTn q = int (length rows)" using bump_rows [OF s(1)] s(2) by auto
  show ?thesis
  proof (cases "length rows < MAX_TN")
    case True
    let ?k = "length rows"
    obtain TM1 where 1: "set_node TM (int 0) (int ?k) \<lparr>newname = name, ch = code S\<rparr> = Some TM1" "shape ws TM1" "rows_used TM1 = rows_used TM"
      "\<forall>i j. i \<le> length ws \<longrightarrow> j < MAX_TN \<longrightarrow> entry TM1 i j = (if i = 0 \<and> j = ?k then \<lparr>newname = name, ch = code S\<rparr> else entry TM i j)"
      using set_node_cell [OF s(1) le0 True, of "\<lparr>newname = name, ch = code S\<rparr>"]
      by (elim exE conjE) (rule that)
    obtain q1 tq where 2: "rd (TQ TM1) 0 = Some q1" "wr (TQ TM1) 0 (q1\<lparr>NumTn := NumTn q1 + 1\<rparr>) = Some tq" "shape ws (TM1\<lparr>TQ := tq\<rparr>)"
      "rows_used (TM1\<lparr>TQ := tq\<rparr>) = rows_used TM1 + 1" "\<forall>i j. i \<le> length ws \<longrightarrow> entry (TM1\<lparr>TQ := tq\<rparr>) i j = entry TM1 i j"
      using bump_rows [OF 1(2)] by (elim exE conjE) (rule that)
    have "new_row TM (code S) name = Some (TM1\<lparr>TQ := tq\<rparr>)"
      using q node_cell [OF s(1), of 0 ?k] c0 [OF True] True strcpy_code [OF S] 1(1) 2(1,2) by (simp add: new_row_def)
    moreover have "matrix_at es ws vs (TM1\<lparr>TQ := tq\<rparr>) (rows @ [S]) J I"
      using 1(3,4) 2(4,5) by (intro matrix_add [OF m 2(3) _ True S J]) auto
    ultimately show ?thesis using True by auto
  next
    case False
    then show ?thesis using q node_beyond [OF s(1)] s(3) by (simp add: new_row_def)
  qed
qed

lemma fill_node_ok:
  assumes nfa: "nfa_ok vs es" and g: "graph_at g vs es" and m: "matrix_at es ws vs TM rows J I" and J: "J < length rows" and I: "I < length ws"
  shows "case add_row rows (succs es (ws ! I) (rows ! J)) of
      None \<Rightarrow> fill_node g (int J) (int (Suc I)) (TM, ns) = None
    | Some rows' \<Rightarrow> \<exists>TM' ns'. fill_node g (int J) (int (Suc I)) (TM, ns) = Some (TM', ns') \<and> matrix_at es ws vs TM' rows' J (Suc I)"
proof -
  let ?S = "succs es (ws ! I) (rows ! J)" and ?x = "entry TM (Suc I) J"
  have s: "shape ws TM" and n: "rows_used TM = int (length rows)" "length rows \<le> MAX_TN" "\<forall>S\<in>set rows. fits vs S"
    and c0: "\<And>j. j < MAX_TN \<Longrightarrow> ch (entry TM 0 j) = (if j < length rows then code (rows ! j) else code {})"
    and cx: "ch ?x = code {}" using m J I by (auto simp: matrix_at_def filled_def)
  have JM: "J < MAX_TN" using J n(2) by simp
  have row: "fits vs (rows ! J)" using n(3) J by simp
  then have S: "fits vs ?S" using succs_fits [OF nfa] by blast
  obtain TM1 where 1: "set_node TM (int (Suc I)) (int J) (?x\<lparr>ch := code ?S\<rparr>) = Some TM1" "shape ws TM1" "rows_used TM1 = rows_used TM"
    "\<forall>i j. i \<le> length ws \<longrightarrow> j < MAX_TN \<longrightarrow> entry TM1 i j = (if i = Suc I \<and> j = J then ?x\<lparr>ch := code ?S\<rparr> else entry TM i j)"
    using set_node_cell [OF s, of "Suc I" J] I JM by (meson Suc_leI)
  have m1: "matrix_at es ws vs TM1 rows J (Suc I)" using 1(4) by (intro matrix_fill [OF m 1(2,3) JM I]) auto
  obtain c where c: "rd (code ?S) 0 = Some c" "c = 0 \<longleftrightarrow> ?S = {}" using rd_code [OF S] by blast
  have q: "\<exists>q. rd (TQ TM) (int (Suc I)) = Some q \<and> transword q = ws ! I" using s I rd_nth [of "Suc I" "TQ TM"] by (auto simp: shape_def)
  have look: "CheckTable TM1 (code ?S) = Some (int (lookup rows ?S))"
    using n 1(4) c0 by (intro CheckTable_code [OF 1(2) _ S n(2,3)]) (auto simp: 1(3))
  have step: "fill_node g (int J) (int (Suc I)) (TM, ns) = (if ?S = {} then Some (TM1, ns) else
      if lookup rows ?S = 1
      then let (name, names) = scan_name ns (newname ?x) in do {
         TM \<leftarrow> set_node TM1 (int (Suc I)) (int J) (?x\<lparr>ch := code ?S, newname := name\<rparr>);
         TM \<leftarrow> new_row TM (code ?S) name;
         Some (TM, names) }
      else do {
         y \<leftarrow> node TM1 0 (int (lookup rows ?S));
         TM \<leftarrow> set_node TM1 (int (Suc I)) (int J) (?x\<lparr>ch := code ?S, newname := newname y\<rparr>);
         Some (TM, ns) })"
    using node_cell [OF s, of 0 J] node_cell [OF s, of "Suc I" J] successor_code [OF nfa g row, of "ws ! I"] c0 [OF JM] cx J I JM q c 1(1) look
    unfolding fill_node_def new_row_def by (auto simp: case_prod_beta Let_def)
  have again: "\<exists>TM2. set_node TM1 (int (Suc I)) (int J) (?x\<lparr>ch := code ?S, newname := name\<rparr>) = Some TM2 \<and> matrix_at es ws vs TM2 rows J (Suc I)" for name
  proof -
    let ?y = "?x\<lparr>ch := code ?S, newname := name\<rparr>"
    obtain TM2 where 2: "set_node TM1 (int (Suc I)) (int J) ?y = Some TM2" "shape ws TM2" "rows_used TM2 = rows_used TM1"
      "\<forall>i j. i \<le> length ws \<longrightarrow> j < MAX_TN \<longrightarrow> entry TM2 i j = (if i = Suc I \<and> j = J then ?y else entry TM1 i j)"
      using set_node_cell [OF 1(2), of "Suc I" J ?y] I JM by (meson Suc_leI)
    have "matrix_at es ws vs TM2 rows J (Suc I)" using 1(4) 2(4) by (intro matrix_fill [OF m 2(2) _ JM I]) (auto simp: 1(3) 2(3))
    then show ?thesis using 2(1) by blast
  qed
  consider "?S = {}" | "?S \<noteq> {}" "lookup rows ?S = 1" | "?S \<noteq> {}" "lookup rows ?S \<noteq> 1" by blast
  then show ?thesis
  proof cases
    case 1
    then show ?thesis using step m1 by (simp add: add_row_def)
  next
    case 2
    obtain name names where sc: "scan_name ns (newname ?x) = (name, names)" by fastforce
    obtain TM2 where TM2: "set_node TM1 (int (Suc I)) (int J) (?x\<lparr>ch := code ?S, newname := name\<rparr>) = Some TM2" "matrix_at es ws vs TM2 rows J (Suc I)"
      using again by blast
    then show ?thesis using step 2 sc new_row_ok [OF TM2(2) J S, of name] by (auto simp: add_row_def)
  next
    case 3
    then have k: "lookup rows ?S < MAX_TN" using lookup_row [of rows ?S] n(2) by simp
    then show ?thesis using step 3 node_cell [OF 1(2), of 0 "lookup rows ?S"] again [of "newname (entry TM1 0 (lookup rows ?S))"] by (auto simp: add_row_def)
  qed
qed

section \<open>The whole table\<close>

lemma fill_row_ok:
  assumes nfa: "nfa_ok vs es" and g: "graph_at g vs es"
  shows "matrix_at es ws vs TM rows J I \<Longrightarrow> J < length rows \<Longrightarrow> I \<le> length ws \<Longrightarrow>
    (case add_rows rows (map (\<lambda>w. succs es w (rows ! J)) (drop I ws)) of
      None \<Rightarrow> fill_row g (int J) [int (Suc I) .. int (length ws)] (TM, ns) = None
    | Some rows' \<Rightarrow> \<exists>TM' ns'. fill_row g (int J) [int (Suc I) .. int (length ws)] (TM, ns) = Some (TM', ns') \<and>
        matrix_at es ws vs TM' rows' J (length ws))"
proof (induction "length ws - I" arbitrary: I TM ns rows)
  case 0
  then show ?case by simp
next
  case (Suc n)
  have I: "I < length ws" using Suc(2) by simp
  have up: "[int (Suc I) .. int (length ws)] = int (Suc I) # [int (Suc (Suc I)) .. int (length ws)]"
    using I by (subst upto_rec1) (simp_all add: add.commute)
  have dr: "drop I ws = ws ! I # drop (Suc I) ws" using I by (rule Cons_nth_drop_Suc [symmetric])
  note step = fill_node_ok [OF nfa g Suc.prems(1,2) I, of ns]
  show ?case
  proof (cases "add_row rows (succs es (ws ! I) (rows ! J))")
    case None
    then show ?thesis using step unfolding up dr by simp
  next
    case (Some rows1)
    then obtain TM1 ns1 where 1: "fill_node g (int J) (int (Suc I)) (TM, ns) = Some (TM1, ns1)" "matrix_at es ws vs TM1 rows1 J (Suc I)"
      using step by auto
    note G = grownD [OF add_row_grown [OF Some]]
    have J: "J < length rows1" "rows1 ! J = rows ! J" using G(1) [OF Suc.prems(2)] G(2) Suc.prems(2) by auto
    have "fill_row g (int J) [int (Suc I) .. int (length ws)] (TM, ns) = fill_row g (int J) [int (Suc (Suc I)) .. int (length ws)] (TM1, ns1)"
      using 1(1) unfolding up by (simp del: of_nat_Suc)
    moreover have "n = length ws - Suc I" using Suc(2) by simp
    ultimately show ?thesis using Suc(1) [OF _ 1(2) J(1) Suc_leI [OF I], of ns1] J(2) Some unfolding dr by (simp del: of_nat_Suc split: option.splits)
  qed
qed

lemma matrix_next_row: "matrix_at es ws vs TM rows J (length ws) \<longleftrightarrow> matrix_at es ws vs TM rows (Suc J) 0"
proof -
  have "filled J (length ws) i j \<longleftrightarrow> filled (Suc J) 0 i j" if "i < length ws" for i j using that by (auto simp: filled_def)
  then show ?thesis by (simp add: matrix_at_def)
qed

lemma fill_rows_ok:
  "nfa_ok vs es \<Longrightarrow> graph_at g vs es \<Longrightarrow> matrix_at es ws vs TM rows J 0 \<Longrightarrow> J \<le> length rows \<Longrightarrow>
    (case subset_rows es ws J rows of
      None \<Rightarrow> fill_rows g (int J) (TM, ns) = None
    | Some rows' \<Rightarrow> \<exists>TM' ns'. fill_rows g (int J) (TM, ns) = Some (TM', ns') \<and> matrix_at es ws vs TM' rows' (length rows') 0)"
proof (induction es ws J rows arbitrary: TM ns rule: subset_rows.induct)
  case (1 es ws J rows)
  have s: "shape ws TM" "rows_used TM = int (length rows)" "length rows \<le> MAX_TN" using 1(4) by (auto simp: matrix_at_def)
  obtain q where q: "rd (TQ TM) 0 = Some q" "NumTn q = int (length rows)" using bump_rows [OF s(1)] s(2) by auto
  show ?case
  proof (cases "J < length rows")
    case False
    then have "subset_rows es ws J rows = Some rows" by (subst subset_rows.simps) simp
    moreover have "fill_rows g (int J) (TM, ns) = Some (TM, ns)" using q False by (subst fill_rows.simps) simp
    moreover have "J = length rows" using False 1(5) by simp
    ultimately show ?thesis using 1(4) by simp
  next
    case True
    then have JM: "J < MAX_TN" using s(3) by simp
    have tn: "transnum TM = int (length ws)" using s(1) by (simp add: shape_def)
    have f: "fill_rows g (int J) (TM, ns) = do { s \<leftarrow> fill_row g (int J) [int (Suc 0) .. int (length ws)] (TM, ns); fill_rows g (int (Suc J)) s }"
      using q tn True by (subst fill_rows.simps) (simp add: add.commute)
    have r: "subset_rows es ws J rows = do { rows \<leftarrow> add_rows rows (map (\<lambda>w. succs es w (rows ! J)) ws); subset_rows es ws (Suc J) rows }"
      using True JM by (subst subset_rows.simps) simp
    note step = fill_row_ok [OF 1(2-4) True, of ns]
    show ?thesis
    proof (cases "add_rows rows (map (\<lambda>w. succs es w (rows ! J)) ws)")
      case None
      then show ?thesis using step f r by simp
    next
      case (Some rows1)
      then obtain TM1 ns1 where 2: "fill_row g (int J) [int (Suc 0) .. int (length ws)] (TM, ns) = Some (TM1, ns1)"
        "matrix_at es ws vs TM1 rows1 (Suc J) 0" using step by (auto simp: matrix_next_row)
      have "Suc J \<le> length rows1" using grownD(2) [OF add_rows_grown [OF Some]] True by simp
      then show ?thesis using 1(1) [OF _ Some 1(2,3) 2(2), of ns1] True JM Some 2(1) f r by (simp del: of_nat_Suc split: option.splits)
    qed
  qed
qed

lemma closure_idem: "closure es (closure es S) = closure es S"
  using closure_least [of "closure es S" "closure es S" es] closure_step closure_refl [of "closure es S" es] by blast

lemma start_closure_code:
  assumes nfa: "nfa_ok vs es" and g: "graph_at g vs es" and S: "fits vs S" and c: "closure es S = S"
  shows "start_closure g is (code S) = Some (code S)"
proof (induction "is")
  case (Cons i "is")
  then show ?case using E_Closure_code [OF nfa g, of "names_of S"] fits_names [OF S] c by (simp add: code_def)
qed simp

lemma Init_Matrix_shape: "shape ws (Init_Matrix ws)" "rows_used (Init_Matrix ws) = 0"
    "i \<le> length ws \<Longrightarrow> j < MAX_TN \<Longrightarrow> entry (Init_Matrix ws) i j = \<lparr>newname = 0, ch = code {}\<rparr>"
  by (auto simp: shape_def Init_Matrix_def Let_def rows_used_def entry_def code_empty nth_Cons split: nat.splits)

lemma NFA_to_DFA_rows:
  assumes nfa: "nfa_ok vs es" and g: "graph_at g vs es" and ws: "ws \<noteq> []"
  shows "\<exists>TM ns. NFA_to_DFA g (Init_Matrix ws) names = fill_rows g 0 (TM, ns) \<and> matrix_at es ws vs TM [closure es {hd vs}] 0 0"
proof -
  let ?v = "hd vs" and ?M = "Init_Matrix ws" and ?S = "closure es {hd vs}"
  have ok: "names_ok vs" "vs \<noteq> []" using nfa by (auto simp: nfa_ok_def names_ok_def)
  then have v: "rd (NodeTable g) 0 = Some (NodeTable g ! 0)" "vdata (NodeTable g ! 0) = ?v"
    using g by (auto simp: graph_at_def vertex_at_def rd_def MAX_TN_def hd_conv_nth)
  have S: "fits vs ?S" using closure_names [OF nfa, of "{?v}"] ok by (simp add: fits_def)
  obtain i "is" where up: "[1 .. transnum ?M] = i # is" using ws by (cases "[1 .. transnum ?M]") (auto simp: Init_Matrix_def Let_def)
  have x: "node ?M 0 0 = Some \<lparr>newname = 0, ch = code {}\<rparr>" using node_cell [OF Init_Matrix_shape(1), of 0 ws 0] Init_Matrix_shape(3) [of 0 ws 0]
    by (simp add: MAX_TN_def)
  have "wr (code {}) 0 ?v = Some (arr [?v])" using wr_arr [of "[]" ?v] by (simp add: NumMaxChar_def code_empty arr_def)
  moreover have "E_Closure g (arr [?v]) = Some (code ?S)" using E_Closure_code [OF nfa g, of "[?v]"] ok by (simp add: sub_names_def)
  then have "start_closure g [1 .. transnum ?M] (arr [?v]) = Some (code ?S)"
    using start_closure_code [OF nfa g S closure_idem, of "is"] unfolding up by simp
  moreover obtain name ns where sc: "scan_name names 0 = (name, ns)" by fastforce
  moreover obtain TM1 where 1: "set_node ?M (int 0) (int 0) \<lparr>newname = name, ch = code ?S\<rparr> = Some TM1" "shape ws TM1"
    "rows_used TM1 = rows_used ?M" "\<forall>i j. i \<le> length ws \<longrightarrow> j < MAX_TN \<longrightarrow>
      entry TM1 i j = (if i = 0 \<and> j = 0 then \<lparr>newname = name, ch = code ?S\<rparr> else entry ?M i j)"
    using set_node_cell [OF Init_Matrix_shape(1) le0, of 0 ws "\<lparr>newname = name, ch = code ?S\<rparr>"] by (auto simp: MAX_TN_def)
  moreover obtain q tq where 2: "rd (TQ TM1) 0 = Some q" "wr (TQ TM1) 0 (q\<lparr>NumTn := NumTn q + 1\<rparr>) = Some tq" "shape ws (TM1\<lparr>TQ := tq\<rparr>)"
    "rows_used (TM1\<lparr>TQ := tq\<rparr>) = rows_used TM1 + 1" "\<forall>i j. i \<le> length ws \<longrightarrow> entry (TM1\<lparr>TQ := tq\<rparr>) i j = entry TM1 i j"
    using bump_rows [OF 1(2)] by (elim exE conjE) (rule that)
  ultimately have "NFA_to_DFA g ?M names = fill_rows g 0 (TM1\<lparr>TQ := tq\<rparr>, ns)" using v x by (simp add: NFA_to_DFA_def)
  moreover have "matrix_at es ws vs (TM1\<lparr>TQ := tq\<rparr>) [?S] 0 0"
    unfolding matrix_at_def using 1(3,4) 2(3-5) S Init_Matrix_shape(2) [of ws] Init_Matrix_shape(3) [of _ ws]
    by (auto simp: MAX_TN_def filled_def)
  ultimately show ?thesis by blast
qed

section \<open>What the table means\<close>

text \<open>The rows are those of the automaton of sets: the first one is the closure of the start, every set that a row leads to is a row, unless
  it is empty, and every row can be reached.\<close>

definition set_step :: "transition list \<Rightarrow> uint8_t list \<Rightarrow> (uint8_t set \<times> uint8_t set) set" where
  "set_step es ws = {(S, succs es w S) | S w. w \<in> set ws}"

definition subset_automaton :: "transition list \<Rightarrow> uint8_t list \<Rightarrow> uint8_t set \<Rightarrow> uint8_t set list \<Rightarrow> bool" where
  "subset_automaton es ws S0 rows \<longleftrightarrow> rows \<noteq> [] \<and> hd rows = S0 \<and>
     (\<forall>S\<in>set rows. \<forall>w\<in>set ws. succs es w S = {} \<or> succs es w S \<in> set rows) \<and> (\<forall>S\<in>set rows. (S0, S) \<in> (set_step es ws)\<^sup>*)"

lemma subset_rows_automaton:
  "subset_rows es ws j rows = Some rows' \<Longrightarrow> rows \<noteq> [] \<Longrightarrow> hd rows = S0 \<Longrightarrow> length rows \<le> MAX_TN \<Longrightarrow> j \<le> length rows \<Longrightarrow>
    \<forall>i<j. \<forall>w\<in>set ws. succs es w (rows ! i) = {} \<or> succs es w (rows ! i) \<in> set rows \<Longrightarrow> \<forall>S\<in>set rows. (S0, S) \<in> (set_step es ws)\<^sup>* \<Longrightarrow>
    subset_automaton es ws S0 rows'"
proof (induction es ws j rows rule: subset_rows.induct)
  case (1 es ws j rows)
  show ?case
  proof (cases "j < length rows")
    case False
    then have "rows' = rows" using 1(2) by (subst (asm) subset_rows.simps) simp
    moreover have "\<forall>S\<in>set rows. \<forall>w\<in>set ws. succs es w S = {} \<or> succs es w S \<in> set rows"
      using 1(6,7) False by (metis in_set_conv_nth le_neq_implies_less)
    ultimately show ?thesis using 1(3,4,8) by (simp add: subset_automaton_def)
  next
    case True
    then have jM: "j < MAX_TN" using 1(5) by simp
    let ?Ss = "map (\<lambda>w. succs es w (rows ! j)) ws"
    obtain rows1 where r: "add_rows rows ?Ss = Some rows1" "subset_rows es ws (Suc j) rows1 = Some rows'"
      using 1(2) True jM by (subst (asm) subset_rows.simps) (auto split: bind_splits)
    note G = grownD [OF add_rows_grown [OF r(1)]]
    obtain ys where "rows1 = rows @ ys" using add_rows_grown [OF r(1)] by (auto simp: grown_def)
    then have hd: "rows1 \<noteq> []" "hd rows1 = S0" using 1(3,4) by simp_all
    have new: "succs es w (rows ! j) = {} \<or> succs es w (rows ! j) \<in> set rows1" if "w \<in> set ws" for w using G(5) that by auto
    have "\<forall>i<Suc j. \<forall>w\<in>set ws. succs es w (rows1 ! i) = {} \<or> succs es w (rows1 ! i) \<in> set rows1"
    proof (intro allI impI ballI)
      fix i w assume i: "i < Suc j" and w: "w \<in> set ws"
      have e: "rows1 ! i = rows ! i" using G(1) i True by simp
      show "succs es w (rows1 ! i) = {} \<or> succs es w (rows1 ! i) \<in> set rows1"
      proof (cases "i = j")
        case False
        then have "succs es w (rows ! i) = {} \<or> succs es w (rows ! i) \<in> set rows" using 1(7) i w by simp
        then show ?thesis using e G(3) by auto
      qed (use new [OF w] e in simp)
    qed
    moreover have "\<forall>S\<in>set rows1. (S0, S) \<in> (set_step es ws)\<^sup>*"
    proof
      fix S assume "S \<in> set rows1"
      then consider "S \<in> set rows" | w where "w \<in> set ws" "S = succs es w (rows ! j)" using G(4) by auto
      then show "(S0, S) \<in> (set_step es ws)\<^sup>*"
      proof cases
        case 2
        then have "(rows ! j, S) \<in> set_step es ws" by (auto simp: set_step_def)
        then show ?thesis using 1(8) True by (meson nth_mem rtrancl.rtrancl_into_rtrancl)
      qed (use 1(8) in blast)
    qed
    ultimately show ?thesis using 1(1) [OF _ r hd G(6) [OF 1(5)]] True jM G(2) by simp
  qed
qed

section \<open>The second row\<close>

lemma lookup_second: "rows \<noteq> [] \<Longrightarrow> hd rows \<noteq> S \<Longrightarrow> tl rows \<noteq> [] \<longrightarrow> hd (tl rows) = S \<Longrightarrow> lookup rows S = 1"
  by (cases rows; cases "tl rows") (auto simp: lookup_def)

lemma add_rows_second:
  assumes "S \<noteq> {}"
  shows "add_rows rows Ss = Some rows' \<Longrightarrow> S \<in> set Ss \<Longrightarrow> rows = S0 # S # xs \<Longrightarrow> S \<noteq> S0 \<Longrightarrow> \<exists>r. length rows \<le> r \<and> r < length rows' \<and> rows' ! r = S"
proof (induction Ss arbitrary: rows xs)
  case (Cons T Ss)
  then obtain rows1 where r: "add_row rows T = Some rows1" "add_rows rows1 Ss = Some rows'" by (auto split: bind_splits)
  note G = grownD [OF add_rows_grown [OF r(2)]]
  show ?case
  proof (cases "T = S")
    case True
    have "lookup rows S = 1" using Cons.prems(3,4) by (intro lookup_second) auto
    then have "rows1 = rows @ [S]" using r(1) assms True by (auto simp: add_row_def split: if_splits)
    then show ?thesis using G(1) [of "length rows"] G(2) by (intro exI [of _ "length rows"]) simp
  next
    case False
    obtain ys where ys: "rows1 = rows @ ys" using add_row_grown [OF r(1)] by (auto simp: grown_def)
    then obtain r' where "length rows1 \<le> r'" "r' < length rows'" "rows' ! r' = S" using Cons.IH [OF r(2), of "xs @ ys"] Cons.prems False by auto
    then show ?thesis using ys by (intro exI [of _ r']) simp
  qed
qed simp

text \<open>When the set in the second row leads to itself, there is always a row with it that has not been looked at.\<close>

lemma subset_rows_runs_out:
  assumes "S \<noteq> {}" "S \<noteq> S0" "w \<in> set ws" "succs es w S = S"
  shows "rows = S0 # S # xs \<Longrightarrow> length rows \<le> MAX_TN \<Longrightarrow> j \<le> r \<Longrightarrow> r < length rows \<Longrightarrow> rows ! r = S \<Longrightarrow> subset_rows es ws j rows = None"
proof (induction "MAX_TN - j" arbitrary: j rows r xs)
  case 0
  then show ?case by simp
next
  case (Suc n)
  have j: "j < length rows" "j < MAX_TN" using Suc.prems Suc(2) by auto
  let ?Ss = "map (\<lambda>w. succs es w (rows ! j)) ws"
  have e: "subset_rows es ws j rows = do { rows \<leftarrow> add_rows rows ?Ss; subset_rows es ws (Suc j) rows }" using j by (subst subset_rows.simps) simp
  show ?case
  proof (cases "add_rows rows ?Ss")
    case (Some rows1)
    note G = grownD [OF add_rows_grown [OF Some]]
    obtain ys where ys: "rows1 = rows @ ys" using add_rows_grown [OF Some] by (auto simp: grown_def)
    have "\<exists>r'. Suc j \<le> r' \<and> r' < length rows1 \<and> rows1 ! r' = S"
    proof (cases "r = j")
      case True
      have "S \<in> set ?Ss" using assms(3,4) Suc.prems(5) True by force
      from add_rows_second [OF assms(1) Some this Suc.prems(1) assms(2)] obtain r'
        where r': "length rows \<le> r'" "r' < length rows1" "rows1 ! r' = S" by blast
      show ?thesis using r' j(1) by (intro exI [of _ r']) simp
    next
      case False
      then show ?thesis using Suc.prems(3-5) G(1) [of r] G(2) by (intro exI [of _ r]) simp
    qed
    then have "subset_rows es ws (Suc j) rows1 = None" using Suc(1) [of "Suc j" rows1 "xs @ ys"] Suc(2) Suc.prems(1) ys G(6) [OF Suc.prems(2)] by auto
    then show ?thesis using e Some by simp
  qed (use e in simp)
qed

text \<open>The second row is the first set, in the order of the words, that the first row leads to and that is not empty and not the first row.\<close>

lemma add_rows_first:
  "\<forall>T\<in>set Ts. T = {} \<or> T = S0 \<Longrightarrow> S \<noteq> {} \<Longrightarrow> S \<noteq> S0 \<Longrightarrow> add_rows [S0] (Ts @ S # Us) = add_rows [S0, S] Us"
proof (induction Ts)
  case Nil
  have "lookup [S0] S = 1" using Nil by (simp add: lookup_def)
  then show ?case using Nil by (simp add: add_row_def MAX_TN_def)
next
  case (Cons T Ts)
  then have "add_row [S0] T = Some [S0]" by (auto simp: add_row_def lookup_def)
  then show ?case using Cons by simp
qed

lemma subset_rows_second_loops:
  assumes "ws = us @ w # ws'" "\<forall>u\<in>set us. succs es u S0 = {} \<or> succs es u S0 = S0" "S = succs es w S0" "S \<noteq> {}" "S \<noteq> S0"
    "v \<in> set ws" "succs es v S = S"
  shows "subset_rows es ws 0 [S0] = None"
proof -
  have a: "add_rows [S0] (map (\<lambda>w. succs es w S0) ws) = add_rows [S0, S] (map (\<lambda>w. succs es w S0) ws')"
    using assms(1-5) add_rows_first [of "map (\<lambda>w. succs es w S0) us" S0 S] by simp
  have e: "subset_rows es ws 0 [S0] = do { rows \<leftarrow> add_rows [S0] (map (\<lambda>w. succs es w S0) ws); subset_rows es ws 1 rows }"
    by (subst subset_rows.simps) (simp add: MAX_TN_def)
  show ?thesis
  proof (cases "add_rows [S0, S] (map (\<lambda>w. succs es w S0) ws')")
    case (Some rows)
    obtain xs where xs: "rows = S0 # S # xs" using add_rows_grown [OF Some] by (auto simp: grown_def)
    moreover have "length rows \<le> MAX_TN" using grownD(6) [OF add_rows_grown [OF Some]] by (simp add: MAX_TN_def)
    ultimately have "subset_rows es ws 1 rows = None" using subset_rows_runs_out [OF assms(4-7) xs, of 1 1] by simp
    then show ?thesis using e a Some by simp
  qed (use e a in simp)
qed

section \<open>The claims\<close>


lemma all_less_two: "(\<forall>j<Suc (Suc 0). P j) \<longleftrightarrow> P 0 \<and> P 1"
  by (auto simp: less_Suc_eq)

definition blank_table :: "vertex list" where
  "blank_table = replicate 10 \<lparr>vdata = 0, adj = None\<rparr>"

lemma closure_no_eps: "\<forall>(a, w, b)\<in>set es. w \<noteq> 0x2a \<Longrightarrow> closure es S = S"
  using closure_least [of S S es] closure_refl [of S es] by fastforce

lemma one_edge:
  defines "es \<equiv> [(0x61, 0x78, 0x62)] :: transition list"
  shows "closure es S = S" "subset_rows es [0x78] 0 [{0x61}] = Some [{0x61}, {0x62}]"
proof -
  have c: "closure es S = S" for S by (rule closure_no_eps) (simp add: es_def)
  have "succs es 0x78 {0x61} = {0x62}" "succs es 0x78 {0x62} = {}" unfolding succs_def c by (auto simp: move_def es_def)
  then have "add_rows [{0x61}] [succs es 0x78 {0x61}] = Some [{0x61}, {0x62}]"
    "add_rows [{0x61}, {0x62}] [succs es 0x78 {0x62}] = Some [{0x61}, {0x62}]"
    by (simp_all add: add_row_def lookup_def MAX_TN_def)
  then show "closure es S = S" "subset_rows es [0x78] 0 [{0x61}] = Some [{0x61}, {0x62}]"
    by (simp_all add: c subset_rows.simps MAX_TN_def)
qed


text \<open>C9: \<open>CheckTable\<close> returns 1 for a set that is not in the table, and also for the set in row 1. So whenever that set leads to itself with some
  word, it is added again and again, until the table of ten rows is overrun.\<close>

theorem NFA_to_DFA_overrun:
  assumes nfa: "nfa_ok vs es" and junk: "length junk = MAX_TN" and ws: "ws = us @ w # ws'"
    and first: "\<forall>u\<in>set us. succs es u (closure es {hd vs}) = {} \<or> succs es u (closure es {hd vs}) = closure es {hd vs}"
    and second: "S = succs es w (closure es {hd vs})" "S \<noteq> {}" "S \<noteq> closure es {hd vs}" and loop: "v \<in> set ws" "succs es v S = S"
  shows "\<exists>g. Construct_Graph junk vs es = Some g \<and> NFA_to_DFA g (Init_Matrix ws) names = None"
proof -
  obtain g where g: "Construct_Graph junk vs es = Some g" "graph_at g vs es" using Construct_Graph_at [OF nfa junk] by blast
  have "ws \<noteq> []" using ws by simp
  then obtain TM0 ns0 where 0: "NFA_to_DFA g (Init_Matrix ws) names = fill_rows g 0 (TM0, ns0)" "matrix_at es ws vs TM0 [closure es {hd vs}] 0 0"
    using NFA_to_DFA_rows [OF nfa g(2)] by blast
  then show ?thesis using fill_rows_ok [OF nfa g(2) 0(2), of ns0] subset_rows_second_loops [OF ws first second loop] g(1) by simp
qed

lemma loop_automaton:
  defines "es \<equiv> [(0x61, 0x78, 0x62), (0x62, 0x78, 0x62)] :: transition list"
  shows "closure es S = S" "succs es 0x78 {0x61} = {0x62}" "succs es 0x78 {0x62} = {0x62}"
proof -
  have c: "closure es S = S" for S by (rule closure_no_eps) (simp add: es_def)
  show "closure es S = S" "succs es 0x78 {0x61} = {0x62}" "succs es 0x78 {0x62} = {0x62}" unfolding succs_def c by (auto simp: move_def es_def)
qed

theorem NFA_to_DFA_overrun_witness:
  "\<exists>g. Construct_Graph blank_table [0x61, 0x62] [(0x61, 0x78, 0x62), (0x62, 0x78, 0x62)] = Some g \<and>
     NFA_to_DFA g (Init_Matrix [0x78]) [0x41, 0x42] = None"
proof (rule NFA_to_DFA_overrun [where us = "[]" and w = "0x78" and ws' = "[]" and S = "{0x62}" and v = "0x78"])
  show "nfa_ok [0x61, 0x62] [(0x61, 0x78, 0x62), (0x62, 0x78, 0x62)]" by (simp add: nfa_ok_def names_ok_def NumMaxChar_def)
  show "length blank_table = MAX_TN" by (simp add: blank_table_def MAX_TN_def)
qed (simp_all add: loop_automaton)

end
