(* ===== verification/Brainfuck1.thy ===== *)
theory Brainfuck1
  imports Prelude "HOL-Library.Monad_Syntax"
begin

text \<open>
  The second interpreter, \<open>c-study/brainfuck/brainfuck1.c\<close>: a machine with a code, a stack and a data segment, and a table of functions
  indexed by characters.
\<close>

section \<open>The machine\<close>

definition CODE_SEGMENT_SIZE :: nat where "CODE_SEGMENT_SIZE = 30000"
definition STACK_SEGMENT_SIZE :: nat where "STACK_SEGMENT_SIZE = 1000"
definition DATA_SEGMENT_SIZE :: nat where "DATA_SEGMENT_SIZE = 30000"

text \<open>\<open>><+-.,[]\<close>\<close>

definition TOKENS :: "uint8_t list" where
  "TOKENS = [0x3e, 0x3c, 0x2b, 0x2d, 0x2e, 0x2c, 0x5b, 0x5d]"

text \<open>\<open>sin\<close> is what \<open>getchar\<close> will deliver before the end of the file, \<open>sout\<close> what was passed to \<open>putchar\<close>.\<close>

record vm =
  cs :: "uint8_t list"
  ip :: int
  ss :: "uint8_t list"
  sp :: int
  ds :: "uint8_t list"
  bp :: int
  sin :: "uint8_t list"
  sout :: "int list"

text \<open>What a run can do wrong: leave one of the segments, or call through an entry of the table that is null.\<close>

datatype vm_fault = Code_Fault | Stack_Fault | Data_Fault | Null_Call

text \<open>A value, or the fault.\<close>

fun access :: "vm_fault \<Rightarrow> 'a option \<Rightarrow> vm_fault + 'a" where
  "access f None = Inl f"
| "access f (Some x) = Inr x"

fun vm_then :: "'e + 'a \<Rightarrow> ('a \<Rightarrow> 'e + 'b) \<Rightarrow> 'e + 'b" where
  "vm_then (Inl e) f = Inl e"
| "vm_then (Inr x) f = f x"

definition data :: "vm \<Rightarrow> vm_fault + uint8_t" where
  "data m = access Data_Fault (rd (ds m) (bp m))"

definition set_data :: "vm \<Rightarrow> uint8_t \<Rightarrow> vm_fault + vm" where
  "set_data m v = vm_then (access Data_Fault (wr (ds m) (bp m) v)) (\<lambda>d. Inr (m\<lparr>ds := d\<rparr>))"

definition vm_forward :: "vm \<Rightarrow> vm_fault + vm" where
  "vm_forward m = Inr (m\<lparr>bp := (bp m + 1) mod int DATA_SEGMENT_SIZE\<rparr>)"

definition vm_backward :: "vm \<Rightarrow> vm_fault + vm" where
  "vm_backward m = Inr (m\<lparr>bp := (bp m + int DATA_SEGMENT_SIZE - 1) mod int DATA_SEGMENT_SIZE\<rparr>)"

definition vm_increment :: "vm \<Rightarrow> vm_fault + vm" where
  "vm_increment m = vm_then (data m) (\<lambda>x. set_data m (x + 1))"

definition vm_decrement :: "vm \<Rightarrow> vm_fault + vm" where
  "vm_decrement m = vm_then (data m) (\<lambda>x. set_data m (x - 1))"

text \<open>\<open>EOF\<close> is -1, and becomes 255 in a \<open>char\<close>.\<close>

definition vm_input :: "vm \<Rightarrow> vm_fault + vm" where
  "vm_input m = (case sin m of [] \<Rightarrow> set_data m (- 1) | x # xs \<Rightarrow> set_data (m\<lparr>sin := xs\<rparr>) x)"

definition vm_output :: "vm \<Rightarrow> vm_fault + vm" where
  "vm_output m = vm_then (data m) (\<lambda>x. Inr (m\<lparr>sout := sout m @ [sint x]\<rparr>))"

text \<open>The \<open>for\<close> loop of \<open>vm_while_entry\<close>: from \<open>i\<close> on, with the counter \<open>c\<close>.\<close>

function skip_loop :: "uint8_t list \<Rightarrow> int \<Rightarrow> int \<Rightarrow> int option" where
  "skip_loop code i c = (case rd code i of
     None \<Rightarrow> None
   | Some x \<Rightarrow>
       if x \<noteq> 0 \<and> c \<noteq> 0
       then skip_loop code (i + 1) (if x = 0x5b then c + 1 else if x = 0x5d then c - 1 else c)
       else Some i)"
  by pat_completeness auto
termination by (relation "measure (\<lambda>(code, i, c). nat (int (length code) - i))") (auto simp: rd_def split: if_splits)

declare skip_loop.simps [simp del]

text \<open>The stack is an array of \<open>char\<close>: the address is cut to eight bits.\<close>

definition vm_while_entry :: "vm \<Rightarrow> vm_fault + vm" where
  "vm_while_entry m = vm_then (data m) (\<lambda>x.
     if x \<noteq> 0
     then vm_then (access Stack_Fault (wr (ss m) (sp m) (word_of_int (ip m - 1)))) (\<lambda>s. Inr (m\<lparr>ss := s, sp := sp m + 1\<rparr>))
     else vm_then (access Code_Fault (skip_loop (cs m) (ip m + 1) 1)) (\<lambda>i. Inr (m\<lparr>ip := i\<rparr>)))"

definition vm_while_exit :: "vm \<Rightarrow> vm_fault + vm" where
  "vm_while_exit m = vm_then (data m) (\<lambda>x.
     if x \<noteq> 0
     then vm_then (access Stack_Fault (rd (ss m) (sp m - 1))) (\<lambda>a. Inr (m\<lparr>sp := sp m - 1, ip := sint a\<rparr>))
     else Inr m)"

text \<open>The table \<open>vm.fn\<close>, which \<open>setup\<close> fills.\<close>

definition fn :: "uint8_t \<Rightarrow> (vm \<Rightarrow> vm_fault + vm) option" where
  "fn c = (if c = 0x3e then Some vm_forward else if c = 0x3c then Some vm_backward
     else if c = 0x2b then Some vm_increment else if c = 0x2d then Some vm_decrement
     else if c = 0x2e then Some vm_output else if c = 0x2c then Some vm_input
     else if c = 0x5b then Some vm_while_entry else if c = 0x5d then Some vm_while_exit else None)"

text \<open>The program is read to the end of the file. \<open>strchr\<close> finds the NUL at the end of \<open>TOKENS\<close> too.\<close>

fun load_code :: "uint8_t list \<Rightarrow> uint8_t list \<Rightarrow> int \<Rightarrow> uint8_t list option" where
  "load_code [] code i = Some code"
| "load_code (c # inp) code i = (if c \<in> set TOKENS \<or> c = 0
     then do { code \<leftarrow> wr code i c; load_code inp code (i + 1) }
     else load_code inp code i)"

definition vm_setup :: "uint8_t list \<Rightarrow> vm_fault + vm" where
  "vm_setup inp = vm_then (access Code_Fault (load_code inp (replicate CODE_SEGMENT_SIZE 0) 0)) (\<lambda>code.
     Inr \<lparr>cs = code, ip = 0, ss = replicate STACK_SEGMENT_SIZE 0, sp = 0, ds = replicate DATA_SEGMENT_SIZE 0, bp = 0, sin = [], sout = []\<rparr>)"

text \<open>The body of the loop of \<open>run\<close>, for a command.\<close>

definition vm_step :: "uint8_t \<Rightarrow> vm \<Rightarrow> vm_fault + vm" where
  "vm_step c m = (case fn c of None \<Rightarrow> Inl Null_Call | Some f \<Rightarrow> vm_then (f m) (\<lambda>m. Inr (m\<lparr>ip := ip m + 1\<rparr>)))"

text \<open>\<open>None\<close> when it does not end.\<close>

partial_function (option) vm_run :: "vm \<Rightarrow> (vm_fault + vm) option" where
  [code]: "vm_run m = (case rd (cs m) (ip m) of
     None \<Rightarrow> Some (Inl Code_Fault)
   | Some c \<Rightarrow> if c = 0 then Some (Inr m) else (case vm_step c m of Inl f \<Rightarrow> Some (Inl f) | Inr m \<Rightarrow> vm_run m))"

definition brainfuck1_main :: "uint8_t list \<Rightarrow> (vm_fault + vm) option" where
  "brainfuck1_main inp = (case vm_setup inp of Inl f \<Rightarrow> Some (Inl f) | Inr m \<Rightarrow> vm_run m)"

section \<open>Types\<close>

text \<open>The sizes of the segments, the data pointer inside its segment, and only commands in the code.\<close>

definition vm_ok :: "vm \<Rightarrow> bool" where
  "vm_ok m \<longleftrightarrow> length (cs m) = CODE_SEGMENT_SIZE \<and> length (ss m) = STACK_SEGMENT_SIZE \<and> length (ds m) = DATA_SEGMENT_SIZE \<and>
     0 \<le> bp m \<and> bp m < int DATA_SEGMENT_SIZE \<and> set (cs m) \<subseteq> insert 0 (set TOKENS)"

text \<open>What an operation may do: keep the types and the code, or fault in the code or the stack.\<close>

fun typed :: "vm \<Rightarrow> vm_fault + vm \<Rightarrow> bool" where
  "typed m (Inl f) \<longleftrightarrow> f = Code_Fault \<or> f = Stack_Fault"
| "typed m (Inr m') \<longleftrightarrow> vm_ok m' \<and> cs m' = cs m"

lemma data_ok: "vm_ok m \<Longrightarrow> data m = Inr (ds m ! nat (bp m))"
  by (simp add: data_def rd_def vm_ok_def)

lemma set_data_ok: "vm_ok m \<Longrightarrow> set_data m v = Inr (m\<lparr>ds := (ds m)[nat (bp m) := v]\<rparr>)"
  by (simp add: set_data_def wr_def vm_ok_def)

lemma fn_TOKENS: "c \<in> set TOKENS \<longleftrightarrow> fn c \<noteq> None"
  by (auto simp: TOKENS_def fn_def)

lemma fn_cases:
  assumes "fn c = Some f"
  obtains "f = vm_forward" | "f = vm_backward" | "f = vm_increment" | "f = vm_decrement" | "f = vm_output" | "f = vm_input"
    | "f = vm_while_entry" | "f = vm_while_exit"
  using assms by (auto simp: fn_def split: if_splits)

lemma fn_typed:
  assumes "vm_ok m" "fn c = Some f"
  shows "typed m (f m)"
  using assms(2)
proof (cases rule: fn_cases)
  case 6
  have "vm_ok (m\<lparr>sin := xs\<rparr>)" for xs using assms(1) by (simp add: vm_ok_def)
  then show ?thesis using 6 assms(1) by (auto simp: vm_input_def set_data_ok split: list.splits) (auto simp: vm_ok_def)
next
  case 7
  have "wr (ss m) (sp m) v = Some s \<Longrightarrow> length s = length (ss m)" for v s by (auto simp: wr_def split: if_splits)
  then show ?thesis using 7 assms(1)
    by (cases "wr (ss m) (sp m) (word_of_int (ip m - 1))"; cases "skip_loop (cs m) (ip m + 1) 1")
      (auto simp: vm_while_entry_def data_ok vm_ok_def)
next
  case 8
  then show ?thesis using assms(1) by (cases "rd (ss m) (sp m - 1)") (auto simp: vm_while_exit_def data_ok vm_ok_def)
qed (use assms(1) in \<open>auto simp: vm_forward_def vm_backward_def vm_increment_def vm_decrement_def vm_output_def data_ok set_data_ok\<close>,
  auto simp: vm_ok_def DATA_SEGMENT_SIZE_def)

lemma vm_step_typed:
  assumes "vm_ok m" "rd (cs m) (ip m) = Some c" "c \<noteq> 0"
  shows "typed m (vm_step c m)"
proof -
  have "c \<in> set (cs m)" using assms(2) by (auto simp: rd_def split: if_splits)
  then obtain f where f: "fn c = Some f" using assms(1,3) fn_TOKENS [of c] by (auto simp: vm_ok_def)
  have "typed m (f m)" using fn_typed [OF assms(1) f] .
  then show ?thesis using f by (cases "f m") (auto simp: vm_step_def vm_ok_def)
qed

lemma load_code_ok: "load_code inp code i = Some code' \<Longrightarrow> set code \<subseteq> insert 0 (set TOKENS) \<Longrightarrow> length code' = length code \<and> set code' \<subseteq> insert 0 (set TOKENS)"
proof (induction inp arbitrary: code i)
  case (Cons c inp)
  show ?case
  proof (cases "c \<in> set TOKENS \<or> c = 0")
    case True
    then obtain code1 where 1: "wr code i c = Some code1" "load_code inp code1 (i + 1) = Some code'" using Cons.prems(1) by (auto split: bind_splits)
    then have "length code1 = length code" "set code1 \<subseteq> insert 0 (set TOKENS)"
      using True Cons.prems(2) set_update_subset_insert [of code "nat i" c] by (auto simp: wr_def split: if_splits)
    then show ?thesis using Cons.IH [OF 1(2)] by simp
  next
    case False
    then show ?thesis using Cons by simp
  qed
qed simp

lemma vm_setup_ok: "vm_setup inp = Inr m \<Longrightarrow> vm_ok m"
  using load_code_ok [of inp "replicate CODE_SEGMENT_SIZE 0" 0]
  by (cases "load_code inp (replicate CODE_SEGMENT_SIZE 0) 0") (auto simp: vm_setup_def vm_ok_def DATA_SEGMENT_SIZE_def CODE_SEGMENT_SIZE_def)

text \<open>The states in which a run can stop.\<close>

fun stopped :: "vm_fault + vm \<Rightarrow> bool" where
  "stopped (Inl f) \<longleftrightarrow> f = Code_Fault \<or> f = Stack_Fault"
| "stopped (Inr m) \<longleftrightarrow> vm_ok m \<and> rd (cs m) (ip m) = Some 0"

lemma vm_run_stopped:
  assumes "vm_run m = Some r"
  shows "vm_ok m \<longrightarrow> stopped r"
proof (rule vm_run.raw_induct [where P = "\<lambda>m r. vm_ok m \<longrightarrow> stopped r", OF _ assms], intro impI)
  fix run m r
  assume IH: "\<And>m r. run m = Some r \<Longrightarrow> vm_ok m \<longrightarrow> stopped r" and m: "vm_ok m"
    and r: "(case rd (cs m) (ip m) of None \<Rightarrow> Some (Inl Code_Fault)
      | Some c \<Rightarrow> if c = 0 then Some (Inr m) else case vm_step c m of Inl f \<Rightarrow> Some (Inl f) | Inr m \<Rightarrow> run m) = Some r"
  show "stopped r"
  proof (cases "rd (cs m) (ip m)")
    case None
    then show ?thesis using r by auto
  next
    case (Some c)
    show ?thesis
    proof (cases "c = 0")
      case True
      then show ?thesis using r Some m by auto
    next
      case False
      have "typed m (vm_step c m)" using vm_step_typed [OF m Some False] .
      then show ?thesis using r IH Some False by (cases "vm_step c m") auto
    qed
  qed
qed

section \<open>Loops\<close>

text \<open>No NUL in the body of a loop, and every bracket has its partner there.\<close>

fun balanced :: "int \<Rightarrow> uint8_t list \<Rightarrow> bool" where
  "balanced c [] \<longleftrightarrow> c = 1"
| "balanced c (x # xs) \<longleftrightarrow> x \<noteq> 0 \<and> (let c = (if x = 0x5b then c + 1 else if x = 0x5d then c - 1 else c) in 0 < c \<and> balanced c xs)"

lemma skip_loop_body: "balanced c xs \<Longrightarrow> 0 < c \<Longrightarrow>
  skip_loop (us @ xs @ rest) (int (length us)) c = skip_loop (us @ xs @ rest) (int (length us + length xs)) 1"
proof (induction xs arbitrary: us c)
  case (Cons x xs)
  let ?c = "if x = 0x5b then c + 1 else if x = 0x5d then c - 1 else c"
  have "rd (us @ (x # xs) @ rest) (int (length us)) = Some x" by (simp add: rd_def)
  then have "skip_loop (us @ (x # xs) @ rest) (int (length us)) c = skip_loop (us @ (x # xs) @ rest) (int (length us) + 1) ?c"
    using Cons.prems by (subst skip_loop.simps) simp
  then show ?case using Cons.IH [of ?c "us @ [x]"] Cons.prems by (simp add: Let_def add.commute add.left_commute split: if_splits)
qed simp

lemma skip_loop_end:
  assumes "balanced 1 body"
  shows "skip_loop (us @ 0x5b # body @ 0x5d # x # rest) (int (length us) + 1) 1 = Some (int (length us + length body) + 2)"
proof -
  let ?code = "us @ 0x5b # body @ 0x5d # x # rest" and ?j = "length us + length body + 1"
  have "skip_loop ?code (int (length us) + 1) 1 = skip_loop ?code (int ?j) 1"
    using skip_loop_body [OF assms, of "us @ [0x5b]" "0x5d # x # rest"] by (simp add: add.commute)
  also have "rd ?code (int ?j) = Some 0x5d" "rd ?code (int ?j + 1) = Some x"
    by (simp_all add: rd_def nth_append nth_Cons' nat_add_distrib)
  then have "skip_loop ?code (int ?j) 1 = Some (int ?j + 1)" by (simp add: skip_loop.simps)
  finally show ?thesis by simp
qed

section \<open>The claims\<close>

text \<open>C21: whatever is given to the program, its machine keeps its types: every command preserves the sizes of the segments and the
  code, and the data pointer stays inside the data segment. A run that stops has come to the end of the code, or has left the
  code or the stack; it never accesses data outside the segment and never calls through a null entry of the table.\<close>

theorem brainfuck1_typed:
  "(vm_ok m \<and> rd (cs m) (ip m) = Some c \<and> c \<noteq> 0 \<longrightarrow> typed m (vm_step c m)) \<and> (brainfuck1_main inp = Some r \<longrightarrow> stopped r)"
proof (intro conjI impI)
  show "typed m (vm_step c m)" if "vm_ok m \<and> rd (cs m) (ip m) = Some c \<and> c \<noteq> 0" using vm_step_typed that by blast
  assume r: "brainfuck1_main inp = Some r"
  show "stopped r"
  proof (cases "vm_setup inp")
    case (Inl f)
    then have "f = Code_Fault" by (cases "load_code inp (replicate CODE_SEGMENT_SIZE 0) 0") (auto simp: vm_setup_def)
    then show ?thesis using r Inl by (auto simp: brainfuck1_main_def)
  next
    case (Inr m)
    then show ?thesis using r vm_run_stopped [of m r] vm_setup_ok [OF Inr] by (auto simp: brainfuck1_main_def)
  qed
qed

definition zero_vm :: "uint8_t list \<Rightarrow> vm" where
  "zero_vm code = \<lparr>cs = code @ replicate (CODE_SEGMENT_SIZE - length code) 0, ip = 0, ss = replicate STACK_SEGMENT_SIZE 0, sp = 0,
     ds = replicate DATA_SEGMENT_SIZE 0, bp = 0, sin = [], sout = []\<rparr>"

lemma zero_vm_ok: "length code \<le> CODE_SEGMENT_SIZE \<Longrightarrow> set code \<subseteq> set TOKENS \<Longrightarrow> vm_ok (zero_vm code)"
  by (auto simp: zero_vm_def vm_ok_def DATA_SEGMENT_SIZE_def)

lemma brainfuck1_empty: "brainfuck1_main [] = Some (Inr (zero_vm []))"
  by (simp add: brainfuck1_main_def vm_setup_def vm_run.simps zero_vm_def rd_def CODE_SEGMENT_SIZE_def)

theorem brainfuck1_typed_witness:
  "typed (zero_vm [0x2b]) (vm_step 0x2b (zero_vm [0x2b])) \<and> stopped (Inr (zero_vm []))"
proof -
  have "vm_ok (zero_vm [0x2b])" by (rule zero_vm_ok) (simp_all add: CODE_SEGMENT_SIZE_def TOKENS_def)
  moreover have "rd (cs (zero_vm [0x2b])) (ip (zero_vm [0x2b])) = Some 0x2b" by (simp add: zero_vm_def rd_def)
  ultimately show ?thesis
    using brainfuck1_typed [of "zero_vm [0x2b]" "0x2b" "[]" "Inr (zero_vm [])"] brainfuck1_empty by simp
qed

text \<open>C25: what the two commands for loops do. A loop that is skipped takes the command behind it along: the run goes on two
  places behind the closing bracket. The end of a loop leaves its entry on the stack. And an iteration goes back to the opening bracket only
  if that is not behind place 128, since the stack holds bytes.\<close>

theorem brainfuck1_loops:
  assumes "vm_ok m"
  shows "(data m = Inr 0 \<and> cs m = us @ 0x5b # body @ 0x5d # x # rest \<and> ip m = int (length us) \<and> balanced 1 body \<longrightarrow>
      vm_step 0x5b m = Inr (m\<lparr>ip := int (length us + length body) + 3\<rparr>)) \<and>
    (data m = Inr 0 \<longrightarrow> vm_step 0x5d m = Inr (m\<lparr>ip := ip m + 1\<rparr>)) \<and>
    (data m = Inr v \<and> v \<noteq> 0 \<and> 0 \<le> sp m \<and> sp m < int STACK_SEGMENT_SIZE \<and> 0 \<le> ip m \<and> ip m < 256 \<longrightarrow>
      (\<exists>m'. vm_step 0x5b m = Inr m' \<and> sp m' = sp m + 1 \<and> ip m' = ip m + 1 \<and>
        (\<forall>j. \<exists>m''. vm_step 0x5d (m'\<lparr>ip := j\<rparr>) = Inr m'' \<and> sp m'' = sp m \<and> (ip m'' = ip m \<longleftrightarrow> ip m \<le> 128))))"
proof (intro conjI impI)
  assume a: "data m = Inr 0 \<and> cs m = us @ 0x5b # body @ 0x5d # x # rest \<and> ip m = int (length us) \<and> balanced 1 body"
  then show "vm_step 0x5b m = Inr (m\<lparr>ip := int (length us + length body) + 3\<rparr>)"
    using skip_loop_end [of body us x rest] by (simp add: vm_step_def fn_def vm_while_entry_def)
next
  assume "data m = Inr 0"
  then show "vm_step 0x5d m = Inr (m\<lparr>ip := ip m + 1\<rparr>)" by (simp add: vm_step_def fn_def vm_while_exit_def)
next
  assume a: "data m = Inr v \<and> v \<noteq> 0 \<and> 0 \<le> sp m \<and> sp m < int STACK_SEGMENT_SIZE \<and> 0 \<le> ip m \<and> ip m < 256"
  let ?b = "word_of_int (ip m - 1) :: uint8_t"
  let ?m = "m\<lparr>ss := (ss m)[nat (sp m) := ?b], sp := sp m + 1, ip := ip m + 1\<rparr>"
  have len: "nat (sp m) < length (ss m)" using a assms by (auto simp: vm_ok_def nat_less_iff)
  have enter: "vm_step 0x5b m = Inr ?m" using a len by (simp add: vm_step_def fn_def vm_while_entry_def wr_def)
  have "vm_step 0x5d (?m\<lparr>ip := j\<rparr>) = Inr (?m\<lparr>sp := sp m, ip := sint ?b + 1\<rparr>)" for j
    using a len by (simp add: vm_step_def fn_def vm_while_exit_def data_def rd_def)
  moreover have "sint ?b + 1 = ip m \<longleftrightarrow> ip m \<le> 128" using sint_byte [of "ip m - 1"] sint_byte_range [of ?b] a by auto
  ultimately show "\<exists>m'. vm_step 0x5b m = Inr m' \<and> sp m' = sp m + 1 \<and> ip m' = ip m + 1 \<and>
        (\<forall>j. \<exists>m''. vm_step 0x5d (m'\<lparr>ip := j\<rparr>) = Inr m'' \<and> sp m'' = sp m \<and> (ip m'' = ip m \<longleftrightarrow> ip m \<le> 128))"
    using enter by (intro exI [of _ ?m]) simp
qed

theorem brainfuck1_loops_witness:
  "vm_step 0x5b (zero_vm [0x5b, 0x5d, 0x2b, 0x2e]) = Inr ((zero_vm [0x5b, 0x5d, 0x2b, 0x2e])\<lparr>ip := 3\<rparr>)"
proof -
  let ?m = "zero_vm [0x5b, 0x5d, 0x2b, 0x2e]"
  have "vm_ok ?m" by (rule zero_vm_ok) (simp_all add: CODE_SEGMENT_SIZE_def TOKENS_def)
  moreover have "data ?m = Inr 0" by (simp add: data_def zero_vm_def rd_def DATA_SEGMENT_SIZE_def)
  moreover have "cs ?m = [] @ 0x5b # [] @ 0x5d # 0x2b # (0x2e # replicate (CODE_SEGMENT_SIZE - 4) 0)" "ip ?m = int (length ([] :: uint8_t list))"
    by (simp_all add: zero_vm_def)
  ultimately show ?thesis using brainfuck1_loops [of ?m "[]" "[]" "0x2b" "0x2e # replicate (CODE_SEGMENT_SIZE - 4) 0"] by simp
qed

end
