(* ===== verification/Array_List.thy ===== *)
theory Array_List
  imports Heap
begin

text \<open>
  The array of buckets of \<open>c-study/array-list/array_list.c\<close>: every bucket is an element of an array, a block with room for five numbers, from
  which further blocks are linked. \<open>None\<close> is an access through a null or dangling pointer or outside the array. The messages for
  debugging are left out.
\<close>

section \<open>Data\<close>

definition BLOCK_DEPTH :: nat where "BLOCK_DEPTH = 5"

record list_t =
  lnext :: "nat ptr"
  used :: "int list"
  ldata :: "int list"

text \<open>A block after \<open>memset\<close>.\<close>

definition zero_block :: list_t where
  "zero_block = \<lparr>lnext = None, used = replicate BLOCK_DEPTH 0, ldata = replicate BLOCK_DEPTH 0\<rparr>"

text \<open>The address that \<open>malloc\<close> returned for the array, and its number of elements.\<close>

record array_base =
  addr :: nat
  elems :: int

section \<open>Allocation\<close>

text \<open>Blocks have addresses one after the other, and those of the array follow each other. \<open>ok\<close> is whether \<open>malloc\<close> succeeds; when it does
  not, \<open>memset\<close> writes to the null pointer.\<close>

definition init_array_list :: "bool \<Rightarrow> list_t heap \<Rightarrow> int \<Rightarrow> (list_t heap \<times> array_base) option" where
  "init_array_list ok h n =
     (if ok \<and> 0 \<le> n then Some (h @ replicate (nat n) (Some zero_block), \<lparr>addr = length h, elems = n\<rparr>) else None)"

fun release_all :: "list_t heap \<Rightarrow> nat list \<Rightarrow> list_t heap option" where
  "release_all h [] = Some h"
| "release_all h (a # as) = do { h \<leftarrow> release h (Some a); release_all h as }"

definition free_array_list :: "list_t heap \<Rightarrow> array_base \<Rightarrow> list_t heap option" where
  "free_array_list h p = release_all h [addr p ..< addr p + nat (elems p)]"

definition get_new_list :: "bool \<Rightarrow> list_t heap \<Rightarrow> (list_t heap \<times> nat) option" where
  "get_new_list ok h = (if ok then Some (h @ [Some zero_block], length h) else None)"

text \<open>\<open>(list_t *)base_addr + array_n\<close>\<close>

definition elem_at :: "array_base \<Rightarrow> int \<Rightarrow> nat option" where
  "elem_at p n = (if 0 \<le> n \<and> n < elems p then Some (addr p + nat n) else None)"

section \<open>Showing a bucket\<close>

text \<open>What is printed for the used places of a block, and where the loop ends.\<close>

fun show_slots :: "list_t \<Rightarrow> nat list \<Rightarrow> (nat \<times> int) list \<times> nat" where
  "show_slots b [] = ([], BLOCK_DEPTH)"
| "show_slots b (i # is) =
     (if used b ! i \<noteq> 0 then (let (out, k) = show_slots b is in ((i, ldata b ! i) # out, k)) else ([], i))"

partial_function (option) show_loop :: "list_t heap \<Rightarrow> nat ptr \<Rightarrow> (nat \<times> int) list list option" where
  [code]: "show_loop h p = (if p = None then Some []
     else do {
       b \<leftarrow> deref h p;
       let (out, i) = show_slots b [0..<BLOCK_DEPTH];
       if BLOCK_DEPTH > i then Some [out]
       else if i = BLOCK_DEPTH \<and> lnext b \<noteq> None then do { rest \<leftarrow> show_loop h (lnext b); Some (out # rest) }
       else Some [out] })"

definition show_elem :: "list_t heap \<Rightarrow> array_base \<Rightarrow> int \<Rightarrow> (nat \<times> int) list list option" where
  "show_elem h p n = do { a \<leftarrow> elem_at p n; show_loop h (Some a) }"

section \<open>Adding\<close>

text \<open>The loop over a block: the changed block and the place where it ends, or the status 2.\<close>

fun add_slots :: "int \<Rightarrow> list_t \<Rightarrow> nat list \<Rightarrow> int + list_t \<times> nat" where
  "add_slots d b [] = Inr (b, BLOCK_DEPTH)"
| "add_slots d b (i # is) =
     (if used b ! i = 0 then Inr (b\<lparr>used := (used b)[i := 1], ldata := (ldata b)[i := d]\<rparr>, i)
      else if d = ldata b ! i \<and> used b ! i = 1 then Inl 2
      else add_slots d b is)"

partial_function (option) add_loop :: "bool \<Rightarrow> list_t heap \<Rightarrow> nat ptr \<Rightarrow> int \<Rightarrow> (list_t heap \<times> int) option" where
  [code]: "add_loop ok h p d = (if p = None then Some (h, 1)
     else do {
       b \<leftarrow> deref h p;
       case add_slots d b [0..<BLOCK_DEPTH] of
         Inl r \<Rightarrow> Some (h, r)
       | Inr (b, i) \<Rightarrow> do {
           h \<leftarrow> store h p (\<lambda>_. b);
           if BLOCK_DEPTH > i then Some (h, 0)
           else if i = BLOCK_DEPTH \<and> lnext b \<noteq> None then add_loop ok h (lnext b) d
           else do {
             (h, q) \<leftarrow> get_new_list ok h;
             h \<leftarrow> store h p (\<lambda>b. b\<lparr>lnext := Some q\<rparr>);
             h \<leftarrow> store h (Some q) (\<lambda>b. b\<lparr>used := (used b)[0 := 1], ldata := (ldata b)[0 := d]\<rparr>);
             Some (h, 0) } } })"

definition add_elem :: "bool \<Rightarrow> list_t heap \<Rightarrow> array_base \<Rightarrow> int \<Rightarrow> int \<Rightarrow> (list_t heap \<times> int) option" where
  "add_elem ok h p n d = do { a \<leftarrow> elem_at p n; add_loop ok h (Some a) d }"

section \<open>Deleting\<close>

text \<open>The local variables of \<open>del_elem\<close>.\<close>

record del_vars =
  last_p :: "nat ptr"
  del_p :: "nat ptr"
  temp_p :: "nat ptr"
  last_n :: nat
  del_n :: nat
  del_found :: bool
  last_found :: bool

text \<open>The loop over a block, with the variables at its end and the place.\<close>

fun del_slots :: "int \<Rightarrow> nat ptr \<Rightarrow> list_t \<Rightarrow> nat list \<Rightarrow> del_vars \<Rightarrow> del_vars \<times> nat" where
  "del_slots d p b [] v = (v, BLOCK_DEPTH)"
| "del_slots d p b (i # is) v =
     (let v = (if d = ldata b ! i then v\<lparr>del_n := i, del_p := p, del_found := True\<rparr> else v);
          v = (if used b ! i = 0
               then (if i > 0 then v\<lparr>last_n := i - 1, last_p := p, last_found := True\<rparr>
                     else v\<lparr>last_n := BLOCK_DEPTH - 1, last_p := temp_p v, last_found := True\<rparr>)
               else v)
      in if last_found v \<and> del_found v then (v, i) else del_slots d p b is v)"

partial_function (option) del_scan :: "list_t heap \<Rightarrow> int \<Rightarrow> nat ptr \<Rightarrow> del_vars \<Rightarrow> del_vars option" where
  [code]: "del_scan h d p v = (if p = None then Some v
     else do {
       b \<leftarrow> deref h p;
       let (v, i) = del_slots d p b [0..<BLOCK_DEPTH] v;
       if BLOCK_DEPTH > i then Some v
       else let v = v\<lparr>temp_p := p\<rparr> in
         if lnext b = None then Some (v\<lparr>last_n := BLOCK_DEPTH - 1, last_p := temp_p v, last_found := True\<rparr>)
         else del_scan h d (lnext b) v })"

definition del_elem :: "list_t heap \<Rightarrow> array_base \<Rightarrow> int \<Rightarrow> int \<Rightarrow> (list_t heap \<times> int) option" where
  "del_elem h p n d = do {
     a \<leftarrow> elem_at p n;
     v \<leftarrow> del_scan h d (Some a) \<lparr>last_p = None, del_p = None, temp_p = Some a, last_n = 0, del_n = 0, del_found = False, last_found = False\<rparr>;
     if \<not> del_found v \<or> \<not> last_found v then Some (h, 1)
     else do {
       l \<leftarrow> deref h (last_p v);
       h \<leftarrow> store h (del_p v) (\<lambda>b. b\<lparr>ldata := (ldata b)[del_n v := ldata l ! last_n v]\<rparr>);
       h \<leftarrow> store h (last_p v) (\<lambda>b. b\<lparr>used := (used b)[last_n v := 0]\<rparr>);
       if last_n v = 0 \<and> last_p v \<noteq> Some a
       then do {
         h \<leftarrow> store h (temp_p v) (\<lambda>b. b\<lparr>lnext := None\<rparr>);
         h \<leftarrow> release h (last_p v);
         Some (h, 0) }
       else Some (h, 0) } }"

text \<open>The demonstration: what \<open>main\<close> adds and deletes. The status comes first, then what \<open>show_elem\<close> prints and the memory at the end.\<close>

fun add_numbers :: "bool \<Rightarrow> list_t heap \<Rightarrow> array_base \<Rightarrow> int list \<Rightarrow> (list_t heap \<times> int) option" where
  "add_numbers ok h p [] = Some (h, 0)"
| "add_numbers ok h p (d # ds) = do { (h, r) \<leftarrow> add_elem ok h p 0 d; if r \<noteq> 0 then Some (h, 1) else add_numbers ok h p ds }"

fun del_numbers :: "list_t heap \<Rightarrow> array_base \<Rightarrow> int list \<Rightarrow> (list_t heap \<times> int) option" where
  "del_numbers h p [] = Some (h, 0)"
| "del_numbers h p (d # ds) = do { (h, r) \<leftarrow> del_elem h p 0 d; if r \<noteq> 0 then Some (h, 1) else del_numbers h p ds }"

definition array_list_main :: "bool \<Rightarrow> (int \<times> (nat \<times> int) list list \<times> list_t heap) option" where
  "array_list_main ok = do {
     (h, p) \<leftarrow> init_array_list ok [] 2;
     (h, r) \<leftarrow> add_numbers ok h p (map (\<lambda>i. 255 - i) [0 .. 39]);
     if r \<noteq> 0 then Some (1, [], h)
     else do {
       (h, r) \<leftarrow> del_numbers h p (map (\<lambda>i. 255 - i) [0 .. 39]);
       if r \<noteq> 0 then Some (1, [], h)
       else do {
         out \<leftarrow> show_elem h p 0;
         h \<leftarrow> free_array_list h p;
         Some (0, out, h) } } }"

end
