(* ===== verification/Array_List_Correct.thy ===== *)
theory Array_List_Correct
  imports Array_List
begin

text \<open>
  A bucket is a sequence of places, five in each of its blocks, of which the first ones are used. The operations on the linked blocks are
  operations on this sequence.
\<close>

section \<open>Buckets\<close>

text \<open>The block at place \<open>j\<close> of the blocks \<open>bs\<close>, when the places \<open>cs\<close> are used up to \<open>n\<close>.\<close>

definition block_at :: "nat list \<Rightarrow> int list \<Rightarrow> nat \<Rightarrow> nat \<Rightarrow> list_t" where
  "block_at bs cs n j = \<lparr>lnext = (if Suc j < length bs then Some (bs ! Suc j) else None),
     used = map (\<lambda>i. if 5 * j + i < n then 1 else 0) [0..<5], ldata = map (\<lambda>i. cs ! (5 * j + i)) [0..<5]\<rparr>"

definition bucket :: "list_t heap \<Rightarrow> nat list \<Rightarrow> int list \<Rightarrow> nat \<Rightarrow> bool" where
  "bucket h bs cs n \<longleftrightarrow> bs \<noteq> [] \<and> distinct bs \<and> length cs = 5 * length bs \<and> n \<le> length cs \<and> (length bs = 1 \<or> 5 * (length bs - 1) < n) \<and>
     (\<forall>j<length bs. deref h (Some (bs ! j)) = Some (block_at bs cs n j))"

lemma bucketD:
  assumes "bucket h bs cs n"
  shows "bs \<noteq> []" "distinct bs" "length cs = 5 * length bs" "n \<le> length cs" "length bs = 1 \<or> 5 * (length bs - 1) < n"
    "\<And>j. j < length bs \<Longrightarrow> deref h (Some (bs ! j)) = Some (block_at bs cs n j)" "\<And>j. j < length bs \<Longrightarrow> bs ! j < length h"
  using assms deref_bound by (fastforce simp: bucket_def)+

lemma block_at_nth:
  "i < 5 \<Longrightarrow> used (block_at bs cs n j) ! i = (if 5 * j + i < n then 1 else 0)"
  "i < 5 \<Longrightarrow> ldata (block_at bs cs n j) ! i = cs ! (5 * j + i)"
  by (simp_all add: block_at_def)

text \<open>The blocks before the last one are full.\<close>

lemma bucket_full: "bucket h bs cs n \<Longrightarrow> Suc j < length bs \<Longrightarrow> 5 * j + 5 < n"
  using bucketD(5) [of h bs cs n] by auto

section \<open>Adding\<close>

text \<open>Looking for \<open>d\<close> in the rest of a block.\<close>

lemma add_slots_eq:
  assumes "i \<le> 5" "5 * j + i \<le> n" "b = block_at bs cs n j"
  shows "add_slots d b [i..<5] = (if \<exists>k\<in>{i..<5}. 5 * j + k < n \<and> cs ! (5 * j + k) = d then Inl 2
     else if n < 5 * j + 5 then Inr (b\<lparr>used := (used b)[n - 5 * j := 1], ldata := (ldata b)[n - 5 * j := d]\<rparr>, n - 5 * j)
     else Inr (b, 5))"
  using assms
proof (induction "5 - i" arbitrary: i)
  case 0
  then show ?case by (simp add: BLOCK_DEPTH_def)
next
  case (Suc m)
  then have i: "i < 5" "m = 5 - Suc i" by auto
  have split: "{i..<5} = insert i {Suc i..<5}" using i by auto
  show ?case
  proof (cases "5 * j + i < n")
    case True
    then show ?thesis using Suc.hyps(1) [OF i(2)] Suc.prems i by (auto simp: upt_rec [of i] block_at_nth split)
  next
    case False
    then have "n = 5 * j + i" using Suc.prems by simp
    then show ?thesis using Suc.prems i by (auto simp: upt_rec [of i] block_at_nth)
  qed
qed

text \<open>A place that changes, of the used ones or the next one.\<close>

lemma block_at_set:
  assumes "length cs = 5 * length bs" "k < 5" "j < length bs"
  shows "(block_at bs cs n j)\<lparr>ldata := (ldata (block_at bs cs n j))[k := d]\<rparr> = block_at bs (cs[5 * j + k := d]) n j"
  using assms by (auto simp: block_at_def nth_list_update intro!: nth_equalityI)

lemma block_at_other: "i \<noteq> j \<Longrightarrow> k < 5 \<Longrightarrow> block_at bs (cs[5 * j + k := d]) n i = block_at bs cs n i"
  by (auto simp: block_at_def nth_list_update)

lemma block_at_use:
  assumes "n = 5 * j + k" "k < 5"
  shows "(block_at bs cs n j)\<lparr>used := (used (block_at bs cs n j))[k := 1]\<rparr> = block_at bs cs (Suc n) j"
    "(block_at bs cs (Suc n) j)\<lparr>used := (used (block_at bs cs (Suc n) j))[k := 0]\<rparr> = block_at bs cs n j"
    "i \<noteq> j \<Longrightarrow> block_at bs cs (Suc n) i = block_at bs cs n i"
  using assms by (auto simp: block_at_def nth_list_update intro!: nth_equalityI)

lemma bucket_write:
  assumes "bucket h bs cs n" "j < length bs" "k < 5"
  shows "bucket (h[bs ! j := Some (block_at bs (cs[5 * j + k := d]) n j)]) bs (cs[5 * j + k := d]) n"
  unfolding bucket_def
proof (intro conjI allI impI)
  fix i assume "i < length bs"
  then show "deref (h[bs ! j := Some (block_at bs (cs[5 * j + k := d]) n j)]) (Some (bs ! i)) = Some (block_at bs (cs[5 * j + k := d]) n i)"
    using bucketD [OF assms(1)] assms(2,3) by (auto simp: heap_simps nth_eq_iff_index_eq block_at_other)
qed (use bucketD [OF assms(1)] in auto)

lemma bucket_use:
  assumes "bucket h bs cs n" "n = 5 * j + k" "k < 5" "Suc j = length bs"
  shows "bucket (h[bs ! j := Some (block_at bs cs (Suc n) j)]) bs cs (Suc n)"
  unfolding bucket_def
proof (intro conjI allI impI)
  fix i assume "i < length bs"
  then show "deref (h[bs ! j := Some (block_at bs cs (Suc n) j)]) (Some (bs ! i)) = Some (block_at bs cs (Suc n) i)"
    using bucketD [OF assms(1)] assms(4) block_at_use(3) [OF assms(2,3)] by (auto simp: heap_simps nth_eq_iff_index_eq)
qed (use bucketD [OF assms(1)] assms in auto)

lemma bucket_unuse:
  assumes "bucket h bs cs (Suc n)" "n = 5 * j + k" "k < 5" "Suc j = length bs" "k > 0 \<or> j = 0"
  shows "bucket (h[bs ! j := Some (block_at bs cs n j)]) bs cs n"
  unfolding bucket_def
proof (intro conjI allI impI)
  fix i assume "i < length bs"
  then show "deref (h[bs ! j := Some (block_at bs cs n j)]) (Some (bs ! i)) = Some (block_at bs cs n i)"
    using bucketD [OF assms(1)] assms(4) block_at_use(3) [OF assms(2,3)] by (auto simp: heap_simps nth_eq_iff_index_eq)
qed (use bucketD [OF assms(1)] assms in auto)

text \<open>A new block at the end.\<close>

lemma bucket_fresh: "bucket h bs cs n \<Longrightarrow> length h \<notin> set bs"
  using bucketD(7) [of h bs cs n] by (fastforce simp: in_set_conv_nth)

lemma bucket_extend:
  assumes "bucket h bs cs (length cs)" "j = length bs - 1"
  shows "bucket ((h @ [Some \<lparr>lnext = None, used = [1, 0, 0, 0, 0], ldata = [d, 0, 0, 0, 0]\<rparr>])[bs ! j := Some ((block_at bs cs (length cs) j)\<lparr>lnext := Some (length h)\<rparr>)])
    (bs @ [length h]) (cs @ [d, 0, 0, 0, 0]) (Suc (length cs))"
    (is "bucket ?h (bs @ _) (cs @ ?ds) _")
  unfolding bucket_def
proof (intro conjI allI impI)
  note b = bucketD [OF assms(1)]
  fix i assume i: "i < length (bs @ [length h])"
  have slots5: "[0..<5] = [0, 1, 2, 3, 4 :: nat]" by (simp add: upt_rec)
  show "deref ?h (Some ((bs @ [length h]) ! i)) = Some (block_at (bs @ [length h]) (cs @ ?ds) (Suc (length cs)) i)"
  proof (cases "i < length bs")
    case True
    have "bs ! i \<noteq> length h" "bs ! j < Suc (length h)" using b(7) [OF True] b(7) [of j] b(1) assms(2) by (simp_all add: less_SucI)
    moreover have "block_at (bs @ [length h]) (cs @ ?ds) (Suc (length cs)) i =
        (block_at bs cs (length cs) i)\<lparr>lnext := (if i = j then Some (length h) else lnext (block_at bs cs (length cs) i))\<rparr>"
      using True assms(2) b(3) by (auto simp: block_at_def nth_append)
    ultimately show ?thesis using True b(1,2,6,7) assms(2) by (auto simp: heap_simps nth_append nth_eq_iff_index_eq)
  next
    case False
    then have "i = length bs" using i by simp
    moreover have "bs ! j \<noteq> length h" using bucket_fresh [OF assms(1)] b(1) assms(2) by (metis diff_less length_greater_0_conv nth_mem zero_less_one)
    ultimately show ?thesis using b(3) by (auto simp: heap_simps block_at_def slots5 nth_append)
  qed
qed (use bucketD(1-5) [OF assms(1)] bucket_fresh [OF assms(1)] in auto)

text \<open>The rest of the heap stays as it is.\<close>

definition frame :: "list_t heap \<Rightarrow> nat list \<Rightarrow> list_t heap \<Rightarrow> bool" where
  "frame h bs h' \<longleftrightarrow> length h \<le> length h' \<and> (\<forall>i<length h. i \<notin> set bs \<longrightarrow> h' ! i = h ! i)"

lemma frame_simps:
  "frame h bs h" "a \<in> set bs \<Longrightarrow> frame h bs h' \<Longrightarrow> frame h bs (h'[a := v])" "frame h bs h' \<Longrightarrow> frame h bs (h' @ xs)"
  by (auto simp: frame_def nth_append) (metis nth_list_update_neq)

lemma store_same: "deref h (Some a) = Some b \<Longrightarrow> store h (Some a) (\<lambda>_. b) = Some h"
  by (auto simp: store_def deref_Some list_update_same_conv split: if_splits)

lemma add_loop_ok:
  assumes "bucket h bs cs n" "j < length bs" "5 * j \<le> n"
  shows "if \<exists>k. 5 * j \<le> k \<and> k < n \<and> cs ! k = d then add_loop True h (Some (bs ! j)) d = Some (h, 2)
    else \<exists>h'. add_loop True h (Some (bs ! j)) d = Some (h', 0) \<and> frame h bs h' \<and>
      (if n < length cs then bucket h' bs (cs[n := d]) (Suc n) else bucket h' (bs @ [length h]) (cs @ [d, 0, 0, 0, 0]) (Suc n))"
  using assms
proof (induction "length bs - j" arbitrary: j)
  case (Suc m)
  note b = bucketD [OF assms(1)]
  let ?b = "block_at bs cs n j"
  have ad: "add_slots d ?b [0..<5] = (if \<exists>k\<in>{0..<5}. 5 * j + k < n \<and> cs ! (5 * j + k) = d then Inl 2
     else if n < 5 * j + 5 then Inr (?b\<lparr>used := (used ?b)[n - 5 * j := 1], ldata := (ldata ?b)[n - 5 * j := d]\<rparr>, n - 5 * j)
     else Inr (?b, 5))"
    using add_slots_eq [of 0 j n ?b bs cs d] Suc.prems by simp
  have here: "(\<exists>k\<in>{0..<5}. 5 * j + k < n \<and> cs ! (5 * j + k) = d) \<longleftrightarrow> (\<exists>k. 5 * j \<le> k \<and> k < 5 * j + 5 \<and> k < n \<and> cs ! k = d)"
  proof (intro iffI; elim bexE exE conjE)
    fix k assume "k \<in> {0..<5}" "5 * j + k < n" "cs ! (5 * j + k) = d"
    then show "\<exists>k. 5 * j \<le> k \<and> k < 5 * j + 5 \<and> k < n \<and> cs ! k = d" by (intro exI [of _ "5 * j + k"]) simp
  next
    fix k assume "5 * j \<le> k" "k < 5 * j + 5" "k < n" "cs ! k = d"
    then show "\<exists>k\<in>{0..<5}. 5 * j + k < n \<and> cs ! (5 * j + k) = d" by (intro bexI [of _ "k - 5 * j"]) auto
  qed
  have dr: "deref h (Some (bs ! j)) = Some ?b" using b(6) Suc.prems by simp
  show ?case
  proof (cases "\<exists>k\<in>{0..<5}. 5 * j + k < n \<and> cs ! (5 * j + k) = d")
    case True
    then have "add_loop True h (Some (bs ! j)) d = Some (h, 2)" using ad dr by (subst add_loop.simps) (simp add: BLOCK_DEPTH_def)
    then show ?thesis using True here by auto
  next
    case no: False
    show ?thesis
    proof (cases "n < 5 * j + 5")
      case True
      then have last: "Suc j = length bs" using bucket_full [OF assms(1), of j] Suc.prems by force
      let ?k = "n - 5 * j"
      have k: "n = 5 * j + ?k" "?k < 5" using True Suc.prems by auto
      let ?h1 = "h[bs ! j := Some (block_at bs (cs[n := d]) n j)]"
      have h1: "bucket ?h1 bs (cs[n := d]) n" using bucket_write [OF assms(1) Suc.prems(2) k(2), of d] k(1) by simp
      have "?b\<lparr>used := (used ?b)[?k := 1], ldata := (ldata ?b)[?k := d]\<rparr> = block_at bs (cs[n := d]) (Suc n) j"
        using block_at_set [OF b(3) k(2) Suc.prems(2), of "Suc n" d] block_at_use(1) [OF k, of bs cs] k(1)
        by (metis list_t.surjective list_t.update_convs(2,3) list_t.select_convs(2,3))
      then have "add_loop True h (Some (bs ! j)) d = Some (?h1[bs ! j := Some (block_at bs (cs[n := d]) (Suc n) j)], 0)"
        using ad no True dr k(2) by (subst add_loop.simps) (simp add: BLOCK_DEPTH_def store_some)
      moreover have "n < length cs" using True last b(3) by simp
      moreover have "frame h bs (?h1[bs ! j := Some (block_at bs (cs[n := d]) (Suc n) j)])" using Suc.prems(2) by (intro frame_simps nth_mem)
      ultimately show ?thesis using bucket_use [OF h1 k last] no here True by auto
    next
      case full: False
      then have here': "(\<exists>k. 5 * j \<le> k \<and> k < n \<and> cs ! k = d) \<longleftrightarrow> (\<exists>k. 5 * Suc j \<le> k \<and> k < n \<and> cs ! k = d)"
        using no here by (metis add.commute add_leD2 mult_Suc_right not_le)
      show ?thesis
      proof (cases "Suc j < length bs")
        case True
        then have "add_loop True h (Some (bs ! j)) d = add_loop True h (Some (bs ! Suc j)) d"
          using ad no full dr by (subst add_loop.simps) (simp add: BLOCK_DEPTH_def store_same block_at_def)
        then show ?thesis using Suc.hyps(1) [of "Suc j"] Suc.hyps(2) Suc.prems True full here' by simp
      next
        case last: False
        then have j: "j = length bs - 1" "n = length cs" using Suc.prems b(3,4) full by auto
        have "lnext ?b = None" using last by (simp add: block_at_def)
        moreover have "bs ! j < length h" using b(7) Suc.prems by simp
        ultimately have "add_loop True h (Some (bs ! j)) d =
          Some ((h @ [Some \<lparr>lnext = None, used = [1, 0, 0, 0, 0], ldata = [d, 0, 0, 0, 0]\<rparr>])[bs ! j := Some (?b\<lparr>lnext := Some (length h)\<rparr>)], 0)"
          using ad no full dr
          by (subst add_loop.simps) (simp add: BLOCK_DEPTH_def store_same get_new_list_def zero_block_def store_some heap_simps eval_nat_numeral list_update_append)
        moreover have "\<not> (\<exists>k. 5 * j \<le> k \<and> k < n \<and> cs ! k = d)" using here' j b(3) by auto
        ultimately show ?thesis
          using bucket_extend [OF assms(1) [unfolded j(2)] j(1), of d] j(2) Suc.prems(2)
          by (auto intro!: frame_simps)
      qed
    qed
  qed
qed simp

section \<open>Looking for the place to delete\<close>

text \<open>The number is noted at \<open>k\<close>.\<close>

definition found :: "nat ptr \<Rightarrow> nat \<Rightarrow> del_vars \<Rightarrow> del_vars" where
  "found p k v = v\<lparr>del_n := k, del_p := p, del_found := True\<rparr>"

lemma found_simps [simp]:
  "found p k (found q i v) = found p k v" "del_n (found p k v) = k" "del_p (found p k v) = p" "del_found (found p k v)"
  "last_found (found p k v) = last_found v" "temp_p (found p k v) = temp_p v"
  by (simp_all add: found_def)

text \<open>The places that are used, of which one at most holds the number.\<close>

lemma del_slots_step:
  "used b ! i \<noteq> 0 \<Longrightarrow> \<not> last_found v \<Longrightarrow> del_slots d p b (i # is) v = del_slots d p b is (if ldata b ! i = d then found p i v else v)"
  by (simp add: found_def)

lemma del_slots_used:
  assumes "\<forall>i\<in>set is. used b ! i \<noteq> 0 \<and> (ldata b ! i = d \<longrightarrow> i = k)" "\<not> last_found v" "ldata b ! k = d"
  shows "del_slots d p b (is @ js) v = del_slots d p b js (if k \<in> set is then found p k v else v)"
  using assms(1,2)
proof (induction "is" arbitrary: v)
  case (Cons i "is")
  have "used b ! i \<noteq> 0" "ldata b ! i = d \<longleftrightarrow> i = k" using Cons.prems(1) assms(3) by auto
  then have "del_slots d p b ((i # is) @ js) v = del_slots d p b (is @ js) (if i = k then found p k v else v)"
    using del_slots_step [of b i v d p "is @ js"] Cons.prems(2) by (cases "i = k") (simp_all del: del_slots.simps)
  also have "\<dots> = del_slots d p b js (if k \<in> set is then found p k (if i = k then found p k v else v) else (if i = k then found p k v else v))"
    using Cons.prems by (intro Cons.IH) auto
  also have "(if k \<in> set is then found p k (if i = k then found p k v else v) else (if i = k then found p k v else v)) =
    (if k \<in> set (i # is) then found p k v else v)" by auto
  finally show ?case .
qed simp

lemma del_slots_none:
  assumes "\<forall>i\<in>set is. ldata b ! i \<noteq> d" "\<not> del_found v"
  shows "\<exists>v'. del_slots d p b is v = (v', BLOCK_DEPTH) \<and> \<not> del_found v'"
  using assms by (induction "is" arbitrary: v) (auto simp: Let_def)

lemma del_slots_clear:
  assumes "\<forall>i\<in>set is. used b ! i \<noteq> 0 \<and> ldata b ! i \<noteq> d" "\<not> last_found v"
  shows "del_slots d p b (is @ js) v = del_slots d p b js v"
  using assms by (induction "is") (auto simp: del_slots_step simp del: del_slots.simps)

lemma del_scan_none:
  assumes "bucket h bs cs n" "d \<notin> set cs" "j < length bs" "\<not> del_found v"
  shows "\<exists>v'. del_scan h d (Some (bs ! j)) v = Some v' \<and> \<not> del_found v'"
  using assms
proof (induction "length bs - j" arbitrary: j v)
  case (Suc m)
  let ?b = "block_at bs cs n j"
  have "cs ! (5 * j + i) \<in> set cs" if "i < 5" for i using that bucketD(3) [OF assms(1)] Suc.prems(3) by (intro nth_mem) simp
  then have "\<forall>i\<in>set [0..<BLOCK_DEPTH]. ldata ?b ! i \<noteq> d" using assms(2) by (auto simp: BLOCK_DEPTH_def block_at_nth)
  then obtain v1 where v1: "del_slots d (Some (bs ! j)) ?b [0..<BLOCK_DEPTH] v = (v1, BLOCK_DEPTH)" "\<not> del_found v1"
    using del_slots_none Suc.prems(4) by blast
  have dr: "deref h (Some (bs ! j)) = Some ?b" using bucketD(6) [OF assms(1)] Suc.prems(3) by simp
  show ?case
  proof (cases "Suc j < length bs")
    case True
    then have "del_scan h d (Some (bs ! j)) v = del_scan h d (Some (bs ! Suc j)) (v1\<lparr>temp_p := Some (bs ! j)\<rparr>)"
      using v1 dr by (subst del_scan.simps) (simp add: block_at_def)
    then show ?thesis using Suc.hyps(1) [of "Suc j"] Suc.hyps(2) Suc.prems True v1(2) by simp
  next
    case False
    then show ?thesis using v1 dr by (subst del_scan.simps) (simp add: block_at_def)
  qed
qed simp

text \<open>The variables at the end, when the number is at \<open>q\<close>: the last place that is used, and the place of the number, or the first one that is not used
  if the number is there too.\<close>

definition located :: "nat list \<Rightarrow> nat \<Rightarrow> nat \<Rightarrow> del_vars \<Rightarrow> bool" where
  "located bs n q v \<longleftrightarrow> del_found v \<and> last_found v \<and> last_p v = Some (bs ! ((n - 1) div 5)) \<and> last_n v = (n - 1) mod 5 \<and>
     del_p v = Some (bs ! (q div 5)) \<and> del_n v = q mod 5 \<and> (5 < n \<and> (n - 1) mod 5 = 0 \<longrightarrow> temp_p v = Some (bs ! ((n - 1) div 5 - 1)))"

text \<open>The variables before block \<open>j\<close>.\<close>

definition scanning :: "nat list \<Rightarrow> nat \<Rightarrow> nat \<Rightarrow> del_vars \<Rightarrow> bool" where
  "scanning bs q j v \<longleftrightarrow> \<not> last_found v \<and> (q < 5 * j \<longrightarrow> del_found v \<and> del_p v = Some (bs ! (q div 5)) \<and> del_n v = q mod 5) \<and>
     (0 < j \<longrightarrow> temp_p v = Some (bs ! (j - 1)))"

lemma scanning_found: "scanning bs q j v \<Longrightarrow> 5 * j \<le> q \<Longrightarrow> q < 5 * j + 5 \<Longrightarrow> scanning bs q (Suc j) ((found (Some (bs ! j)) (q - 5 * j) v)\<lparr>temp_p := Some (bs ! j)\<rparr>)"
  by (auto simp: scanning_def found_def le_Suc_ex div_nat_eqI dest!: le_Suc_ex)

text \<open>The places of a block that are used.\<close>

lemma del_slots_prefix:
  assumes "q < n" "\<forall>i<n. cs ! i = d \<longleftrightarrow> i = q" "m = min 5 (n - 5 * j)" "\<not> last_found v"
  shows "del_slots d p (block_at bs cs n j) [0..<5] v =
    del_slots d p (block_at bs cs n j) [m..<5] (if 5 * j \<le> q \<and> q < 5 * j + 5 then found p (q - 5 * j) v else v)"
proof -
  let ?b = "block_at bs cs n j"
  have "[0..<5] = [0..<m] @ [m..<5]" using upt_add_eq_append [of 0 m "5 - m"] assms(3) by simp
  moreover have b: "used ?b ! i \<noteq> 0 \<and> (ldata ?b ! i = d \<longleftrightarrow> 5 * j + i = q)" if "i < m" for i
  proof -
    have "i < 5" "5 * j + i < n" using that assms(3) by auto
    then show ?thesis using assms(2) by (simp add: block_at_nth)
  qed
  moreover have "del_slots d p ?b ([0..<m] @ [m..<5]) v = del_slots d p ?b [m..<5] (found p (q - 5 * j) v)" if "5 * j \<le> q" "q < 5 * j + 5"
  proof -
    have k: "q - 5 * j < m" using that assms(1,3) by auto
    have "\<forall>i\<in>set [0..<m]. used ?b ! i \<noteq> 0 \<and> (ldata ?b ! i = d \<longrightarrow> i = q - 5 * j)" "ldata ?b ! (q - 5 * j) = d" using b b [OF k] that by auto
    note del_slots_used [OF this(1) assms(4) this(2), of p "[m..<5]"]
    also have "(if q - 5 * j \<in> set [0..<m] then found p (q - 5 * j) v else v) = found p (q - 5 * j) v" using k by simp
    finally show ?thesis .
  qed
  moreover have "del_slots d p ?b ([0..<m] @ [m..<5]) v = del_slots d p ?b [m..<5] v" if "\<not> (5 * j \<le> q \<and> q < 5 * j + 5)"
  proof -
    have "\<forall>i\<in>set [0..<m]. used ?b ! i \<noteq> 0 \<and> ldata ?b ! i \<noteq> d" using b that assms(3) by auto
    then show ?thesis using del_slots_clear [of "[0..<m]" ?b d v p "[m..<5]"] assms(4) by blast
  qed
  ultimately show ?thesis by (simp del: del_slots.simps)
qed

lemma scanning_next:
  assumes "scanning bs q j v" "v' = (if 5 * j \<le> q \<and> q < 5 * j + 5 then found (Some (bs ! j)) (q - 5 * j) v else v)"
  shows "scanning bs q (Suc j) (v'\<lparr>temp_p := Some (bs ! j)\<rparr>)" "\<not> last_found v'" "temp_p v' = temp_p v"
    "q < 5 * Suc j \<Longrightarrow> del_found v' \<and> del_p v' = Some (bs ! (q div 5)) \<and> del_n v' = q mod 5"
proof -
  show 1: "scanning bs q (Suc j) (v'\<lparr>temp_p := Some (bs ! j)\<rparr>)"
    using assms scanning_found [OF assms(1)] by (auto simp: scanning_def)
  show "\<not> last_found v'" "temp_p v' = temp_p v" using assms by (auto simp: scanning_def)
  show "q < 5 * Suc j \<Longrightarrow> del_found v' \<and> del_p v' = Some (bs ! (q div 5)) \<and> del_n v' = q mod 5"
    using 1 by (simp add: scanning_def)
qed

lemma del_scan_located:
  assumes "bucket h bs cs n" "q < n" "\<forall>i<n. cs ! i = d \<longleftrightarrow> i = q" "j < length bs" "5 * j < n" "scanning bs q j v"
  shows "\<exists>v'. del_scan h d (Some (bs ! j)) v = Some v' \<and> located bs n (if n < length cs \<and> cs ! n = d then n else q) v'"
  using assms(4-6)
proof (induction "length bs - j" arbitrary: j v)
  case (Suc x)
  note b = bucketD [OF assms(1)]
  let ?b = "block_at bs cs n j" and ?p = "Some (bs ! j)" and ?m = "min 5 (n - 5 * j)"
  define v1 where "v1 = (if 5 * j \<le> q \<and> q < 5 * j + 5 then found ?p (q - 5 * j) v else v)"
  note v1 = scanning_next [OF Suc.prems(3) v1_def]
  have "\<not> last_found v" using Suc.prems(3) by (simp add: scanning_def)
  then have ds: "del_slots d ?p ?b [0..<5] v = del_slots d ?p ?b [?m..<5] v1"
    using del_slots_prefix [OF assms(2,3), of ?m j v ?p bs] by (simp add: v1_def)
  have dr: "deref h ?p = Some ?b" using b(6) Suc.prems(1) by simp
  show ?case
  proof (cases "n < 5 * j + 5")
    case False
    then have ds5: "del_slots d ?p ?b [0..<5] v = (v1, 5)" using ds by (simp add: BLOCK_DEPTH_def)
    show ?thesis
    proof (cases "Suc j < length bs")
      case True
      then have "del_scan h d ?p v = del_scan h d (Some (bs ! Suc j)) (v1\<lparr>temp_p := ?p\<rparr>)"
        using ds5 dr by (subst del_scan.simps) (simp add: BLOCK_DEPTH_def block_at_def)
      then show ?thesis using Suc.hyps(1) [of "Suc j"] Suc.hyps(2) True bucket_full [OF assms(1) True] v1(1) by simp
    next
      case last: False
      then have n: "n = 5 * j + 5" "n = length cs" using False b(3,4) Suc.prems(1) by auto
      have "del_scan h d ?p v = Some (v1\<lparr>temp_p := ?p, last_n := 4, last_p := ?p, last_found := True\<rparr>)"
        using ds5 dr last by (subst del_scan.simps) (simp add: BLOCK_DEPTH_def block_at_def)
      then show ?thesis using v1(4) n assms(2) by (simp add: located_def)
    qed
  next
    case True
    let ?k = "n - 5 * j"
    have k: "?m = ?k" "0 < ?k" "?k < 5" "5 * j + ?k = n" "(n - 1) div 5 = j" "(n - 1) mod 5 = ?k - 1" "n div 5 = j" "n mod 5 = ?k"
      using True Suc.prems(2) by (auto simp: div_nat_eqI mod_nat_eqI mod_eq_nat1E)
    define v2 where "v2 = (if cs ! n = d then found ?p ?k v1 else v1)"
    have "Suc j = length bs" using bucket_full [OF assms(1), of j] True Suc.prems(1) by force
    then have len: "n < length cs" using True b(3) by simp
    have v2: "del_found v2" "temp_p v2 = temp_p v" "del_p v2 = Some (bs ! ((if cs ! n = d then n else q) div 5))"
      "del_n v2 = (if cs ! n = d then n else q) mod 5"
      using v1(3,4) assms(2) True k by (auto simp: v2_def)
    have "used ?b ! ?k = 0" "ldata ?b ! ?k = cs ! n" using k by (simp_all add: block_at_nth)
    then have "del_slots d ?p ?b [?k..<5] v1 = (v2\<lparr>last_n := ?k - 1, last_p := ?p, last_found := True\<rparr>, ?k)"
      using k(2,3) v2(1) by (auto simp: upt_rec [of ?k] v2_def found_def Let_def)
    then have "del_scan h d ?p v = Some (v2\<lparr>last_n := ?k - 1, last_p := ?p, last_found := True\<rparr>)"
      using ds dr k(1,3) by (subst del_scan.simps) (simp add: BLOCK_DEPTH_def)
    moreover have "temp_p v = Some (bs ! (j - 1))" if "5 < n" using that Suc.prems(3) True by (auto simp: scanning_def)
    ultimately show ?thesis using v2 len k by (simp add: located_def)
  qed
qed simp

section \<open>Deleting\<close>

text \<open>A block that became empty is unlinked and freed.\<close>

lemma bucket_shrink:
  assumes "bucket h bs cs (Suc n)" "n = 5 * Suc j" "Suc (Suc j) = length bs"
  shows "bucket (((h[bs ! Suc j := x])[bs ! j := Some ((block_at bs cs (Suc n) j)\<lparr>lnext := None\<rparr>)])[bs ! Suc j := None]) (butlast bs) (take n cs) n"
  unfolding bucket_def
proof (intro conjI allI impI)
  have "length (butlast bs) = Suc j" using assms(3) by simp
  then show "butlast bs \<noteq> []" by force
next
  note b = bucketD [OF assms(1)]
  fix i assume "i < length (butlast bs)"
  then have i: "i < Suc j" using assms(3) by simp
  then have ne: "bs ! i \<noteq> bs ! Suc j" "bs ! i = bs ! j \<longleftrightarrow> i = j" using b(2) assms(3) by (simp_all add: nth_eq_iff_index_eq)
  have "block_at (butlast bs) (take n cs) n i = (block_at bs cs (Suc n) i)\<lparr>lnext := (if i = j then None else lnext (block_at bs cs (Suc n) i))\<rparr>"
    using i assms(2,3) b(3) by (auto simp: block_at_def nth_butlast)
  then show "deref (((h[bs ! Suc j := x])[bs ! j := Some ((block_at bs cs (Suc n) j)\<lparr>lnext := None\<rparr>)])[bs ! Suc j := None]) (Some (butlast bs ! i)) =
      Some (block_at (butlast bs) (take n cs) n i)"
    using ne i assms(3) b(6) [of i] b(7) [of j] by (auto simp: heap_simps nth_butlast)
qed (use bucketD(1-5) [OF assms(1)] assms(2,3) in \<open>auto simp: distinct_butlast\<close>)

lemma last_block:
  assumes "bucket h bs cs n" "0 < n"
  shows "Suc ((n - 1) div 5) = length bs"
proof -
  have "5 * (length bs - 1) \<le> n - 1" "n - 1 < 5 * (length bs - 1) + 5" using bucketD(1,3-5) [OF assms(1)] assms(2) by (cases bs; auto)+
  then have "(n - 1) div 5 = length bs - 1" by (intro div_nat_eqI) auto
  then show ?thesis using bucketD(1) [OF assms(1)] by simp
qed

text \<open>The last two stores of \<open>del_elem\<close>, at the place behind \<open>n\<close>.\<close>

definition drop_last :: "list_t heap \<Rightarrow> nat \<Rightarrow> del_vars \<Rightarrow> list_t heap option" where
  "drop_last h a v = do {
     h \<leftarrow> store h (last_p v) (\<lambda>b. b\<lparr>used := (used b)[last_n v := 0]\<rparr>);
     if last_n v = 0 \<and> last_p v \<noteq> Some a
     then do { h \<leftarrow> store h (temp_p v) (\<lambda>b. b\<lparr>lnext := None\<rparr>); release h (last_p v) }
     else Some h }"

lemma drop_last_ok:
  assumes "bucket h bs cs (Suc n)" "located bs (Suc n) q v"
  shows "\<exists>h' bs' cs'. drop_last h (bs ! 0) v = Some h' \<and> bucket h' bs' cs' n \<and> take n cs' = take n cs \<and> hd bs' = hd bs \<and> frame h bs h'"
proof -
  note b = bucketD [OF assms(1)]
  let ?j = "n div 5" and ?k = "n mod 5"
  have v: "last_p v = Some (bs ! ?j)" "last_n v = ?k" "5 < Suc n \<and> ?k = 0 \<longrightarrow> temp_p v = Some (bs ! (?j - 1))" using assms(2) by (auto simp: located_def)
  have k: "n = 5 * ?j + ?k" "?k < 5" by simp_all
  have j: "Suc ?j = length bs" using last_block [OF assms(1)] by simp
  let ?h = "h[bs ! ?j := Some (block_at bs cs n ?j)]"
  have st: "store h (last_p v) (\<lambda>b. b\<lparr>used := (used b)[last_n v := 0]\<rparr>) = Some ?h"
    using b(6) [of ?j] j block_at_use(2) [OF k, of bs cs] by (simp add: v store_some)
  show ?thesis
  proof (cases "0 < ?k \<or> ?j = 0")
    case True
    then have "\<not> (last_n v = 0 \<and> last_p v \<noteq> Some (bs ! 0))" using v by auto
    then have "drop_last h (bs ! 0) v = Some ?h" using st by (auto simp: drop_last_def)
    moreover have "frame h bs ?h" using j by (intro frame_simps nth_mem) simp
    ultimately show ?thesis using bucket_unuse [OF assms(1) k j True] by blast
  next
    case False
    then obtain i where i: "?j = Suc i" "?k = 0" "n = 5 * Suc i" using k(1) by (cases ?j) auto
    let ?h' = "(?h[bs ! i := Some ((block_at bs cs (Suc n) i)\<lparr>lnext := None\<rparr>)])[bs ! ?j := None]"
    have ne: "bs ! ?j \<noteq> bs ! 0" "bs ! ?j \<noteq> bs ! i" using b(1,2) i j by (simp_all add: nth_eq_iff_index_eq)
    have "deref ?h (Some (bs ! i)) = Some (block_at bs cs (Suc n) i)" "bs ! ?j < length h" using ne b(6) [of i] b(7) [of ?j] i j by (simp_all add: heap_simps)
    then have "drop_last h (bs ! 0) v = Some ?h'"
      using st v i ne by (simp add: drop_last_def store_some release_def heap_simps)
    moreover have "frame h bs ?h'" using i j by (intro frame_simps nth_mem) simp_all
    moreover have "bucket ?h' (butlast bs) (take n cs) n" using bucket_shrink [OF assms(1) i(3)] i j by simp
    moreover have "hd (butlast bs) = hd bs" using i j by (cases bs rule: rev_cases) (auto simp: hd_append)
    ultimately show ?thesis by (intro exI [of _ ?h'] exI [of _ "butlast bs"] exI [of _ "take n cs"]) simp
  qed
qed

lemma del_elem_found:
  assumes b: "bucket h bs cs n" and q: "q < n" "\<forall>i<n. cs ! i = d \<longleftrightarrow> i = q" and a: "elem_at p e = Some (bs ! 0)"
    and q': "q' = (if n < length cs \<and> cs ! n = d then n else q)"
  shows "\<exists>h' bs' cs'. del_elem h p e d = Some (h', 0) \<and> bucket h' bs' cs' (n - 1) \<and> take (n - 1) cs' = take (n - 1) (cs[q' := cs ! (n - 1)]) \<and>
    hd bs' = hd bs \<and> frame h bs h'"
proof -
  let ?v = "\<lparr>last_p = None, del_p = None, temp_p = Some (bs ! 0), last_n = 0, del_n = 0, del_found = False, last_found = False\<rparr>"
  obtain v where v: "del_scan h d (Some (bs ! 0)) ?v = Some v" "located bs n q' v"
    using del_scan_located [OF b q, of 0 ?v] bucketD(1) [OF b] q(1) q' by (auto simp: scanning_def)
  let ?j = "(n - 1) div 5" and ?k = "(n - 1) mod 5" and ?cs = "cs[q' := cs ! (n - 1)]"
  have lt: "q' div 5 < length bs" using q' q(1) bucketD(3,4) [OF b] by (simp add: less_mult_imp_div_less mult.commute)
  have "deref h (last_p v) = Some (block_at bs cs n ?j)" "ldata (block_at bs cs n ?j) ! last_n v = cs ! (n - 1)"
    using v(2) bucketD(6) [OF b, of ?j] last_block [OF b] q(1) by (simp_all add: located_def block_at_nth)
  moreover have wr: "bucket (h[bs ! (q' div 5) := Some (block_at bs ?cs n (q' div 5))]) bs ?cs n" (is "bucket ?h _ _ _")
    using bucket_write [OF b lt, of "q' mod 5" "cs ! (n - 1)"] by simp
  moreover have "store h (del_p v) (\<lambda>b. b\<lparr>ldata := (ldata b)[del_n v := cs ! (n - 1)]\<rparr>) = Some ?h"
    using v(2) bucketD(6) [OF b lt] block_at_set [OF bucketD(3) [OF b] _ lt, of "q' mod 5"] by (simp add: located_def store_some)
  ultimately have "del_elem h p e d = do { h \<leftarrow> drop_last ?h (bs ! 0) v; Some (h, 0) }"
    using v a by (auto simp: del_elem_def drop_last_def located_def split: bind_splits)
  moreover have "frame h bs ?h" using lt by (intro frame_simps nth_mem)
  moreover obtain h' bs' cs' where "drop_last ?h (bs ! 0) v = Some h'" "bucket h' bs' cs' (n - 1)" "take (n - 1) cs' = take (n - 1) ?cs" "hd bs' = hd bs" "frame ?h bs h'"
    using drop_last_ok [of ?h bs ?cs "n - 1" q' v] wr v(2) q(1) by auto
  ultimately show ?thesis by (intro exI [of _ h'] exI [of _ bs'] exI [of _ cs']) (auto simp: frame_def)
qed

section \<open>Showing\<close>

lemma show_slots_eq:
  assumes "i \<le> m" "m = min 5 (n - 5 * j)"
  shows "show_slots (block_at bs cs n j) [i..<5] = (map (\<lambda>k. (k, cs ! (5 * j + k))) [i..<m], m)"
  using assms(1)
proof (induction "5 - i" arbitrary: i)
  case 0
  then show ?case using assms(2) by (simp add: BLOCK_DEPTH_def)
next
  case (Suc x)
  show ?case
  proof (cases "i < m")
    case True
    then have "5 * j + i < n" "i < 5" using assms(2) by auto
    then show ?thesis using Suc.hyps(1) [of "Suc i"] Suc.hyps(2) True by (simp add: upt_rec [of i] block_at_nth)
  next
    case False
    then have "i = m" "\<not> 5 * j + i < n" "i < 5" using Suc assms(2) by auto
    then show ?thesis by (simp add: upt_rec [of m] block_at_nth)
  qed
qed

lemma drop_block: "5 * j + m \<le> length xs \<Longrightarrow> drop (5 * j) xs = map (\<lambda>k. xs ! (5 * j + k)) [0..<m] @ drop (5 * j + m) xs"
  by (rule nth_equalityI) (auto simp: nth_append)

lemma show_loop_ok:
  assumes "bucket h bs cs n" "j < length bs"
  shows "\<exists>out. show_loop h (Some (bs ! j)) = Some out \<and> map snd (concat out) = drop (5 * j) (take n cs)"
  using assms(2)
proof (induction "length bs - j" arbitrary: j)
  case (Suc x)
  note b = bucketD [OF assms(1)]
  let ?b = "block_at bs cs n j" and ?m = "min 5 (n - 5 * j)"
  let ?out = "map (\<lambda>k. (k, cs ! (5 * j + k))) [0..<?m]"
  have ss: "show_slots ?b [0..<5] = (?out, ?m)" using show_slots_eq [of 0 ?m n j bs cs] by simp
  have dr: "deref h (Some (bs ! j)) = Some ?b" using b(6) Suc.prems by simp
  have le: "5 * j \<le> n" using b(5) Suc.prems by auto
  then have "5 * j + ?m \<le> length (take n cs)" using b(4) by simp
  then have out: "drop (5 * j) (take n cs) = map snd ?out @ drop (5 * j + ?m) (take n cs)"
    using drop_block [of j ?m "take n cs"] le by (auto simp: comp_def)
  show ?case
  proof (cases "Suc j < length bs")
    case True
    then have m: "?m = 5" using bucket_full [OF assms(1) True] by simp
    obtain rest where r: "show_loop h (Some (bs ! Suc j)) = Some rest" "map snd (concat rest) = drop (5 * Suc j) (take n cs)"
      using Suc.hyps(1) [OF _ True] Suc.hyps(2) by (metis Suc_diff_Suc Suc.prems nat.inject)
    have "show_loop h (Some (bs ! j)) = Some (?out # rest)"
      using ss dr r(1) True m by (subst show_loop.simps) (simp add: BLOCK_DEPTH_def block_at_def)
    then show ?thesis using out r(2) m by (simp add: add.commute)
  next
    case False
    then have "show_loop h (Some (bs ! j)) = Some [?out]"
      using ss dr by (subst show_loop.simps) (simp add: BLOCK_DEPTH_def block_at_def)
    moreover have "drop (5 * j + ?m) (take n cs) = []" using False b(3,4) le Suc.prems by auto
    ultimately show ?thesis using out by simp
  qed
qed simp

section \<open>The claims\<close>

text \<open>A bucket holds the numbers \<open>xs\<close>; \<open>ys\<close> are in the places of its last block that are not used. It is the bucket of the element at \<open>a\<close> of the array.\<close>

definition holds_list :: "list_t heap \<Rightarrow> nat list \<Rightarrow> int list \<Rightarrow> int list \<Rightarrow> bool" where
  "holds_list h bs xs ys \<longleftrightarrow> bucket h bs (xs @ ys) (length xs) \<and> distinct xs"

text \<open>The last number takes the place of the one that is deleted.\<close>

definition delete_number :: "int \<Rightarrow> int list \<Rightarrow> int list" where
  "delete_number d xs = butlast (map (\<lambda>x. if x = d then last xs else x) xs)"

lemma set_delete_number:
  assumes "distinct xs" "d \<in> set xs"
  shows "set (delete_number d xs) = set xs - {d}" "distinct (delete_number d xs)"
proof -
  obtain us vs where xs: "xs = us @ d # vs" "d \<notin> set us" "d \<notin> set vs" "distinct us" "distinct vs" "set us \<inter> set vs = {}"
    using split_list [OF assms(2)] assms(1) by auto
  have "map (\<lambda>x. if x = d then l else x) zs = zs" if "d \<notin> set zs" for l zs using that by (induction zs) auto
  then have "delete_number d xs = (if vs = [] then us else us @ last vs # butlast vs)"
    using xs(2,3) by (simp add: delete_number_def xs(1) butlast_append)
  moreover have "set (last vs # butlast vs) = set vs" "distinct (last vs # butlast vs)" if "vs \<noteq> []"
    using xs(5) append_butlast_last_id [OF that] by (metis distinct1_rotate rotate1.simps(2) set_rotate1, metis distinct1_rotate rotate1.simps(2))
  ultimately show "set (delete_number d xs) = set xs - {d}" "distinct (delete_number d xs)" using xs by auto
qed

lemma elem_hd: "bs \<noteq> [] \<Longrightarrow> hd bs = bs ! 0"
  by (simp add: hd_conv_nth)

lemma add_elem_refines:
  assumes "holds_list h bs xs ys" "elem_at p e = Some (hd bs)"
  shows "\<exists>h' bs' ys'. add_elem True h p e d = Some (h', if d \<in> set xs then 2 else 0) \<and>
    holds_list h' bs' (if d \<in> set xs then xs else xs @ [d]) ys' \<and> hd bs' = hd bs \<and> frame h bs h'"
proof -
  have b: "bucket h bs (xs @ ys) (length xs)" "distinct xs" using assms(1) by (simp_all add: holds_list_def)
  have a: "add_elem True h p e d = add_loop True h (Some (bs ! 0)) d" using assms(2) bucketD(1) [OF b(1)] by (simp add: add_elem_def elem_hd)
  have mem: "(\<exists>k. 5 * 0 \<le> k \<and> k < length xs \<and> (xs @ ys) ! k = d) \<longleftrightarrow> d \<in> set xs" by (auto simp: in_set_conv_nth nth_append)
  note l = add_loop_ok [OF b(1), of 0 d, unfolded mem]
  show ?thesis
  proof (cases "d \<in> set xs")
    case True
    then show ?thesis using l a bucketD(1) [OF b(1)] assms(1) by (auto intro: frame_simps(1))
  next
    case False
    then obtain h' where h': "add_loop True h (Some (bs ! 0)) d = Some (h', 0)" "frame h bs h'"
      "if length xs < length (xs @ ys) then bucket h' bs ((xs @ ys)[length xs := d]) (Suc (length xs))
       else bucket h' (bs @ [length h]) ((xs @ ys) @ [d, 0, 0, 0, 0]) (Suc (length xs))"
      using l bucketD(1) [OF b(1)] by auto
    have "\<exists>bs' ys'. holds_list h' bs' (xs @ [d]) ys' \<and> hd bs' = hd bs"
    proof (cases ys)
      case Nil
      then show ?thesis using h'(3) b(2) False bucketD(1) [OF b(1)]
        by (intro exI [of _ "bs @ [length h]"] exI [of _ "[0, 0, 0, 0]"]) (simp add: holds_list_def)
    next
      case (Cons y zs)
      then show ?thesis using h'(3) b(2) False by (intro exI [of _ bs] exI [of _ zs]) (simp add: holds_list_def)
    qed
    then show ?thesis using h'(1,2) a False by auto
  qed
qed

lemma del_elem_refines:
  assumes "holds_list h bs xs ys" "elem_at p e = Some (hd bs)" "d \<in> set xs"
  shows "\<exists>h' bs' ys'. del_elem h p e d = Some (h', 0) \<and>
    holds_list h' bs' (if ys \<noteq> [] \<and> hd ys = d then butlast xs else delete_number d xs) ys' \<and> hd bs' = hd bs \<and> frame h bs h'"
proof -
  have b: "bucket h bs (xs @ ys) (length xs)" "distinct xs" using assms(1) by (simp_all add: holds_list_def)
  obtain q where q: "q < length xs" "xs ! q = d" using assms(3) by (auto simp: in_set_conv_nth)
  have only: "\<forall>i<length xs. (xs @ ys) ! i = d \<longleftrightarrow> i = q" using q b(2) by (auto simp: nth_append nth_eq_iff_index_eq)
  have e: "elem_at p e = Some (bs ! 0)" using assms(2) bucketD(1) [OF b(1)] by (simp add: elem_hd)
  let ?stale = "ys \<noteq> [] \<and> hd ys = d"
  have stale: "length xs < length (xs @ ys) \<and> (xs @ ys) ! length xs = d \<longleftrightarrow> ?stale" by (cases ys) auto
  obtain h' bs' cs' where h': "del_elem h p e d = Some (h', 0)" "bucket h' bs' cs' (length xs - 1)"
    "take (length xs - 1) cs' = take (length xs - 1) ((xs @ ys)[if ?stale then length xs else q := (xs @ ys) ! (length xs - 1)])" "hd bs' = hd bs" "frame h bs h'"
    using del_elem_found [OF b(1) q(1) only e refl] unfolding stale by blast
  have "map (\<lambda>x. if x = d then last xs else x) xs = xs[q := last xs]"
    using q b(2) by (auto simp: nth_list_update nth_eq_iff_index_eq intro!: nth_equalityI)
  moreover have "(xs @ ys) ! (length xs - 1) = last xs"
    using q(1) last_conv_nth [of xs] by (cases "xs = []") (simp_all add: nth_append)
  ultimately have contents: "take (length xs - 1) cs' = (if ?stale then butlast xs else delete_number d xs)"
    using h'(3) q(1) by (auto simp: delete_number_def butlast_conv_take list_update_append take_update_cancel)
  have "distinct (if ?stale then butlast xs else delete_number d xs)" using set_delete_number [OF b(2) assms(3)] b(2) by (simp add: distinct_butlast)
  moreover have "bucket h' bs' (take (length xs - 1) cs' @ drop (length xs - 1) cs') (length (take (length xs - 1) cs'))"
    using h'(2) bucketD(4) [OF h'(2)] by (simp add: min_absorb2)
  ultimately have "holds_list h' bs' (if ?stale then butlast xs else delete_number d xs) (drop (length xs - 1) cs')"
    unfolding holds_list_def contents by (rule conjI [rotated])
  then show ?thesis using h'(1,4,5) by blast
qed

text \<open>C32: a bucket implements a list of distinct numbers, in blocks of five. \<open>add_elem\<close> appends a number, or returns 2 if it is there;
  \<open>show_elem\<close> prints the list. \<open>del_elem\<close> puts the last number in the place of the one that it deletes, and returns 1 if there is nothing to delete;
  but it also looks at places that are no longer used: if the first of them holds the number, then the last one is deleted instead. Other
  buckets stay as they are, and blocks are linked and freed as the list grows and shrinks.\<close>

theorem array_list_refines:
  assumes "holds_list h bs xs ys" "elem_at p e = Some (hd bs)"
  shows "(\<exists>out. show_elem h p e = Some out \<and> map snd (concat out) = xs) \<and>
    (\<exists>h' bs' ys'. add_elem True h p e d = Some (h', if d \<in> set xs then 2 else 0) \<and>
      holds_list h' bs' (if d \<in> set xs then xs else xs @ [d]) ys' \<and> hd bs' = hd bs \<and> frame h bs h') \<and>
    (d \<in> set xs \<longrightarrow> (\<exists>h' bs' ys'. del_elem h p e d = Some (h', 0) \<and>
      holds_list h' bs' (if ys \<noteq> [] \<and> hd ys = d then butlast xs else delete_number d xs) ys' \<and> hd bs' = hd bs \<and> frame h bs h')) \<and>
    (d \<notin> set xs \<union> set ys \<longrightarrow> del_elem h p e d = Some (h, 1))"
proof (intro conjI impI)
  have b: "bucket h bs (xs @ ys) (length xs)" "bs \<noteq> []" using assms(1) bucketD(1) by (auto simp: holds_list_def)
  show "\<exists>out. show_elem h p e = Some out \<and> map snd (concat out) = xs"
    using show_loop_ok [OF b(1), of 0] b(2) assms(2) by (simp add: show_elem_def elem_hd)
  show "del_elem h p e d = Some (h, 1)" if d: "d \<notin> set xs \<union> set ys"
  proof -
    let ?v = "\<lparr>last_p = None, del_p = None, temp_p = Some (hd bs), last_n = 0, del_n = 0, del_found = False, last_found = False\<rparr>"
    obtain v where "del_scan h d (Some (hd bs)) ?v = Some v" "\<not> del_found v"
      using del_scan_none [OF b(1), of d 0 ?v] d b(2) by (auto simp: elem_hd)
    then show ?thesis using assms(2) by (simp add: del_elem_def)
  qed
qed (fact add_elem_refines [OF assms] del_elem_refines [OF assms])+

text \<open>The bucket with 9 and 8 that is left after 7 was deleted from 7, 8, 9: the number 9 cannot be deleted.\<close>

definition demo_heap :: "list_t heap" where
  "demo_heap = [Some \<lparr>lnext = None, used = [1, 1, 0, 0, 0], ldata = [9, 8, 9, 0, 0]\<rparr>]"

lemma demo_heap_reached: "do { (h, p) \<leftarrow> init_array_list True [] 1; (h, _) \<leftarrow> add_numbers True h p [7, 8, 9]; del_elem h p 0 7 } = Some (demo_heap, 0)"
  by code_simp

theorem array_list_refines_witness:
  "\<exists>h' bs' ys'. del_elem demo_heap \<lparr>addr = 0, elems = 1\<rparr> 0 9 = Some (h', 0) \<and> holds_list h' bs' [9] ys'"
proof -
  have "holds_list demo_heap [0] [9, 8] [9, 0, 0]"
    by (simp add: holds_list_def bucket_def demo_heap_def deref_Some block_at_def upt_rec)
  moreover have "elem_at \<lparr>addr = 0, elems = 1\<rparr> 0 = Some (hd [0])" by (simp add: elem_at_def)
  ultimately show ?thesis using array_list_refines [of demo_heap "[0]" "[9, 8]" "[9, 0, 0]" "\<lparr>addr = 0, elems = 1\<rparr>" 0 9] by auto
qed

text \<open>The demonstration deletes what it has added, and frees every block.\<close>

lemma array_list_main_frees: "array_list_main True = Some (0, [[]], replicate 9 None)"
  by code_simp

end
