(* ===== verification/Spec2Isabelle.thy ===== *)
theory Spec2Isabelle
  imports Threadpool_Correct Des_Hash Quic_Correct Regex_Correct Brainfuck_List Aho_Life Kmp Dllist_Correct Regex_Bounded Nfa2dfa_Correct Brainfuck1 Array_List_Correct
begin

text \<open>
  A verification library for the C programs of this repository. The repository is a collection: its programs
  do not call each other. Ten of them carry logic of their own and are modelled here, each by a group of
  theories; they share \<open>Prelude\<close> (C types as words, pointers as options, bytes and the numbers they denote,
  lists and indices) and, where objects are freed, \<open>Heap\<close>.

  \<^bold>\<open>Conventions.\<close> A \<open>struct\<close> is a \<open>record\<close>, a pointer an \<open>option\<close> of an index into a heap, an integer a word of its
  width where it can wrap around, and a natural number or an \<open>int\<close> where an invariant or an explicit test
  keeps it in range. A function that may have undefined behaviour (an access through a null or dangling pointer,
  beyond an array, the overflow of a signed integer) or may not return gives \<open>None\<close> in that case, or a fault of a result
  type, so that a theorem that it gives a result says that neither happens. Loops are recursive functions; those whose
  end depends on the data are \<open>partial_function (option)\<close>, and no loop of a model has a bound that the code does not
  have. Code that is not in the repository is a parameter: the results of the pthread calls and of \<open>malloc\<close>, the
  functions of libgcrypt, the order of addresses and the result of \<open>qsort\<close>, the contents of fresh memory.

  \<^bold>\<open>Thread pool\<close> (\<open>c-study/cthreadpool/threadpool.c\<close>).
  \<^item> \<open>Threadpool_Queue\<close>: the ring buffer \<open>struct threadpool_queue\<close> and its operations, which implement the interface of
    a bounded queue.
  \<^item> \<open>Threadpool\<close>: \<open>struct threadpool\<close>, and each function as the steps of a thread between two calls into pthread; the
    return codes of these calls are inputs. \<open>Threadpool_Init\<close>: \<open>threadpool_init\<close> and its loops.
  \<^item> \<open>Threadpool_Safety\<close>, \<open>Threadpool_Wakeup\<close>: invariants of all interleavings by rule induction.
  \<^item> \<open>Threadpool_Correct\<close>: mutual exclusion, that no task is in two places, order of execution, no lost wakeup, the pool
    is freed after its workers have left, initialisation and its overflow, the task that is lost (C1 to C8).

  \<^bold>\<open>DES\<close> (\<open>c-study/des/des.c\<close>).
  \<^item> \<open>Des\<close>: the tables, macros and functions on byte arrays, loop by loop; \<open>Des_Bits\<close>, \<open>Des_Correct\<close>: what they do to bits.
  \<^item> \<open>Des_Spec\<close>: FIPS PUB 46-3 on lists of bits, and Feistel networks as a locale.
  \<^item> \<open>Des_Hash\<close>: \<open>auth_DEShash\<close> is the standard, can be deciphered, and writes nothing else (C10, C11); the keys.

  \<^bold>\<open>QUIC packets\<close> (\<open>c-study/quic/iquic.c\<close>, \<open>iquic.h\<close>).
  \<^item> \<open>Quic\<close>: versions, byte order, variable-length integers; \<open>Quic_Crypt\<close>: HKDF, labels, ciphers, header protection,
    decryption, with an account of the blocks that are allocated.
  \<^item> \<open>Quic_Len\<close>, \<open>Quic_Hkdf\<close>: integers as in RFC 9000, key derivation as in RFC 5869 and RFC 8446.
  \<^item> \<open>Quic_Correct\<close>: round trips, nonces, decryption on every path, and the errors (C14, C16 to C20).

  \<^bold>\<open>Regular expressions\<close> (\<open>c-study/dfa-about/nfa.c\<close>, \<open>dfa.c\<close>, \<open>bounded-mem-dfa.c\<close>).
  \<^item> \<open>Regex\<close>: \<open>re2post\<close> and \<open>post2nfa\<close> on a heap of states; \<open>Regex_Sim\<close>: the simulation; \<open>Regex_Dfa\<close>: the cache of state lists.
  \<^item> \<open>Regex_Post\<close>, \<open>Regex_Heap\<close>, \<open>Regex_Nfa\<close>, \<open>Regex_Build\<close>, \<open>Regex_Post2nfa\<close>: the grammar and its languages, the lists
    threaded through unset fields, and the construction fragment by fragment.
  \<^item> \<open>Regex_Correct\<close>: both programs accept the language of the expression and agree; bounds, and the expression that
    breaks \<open>post2nfa\<close> (C23, C24, C26, C27).
  \<^item> \<open>Regex_Bounded\<close>: the cache that is thrown away when it is full, with its free list; the same strings are printed, and the
    number of allocated \<open>DState\<close>s is bounded (C15).

  \<^bold>\<open>Subset construction\<close> (\<open>c-study/dfa-about/nfa2dfa.c\<close>).
  \<^item> \<open>Nfa2dfa\<close>: the graph with its edges on a heap, the matrix of sets of states, every function of the file, and \<open>main\<close>; what \<open>scanf\<close>
    delivers are arguments.
  \<^item> \<open>Nfa2dfa_Sort\<close>: \<open>BubbleSort\<close> sorts; \<open>Nfa2dfa_Sets\<close>: arrays of names as sets of states, moves and
    closures.
  \<^item> \<open>Nfa2dfa_Correct\<close>: \<open>NFA_to_DFA\<close> implements the construction on sets, with the lookup in its table as the code has it (C33); when
    the table is overrun (C9).

  \<^bold>\<open>Brainfuck\<close> (\<open>c-study/brainfuck/brainfuck.c\<close>, \<open>main.c\<close>, \<open>brainfuck1.c\<close>).
  \<^item> \<open>Brainfuck\<close>: the parsers for strings and files, the interpreter and the list of instructions in a heap.
  \<^item> \<open>Brainfuck_Parse\<close>: both parsers as instances of one interface; \<open>Brainfuck_Exec\<close>: the semantics of the language, with
    fuel on the side of the specification only; a result is a result for some fuel.
  \<^item> \<open>Brainfuck_Correct\<close>, \<open>Brainfuck_List\<close>: runs, memory, and the operations on the list (C28 to C31).
  \<^item> \<open>Brainfuck1\<close>: the second interpreter as a machine with three segments; it keeps its types (C21), and what its two commands
    for loops do (C25).

  \<^bold>\<open>Aho-Corasick\<close> (\<open>c-study/str_match/AC-alg/AhoCorasick\<close>).
  \<^item> \<open>Aho_Queue\<close> (\<open>aho_queue.c\<close>): the queue, which is a stack, as an instance of the interface of a work list; the interface
    gives the traversal that the loops over the trie share (C34).
  \<^item> \<open>Aho_Trie\<close> (\<open>aho_trie.c\<close>) and \<open>Aho\<close> (\<open>ahocorasick.c\<close>): trie, links, texts and search.
  \<^item> \<open>Aho_Words\<close>: longest suffixes; \<open>Aho_Rep\<close>, \<open>Aho_Build\<close>: the words of the nodes; \<open>Aho_Walk\<close>: the traversals; \<open>Aho_Links\<close>,
    \<open>Aho_Find\<close>: the links and what following a character does.
  \<^item> \<open>Aho_Correct\<close>, \<open>Aho_Safe\<close>: the trie holds the texts; the search is correct where suffixes of texts are also prefixes of
    the same text, and safe always (C35 to C37).
  \<^item> \<open>Aho_Life\<close>, \<open>Aho_Texts\<close>: a wrong match, everything is freed, and the list of texts (C38 to C40).

  \<^bold>\<open>String search and lists.\<close>
  \<^item> \<open>Kmp\<close> (\<open>c-study/str_match/kmp/kmp_test.c\<close>): the table of borders and the search, which finds the first occurrence (C12). The
    borders are the longest suffixes of \<open>Aho_Words\<close>.
  \<^item> \<open>Dlinks\<close>: doubly linked nodes as an interface, and when updates of the links insert or remove a node; \<open>Dllist\<close>
    (\<open>c-study/dllist/list_01/list.c\<close>): the operations of the list on a heap; \<open>Dllist_Correct\<close>: those that implement a sequence
    (C13), and those that do not do what they are called (C22).
  \<^item> \<open>Array_List\<close> (\<open>c-study/array-list/array_list.c\<close>): buckets of linked blocks of five numbers; \<open>Array_List_Correct\<close>: they implement lists of distinct
    numbers, and what deleting does with numbers that are no longer there (C32).

  \<^bold>\<open>Bounds.\<close> The counter of the Aho-Corasick queue and the indices of a search are 32-bit integers; the theorems ask for
  fewer than \<open>2 ^ 32\<close> nodes and for data of at most \<open>INT_MAX\<close> bytes, beyond which the code wraps around or is undefined.
  A program for the Brainfuck interpreter has to be short enough for its indices, and a thread pool to have at most 65535
  threads; what happens beyond is stated too. A linked list has fewer than \<open>INT_MAX\<close> nodes, so that its length can be counted. An automaton
  for the subset construction has at most nine states, so that a set with its NUL fits the arrays of ten.

  \<^bold>\<open>Not modelled.\<close> The other exercises on lists and
  algorithms; code that was generated (yacc, lex) or comes from elsewhere (DPDK, acism, kernel lists, the pl2303 driver);
  programs that consist of input and output or of calls into the kernel (sockets, drivers, eBPF, libevent); floating-point
  programs; scripts, configuration and documents. Of the modelled programs: messages on \<open>stderr\<close>, option parsing and the console of the
  Brainfuck interpreter, \<open>brainfuck_destroy_context\<close>, which only frees, and the demonstration programs.
\<close>

end
